(* ===== verification/Prelude.thy ===== *)
theory Prelude
  imports Main "HOL-Library.Word" "HOL-Library.List_Lexorder"
begin

unbundle bit_operations_syntax

text \<open>
  What every component shares: Go's values (bytes, strings, errors), the outcome of a call,
  \<^verbatim>\<open>bytes.Compare\<close>, the fixed-width byte orders of \<^verbatim>\<open>encoding/binary\<close>, decimal
  printing, and generic lemmas on sorted lists.  The collections \<open>outcome_simps\<close> (calls and
  their sequencing), \<open>codec_simps\<close> (byte encodings) and \<open>sorted_simps\<close> (strictly sorted key
  lists) carry the component proofs.
\<close>

named_theorems outcome_simps
named_theorems codec_simps
named_theorems sorted_simps

section \<open>Bytes and strings\<close>

type_synonym byte = "8 word"
type_synonym bytes = "byte list"

text \<open>A Go \<^verbatim>\<open>string\<close> is a byte sequence; \<^verbatim>\<open>[]byte(s)\<close> copies its bytes.\<close>

definition bytes_of :: "string \<Rightarrow> bytes" where
  "bytes_of s = map of_char s"

definition string_of :: "bytes \<Rightarrow> string" where
  "string_of b = map (\<lambda>w. char_of (unat w)) b"

lemma unat_of_char [simp]: "unat (of_char c :: byte) = of_char c"
proof -
  have "(of_char c :: byte) = word_of_nat (of_char c)" by (rule of_nat_of_char [symmetric])
  then show ?thesis by (simp add: unsigned_of_nat take_bit_nat_eq_self_iff)
qed

lemma string_of_bytes_of [simp]: "string_of (bytes_of s) = s"
  by (induction s) (simp_all add: string_of_def bytes_of_def)

lemma bytes_of_inj [simp]: "bytes_of s = bytes_of t \<longleftrightarrow> s = t"
  by (metis string_of_bytes_of)

section \<open>Errors and outcomes of calls\<close>

text \<open>
  The sentinel errors of the packages have a constructor each; \<open>ErrMsg\<close> is an
  \<^verbatim>\<open>errors.New\<close> text, \<open>Errorf\<close> a \<^verbatim>\<open>fmt.Errorf\<close> format with its argument, \<open>IOErr\<close> a
  failed system call and \<open>ErrNotExist\<close> the open of a missing file.
\<close>

datatype gerror =
    EOF
  | ErrUnexpectedEOF
  | ErrBadSum
  | ErrShortCell
  | ErrOutOfRange
  | ErrMetaVersion
  | IOErr
  | ErrNotExist
  | ErrMsg string
  | Errorf string string

type_synonym 'a res = "gerror + 'a"

text \<open>
  A call that may panic or loop for ever is a value of type \<open>'a go\<close>: \<open>None\<close> is "no normal
  return", \<open>Some (Inl e)\<close> an error return and \<open>Some (Inr x)\<close> a result.  A method that mutates
  its receiver returns the receiver also when it fails: type \<open>('s, 'a) st\<close>.
\<close>

type_synonym 'a go = "'a res option"
type_synonym ('s, 'a) st = "'s \<Rightarrow> ('a res \<times> 's) option"

definition res_bind :: "'a res \<Rightarrow> ('a \<Rightarrow> 'b res) \<Rightarrow> 'b res" where
  "res_bind m f = (case m of Inl e \<Rightarrow> Inl e | Inr x \<Rightarrow> f x)"

definition go_bind :: "'a go \<Rightarrow> ('a \<Rightarrow> 'b go) \<Rightarrow> 'b go" where
  "go_bind m f = (case m of None \<Rightarrow> None | Some (Inl e) \<Rightarrow> Some (Inl e) | Some (Inr x) \<Rightarrow> f x)"

definition st_bind :: "('s, 'a) st \<Rightarrow> ('a \<Rightarrow> ('s, 'b) st) \<Rightarrow> ('s, 'b) st" where
  "st_bind m f s =
     (case m s of None \<Rightarrow> None
      | Some (Inl e, s') \<Rightarrow> Some (Inl e, s')
      | Some (Inr x, s') \<Rightarrow> f x s')"

definition st_ret :: "'a \<Rightarrow> ('s, 'a) st" where
  "st_ret x s = Some (Inr x, s)"

lemma res_bind_simps [simp, outcome_simps]:
  "res_bind (Inl e) f = Inl e" "res_bind (Inr x) f = f x"
  by (simp_all add: res_bind_def)

lemma go_bind_simps [simp, outcome_simps]:
  "go_bind None f = None" "go_bind (Some (Inl e)) f = Some (Inl e)"
  "go_bind (Some (Inr x)) f = f x"
  by (simp_all add: go_bind_def)

lemma st_bind_Some [outcome_simps]:
  "m s = Some (Inr x, s') \<Longrightarrow> st_bind m f s = f x s'"
  "m s = Some (Inl e, s') \<Longrightarrow> st_bind m f s = Some (Inl e, s')"
  "m s = None \<Longrightarrow> st_bind m f s = None"
  by (simp_all add: st_bind_def)

lemma st_ret_apply [simp, outcome_simps]: "st_ret x s = Some (Inr x, s)"
  by (simp add: st_ret_def)

section \<open>bytes.Compare\<close>

fun bytes_Compare :: "bytes \<Rightarrow> bytes \<Rightarrow> int" where
  "bytes_Compare [] [] = 0"
| "bytes_Compare [] (_ # _) = -1"
| "bytes_Compare (_ # _) [] = 1"
| "bytes_Compare (a # as) (b # bs) =
     (if a < b then -1 else if b < a then 1 else bytes_Compare as bs)"

lemma bytes_Compare_cases:
  "bytes_Compare a b = (if a < b then -1 else if a = b then 0 else 1)"
  by (induction a b rule: bytes_Compare.induct) auto

lemma bytes_Compare_order [simp]:
  "bytes_Compare a b < 0 \<longleftrightarrow> a < b"
  "bytes_Compare a b > 0 \<longleftrightarrow> a > b"
  "bytes_Compare a b \<le> 0 \<longleftrightarrow> a \<le> b"
  "bytes_Compare a b \<ge> 0 \<longleftrightarrow> a \<ge> b"
  "bytes_Compare a b = 0 \<longleftrightarrow> a = b"
  by (auto simp: bytes_Compare_cases)

section \<open>encoding/binary\<close>

text \<open>
  \<open>le_bytes n w\<close> is \<^verbatim>\<open>binary.LittleEndian.PutUintN\<close> for \<open>8 * n\<close> bits, \<open>le_word\<close> its
  inverse on the bytes read (callers take exactly \<open>n\<close> bytes); \<open>be_bytes\<close> and \<open>be_word\<close> are
  the big-endian pair.
\<close>

primrec le_bytes :: "nat \<Rightarrow> 'a::len word \<Rightarrow> bytes" where
  "le_bytes 0 w = []"
| "le_bytes (Suc n) w = ucast w # le_bytes n (drop_bit 8 w)"

primrec le_word :: "bytes \<Rightarrow> 'a::len word" where
  "le_word [] = 0"
| "le_word (b # bs) = ucast b OR push_bit 8 (le_word bs)"

definition be_bytes :: "nat \<Rightarrow> 'a::len word \<Rightarrow> bytes" where
  "be_bytes n w = rev (le_bytes n w)"

definition be_word :: "bytes \<Rightarrow> 'a::len word" where
  "be_word bs = le_word (rev bs)"

lemma length_le_bytes [simp]: "length (le_bytes n w) = n"
  by (induction n arbitrary: w) auto

lemma length_be_bytes [simp]: "length (be_bytes n w) = n"
  by (simp add: be_bytes_def)

lemma le_word_le_bytes: "le_word (le_bytes n w) = take_bit (8 * n) w"
proof (induction n arbitrary: w)
  case 0
  then show ?case by simp
next
  case (Suc n)
  show ?case
    by (rule bit_word_eqI) (auto simp: Suc bit_simps)
qed

lemma le_word_le_bytes_full [codec_simps]:
  "8 * n = LENGTH('a::len) \<Longrightarrow> le_word (le_bytes n (w :: 'a word)) = w"
  by (simp add: le_word_le_bytes take_bit_word_eq_self)

lemma be_word_be_bytes_full [codec_simps]:
  "8 * n = LENGTH('a::len) \<Longrightarrow> be_word (be_bytes n (w :: 'a word)) = w"
  by (simp add: be_word_def be_bytes_def le_word_le_bytes_full)

end
