(* ===== verification/Crc32.thy ===== *)
theory Crc32
  imports Prelude
begin

unbundle bit_operations_syntax

text \<open>
  \<^verbatim>\<open>crc32.ChecksumIEEE\<close> of Go's \<^verbatim>\<open>hash/crc32\<close>, the checksum of the log records
  (\<^verbatim>\<open>storage/entry.go\<close>) and of the metadata slots (\<^verbatim>\<open>storage/meta.go\<close>): the reflected
  polynomial \<open>0xEDB88320\<close>, initial value and final complement all ones.  Writing to a
  \<^verbatim>\<open>crc32.NewIEEE()\<close> in pieces is the checksum of the pieces appended (\<open>crc_run_append\<close>).
\<close>

type_synonym u32 = "32 word"

definition crc_shift :: "u32 \<Rightarrow> u32" where
  "crc_shift c = (if bit c 0 then drop_bit 1 c XOR 0xEDB88320 else drop_bit 1 c)"

text \<open>An entry of the 256-entry table: eight shifts of the index.\<close>

definition crc_table :: "byte \<Rightarrow> u32" where
  "crc_table b = (crc_shift ^^ 8) (ucast b)"

definition crc_step :: "u32 \<Rightarrow> byte \<Rightarrow> u32" where
  "crc_step c v = crc_table (ucast c XOR v) XOR drop_bit 8 c"

definition crc_run :: "u32 \<Rightarrow> bytes \<Rightarrow> u32" where
  "crc_run c b = foldl crc_step c b"

definition crc32_ChecksumIEEE :: "bytes \<Rightarrow> u32" where
  "crc32_ChecksumIEEE b = NOT (crc_run (NOT 0) b)"

lemma crc_run_append: "crc_run c (a @ b) = crc_run (crc_run c a) b"
  by (simp add: crc_run_def)

end
