(* ===== verification/Os.thy ===== *)
theory Os
  imports Prelude
begin

text \<open>
  The part of Go's \<^verbatim>\<open>os\<close> and \<^verbatim>\<open>io\<close> packages the storage engine uses, and
  \<^verbatim>\<open>storage/fsync.go\<close>.  A \<open>disk\<close> is the database directory as a running process sees it: file
  contents by name, and beside them what a power cut may still put in their place: \<open>unsynced\<close>, the
  contents a file has had since its last \<^verbatim>\<open>fsync\<close>, and \<open>unlisted\<close>, what its name has stood for since
  the last \<^verbatim>\<open>fsync\<close> of the directory (nothing, before it was created).  \<open>faults\<close> is a script: every
  system call that changes the disk consumes one entry of it: \<open>None\<close>
  lets it succeed, \<open>Some n\<close> makes it fail after at most \<open>n\<close> bytes have reached the file; an
  empty script is a disk without faults.  A crash is a fault after which nothing else runs, so a
  statement for every script covers a stop at every system call; \<open>crash_leaves\<close> says what is found
  after it.  The writes to one file reach the medium in their order and each from its first byte on;
  those to different files in any order.  Reads of a file that exists do
  not fail other than by running into its end.
\<close>

record disk =
  files :: "string \<Rightarrow> bytes option"
  unsynced :: "string \<Rightarrow> bytes list"
  unlisted :: "string \<Rightarrow> bytes option list"
  faults :: "nat option list"

text \<open>An OS call: its error or result, and the disk it leaves.\<close>

type_synonym 'a os = "disk \<Rightarrow> 'a res \<times> disk"

definition pop_fault :: "disk \<Rightarrow> nat option \<times> disk" where
  "pop_fault d = (case faults d of [] \<Rightarrow> (None, d) | f # fs \<Rightarrow> (f, d\<lparr>faults := fs\<rparr>))"

text \<open>A call takes \<open>f\<close> through the contents \<open>cs\<close> to \<open>c\<close>.\<close>

definition set_file :: "string \<Rightarrow> bytes list \<Rightarrow> bytes \<Rightarrow> disk \<Rightarrow> disk" where
  "set_file f cs c d =
     d\<lparr>files := (files d)(f := Some c), unsynced := (unsynced d)(f := unsynced d f @ cs)\<rparr>"

text \<open>\<^verbatim>\<open>pwrite\<close>: a hole before the offset reads as zeros; bytes after the written ones stay.\<close>

definition write_bytes :: "bytes \<Rightarrow> nat \<Rightarrow> bytes \<Rightarrow> bytes" where
  "write_bytes c off b = take off c @ replicate (off - length c) 0 @ b @ drop (off + length b) c"

text \<open>The contents a file passes through while \<open>b\<close> is written.\<close>

definition write_parts :: "bytes \<Rightarrow> nat \<Rightarrow> bytes \<Rightarrow> bytes list" where
  "write_parts c off b = c # map (\<lambda>k. write_bytes c off (take k b)) [1..<length b]"

text \<open>\<^verbatim>\<open>(*os.File).WriteAt\<close> returns the bytes written and an error; it makes no system call
  for an empty slice.\<close>

definition os_WriteAt :: "string \<Rightarrow> nat \<Rightarrow> bytes \<Rightarrow> disk \<Rightarrow> nat \<times> gerror option \<times> disk" where
  "os_WriteAt f off b d =
     (if b = [] then (0, None, d)
      else case files d f of
        None \<Rightarrow> (0, Some ErrNotExist, d)
      | Some c \<Rightarrow>
          (case pop_fault d of
             (None, d') \<Rightarrow> (length b, None, set_file f (write_parts c off b) (write_bytes c off b) d')
           | (Some n, d') \<Rightarrow>
               let b' = take n b in
               (length b', Some IOErr,
                if b' = [] then d' else set_file f (write_parts c off b') (write_bytes c off b') d')))"

definition os_Truncate :: "string \<Rightarrow> nat \<Rightarrow> unit os" where
  "os_Truncate f n d =
     (case files d f of
        None \<Rightarrow> (Inl ErrNotExist, d)
      | Some c \<Rightarrow>
          (case pop_fault d of
             (Some _, d') \<Rightarrow> (Inl IOErr, d')
           | (None, d') \<Rightarrow> (Inr (), set_file f [c] (take n c @ replicate (n - length c) 0) d')))"

definition os_Sync :: "string \<Rightarrow> unit os" where
  "os_Sync f d =
     (case pop_fault d of
        (Some _, d') \<Rightarrow> (Inl IOErr, d')
      | (None, d') \<Rightarrow> (Inr (), d'\<lparr>unsynced := (unsynced d')(f := [])\<rparr>))"

text \<open>A file that was removed may be back after a power cut, until the directory is synced.\<close>

definition os_Remove :: "string \<Rightarrow> unit os" where
  "os_Remove f d =
     (case pop_fault d of
        (Some _, d') \<Rightarrow> (Inl IOErr, d')
      | (None, d') \<Rightarrow>
          (case files d' f of
             None \<Rightarrow> (Inl ErrNotExist, d')
           | Some c \<Rightarrow> (Inr (), d'\<lparr>files := (files d')(f := None), unsynced := (unsynced d')(f := []),
               unlisted := (unlisted d')(f := unlisted d' f @ map Some (unsynced d' f @ [c]))\<rparr>)))"

definition os_MkdirAll :: "unit os" where
  "os_MkdirAll d = (case pop_fault d of (Some _, d') \<Rightarrow> (Inl IOErr, d') | (None, d') \<Rightarrow> (Inr (), d'))"

text \<open>\<^verbatim>\<open>os.ReadFile\<close>, and the contents behind a read-only \<^verbatim>\<open>os.OpenFile\<close>.\<close>

definition os_ReadFile :: "string \<Rightarrow> disk \<Rightarrow> bytes res" where
  "os_ReadFile f d = (case files d f of None \<Rightarrow> Inl ErrNotExist | Some c \<Rightarrow> Inr c)"

text \<open>\<^verbatim>\<open>(*os.File).ReadAt\<close> of \<open>n\<close> bytes: it fails unless all of them are there.\<close>

definition os_ReadAt :: "bytes \<Rightarrow> nat \<Rightarrow> int \<Rightarrow> bytes res" where
  "os_ReadAt c n off =
     (if off < 0 then Inl (ErrMsg ''negative offset'')
      else if nat off + n \<le> length c then Inr (take n (drop (nat off) c))
      else if n = 0 then Inr []
      else Inl EOF)"

text \<open>\<^verbatim>\<open>io.ReadFull\<close> on a reader with the bytes \<open>r\<close> left: the result and what is left after.\<close>

definition io_ReadFull :: "nat \<Rightarrow> bytes \<Rightarrow> bytes res \<times> bytes" where
  "io_ReadFull n r =
     (if n \<le> length r then (Inr (take n r), drop n r)
      else if r = [] then (Inl EOF, [])
      else (Inl ErrUnexpectedEOF, []))"

section \<open>storage/fsync.go\<close>

definition syncDir :: "unit os" where
  "syncDir d =
     (case pop_fault d of (Some _, d') \<Rightarrow> (Inl IOErr, d') | (None, d') \<Rightarrow> (Inr (), d'\<lparr>unlisted := \<lambda>_. []\<rparr>))"

text \<open>\<^verbatim>\<open>os.OpenFile(file, O_RDWR|O_CREATE, 0o644)\<close> keeps the contents of an existing file.\<close>

definition os_OpenCreate :: "string \<Rightarrow> unit os" where
  "os_OpenCreate f d =
     (case pop_fault d of
        (Some _, d') \<Rightarrow> (Inl IOErr, d')
      | (None, d') \<Rightarrow>
          (Inr (), case files d' f of
             None \<Rightarrow> d'\<lparr>files := (files d')(f := Some []), unsynced := (unsynced d')(f := []),
               unlisted := (unlisted d')(f := unlisted d' f @ [None])\<rparr>
           | Some _ \<Rightarrow> d'))"

definition createFileSync :: "string \<Rightarrow> unit os" where
  "createFileSync f d =
     (case os_OpenCreate f d of
        (Inl e, d1) \<Rightarrow> (Inl e, d1)
      | (Inr _, d1) \<Rightarrow> syncDir d1)"

section \<open>Power cuts\<close>

text \<open>What a power cut may leave of \<open>f\<close>: what it holds, or what has not been synced away.\<close>

definition after_cut :: "disk \<Rightarrow> string \<Rightarrow> bytes option list" where
  "after_cut d f = files d f # unlisted d f @ map Some (unsynced d f)"

text \<open>\<open>crash_leaves d c\<close>: the process on \<open>d\<close> stops and \<open>c\<close> is found, with the power cut or not.\<close>

definition crash_leaves :: "disk \<Rightarrow> disk \<Rightarrow> bool" where
  "crash_leaves d c \<longleftrightarrow> (\<forall>f. files c f \<in> set (after_cut d f))"

text \<open>\<open>rebooted c\<close> is \<open>c\<close> as the medium holds it: nothing of it can be lost any more.\<close>

definition rebooted :: "disk \<Rightarrow> disk" where
  "rebooted c = c\<lparr>unsynced := \<lambda>_. [], unlisted := \<lambda>_. [], faults := []\<rparr>"

text \<open>\<open>settled d f\<close>: a power cut leaves \<open>f\<close> as it is.  \<open>kept d d' f\<close>: neither \<open>f\<close> nor what a power cut
  may leave of it has changed, unless there is less of that.\<close>

definition settled :: "disk \<Rightarrow> string \<Rightarrow> bool" where
  "settled d f \<longleftrightarrow> unsynced d f = [] \<and> unlisted d f = []"

definition kept :: "disk \<Rightarrow> disk \<Rightarrow> string \<Rightarrow> bool" where
  "kept d d' f \<longleftrightarrow> files d' f = files d f \<and> set (unsynced d' f) \<subseteq> set (unsynced d f) \<and>
     set (unlisted d' f) \<subseteq> set (unlisted d f)"

lemma crash_leaves_refl [simp]: "crash_leaves d d"
  by (simp add: crash_leaves_def after_cut_def)

lemma after_cut_settled: "settled d f \<Longrightarrow> after_cut d f = [files d f]"
  by (simp add: settled_def after_cut_def)

lemma crash_leaves_settled:
  assumes "crash_leaves d c" "settled d f"
  shows "files c f = files d f"
proof -
  have "files c f \<in> set (after_cut d f)" using assms(1) by (simp add: crash_leaves_def)
  then show ?thesis using after_cut_settled [OF assms(2)] by simp
qed

lemma rebooted_simps [simp]:
  "files (rebooted c) = files c" "faults (rebooted c) = []" "settled (rebooted c) f" "rebooted (rebooted c) = rebooted c"
  by (simp_all add: rebooted_def settled_def)

lemma kept_refl [simp, intro]: "kept d d f"
  by (simp add: kept_def)

lemma kept_faults [simp]: "kept d (d\<lparr>faults := fs\<rparr>) f"
  by (simp add: kept_def)

lemma kept_trans [trans]: "kept d d' f \<Longrightarrow> kept d' d'' f \<Longrightarrow> kept d d'' f"
  by (auto simp: kept_def)

lemma kept_files: "kept d d' f \<Longrightarrow> files d' f = files d f"
  by (simp add: kept_def)

lemma kept_after_cut: "kept d d' f \<Longrightarrow> set (after_cut d' f) \<subseteq> set (after_cut d f)"
  by (auto simp: kept_def after_cut_def)

lemma kept_settled: "kept d d' f \<Longrightarrow> settled d f \<Longrightarrow> settled d' f"
  by (auto simp: kept_def settled_def)

text \<open>A file that nothing has touched survives any crash.\<close>

lemma crash_leaves_kept: "crash_leaves d' c \<Longrightarrow> kept d d' f \<Longrightarrow> settled d f \<Longrightarrow> files c f = files d f"
  using crash_leaves_settled kept_settled kept_files by metis

section \<open>Facts about system calls\<close>

definition fault_free :: "disk \<Rightarrow> bool" where
  "fault_free d \<longleftrightarrow> faults d = []"

lemma pop_fault_free [simp]: "fault_free d \<Longrightarrow> pop_fault d = (None, d)"
  by (simp add: fault_free_def pop_fault_def)

lemma pop_fault_files [simp]:
  "pop_fault d = (r, d') \<Longrightarrow> files d' = files d"
  "pop_fault d = (r, d') \<Longrightarrow> unsynced d' = unsynced d"
  "pop_fault d = (r, d') \<Longrightarrow> unlisted d' = unlisted d"
  by (auto simp: pop_fault_def split: list.splits)

lemma fault_free_set_file [simp]: "fault_free (set_file f cs c d) \<longleftrightarrow> fault_free d"
  by (simp add: fault_free_def set_file_def)

lemma fault_free_updates [simp]:
  "fault_free (d\<lparr>files := F\<rparr>) \<longleftrightarrow> fault_free d"
  "fault_free (d\<lparr>unsynced := D\<rparr>) \<longleftrightarrow> fault_free d"
  "fault_free (d\<lparr>unlisted := L\<rparr>) \<longleftrightarrow> fault_free d"
  by (simp_all add: fault_free_def)

lemma fault_free_rebooted [simp]: "fault_free (rebooted c)"
  by (simp add: fault_free_def)

lemma files_set_file [simp]: "files (set_file f cs c d) = (files d)(f := Some c)"
  by (simp add: set_file_def)

lemma length_write_bytes: "length (write_bytes c off b) = max (length c) (off + length b)"
  by (auto simp: write_bytes_def)

lemma write_bytes_append [simp]: "write_bytes c (length c) b = c @ b"
  by (simp add: write_bytes_def)

lemma take_write_bytes: "n \<le> off \<Longrightarrow> n \<le> length c \<Longrightarrow> take n (write_bytes c off b) = take n c"
  by (simp add: write_bytes_def)

text \<open>No call touches the contents of another file; a failed call may leave a prefix of its own.\<close>

lemma os_WriteAt_other: "os_WriteAt f off b d = (n, e, d') \<Longrightarrow> g \<noteq> f \<Longrightarrow> files d' g = files d g"
  by (auto simp: os_WriteAt_def Let_def split: if_splits option.splits prod.splits)

text \<open>A synced file whose directory entry is synced, too, is on the medium.\<close>

definition listed :: "disk \<Rightarrow> string \<Rightarrow> bool" where
  "listed d f \<longleftrightarrow> unlisted d f = []"

lemma settled_listed: "settled d f \<Longrightarrow> listed d f"
  by (simp add: settled_def listed_def)

lemma os_Sync_settles: "os_Sync f d = (Inr u, d') \<Longrightarrow> listed d f \<Longrightarrow> settled d' f"
  by (auto simp: os_Sync_def settled_def listed_def split: option.splits prod.splits)

lemma os_Sync_kept: "os_Sync f d = (r, d') \<Longrightarrow> kept d d' g"
  by (auto simp: os_Sync_def kept_def split: option.splits prod.splits if_splits)

lemma pop_fault_kept: "pop_fault d = (r, d') \<Longrightarrow> kept d d' g"
  by (simp add: kept_def)

lemma os_WriteAt_kept: "os_WriteAt f off b d = (n, e, d') \<Longrightarrow> g \<noteq> f \<Longrightarrow> kept d d' g"
  by (auto simp: os_WriteAt_def Let_def set_file_def kept_def split: if_splits option.splits prod.splits)

lemma os_Truncate_kept: "os_Truncate f n d = (r, d') \<Longrightarrow> g \<noteq> f \<Longrightarrow> kept d d' g"
  by (auto simp: os_Truncate_def set_file_def kept_def split: option.splits prod.splits)

lemma os_Remove_kept: "os_Remove f d = (r, d') \<Longrightarrow> g \<noteq> f \<Longrightarrow> kept d d' g"
  by (auto simp: os_Remove_def kept_def split: option.splits prod.splits)

lemma syncDir_kept: "syncDir d = (r, d') \<Longrightarrow> kept d d' g"
  by (auto simp: syncDir_def kept_def split: option.splits prod.splits)

lemma createFileSync_kept: "createFileSync f d = (r, d') \<Longrightarrow> g \<noteq> f \<Longrightarrow> kept d d' g"
  by (auto simp: createFileSync_def os_OpenCreate_def syncDir_def kept_def split: option.splits prod.splits)

lemma createFileSync_listed: "createFileSync f d = (Inr u, d') \<Longrightarrow> listed d' g"
  by (auto simp: createFileSync_def os_OpenCreate_def syncDir_def listed_def split: option.splits prod.splits)

text \<open>Opening an existing file, or creating one, leaves what was settled settled.\<close>

lemma createFileSync_settled: "createFileSync f d = (Inr u, d') \<Longrightarrow> settled d g \<Longrightarrow> settled d' g"
  by (auto simp: createFileSync_def os_OpenCreate_def syncDir_def settled_def 
      split: option.splits prod.splits if_splits)

lemma os_listed [simp]:
  "os_WriteAt f off b d = (n, e, d') \<Longrightarrow> listed d' g = listed d g"
  "os_Truncate f m d = (r, d') \<Longrightarrow> listed d' g = listed d g"
  "os_Sync f d = (r, d') \<Longrightarrow> listed d' g = listed d g"
  by (auto simp: os_WriteAt_def os_Truncate_def os_Sync_def Let_def set_file_def listed_def split: if_splits option.splits prod.splits)

text \<open>What a power cut may leave of a file that was being written.\<close>

lemma after_cut_set_file:
  "files d f = Some c0 \<Longrightarrow> set (after_cut (set_file f cs c d) f) \<subseteq> insert (Some c) (set (after_cut d f) \<union> Some ` set cs)"
  by (auto simp: after_cut_def set_file_def)

lemma after_cut_write_parts:
  assumes "files d f = Some c" "b = take n b0" "b \<noteq> []"
  shows "set (after_cut (set_file f (write_parts c off b) (write_bytes c off b) d) f) \<subseteq>
    set (after_cut d f) \<union> {Some (write_bytes c off (take k b0)) | k. 0 < k}"
proof -
  have "\<exists>k>0. write_bytes c off (take j b) = write_bytes c off (take k b0)" if "0 < j" for j
    using assms(2,3) that by (cases n) (auto intro!: exI [of _ "min j n"] simp: min.commute)
  then have part: "Some (write_bytes c off (take j b)) \<in> {Some (write_bytes c off (take k b0)) | k. 0 < k}" if "0 < j" for j
    using that by blast
  have "Some (write_bytes c off b) = Some (write_bytes c off (take (length b) b))" by simp
  also have "\<dots> \<in> {Some (write_bytes c off (take k b0)) | k. 0 < k}" using assms(3) by (intro part) simp
  finally have whole: "Some (write_bytes c off b) \<in> {Some (write_bytes c off (take k b0)) | k. 0 < k}" .
  have "Some c \<in> set (after_cut d f)" using assms(1) by (simp add: after_cut_def)
  then have "Some ` set (write_parts c off b) \<subseteq> set (after_cut d f) \<union> {Some (write_bytes c off (take k b0)) | k. 0 < k}"
    using part by (auto simp: write_parts_def)
  then show ?thesis using after_cut_set_file [OF assms(1), of "write_parts c off b" "write_bytes c off b"] whole by blast
qed

lemma after_cut_WriteAt:
  assumes "os_WriteAt f off b d = (n, e, d')" "files d f = Some c"
  shows "set (after_cut d' f) \<subseteq> set (after_cut d f) \<union> {Some (write_bytes c off (take k b)) | k. 0 < k}"
proof -
  obtain r d1 where p: "pop_fault d = (r, d1)" by force
  have d1: "files d1 f = Some c" "set (after_cut d1 f) = set (after_cut d f)"
    using p assms(2) by (simp_all add: after_cut_def)
  note parts = after_cut_write_parts [OF d1(1), unfolded d1(2), of _ _ b off]
  show ?thesis
  proof (cases r)
    case None
    then show ?thesis using assms p parts [of b "length b"] by (cases "b = []") (simp_all add: os_WriteAt_def)
  next
    case (Some m)
    then show ?thesis using assms p d1 parts [of "take m b" m]
      by (cases "take m b = []") (auto simp: os_WriteAt_def Let_def split: if_splits)
  qed
qed

lemma after_cut_Truncate:
  assumes "os_Truncate f 0 d = (r, d')" "files d f = Some c"
  shows "set (after_cut d' f) \<subseteq> insert (Some []) (set (after_cut d f))"
proof -
  obtain r1 d1 where p: "pop_fault d = (r1, d1)" by force
  have d1: "files d1 f = Some c" "set (after_cut d1 f) = set (after_cut d f)" "Some c \<in> set (after_cut d f)"
    using p assms(2) by (simp_all add: after_cut_def)
  show ?thesis using assms p d1 after_cut_set_file [OF d1(1), of "[c]" "[]"]
    by (auto simp: os_Truncate_def split: option.splits)
qed

lemma after_cut_Sync: "os_Sync f d = (r, d') \<Longrightarrow> set (after_cut d' g) \<subseteq> set (after_cut d g)"
  using os_Sync_kept kept_after_cut by blast

text \<open>An append reaches the file completely, or a prefix of it does and the call fails.\<close>

lemma os_WriteAt_append:
  assumes "files d f = Some c" "os_WriteAt f (length c) b d = (n, e, d')"
  shows "n \<le> length b \<and> (e = None \<longrightarrow> n = length b) \<and>
    files d' = (files d)(f := Some (c @ take n b))"
  using assms
  by (auto simp: os_WriteAt_def Let_def fun_eq_iff min_def split: if_splits prod.splits option.splits)

lemma os_Truncate_other: "os_Truncate f n d = (r, d') \<Longrightarrow> g \<noteq> f \<Longrightarrow> files d' g = files d g"
  by (auto simp: os_Truncate_def split: option.splits prod.splits)

lemma os_Sync_files: "os_Sync f d = (r, d') \<Longrightarrow> files d' = files d"
  by (auto simp: os_Sync_def split: option.splits prod.splits)

lemma os_Remove_other: "os_Remove f d = (r, d') \<Longrightarrow> g \<noteq> f \<Longrightarrow> files d' g = files d g"
  by (auto simp: os_Remove_def split: option.splits prod.splits)

lemma createFileSync_files:
  "createFileSync f d = (r, d') \<Longrightarrow>
     files d' = files d \<or> files d f = None \<and> files d' = (files d)(f := Some [])"
  by (auto simp: createFileSync_def os_OpenCreate_def syncDir_def split: option.splits prod.splits)

lemma createFileSync_other:
  "createFileSync f d = (r, d') \<Longrightarrow> g \<noteq> f \<Longrightarrow> files d' g = files d g"
  by (auto dest!: createFileSync_files)

lemma createFileSync_ok:
  "createFileSync f d = (Inr u, d') \<Longrightarrow>
     files d' = (files d)(f := Some (case files d f of None \<Rightarrow> [] | Some c \<Rightarrow> c))"
  by (auto simp: createFileSync_def os_OpenCreate_def syncDir_def fun_eq_iff split: option.splits prod.splits)

lemma createFileSync_fault_free:
  "fault_free d \<Longrightarrow> \<exists>d'. createFileSync f d = (Inr (), d') \<and> fault_free d'"
  by (auto simp: createFileSync_def os_OpenCreate_def syncDir_def split: option.splits prod.splits)

section \<open>Where bytes stand in a file\<close>

definition has_at :: "bytes \<Rightarrow> nat \<Rightarrow> bytes \<Rightarrow> bool" where
  "has_at c off b \<longleftrightarrow> off + length b \<le> length c \<and> take (length b) (drop off c) = b"

lemma write_bytes_nth:
  "j < length (write_bytes c off b) \<Longrightarrow> write_bytes c off b ! j =
     (if off \<le> j \<and> j < off + length b then b ! (j - off) else if j < length c then c ! j else 0)"
  by (auto simp: write_bytes_def nth_append min_def)

lemma has_at_nth:
  "has_at c off b \<longleftrightarrow> off + length b \<le> length c \<and> (\<forall>i<length b. c ! (off + i) = b ! i)"
  by (auto simp: has_at_def list_eq_iff_nth_eq)

lemma has_at_write: "b \<noteq> [] \<Longrightarrow> has_at (write_bytes c off b) off b"
  by (auto simp: has_at_nth length_write_bytes write_bytes_nth)

lemma has_at_write_other:
  assumes "has_at c o' x" "o' + length x \<le> off \<or> off + length b \<le> o'"
  shows "has_at (write_bytes c off b) o' x"
  using assms by (auto simp: has_at_nth length_write_bytes write_bytes_nth)

lemma has_at_ReadAt: "has_at c off b \<Longrightarrow> n = length b \<Longrightarrow> os_ReadAt c n (int off) = Inr b"
  by (simp add: has_at_def os_ReadAt_def)

lemma has_at_append: "has_at c off (a @ b) \<longleftrightarrow> has_at c off a \<and> has_at c (off + length a) b"
  by (auto simp: has_at_nth nth_append add.assoc) (metis add.assoc le_add_diff_inverse nat_add_left_cancel_less not_le)

end
