(* ===== verification/Entry.thy ===== *)
theory Entry
  imports Crc32 Os
begin

text \<open>
  \<^verbatim>\<open>storage/entry.go\<close>: the record of the write-ahead log.  \<open>Entry_Encode\<close> and
  \<open>Entry_Decode\<close> are the two methods; the reader of \<^verbatim>\<open>Decode\<close> is the list of bytes left.
  The lemmas show that a record decodes to itself whatever follows it, and that every proper
  prefix of a record (a torn write) is reported as an end of file.  A record is also the
  key/value/tombstone triple that the sorted structures hold.
\<close>

record Entry =
  e_key :: bytes
  e_val :: bytes
  e_deleted :: bool

definition entryHeaderLen :: nat where
  "entryHeaderLen = 4 + 4 + 1"

text \<open>\<^verbatim>\<open>uint32(len(b))\<close>: the length modulo \<open>2 ^ 32\<close>.\<close>

definition len32 :: "bytes \<Rightarrow> u32" where
  "len32 b = word_of_nat (length b)"

definition Entry_Encode :: "Entry \<Rightarrow> bytes" where
  "Entry_Encode ent =
     (let rest = le_bytes 4 (len32 (e_key ent)) @ le_bytes 4 (len32 (e_val ent)) @
                 [if e_deleted ent then 1 else 0] @ e_key ent @ e_val ent
      in le_bytes 4 (crc32_ChecksumIEEE rest) @ rest)"

definition Entry_Decode :: "(bytes, Entry) st" where
  "Entry_Decode r =
     (case io_ReadFull (4 + entryHeaderLen) r of
        (Inl e, r1) \<Rightarrow> Some (Inl e, r1)
      | (Inr hdr, r1) \<Rightarrow>
          let want = le_word (take 4 hdr) :: u32;
              klen = le_word (take 4 (drop 4 hdr)) :: u32;
              vlen = le_word (take 4 (drop 8 hdr)) :: u32;
              del = (hdr ! 12 \<noteq> 0)
          in case io_ReadFull (unat (klen + vlen)) r1 of
               (Inl e, r2) \<Rightarrow> Some (Inl (if e = EOF then ErrUnexpectedEOF else e), r2)
             | (Inr body, r2) \<Rightarrow>
                 if crc32_ChecksumIEEE (drop 4 hdr @ body) \<noteq> want then Some (Inl ErrBadSum, r2)
                 else if unat klen \<le> length body
                   then Some (Inr \<lparr>e_key = take (unat klen) body,
                                   e_val = drop (unat klen) body,
                                   e_deleted = del\<rparr>, r2)
                   else None)"

text \<open>The sizes a record can hold: the two lengths and their sum are 32-bit values.\<close>

definition entry_fits :: "Entry \<Rightarrow> bool" where
  "entry_fits e \<longleftrightarrow> length (e_key e) + length (e_val e) < 2 ^ 32"

section \<open>Facts about records\<close>

lemma unat_len32 [codec_simps]: "length b < 2 ^ 32 \<Longrightarrow> unat (len32 b) = length b"
  by (simp add: len32_def unat_of_nat take_bit_nat_eq_self)

lemma entry_fits_lens:
  assumes "entry_fits e"
  shows "unat (len32 (e_key e)) = length (e_key e)"
    and "unat (len32 (e_key e) + len32 (e_val e)) = length (e_key e) + length (e_val e)"
proof -
  have k: "unat (len32 (e_key e)) = length (e_key e)"
    and v: "unat (len32 (e_val e)) = length (e_val e)"
    using assms by (simp_all add: entry_fits_def unat_len32)
  show "unat (len32 (e_key e)) = length (e_key e)" by (fact k)
  show "unat (len32 (e_key e) + len32 (e_val e)) = length (e_key e) + length (e_val e)"
    using assms by (simp add: entry_fits_def unat_word_ariths k v)
qed

lemma length_Entry_Encode:
  "length (Entry_Encode e) = 13 + length (e_key e) + length (e_val e)"
  by (simp add: Entry_Encode_def Let_def)

lemma Entry_Encode_header:
  fixes e :: Entry
  defines "h \<equiv> take 13 (Entry_Encode e)"
  shows "drop 13 (Entry_Encode e) = e_key e @ e_val e"
    and "length h = 13"
    and "(le_word (take 4 (drop 4 h)) :: u32) = len32 (e_key e)"
    and "(le_word (take 4 (drop 8 h)) :: u32) = len32 (e_val e)"
    and "h ! 12 = (if e_deleted e then 1 else 0)"
    and "crc32_ChecksumIEEE (drop 4 h @ e_key e @ e_val e) = le_word (take 4 h)"
  by (simp_all add: h_def Entry_Encode_def Let_def codec_simps nth_append)

lemma io_ReadFull_append [simp]: "n = length a \<Longrightarrow> io_ReadFull n (a @ r) = (Inr a, r)"
  by (simp add: io_ReadFull_def)

lemma io_ReadFull_short:
  "length r < n \<Longrightarrow> io_ReadFull n r = (Inl (if r = [] then EOF else ErrUnexpectedEOF), [])"
  by (simp add: io_ReadFull_def)

lemma Entry_Decode_Encode:
  assumes "entry_fits e"
  shows "Entry_Decode (Entry_Encode e @ r) = Some (Inr e, r)"
proof -
  let ?h = "take 13 (Entry_Encode e)"
  note hdr = Entry_Encode_header [of e]
  have split: "Entry_Encode e @ r = ?h @ (e_key e @ e_val e) @ r"
    using hdr(1) append_take_drop_id [of 13 "Entry_Encode e"] by (metis append.assoc)
  have r1: "io_ReadFull 13 (Entry_Encode e @ r) = (Inr ?h, (e_key e @ e_val e) @ r)"
    unfolding split by (rule io_ReadFull_append) (simp only: hdr(2))
  have r2: "io_ReadFull (unat (len32 (e_key e) + len32 (e_val e))) ((e_key e @ e_val e) @ r) =
      (Inr (e_key e @ e_val e), r)"
    by (rule io_ReadFull_append) (simp add: entry_fits_lens [OF assms])
  show ?thesis
    using assms by (simp add: Entry_Decode_def entryHeaderLen_def r1 r2 hdr entry_fits_lens
        del: append_assoc)
qed

text \<open>Bytes that begin with the header of a record and are too few for its body.\<close>

lemma Entry_Decode_short:
  assumes fits: "entry_fits e" and h: "take 13 p = take 13 (Entry_Encode e)"
    and len: "13 \<le> length p" "length p < length (Entry_Encode e)"
  shows "Entry_Decode p = Some (Inl ErrUnexpectedEOF, [])"
proof -
  let ?h = "take 13 (Entry_Encode e)"
  note hdr = Entry_Encode_header [of e]
  have "length (drop 13 p) < length (e_key e) + length (e_val e)"
    using len length_Entry_Encode [of e] by simp
  moreover have r1: "io_ReadFull 13 p = (Inr ?h, drop 13 p)"
    using len(1) by (simp add: io_ReadFull_def h)
  ultimately have r2: "io_ReadFull (unat (len32 (e_key e) + len32 (e_val e))) (drop 13 p) =
      (Inl (if drop 13 p = [] then EOF else ErrUnexpectedEOF), [])"
    by (intro io_ReadFull_short) (simp only: entry_fits_lens [OF fits])
  show ?thesis
    by (simp add: Entry_Decode_def entryHeaderLen_def r1 r2 hdr Let_def del: drop_eq_Nil)
qed

text \<open>A proper prefix of a record: a clean end when it is empty, a torn record otherwise.\<close>

lemma Entry_Decode_torn:
  assumes fits: "entry_fits e" and pre: "Entry_Encode e = p @ q" and "q \<noteq> []"
  shows "Entry_Decode p = Some (Inl (if p = [] then EOF else ErrUnexpectedEOF), [])"
proof (cases "length p < 13")
  case True
  then show ?thesis
    by (simp add: Entry_Decode_def entryHeaderLen_def io_ReadFull_short)
next
  case False
  then have "take 13 p = take 13 (Entry_Encode e)" "13 \<le> length p" "length p < length (Entry_Encode e)" "p \<noteq> []"
    using pre \<open>q \<noteq> []\<close> by (auto simp del: length_0_conv)
  from Entry_Decode_short [OF fits this(1-3)] this(4) show ?thesis by simp
qed

lemma Entry_Decode_Nil [simp]: "Entry_Decode [] = Some (Inl EOF, [])"
  by (simp add: Entry_Decode_def io_ReadFull_def entryHeaderLen_def)

text \<open>The reader only moves forward, and a decoded record takes at least a header.\<close>

lemma Entry_Decode_rest:
  assumes "Entry_Decode r = Some (x, r')"
  shows "length r' \<le> length r" and "x = Inr e \<Longrightarrow> length r' + 13 \<le> length r"
  using assms
  by (auto simp: Entry_Decode_def entryHeaderLen_def io_ReadFull_def Let_def split: if_splits)

end
