(* ===== verification/Sorted_Entries.thy ===== *)
theory Sorted_Entries
  imports Entry
begin

text \<open>
  The abstract view of every sorted structure of the engine: a list of entries with strictly
  increasing keys (\<open>sorted_entries\<close>), the map it stands for (\<open>es_map\<close>), the map of a stack of
  levels where the newest level wins (\<open>levels_map\<close>), the one sorted list that has that map
  (\<open>merge_entries\<close>), and what a reader sees once tombstones are gone (\<open>visible\<close>).  Binary
  searches and cursors are described by \<open>cutp\<close>: how many entries come before a point of the key
  order.
\<close>

definition sorted_entries :: "Entry list \<Rightarrow> bool" where
  "sorted_entries es \<longleftrightarrow> sorted_wrt (<) (map e_key es)"

definition es_map :: "Entry list \<Rightarrow> bytes \<Rightarrow> Entry option" where
  "es_map es = map_of (map (\<lambda>e. (e_key e, e)) es)"

primrec levels_map :: "Entry list list \<Rightarrow> bytes \<Rightarrow> Entry option" where
  "levels_map [] = Map.empty"
| "levels_map (es # ess) = levels_map ess ++ es_map es"

definition level_keys :: "Entry list list \<Rightarrow> bytes set" where
  "level_keys ess = (\<Union>es\<in>set ess. e_key ` set es)"

definition merge_entries :: "Entry list list \<Rightarrow> Entry list" where
  "merge_entries ess = map (\<lambda>k. the (levels_map ess k)) (sorted_list_of_set (level_keys ess))"

definition visible :: "(bytes \<Rightarrow> Entry option) \<Rightarrow> bytes \<Rightarrow> bytes option" where
  "visible m k = (case m k of None \<Rightarrow> None | Some e \<Rightarrow> if e_deleted e then None else Some (e_val e))"

definition live_entries :: "Entry list \<Rightarrow> Entry list" where
  "live_entries es = filter (\<lambda>e. \<not> e_deleted e) es"

definition cutp :: "(bytes \<Rightarrow> bool) \<Rightarrow> Entry list \<Rightarrow> nat" where
  "cutp P es = length (takeWhile (\<lambda>e. P (e_key e)) es)"

definition down_closed :: "(bytes \<Rightarrow> bool) \<Rightarrow> bool" where
  "down_closed P \<longleftrightarrow> (\<forall>a b. a \<le> b \<longrightarrow> P b \<longrightarrow> P a)"

section \<open>Strictly sorted entries\<close>

lemma sorted_entries_Nil [simp, sorted_simps]: "sorted_entries []"
  by (simp add: sorted_entries_def)

lemma sorted_entries_Cons [sorted_simps]:
  "sorted_entries (e # es) \<longleftrightarrow> (\<forall>x\<in>set es. e_key e < e_key x) \<and> sorted_entries es"
  by (auto simp: sorted_entries_def)

lemma sorted_entries_append [sorted_simps]:
  "sorted_entries (es @ fs) \<longleftrightarrow>
     sorted_entries es \<and> sorted_entries fs \<and> (\<forall>x\<in>set es. \<forall>y\<in>set fs. e_key x < e_key y)"
  by (auto simp: sorted_entries_def sorted_wrt_append)

lemma sorted_entries_nth_less:
  "sorted_entries es \<Longrightarrow> i < j \<Longrightarrow> j < length es \<Longrightarrow> e_key (es ! i) < e_key (es ! j)"
  by (auto simp: sorted_entries_def sorted_wrt_iff_nth_less)

lemma sorted_entries_nth_less_iff:
  assumes "sorted_entries es" "i < length es" "j < length es"
  shows "e_key (es ! i) < e_key (es ! j) \<longleftrightarrow> i < j"
  using sorted_entries_nth_less [of es] assms
  by (metis linorder_less_linear order_less_asym order_less_irrefl)

lemma sorted_entries_nth_eq_iff:
  assumes "sorted_entries es" "i < length es" "j < length es"
  shows "e_key (es ! i) = e_key (es ! j) \<longleftrightarrow> i = j"
  using sorted_entries_nth_less_iff [OF assms] sorted_entries_nth_less_iff [OF assms(1,3,2)]
  by (metis linorder_neq_iff order_less_irrefl)

lemma sorted_entries_distinct: "sorted_entries es \<Longrightarrow> distinct (map e_key es)"
  by (simp add: sorted_entries_def strict_sorted_iff)

lemma sorted_entries_filter: "sorted_entries es \<Longrightarrow> sorted_entries (filter P es)"
  unfolding sorted_entries_def
  by (induction es) auto

lemma sorted_entries_live: "sorted_entries es \<Longrightarrow> sorted_entries (live_entries es)"
  by (simp add: live_entries_def sorted_entries_filter)

section \<open>The map of a sorted list\<close>

lemma es_map_simps [simp]:
  "es_map [] = Map.empty"
  "es_map (e # es) = (es_map es)(e_key e \<mapsto> e)"
  by (auto simp: es_map_def)

lemma es_map_append: "es_map (es @ fs) = es_map fs ++ es_map es"
  by (simp add: es_map_def)

lemma es_map_Some_key: "es_map es k = Some e \<Longrightarrow> e \<in> set es \<and> e_key e = k"
  by (induction es) (auto split: if_splits)

lemma dom_es_map: "dom (es_map es) = e_key ` set es"
  by (induction es) (simp_all del: fun_upd_apply)

lemma es_map_None: "es_map es k = None \<longleftrightarrow> k \<notin> e_key ` set es"
  using dom_es_map [of es] by blast

lemma es_map_mem: "sorted_entries es \<Longrightarrow> e \<in> set es \<Longrightarrow> es_map es (e_key e) = Some e"
  by (induction es) (auto simp: sorted_simps)

lemma es_map_nth: "sorted_entries es \<Longrightarrow> i < length es \<Longrightarrow> es_map es (e_key (es ! i)) = Some (es ! i)"
  by (simp add: es_map_mem)

text \<open>A sorted list is determined by its map.\<close>

lemma sorted_entries_ext:
  assumes "sorted_entries es" "sorted_entries fs" "es_map es = es_map fs"
  shows "es = fs"
proof -
  have "map e_key es = map e_key fs"
    using assms dom_es_map [of es] dom_es_map [of fs]
    by (intro strict_sorted_equal) (simp_all add: sorted_entries_def)
  moreover have "es = map (\<lambda>k. the (es_map es k)) (map e_key es)"
    using assms(1) by (auto simp: es_map_mem intro!: map_idI [symmetric])
  moreover have "fs = map (\<lambda>k. the (es_map fs k)) (map e_key fs)"
    using assms(2) by (auto simp: es_map_mem intro!: map_idI [symmetric])
  ultimately show ?thesis using assms(3) by metis
qed

lemma es_map_live: "sorted_entries es \<Longrightarrow>
    es_map (live_entries es) k = (case es_map es k of None \<Rightarrow> None | Some e \<Rightarrow> if e_deleted e then None else Some e)"
proof (induction es)
  case Nil
  then show ?case by (simp add: live_entries_def)
next
  case (Cons e es)
  have "e_key e \<notin> e_key ` set es" using Cons.prems by (auto simp: sorted_simps)
  then have "es_map es (e_key e) = None" by (simp add: es_map_None)
  with Cons show ?case by (auto simp: live_entries_def sorted_simps split: option.splits)
qed

lemma visible_live: "sorted_entries es \<Longrightarrow> visible (es_map (live_entries es)) = visible (es_map es)"
  by (rule ext) (auto simp: visible_def es_map_live split: option.splits)

section \<open>The map of a stack of levels\<close>

lemma dom_levels_map: "dom (levels_map ess) = level_keys ess"
  by (induction ess) (auto simp: level_keys_def dom_es_map)

lemma finite_level_keys [simp]: "finite (level_keys ess)"
  by (simp add: level_keys_def)

lemma levels_map_Some_key: "levels_map ess k = Some e \<Longrightarrow> e_key e = k"
  by (induction ess) (auto dest: es_map_Some_key simp: map_add_Some_iff)

lemma map_key_merge_entries: "map e_key (merge_entries ess) = sorted_list_of_set (level_keys ess)"
proof -
  have "e_key (the (levels_map ess k)) = k" if "k \<in> level_keys ess" for k
    using that dom_levels_map [of ess] levels_map_Some_key [of ess k] by (cases "levels_map ess k") auto
  then show ?thesis by (auto simp: merge_entries_def intro: map_idI)
qed

lemma sorted_merge_entries [simp]: "sorted_entries (merge_entries ess)"
  by (simp add: sorted_entries_def map_key_merge_entries)

lemma keys_merge_entries: "e_key ` set (merge_entries ess) = level_keys ess"
  by (metis list.set_map map_key_merge_entries finite_level_keys set_sorted_list_of_set)

lemma es_map_merge_entries [simp]: "es_map (merge_entries ess) = levels_map ess"
proof
  fix k
  show "es_map (merge_entries ess) k = levels_map ess k"
  proof (cases "k \<in> level_keys ess")
    case True
    then obtain e where e: "levels_map ess k = Some e" using dom_levels_map [of ess] by blast
    then have "e_key e = k" by (rule levels_map_Some_key)
    have "e \<in> set (merge_entries ess)"
      using True e by (force simp: merge_entries_def)
    then show ?thesis using e \<open>e_key e = k\<close> es_map_mem [OF sorted_merge_entries, of e ess] by simp
  next
    case False
    then have "es_map (merge_entries ess) k = None" by (simp add: es_map_None keys_merge_entries)
    moreover have "levels_map ess k = None" using False dom_levels_map [of ess] by blast
    ultimately show ?thesis by simp
  qed
qed

lemma levels_map_append: "levels_map (ess @ fss) = levels_map fss ++ levels_map ess"
  by (induction ess) auto

lemma levels_map_merge [simp]: "levels_map (merge_entries ess # fss) = levels_map (ess @ fss)"
  by (simp add: levels_map_append)

section \<open>Cuts\<close>

lemma cut_le_length [simp]: "cutp P es \<le> length es"
  by (simp add: cutp_def length_takeWhile_le)

lemma down_closed_simps [simp]:
  "down_closed (\<lambda>k. k < K)" "down_closed (\<lambda>k. k \<le> K)" "down_closed (\<lambda>k. True)" "down_closed (\<lambda>k. False)"
  by (auto simp: down_closed_def)

lemma nth_before_cut: "i < cutp P es \<Longrightarrow> P (e_key (es ! i))"
  by (metis cutp_def nth_mem set_takeWhileD takeWhile_nth)

lemma less_cut_iff:
  assumes "sorted_entries es" "down_closed P" "i < length es"
  shows "i < cutp P es \<longleftrightarrow> P (e_key (es ! i))"
proof
  assume "i < cutp P es"
  then show "P (e_key (es ! i))" by (rule nth_before_cut)
next
  assume Pi: "P (e_key (es ! i))"
  show "i < cutp P es"
  proof (rule ccontr)
    assume "\<not> i < cutp P es"
    then have le: "cutp P es \<le> i" by simp
    with assms(3) have "cutp P es < length es" by simp
    then have "\<not> P (e_key (es ! cutp P es))" unfolding cutp_def by (rule nth_length_takeWhile)
    moreover have "e_key (es ! cutp P es) \<le> e_key (es ! i)"
      using le assms(1,3) sorted_entries_nth_less [of es "cutp P es" i]
      by (cases "cutp P es = i") (auto simp: order.strict_iff_order)
    ultimately show False using Pi assms(2) by (auto simp: down_closed_def)
  qed
qed

lemma cut_unique:
  assumes "sorted_entries es" "down_closed P" "n \<le> length es"
    and "\<And>i. i < n \<Longrightarrow> P (e_key (es ! i))"
    and "n < length es \<Longrightarrow> \<not> P (e_key (es ! n))"
  shows "cutp P es = n"
proof (rule ccontr)
  assume "cutp P es \<noteq> n"
  then consider "cutp P es < n" | "n < cutp P es" by linarith
  then show False
  proof cases
    case 1
    then show False using assms less_cut_iff [of es P "cutp P es"] by force
  next
    case 2
    then have "n < length es" using cut_le_length [of P es] by linarith
    then show False using 2 assms(5) nth_before_cut by blast
  qed
qed

lemma cut_cong:
  "sorted_entries es \<Longrightarrow> down_closed P \<Longrightarrow> down_closed Q \<Longrightarrow>
   (\<And>e. e \<in> set es \<Longrightarrow> P (e_key e) = Q (e_key e)) \<Longrightarrow> cutp P es = cutp Q es"
  unfolding cutp_def by (metis (mono_tags, lifting) takeWhile_cong)

lemma cut_lt_nth: "sorted_entries es \<Longrightarrow> i < length es \<Longrightarrow> cutp (\<lambda>k. k < e_key (es ! i)) es = i"
  by (rule cut_unique) (auto simp: sorted_entries_nth_less)

lemma cut_le_nth: "sorted_entries es \<Longrightarrow> i < length es \<Longrightarrow> cutp (\<lambda>k. k \<le> e_key (es ! i)) es = Suc i"
  using sorted_entries_nth_less_iff [of es]
  by (intro cut_unique) (auto simp: less_Suc_eq not_le order.strict_implies_order)

lemma cut_True [simp]: "cutp (\<lambda>k. True) es = length es"
  by (induction es) (simp_all add: cutp_def)

lemma cut_False [simp]: "cutp (\<lambda>k. False) es = 0"
  by (cases es) (simp_all add: cutp_def)

text \<open>A key that is there stands exactly between the two cuts it makes.\<close>

lemma cut_at_key:
  assumes "sorted_entries es" "k \<in> e_key ` set es"
  shows "cutp (\<lambda>x. x < k) es < length es" "e_key (es ! cutp (\<lambda>x. x < k) es) = k"
    and "cutp (\<lambda>x. x \<le> k) es = Suc (cutp (\<lambda>x. x < k) es)"
proof -
  from assms(2) obtain i where i: "i < length es" "e_key (es ! i) = k" by (auto simp: in_set_conv_nth)
  from cut_lt_nth [OF assms(1) i(1)] cut_le_nth [OF assms(1) i(1)] i
  show "cutp (\<lambda>x. x < k) es < length es" "e_key (es ! cutp (\<lambda>x. x < k) es) = k"
    "cutp (\<lambda>x. x \<le> k) es = Suc (cutp (\<lambda>x. x < k) es)" by simp_all
qed

lemma cut_no_key:
  assumes "sorted_entries es" "k \<notin> e_key ` set es"
  shows "cutp (\<lambda>x. x \<le> k) es = cutp (\<lambda>x. x < k) es"
proof (rule cut_cong [OF assms(1)])
  show "(e_key e \<le> k) = (e_key e < k)" if "e \<in> set es" for e
    using assms(2) that by (cases "e_key e = k") auto
qed simp_all

lemma cut_at_key_iff:
  assumes "sorted_entries es" "cutp (\<lambda>x. x < k) es < length es"
  shows "e_key (es ! cutp (\<lambda>x. x < k) es) = k \<longleftrightarrow> k \<in> e_key ` set es"
  using cut_at_key(2) [OF assms(1), of k] assms(2) by (metis image_eqI nth_mem)

section \<open>Storing one entry\<close>

text \<open>What an insert-or-overwrite does to the list: the entry goes to its key's place.\<close>

definition put_entry :: "Entry \<Rightarrow> Entry list \<Rightarrow> Entry list" where
  "put_entry e es =
     (let n = cutp (\<lambda>k. k < e_key e) es
      in if n < length es \<and> e_key (es ! n) = e_key e then es[n := e]
         else take n es @ e # drop n es)"

lemma take_cutp: "x \<in> set (take (cutp P es) es) \<Longrightarrow> P (e_key x)"
  unfolding cutp_def by (metis set_takeWhileD takeWhile_eq_take)

lemma drop_cutp:
  assumes "sorted_entries es" "down_closed P" "x \<in> set (drop (cutp P es) es)"
  shows "\<not> P (e_key x)"
proof -
  from assms(3) obtain i where i: "cutp P es \<le> i" "i < length es" "x = es ! i"
    by (auto simp: in_set_conv_nth) (metis add.commute le_add1 less_diff_conv)
  with less_cut_iff [OF assms(1,2) i(2)] show ?thesis by simp
qed

lemma es_map_cutp:
  assumes "sorted_entries es"
  shows "es_map es k = (let n = cutp (\<lambda>x. x < k) es
    in if n < length es \<and> e_key (es ! n) = k then Some (es ! n) else None)"
proof (cases "k \<in> e_key ` set es")
  case True
  then obtain i where i: "i < length es" "e_key (es ! i) = k" by (auto simp: in_set_conv_nth)
  then have "cutp (\<lambda>x. x < k) es = i" using cut_lt_nth [OF assms i(1)] by simp
  with i show ?thesis using es_map_nth [OF assms i(1)] by (simp add: Let_def)
next
  case False
  then have "es_map es k = None" by (simp add: es_map_None)
  moreover have "\<not> (cutp (\<lambda>x. x < k) es < length es \<and> e_key (es ! cutp (\<lambda>x. x < k) es) = k)"
    using False by (metis image_eqI nth_mem)
  ultimately show ?thesis by (simp only: Let_def if_False)
qed

lemma put_entry_correct:
  assumes es: "sorted_entries es"
  shows "sorted_entries (put_entry e es)" and "es_map (put_entry e es) = (es_map es)(e_key e \<mapsto> e)"
proof -
  define n where "n = cutp (\<lambda>k. k < e_key e) es"
  define a b where "a = take n es" and "b = drop n es"
  have ab: "es = a @ b" by (simp add: a_def b_def)
  have a: "\<forall>x\<in>set a. e_key x < e_key e" using take_cutp by (auto simp: a_def n_def)
  have an: "es_map a (e_key e) = None" using a by (auto simp: es_map_None)
  have b: "\<forall>x\<in>set b. e_key e \<le> e_key x"
    using drop_cutp [OF es, of "\<lambda>k. k < e_key e"] by (auto simp: b_def n_def not_less)
  have "sorted_entries (put_entry e es) \<and> es_map (put_entry e es) = (es_map es)(e_key e \<mapsto> e)"
  proof (cases "n < length es \<and> e_key (es ! n) = e_key e")
    case True
    define x b' where "x = es ! n" and "b' = drop (Suc n) es"
    have b': "b = x # b'" "e_key x = e_key e"
      using True by (simp_all add: b_def x_def b'_def Cons_nth_drop_Suc)
    have put: "put_entry e es = a @ e # b'"
      using True by (simp add: put_entry_def n_def [symmetric] Let_def upd_conv_take_nth_drop a_def b'_def)
    show ?thesis using es unfolding put unfolding ab b'(1)
      by (auto simp: sorted_simps es_map_append fun_eq_iff map_add_def b'(2) an split: option.splits)
  next
    case False
    then have put: "put_entry e es = a @ e # b" by (auto simp: put_entry_def n_def a_def b_def Let_def)
    have "\<forall>x\<in>set b. e_key e < e_key x"
    proof
      fix x assume x: "x \<in> set b"
      show "e_key e < e_key x"
      proof (rule ccontr)
        assume "\<not> e_key e < e_key x"
        with b x have "e_key x = e_key e" by force
        with x have "e_key e \<in> e_key ` set es" unfolding ab by (auto intro: image_eqI [OF sym])
        then show False using False es_map_cutp [OF es, of "e_key e"] es_map_None [of es "e_key e"]
          by (auto simp: n_def Let_def)
      qed
    qed
    then show ?thesis using es a unfolding put unfolding ab
      by (auto simp: sorted_simps es_map_append fun_eq_iff map_add_def an dest: order_less_trans split: option.splits)
  qed
  then show "sorted_entries (put_entry e es)" "es_map (put_entry e es) = (es_map es)(e_key e \<mapsto> e)"
    by blast+
qed

end
