(* ===== verification/Cursor.thy ===== *)
theory Cursor
  imports Sorted_Entries
begin

text \<open>
  The interface \<^verbatim>\<open>SortedKVIter\<close> of \<^verbatim>\<open>storage/sstable.go\<close>.  A Go interface value is a
  receiver with its method table; \<open>iter_ops\<close> is the method table, and every wrapper (the merge, the
  tombstone filter, the bounded range, the row iterator) is written against it.  \<open>Key\<close>,
  \<open>Val\<close> and \<open>Deleted\<close> are options because they panic off the ends of some implementations.

  The laws of the interface are three locales.  \<open>scan_cursor\<close> is what forward readers rely on: the
  cursor stands at a position of a fixed sorted list of entries and steps by one from a valid
  position; \<open>back_cursor\<close> adds the step back.  \<open>end_cursor\<close> adds the "one past each end" rule that the base cursors have and the merge needs:
  from just outside the list one step leads back in.
\<close>

record 'c iter_ops =
  it_Valid :: "'c \<Rightarrow> bool"
  it_Key :: "'c \<Rightarrow> bytes option"
  it_Val :: "'c \<Rightarrow> bytes option"
  it_Deleted :: "'c \<Rightarrow> bool option"
  it_Next :: "('c, unit) st"
  it_Prev :: "('c, unit) st"

locale scan_cursor =
  fixes ops :: "'c iter_ops"
    and inv :: "'c \<Rightarrow> bool"
    and rep :: "'c \<Rightarrow> Entry list"
    and pos :: "'c \<Rightarrow> int"
  assumes sorted: "inv c \<Longrightarrow> sorted_entries (rep c)"
    and valid: "inv c \<Longrightarrow> it_Valid ops c \<longleftrightarrow> 0 \<le> pos c \<and> pos c < int (length (rep c))"
    and key: "inv c \<Longrightarrow> it_Valid ops c \<Longrightarrow> it_Key ops c = Some (e_key (rep c ! nat (pos c)))"
    and val: "inv c \<Longrightarrow> it_Valid ops c \<Longrightarrow> it_Val ops c = Some (e_val (rep c ! nat (pos c)))"
    and del: "inv c \<Longrightarrow> it_Valid ops c \<Longrightarrow>
        it_Deleted ops c = Some (e_deleted (rep c ! nat (pos c)))"
    and pos_range: "inv c \<Longrightarrow> - 1 \<le> pos c \<and> pos c \<le> int (length (rep c))"
    and step_next: "inv c \<Longrightarrow> it_Valid ops c \<Longrightarrow>
        \<exists>c'. it_Next ops c = Some (Inr (), c') \<and> inv c' \<and> rep c' = rep c \<and> pos c' = pos c + 1"
begin

definition entry_at :: "'c \<Rightarrow> Entry" where
  "entry_at c = rep c ! nat (pos c)"

lemma entry_at_mem: "inv c \<Longrightarrow> it_Valid ops c \<Longrightarrow> entry_at c \<in> set (rep c)"
  by (auto simp: entry_at_def valid nat_less_iff)

text \<open>What is left to read from here, and from the entry before here back to the start.\<close>

definition rest :: "'c \<Rightarrow> Entry list" where
  "rest c = drop (nat (pos c)) (rep c)"

definition front :: "'c \<Rightarrow> Entry list" where
  "front c = take (nat (pos c + 1)) (rep c)"

lemma rest_valid: "inv c \<Longrightarrow> it_Valid ops c \<Longrightarrow> rest c = entry_at c # drop (Suc (nat (pos c))) (rep c)"
  by (subst (asm) valid) (auto simp: rest_def entry_at_def nat_less_iff Cons_nth_drop_Suc)

lemma step_next_rest:
  assumes "inv c" "it_Valid ops c"
  obtains c' where "it_Next ops c = Some (Inr (), c')" "inv c'" "rep c' = rep c" "pos c' = pos c + 1"
    "rest c = entry_at c # rest c'"
  using step_next [OF assms] rest_valid [OF assms] valid [OF assms(1)] assms(2)
  by (auto simp: rest_def nat_add_distrib)

lemma not_valid_rest: "inv c \<Longrightarrow> \<not> it_Valid ops c \<Longrightarrow> 0 \<le> pos c \<Longrightarrow> rest c = []"
  by (simp add: rest_def valid)

end

text \<open>Cursors that also step back from a valid position.\<close>

locale back_cursor = scan_cursor +
  assumes step_prev: "inv c \<Longrightarrow> it_Valid ops c \<Longrightarrow>
        \<exists>c'. it_Prev ops c = Some (Inr (), c') \<and> inv c' \<and> rep c' = rep c \<and> pos c' = pos c - 1"

context scan_cursor
begin

lemma back_cursor_if:
  assumes "\<And>c. inv c \<Longrightarrow> it_Valid ops c \<Longrightarrow> [] \<notin> e_key ` set (rep c) \<Longrightarrow>
      \<exists>c'. it_Prev ops c = Some (Inr (), c') \<and> inv c' \<and> rep c' = rep c \<and> pos c' = pos c - 1"
  shows "back_cursor ops (\<lambda>c. inv c \<and> [] \<notin> e_key ` set (rep c)) rep pos"
proof
  fix c assume c: "inv c \<and> [] \<notin> e_key ` set (rep c)"
  then have i: "inv c" by blast
  show "sorted_entries (rep c)" by (rule sorted [OF i])
  show "it_Valid ops c = (0 \<le> pos c \<and> pos c < int (length (rep c)))" by (rule valid [OF i])
  show "- 1 \<le> pos c \<and> pos c \<le> int (length (rep c))" by (rule pos_range [OF i])
  assume v: "it_Valid ops c"
  show "it_Key ops c = Some (e_key (rep c ! nat (pos c)))" "it_Val ops c = Some (e_val (rep c ! nat (pos c)))"
    "it_Deleted ops c = Some (e_deleted (rep c ! nat (pos c)))"
    by (rule key [OF i v] val [OF i v] del [OF i v])+
  show "\<exists>c'. it_Next ops c = Some (Inr (), c') \<and> (inv c' \<and> [] \<notin> e_key ` set (rep c')) \<and>
      rep c' = rep c \<and> pos c' = pos c + 1" using step_next [OF i v] c by auto
  show "\<exists>c'. it_Prev ops c = Some (Inr (), c') \<and> (inv c' \<and> [] \<notin> e_key ` set (rep c')) \<and>
      rep c' = rep c \<and> pos c' = pos c - 1" using assms [OF i v] c by auto
qed

end

locale end_cursor = back_cursor +
  assumes next_before: "inv c \<Longrightarrow> pos c = - 1 \<Longrightarrow>
        \<exists>c'. it_Next ops c = Some (Inr (), c') \<and> inv c' \<and> rep c' = rep c \<and> pos c' = 0"
    and prev_after: "inv c \<Longrightarrow> pos c = int (length (rep c)) \<Longrightarrow>
        \<exists>c'. it_Prev ops c = Some (Inr (), c') \<and> inv c' \<and> rep c' = rep c \<and> pos c' = pos c - 1"

end
