(* ===== verification/SortedArray.thy ===== *)
theory SortedArray
  imports Cursor
begin

text \<open>
  \<^verbatim>\<open>storage/sortedarray.go\<close>: the MemTable, three parallel slices of keys, values and
  tombstone flags, and its cursor.  \<open>arr_entries\<close> is the list of entries it stands for and
  \<open>arr_wf\<close> its invariant.  The binary search is \<^verbatim>\<open>slices.BinarySearchFunc\<close>.  Every
  update is shown to be \<open>put_entry\<close> on the entries, and the cursor satisfies \<open>end_cursor\<close>.  A
  cursor holds the array as it was when the cursor was made: the engine never changes an array while
  one of its cursors is in use.
\<close>

record SortedArray =
  arr_keys :: "bytes list"
  arr_vals :: "bytes list"
  arr_deleted :: "bool list"

text \<open>Indexing a slice: out of range is a panic.\<close>

definition slice_at :: "'a list \<Rightarrow> int \<Rightarrow> 'a option" where
  "slice_at xs i = (if 0 \<le> i \<and> i < int (length xs) then Some (xs ! nat i) else None)"

definition slices_Insert :: "'a list \<Rightarrow> nat \<Rightarrow> 'a \<Rightarrow> 'a list" where
  "slices_Insert xs i x = take i xs @ x # drop i xs"

definition SortedArray_Size :: "SortedArray \<Rightarrow> nat" where
  "SortedArray_Size a = length (arr_keys a)"

definition SortedArray_EstimatedSize :: "SortedArray \<Rightarrow> nat" where
  "SortedArray_EstimatedSize a = length (arr_keys a)"

definition SortedArray_Key :: "SortedArray \<Rightarrow> int \<Rightarrow> bytes option" where
  "SortedArray_Key a i = slice_at (arr_keys a) i"

definition SortedArray_Val :: "SortedArray \<Rightarrow> int \<Rightarrow> bytes option" where
  "SortedArray_Val a i = slice_at (arr_vals a) i"

definition SortedArray_Deleted :: "SortedArray \<Rightarrow> int \<Rightarrow> bool option" where
  "SortedArray_Deleted a i = slice_at (arr_deleted a) i"

definition SortedArray_Clear :: "SortedArray \<Rightarrow> SortedArray" where
  "SortedArray_Clear a = a\<lparr>arr_keys := [], arr_vals := [], arr_deleted := []\<rparr>"

definition SortedArray_Push :: "SortedArray \<Rightarrow> bytes \<Rightarrow> bytes \<Rightarrow> bool \<Rightarrow> SortedArray" where
  "SortedArray_Push a k v d =
     a\<lparr>arr_keys := arr_keys a @ [k], arr_vals := arr_vals a @ [v], arr_deleted := arr_deleted a @ [d]\<rparr>"

text \<open>Dropping the last triple of an empty array is a panic.\<close>

definition SortedArray_Pop :: "SortedArray \<Rightarrow> SortedArray option" where
  "SortedArray_Pop a =
     (if arr_keys a = [] \<or> arr_vals a = [] \<or> arr_deleted a = [] then None
      else Some (a\<lparr>arr_keys := butlast (arr_keys a), arr_vals := butlast (arr_vals a),
                   arr_deleted := butlast (arr_deleted a)\<rparr>))"

function bsearch_loop :: "bytes list \<Rightarrow> bytes \<Rightarrow> nat \<Rightarrow> nat \<Rightarrow> nat" where
  "bsearch_loop x target i j =
     (if i < j
      then let h = (i + j) div 2 in
           if bytes_Compare (x ! h) target < 0 then bsearch_loop x target (h + 1) j
           else bsearch_loop x target i h
      else i)"
  by pat_completeness auto
termination
  by (relation "measure (\<lambda>(x, t, i, j). j - i)") auto

declare bsearch_loop.simps [simp del]

definition slices_BinarySearch :: "bytes list \<Rightarrow> bytes \<Rightarrow> nat \<times> bool" where
  "slices_BinarySearch x target =
     (let i = bsearch_loop x target 0 (length x)
      in (i, i < length x \<and> bytes_Compare (x ! i) target = 0))"

definition SortedArray_search :: "SortedArray \<Rightarrow> bytes \<Rightarrow> nat \<times> bool" where
  "SortedArray_search a key = slices_BinarySearch (arr_keys a) key"

datatype entryState = entryAbsent | entryPresent | entryTombstone

definition SortedArray_state :: "SortedArray \<Rightarrow> bytes \<Rightarrow> entryState \<times> bytes" where
  "SortedArray_state a key =
     (case SortedArray_search a key of (i, found) \<Rightarrow>
        if \<not> found then (entryAbsent, [])
        else if arr_deleted a ! i then (entryTombstone, [])
        else (entryPresent, arr_vals a ! i))"

definition SortedArray_Get :: "SortedArray \<Rightarrow> bytes \<Rightarrow> bytes \<times> bool" where
  "SortedArray_Get a key = (case SortedArray_state a key of (st, v) \<Rightarrow> (v, st = entryPresent))"

definition SortedArray_Set :: "SortedArray \<Rightarrow> bytes \<Rightarrow> bytes \<Rightarrow> bool \<times> SortedArray" where
  "SortedArray_Set a key val =
     (case SortedArray_search a key of (i, found) \<Rightarrow>
        if found
        then (\<not> arr_deleted a ! i,
              a\<lparr>arr_vals := (arr_vals a)[i := val], arr_deleted := (arr_deleted a)[i := False]\<rparr>)
        else (False,
              a\<lparr>arr_keys := slices_Insert (arr_keys a) i key,
                arr_vals := slices_Insert (arr_vals a) i val,
                arr_deleted := slices_Insert (arr_deleted a) i False\<rparr>))"

definition SortedArray_Del :: "SortedArray \<Rightarrow> bytes \<Rightarrow> SortedArray" where
  "SortedArray_Del a key =
     (case SortedArray_search a key of (i, found) \<Rightarrow>
        if found
        then a\<lparr>arr_vals := (arr_vals a)[i := []], arr_deleted := (arr_deleted a)[i := True]\<rparr>
        else a\<lparr>arr_keys := slices_Insert (arr_keys a) i key,
               arr_vals := slices_Insert (arr_vals a) i [],
               arr_deleted := slices_Insert (arr_deleted a) i True\<rparr>)"

section \<open>The cursor\<close>

record SortedArrayIter =
  ai_a :: SortedArray
  ai_pos :: int

definition SortedArray_Iter :: "SortedArray \<Rightarrow> SortedArrayIter res" where
  "SortedArray_Iter a = Inr \<lparr>ai_a = a, ai_pos = 0\<rparr>"

definition SortedArray_Seek :: "SortedArray \<Rightarrow> bytes \<Rightarrow> SortedArrayIter res" where
  "SortedArray_Seek a key = (case SortedArray_search a key of (p, _) \<Rightarrow> Inr \<lparr>ai_a = a, ai_pos = int p\<rparr>)"

definition SortedArrayIter_Valid :: "SortedArrayIter \<Rightarrow> bool" where
  "SortedArrayIter_Valid it \<longleftrightarrow> 0 \<le> ai_pos it \<and> ai_pos it < int (length (arr_keys (ai_a it)))"

definition SortedArrayIter_Key :: "SortedArrayIter \<Rightarrow> bytes option" where
  "SortedArrayIter_Key it = slice_at (arr_keys (ai_a it)) (ai_pos it)"

definition SortedArrayIter_Val :: "SortedArrayIter \<Rightarrow> bytes option" where
  "SortedArrayIter_Val it = slice_at (arr_vals (ai_a it)) (ai_pos it)"

definition SortedArrayIter_Deleted :: "SortedArrayIter \<Rightarrow> bool option" where
  "SortedArrayIter_Deleted it = slice_at (arr_deleted (ai_a it)) (ai_pos it)"

definition SortedArrayIter_Next :: "(SortedArrayIter, unit) st" where
  "SortedArrayIter_Next it =
     Some (Inr (), if ai_pos it < int (length (arr_keys (ai_a it))) then it\<lparr>ai_pos := ai_pos it + 1\<rparr> else it)"

definition SortedArrayIter_Prev :: "(SortedArrayIter, unit) st" where
  "SortedArrayIter_Prev it =
     Some (Inr (), if ai_pos it \<ge> 0 then it\<lparr>ai_pos := ai_pos it - 1\<rparr> else it)"

definition SortedArray_ops :: "SortedArrayIter iter_ops" where
  "SortedArray_ops = \<lparr>
     it_Valid = SortedArrayIter_Valid, it_Key = SortedArrayIter_Key, it_Val = SortedArrayIter_Val,
     it_Deleted = SortedArrayIter_Deleted, it_Next = SortedArrayIter_Next, it_Prev = SortedArrayIter_Prev\<rparr>"

section \<open>What the array stands for\<close>

definition arr_entries :: "SortedArray \<Rightarrow> Entry list" where
  "arr_entries a =
     map (\<lambda>(k, v, d). \<lparr>e_key = k, e_val = v, e_deleted = d\<rparr>)
       (zip (arr_keys a) (zip (arr_vals a) (arr_deleted a)))"

definition arr_wf :: "SortedArray \<Rightarrow> bool" where
  "arr_wf a \<longleftrightarrow> length (arr_vals a) = length (arr_keys a) \<and> length (arr_deleted a) = length (arr_keys a) \<and>
     sorted_entries (arr_entries a)"

lemma arr_wf_lengths:
  assumes "arr_wf a"
  shows "length (arr_entries a) = length (arr_keys a)" "map e_key (arr_entries a) = arr_keys a"
    and "map e_val (arr_entries a) = arr_vals a" "map e_deleted (arr_entries a) = arr_deleted a"
  using assms
  by (auto simp: arr_wf_def arr_entries_def intro!: nth_equalityI)

lemma arr_entries_nth:
  assumes "arr_wf a" "i < length (arr_keys a)"
  shows "arr_entries a ! i = \<lparr>e_key = arr_keys a ! i, e_val = arr_vals a ! i, e_deleted = arr_deleted a ! i\<rparr>"
  using assms by (simp add: arr_wf_def arr_entries_def)

section \<open>The binary search\<close>

text \<open>The loop keeps: everything below \<open>i\<close> is smaller than the target, nothing from \<open>j\<close> on is.\<close>

lemma bsearch_loop_correct:
  assumes "sorted_wrt (<) x" "i \<le> j" "j \<le> length x"
    and "\<And>k. k < i \<Longrightarrow> x ! k < t" and "\<And>k. j \<le> k \<Longrightarrow> k < length x \<Longrightarrow> \<not> x ! k < t"
  shows "bsearch_loop x t i j \<le> length x \<and> (\<forall>k<bsearch_loop x t i j. x ! k < t) \<and>
    (\<forall>k. bsearch_loop x t i j \<le> k \<longrightarrow> k < length x \<longrightarrow> \<not> x ! k < t)"
  using assms
proof (induction x t i j rule: bsearch_loop.induct)
  case (1 x t i j)
  show ?case
  proof (cases "i < j")
    case True
    define h where "h = (i + j) div 2"
    have h: "i \<le> h" "h < j" using True by (auto simp: h_def)
    have mono: "x ! a \<le> x ! b" if "a \<le> b" "b < length x" for a b
      using that sorted_wrt_nth_less [OF "1.prems"(1), of a b] by (cases "a = b") simp_all
    show ?thesis
    proof (cases "x ! h < t")
      case True
      have "x ! k < t" if "k < h + 1" for k
        using le_less_trans [OF mono True] that h "1.prems"(3) by simp
      with "1.IH"(1) [OF \<open>i < j\<close> h_def] True h "1.prems" show ?thesis
        by (simp add: bsearch_loop.simps [of x t i j] h_def [symmetric] \<open>i < j\<close> Let_def)
    next
      case False
      have "\<not> x ! k < t" if "h \<le> k" "k < length x" for k
        using le_less_trans [OF mono [OF that]] False by blast
      with "1.IH"(2) [OF \<open>i < j\<close> h_def] False h "1.prems" show ?thesis
        by (simp add: bsearch_loop.simps [of x t i j] h_def [symmetric] \<open>i < j\<close> Let_def)
    qed
  next
    case False
    then have "bsearch_loop x t i j = i" by (simp add: bsearch_loop.simps [of x t i j])
    with False "1.prems" show ?thesis by auto
  qed
qed

lemma SortedArray_search_correct:
  assumes wf: "arr_wf a"
  shows "SortedArray_search a k =
    (cutp (\<lambda>x. x < k) (arr_entries a),
     cutp (\<lambda>x. x < k) (arr_entries a) < length (arr_entries a) \<and>
     e_key (arr_entries a ! cutp (\<lambda>x. x < k) (arr_entries a)) = k)"
proof -
  let ?es = "arr_entries a" and ?x = "arr_keys a"
  define n where "n = bsearch_loop ?x k 0 (length ?x)"
  note lens = arr_wf_lengths [OF wf]
  have key: "e_key (?es ! i) = ?x ! i" if "i < length ?x" for i
    using that arr_entries_nth [OF wf] by simp
  have "sorted_wrt (<) ?x" using wf lens(2) by (simp add: arr_wf_def sorted_entries_def)
  then have n: "n \<le> length ?x" "\<forall>i<n. ?x ! i < k" "\<forall>i. n \<le> i \<longrightarrow> i < length ?x \<longrightarrow> \<not> ?x ! i < k"
    using bsearch_loop_correct [of ?x 0 "length ?x" k] by (auto simp: n_def)
  have "cutp (\<lambda>x. x < k) ?es = n"
    using wf n lens(1) key by (intro cut_unique) (auto simp: arr_wf_def)
  then show ?thesis
    using n lens(1) key by (auto simp: SortedArray_search_def slices_BinarySearch_def n_def [symmetric] Let_def)
qed

section \<open>The operations on the entries\<close>

lemma arr_entries_update:
  assumes "arr_wf a" "i < length (arr_keys a)"
  shows "arr_entries (a\<lparr>arr_vals := (arr_vals a)[i := v], arr_deleted := (arr_deleted a)[i := d]\<rparr>) =
    (arr_entries a)[i := \<lparr>e_key = arr_keys a ! i, e_val = v, e_deleted = d\<rparr>]"
  using assms by (intro nth_equalityI) (auto simp: arr_entries_def arr_wf_def nth_list_update)

lemma arr_entries_insert:
  assumes "arr_wf a" "i \<le> length (arr_keys a)"
  shows "arr_entries (a\<lparr>arr_keys := slices_Insert (arr_keys a) i k, arr_vals := slices_Insert (arr_vals a) i v,
      arr_deleted := slices_Insert (arr_deleted a) i d\<rparr>) =
    take i (arr_entries a) @ \<lparr>e_key = k, e_val = v, e_deleted = d\<rparr> # drop i (arr_entries a)"
  using assms
  by (simp add: arr_entries_def arr_wf_def slices_Insert_def take_map drop_map take_zip drop_zip zip_append1 min_def)

text \<open>Both updates store one entry: a live value, or a tombstone.\<close>

lemma SortedArray_update:
  assumes wf: "arr_wf a"
  shows "arr_wf (snd (SortedArray_Set a k v))"
    and "arr_entries (snd (SortedArray_Set a k v)) = put_entry \<lparr>e_key = k, e_val = v, e_deleted = False\<rparr> (arr_entries a)"
    and "arr_wf (SortedArray_Del a k)"
    and "arr_entries (SortedArray_Del a k) = put_entry \<lparr>e_key = k, e_val = [], e_deleted = True\<rparr> (arr_entries a)"
proof -
  let ?n = "cutp (\<lambda>x. x < k) (arr_entries a)"
  note lens = arr_wf_lengths(1) [OF wf]
  have n: "?n \<le> length (arr_keys a)" using lens by (metis cut_le_length)
  have key: "?n < length (arr_keys a) \<Longrightarrow> e_key (arr_entries a ! ?n) = arr_keys a ! ?n"
    using arr_entries_nth [OF wf] by simp
  have S: "arr_entries (snd (SortedArray_Set a k v)) = put_entry \<lparr>e_key = k, e_val = v, e_deleted = False\<rparr> (arr_entries a)"
    and D: "arr_entries (SortedArray_Del a k) = put_entry \<lparr>e_key = k, e_val = [], e_deleted = True\<rparr> (arr_entries a)"
    using n key lens
    by (auto simp: SortedArray_Set_def SortedArray_Del_def SortedArray_search_correct [OF wf] put_entry_def
        arr_entries_update [OF wf] arr_entries_insert [OF wf n] Let_def)
  show "arr_entries (snd (SortedArray_Set a k v)) = put_entry \<lparr>e_key = k, e_val = v, e_deleted = False\<rparr> (arr_entries a)"
    and "arr_entries (SortedArray_Del a k) = put_entry \<lparr>e_key = k, e_val = [], e_deleted = True\<rparr> (arr_entries a)"
    by (fact S, fact D)
  have es: "sorted_entries (arr_entries a)" using wf by (simp add: arr_wf_def)
  have len: "length (arr_vals a) = length (arr_keys a)" "length (arr_deleted a) = length (arr_keys a)"
    using wf by (simp_all add: arr_wf_def)
  show "arr_wf (snd (SortedArray_Set a k v))"
    unfolding arr_wf_def S using put_entry_correct(1) [OF es] len
    by (auto simp: SortedArray_Set_def slices_Insert_def split: prod.split)
  show "arr_wf (SortedArray_Del a k)"
    unfolding arr_wf_def D using put_entry_correct(1) [OF es] len
    by (auto simp: SortedArray_Del_def slices_Insert_def split: prod.split)
qed

lemma SortedArray_state_correct:
  assumes wf: "arr_wf a"
  shows "SortedArray_state a k =
    (case es_map (arr_entries a) k of
       None \<Rightarrow> (entryAbsent, [])
     | Some e \<Rightarrow> if e_deleted e then (entryTombstone, []) else (entryPresent, e_val e))"
proof -
  have es: "sorted_entries (arr_entries a)" using wf by (simp add: arr_wf_def)
  show ?thesis
    using arr_wf_lengths(1) [OF wf]
    by (auto simp: SortedArray_state_def SortedArray_search_correct [OF wf] es_map_cutp [OF es] Let_def
        arr_entries_nth [OF wf])
qed

lemma SortedArray_Clear_correct [simp]:
  "arr_wf (SortedArray_Clear a)" "arr_entries (SortedArray_Clear a) = []"
  by (simp_all add: arr_wf_def arr_entries_def SortedArray_Clear_def)

lemma SortedArray_Push_correct:
  assumes "arr_wf a" "\<forall>x\<in>set (arr_entries a). e_key x < k"
  shows "arr_entries (SortedArray_Push a k v d) = arr_entries a @ [\<lparr>e_key = k, e_val = v, e_deleted = d\<rparr>]"
    and "arr_wf (SortedArray_Push a k v d)"
proof -
  show P: "arr_entries (SortedArray_Push a k v d) = arr_entries a @ [\<lparr>e_key = k, e_val = v, e_deleted = d\<rparr>]"
    using assms by (simp add: arr_entries_def SortedArray_Push_def arr_wf_def)
  show "arr_wf (SortedArray_Push a k v d)"
    unfolding arr_wf_def P using assms by (auto simp: arr_wf_def SortedArray_Push_def sorted_simps)
qed

section \<open>The cursor satisfies the interface\<close>

definition ai_inv :: "SortedArrayIter \<Rightarrow> bool" where
  "ai_inv it \<longleftrightarrow> arr_wf (ai_a it) \<and> - 1 \<le> ai_pos it \<and> ai_pos it \<le> int (length (arr_keys (ai_a it)))"

definition ai_rep :: "SortedArrayIter \<Rightarrow> Entry list" where
  "ai_rep it = arr_entries (ai_a it)"

lemmas SortedArrayIter_defs = SortedArray_ops_def SortedArrayIter_Valid_def SortedArrayIter_Key_def
  SortedArrayIter_Val_def SortedArrayIter_Deleted_def SortedArrayIter_Next_def SortedArrayIter_Prev_def

lemma ai_at:
  assumes "ai_inv it" "SortedArrayIter_Valid it"
  shows "slice_at (arr_keys (ai_a it)) (ai_pos it) = Some (e_key (ai_rep it ! nat (ai_pos it)))"
    and "slice_at (arr_vals (ai_a it)) (ai_pos it) = Some (e_val (ai_rep it ! nat (ai_pos it)))"
    and "slice_at (arr_deleted (ai_a it)) (ai_pos it) = Some (e_deleted (ai_rep it ! nat (ai_pos it)))"
proof -
  have wf: "arr_wf (ai_a it)" using assms(1) by (simp add: ai_inv_def)
  have i: "nat (ai_pos it) < length (arr_keys (ai_a it))" "0 \<le> ai_pos it"
    using assms(2) by (auto simp: SortedArrayIter_Valid_def)
  from wf have len: "length (arr_vals (ai_a it)) = length (arr_keys (ai_a it))"
    "length (arr_deleted (ai_a it)) = length (arr_keys (ai_a it))" by (simp_all add: arr_wf_def)
  show "slice_at (arr_keys (ai_a it)) (ai_pos it) = Some (e_key (ai_rep it ! nat (ai_pos it)))"
    and "slice_at (arr_vals (ai_a it)) (ai_pos it) = Some (e_val (ai_rep it ! nat (ai_pos it)))"
    and "slice_at (arr_deleted (ai_a it)) (ai_pos it) = Some (e_deleted (ai_rep it ! nat (ai_pos it)))"
    using i len by (auto simp: slice_at_def ai_rep_def arr_entries_nth [OF wf i(1)])
qed

interpretation arr_cursor: end_cursor SortedArray_ops ai_inv ai_rep ai_pos
proof unfold_locales
  fix c
  assume c: "ai_inv c"
  then show "sorted_entries (ai_rep c)" by (simp add: ai_inv_def arr_wf_def ai_rep_def)
  from c show "it_Valid SortedArray_ops c \<longleftrightarrow> 0 \<le> ai_pos c \<and> ai_pos c < int (length (ai_rep c))"
    by (auto simp: SortedArrayIter_defs ai_inv_def ai_rep_def arr_wf_lengths)
  from c show "- 1 \<le> ai_pos c \<and> ai_pos c \<le> int (length (ai_rep c))"
    by (auto simp: ai_inv_def ai_rep_def arr_wf_lengths)
  show "it_Valid SortedArray_ops c \<Longrightarrow> it_Key SortedArray_ops c = Some (e_key (ai_rep c ! nat (ai_pos c)))"
    "it_Valid SortedArray_ops c \<Longrightarrow> it_Val SortedArray_ops c = Some (e_val (ai_rep c ! nat (ai_pos c)))"
    "it_Valid SortedArray_ops c \<Longrightarrow> it_Deleted SortedArray_ops c = Some (e_deleted (ai_rep c ! nat (ai_pos c)))"
    using ai_at [OF c] by (simp_all add: SortedArray_ops_def SortedArrayIter_Key_def
        SortedArrayIter_Val_def SortedArrayIter_Deleted_def)
qed (auto simp: SortedArrayIter_defs ai_inv_def ai_rep_def arr_wf_lengths)

lemma SortedArray_Seek_correct:
  assumes "arr_wf a" "SortedArray_Seek a k = Inr it"
  shows "ai_inv it" "ai_rep it = arr_entries a" "ai_pos it = int (cutp (\<lambda>x. x < k) (arr_entries a))"
  using assms cut_le_length [of "\<lambda>x. x < k" "arr_entries a"]
  by (auto simp: SortedArray_Seek_def SortedArray_search_correct ai_inv_def ai_rep_def arr_wf_lengths)

lemma SortedArray_Iter_correct:
  assumes "arr_wf a" "SortedArray_Iter a = Inr it"
  shows "ai_inv it" "ai_rep it = arr_entries a" "ai_pos it = 0"
  using assms by (auto simp: SortedArray_Iter_def ai_inv_def ai_rep_def)

end
