(* ===== verification/SSTable.thy ===== *)
theory SSTable
  imports SortedArray
begin

text \<open>
  \<^verbatim>\<open>storage/sstable.go\<close>: the immutable sorted files.  A \<open>SortedFile\<close> is the file name,
  the contents behind its descriptor while it is open, and the key count read from the header.  The
  builder \<open>SortedFile_CreateFromSorted\<close> works on any cursor (\<open>iter_ops\<close>) with an upper bound of its
  length; the reader is \<open>SortedFile_index\<close>, the binary search \<open>SortedFile_search\<close> and the cursor.
  Shown here: what the builder writes is read back record by record (\<open>create_then_open\<close>), the
  search finds the first key not below its target, and the cursor satisfies \<open>end_cursor\<close>.  Key
  counts and file offsets are below \<open>2 ^ 63\<close> (\<open>sst_room\<close>), record lengths below \<open>2 ^ 32\<close>
  (\<open>entry_fits\<close>), the sizes the file format can hold.
\<close>

text \<open>Go's \<^verbatim>\<open>int\<close> arithmetic is modulo \<open>2 ^ 64\<close>, read as a signed number.\<close>

definition i64 :: "int \<Rightarrow> int" where
  "i64 x = sint (word_of_int x :: 64 word)"

record SortedFile =
  sf_FileName :: string
  sf_fp :: "bytes option"
  sf_nkeys :: int

definition SortedFile_Open :: "SortedFile \<Rightarrow> disk \<Rightarrow> unit res \<times> SortedFile" where
  "SortedFile_Open f d =
     (case os_ReadFile (sf_FileName f) d of
        Inl e \<Rightarrow> (Inl e, f)
      | Inr c \<Rightarrow>
          let f1 = f\<lparr>sf_fp := Some c\<rparr> in
          (case os_ReadAt c 8 0 of
             Inl e \<Rightarrow> (Inl e, f1)
           | Inr buf \<Rightarrow> (Inr (), f1\<lparr>sf_nkeys := sint (le_word buf :: 64 word)\<rparr>)))"

text \<open>Closing a read-only descriptor has no effect on what the model holds.\<close>

definition SortedFile_Close :: "SortedFile \<Rightarrow> unit res" where
  "SortedFile_Close f = Inr ()"

definition SortedFile_Size :: "SortedFile \<Rightarrow> int" where
  "SortedFile_Size f = sf_nkeys f"

definition SortedFile_EstimatedSize :: "SortedFile \<Rightarrow> int" where
  "SortedFile_EstimatedSize f = sf_nkeys f"

definition SortedFile_ReadAt :: "SortedFile \<Rightarrow> nat \<Rightarrow> int \<Rightarrow> bytes res" where
  "SortedFile_ReadAt f n off = (case sf_fp f of None \<Rightarrow> Inl IOErr | Some c \<Rightarrow> os_ReadAt c n off)"

definition SortedFile_index :: "SortedFile \<Rightarrow> int \<Rightarrow> Entry go" where
  "SortedFile_index f pos =
     (if pos < 0 \<or> pos \<ge> sf_nkeys f then Some (Inl (ErrMsg ''sstable: index out of range''))
      else go_bind (Some (SortedFile_ReadAt f 8 (i64 (8 + 8 * pos)))) (\<lambda>h8.
        let offset = sint (le_word h8 :: 64 word) in
        if offset < i64 (8 + 8 * sf_nkeys f) then Some (Inl (ErrMsg ''sstable: corrupted file''))
        else go_bind (Some (SortedFile_ReadAt f 9 offset)) (\<lambda>hdr.
          let klen = le_word (take 4 hdr) :: u32;
              vlen = le_word (take 4 (drop 4 hdr)) :: u32;
              del = (hdr ! 8 \<noteq> 0) in
          go_bind (Some (SortedFile_ReadAt f (unat (klen + vlen)) (i64 (offset + 9)))) (\<lambda>body.
            if unat klen \<le> length body
            then Some (Inr \<lparr>e_key = take (unat klen) body, e_val = drop (unat klen) body, e_deleted = del\<rparr>)
            else None))))"

function SortedFile_search_loop :: "SortedFile \<Rightarrow> bytes \<Rightarrow> int \<Rightarrow> int \<Rightarrow> (int \<times> bool) go" where
  "SortedFile_search_loop f target lo hi =
     (if lo < hi
      then let mid = (lo + hi) div 2 in
           (case SortedFile_index f mid of
              None \<Rightarrow> None
            | Some (Inl e) \<Rightarrow> Some (Inl e)
            | Some (Inr ent) \<Rightarrow>
                if bytes_Compare (e_key ent) target = 0 then Some (Inr (mid, True))
                else if bytes_Compare (e_key ent) target = -1 then SortedFile_search_loop f target (mid + 1) hi
                else SortedFile_search_loop f target lo mid)
      else Some (Inr (lo, False)))"
  by pat_completeness auto
termination
  by (relation "measure (\<lambda>(f, t, lo, hi). nat (hi - lo))") auto

declare SortedFile_search_loop.simps [simp del]

definition SortedFile_search :: "SortedFile \<Rightarrow> bytes \<Rightarrow> (int \<times> bool) go" where
  "SortedFile_search f target = SortedFile_search_loop f target 0 (sf_nkeys f)"

section \<open>The cursor\<close>

record SortedFileIter =
  fi_file :: SortedFile
  fi_pos :: int
  fi_key :: bytes
  fi_val :: bytes
  fi_deleted :: bool

definition SortedFileIter_Valid :: "SortedFileIter \<Rightarrow> bool" where
  "SortedFileIter_Valid it \<longleftrightarrow> 0 \<le> fi_pos it \<and> fi_pos it < sf_nkeys (fi_file it)"

definition SortedFileIter_load :: "(SortedFileIter, unit) st" where
  "SortedFileIter_load it =
     (if \<not> SortedFileIter_Valid it
      then Some (Inr (), it\<lparr>fi_key := [], fi_val := [], fi_deleted := False\<rparr>)
      else case SortedFile_index (fi_file it) (fi_pos it) of
        None \<Rightarrow> None
      | Some (Inl e) \<Rightarrow> Some (Inl e, it)
      | Some (Inr ent) \<Rightarrow>
          Some (Inr (), it\<lparr>fi_key := e_key ent, fi_val := e_val ent, fi_deleted := e_deleted ent\<rparr>))"

definition SortedFileIter_Next :: "(SortedFileIter, unit) st" where
  "SortedFileIter_Next it =
     SortedFileIter_load (if fi_pos it < sf_nkeys (fi_file it) then it\<lparr>fi_pos := fi_pos it + 1\<rparr> else it)"

definition SortedFileIter_Prev :: "(SortedFileIter, unit) st" where
  "SortedFileIter_Prev it =
     SortedFileIter_load (if fi_pos it \<ge> 0 then it\<lparr>fi_pos := fi_pos it - 1\<rparr> else it)"

text \<open>\<^verbatim>\<open>return it, it.load()\<close>: the callers look at the error first.\<close>

definition SortedFile_at :: "SortedFile \<Rightarrow> int \<Rightarrow> SortedFileIter go" where
  "SortedFile_at f p =
     (case SortedFileIter_load \<lparr>fi_file = f, fi_pos = p, fi_key = [], fi_val = [], fi_deleted = False\<rparr> of
        None \<Rightarrow> None
      | Some (Inl e, _) \<Rightarrow> Some (Inl e)
      | Some (Inr _, it) \<Rightarrow> Some (Inr it))"

definition SortedFile_Iter :: "SortedFile \<Rightarrow> SortedFileIter go" where
  "SortedFile_Iter f = SortedFile_at f 0"

definition SortedFile_Seek :: "SortedFile \<Rightarrow> bytes \<Rightarrow> SortedFileIter go" where
  "SortedFile_Seek f key = go_bind (SortedFile_search f key) (\<lambda>(p, _). SortedFile_at f p)"

definition SortedFile_ops :: "SortedFileIter iter_ops" where
  "SortedFile_ops = \<lparr>
     it_Valid = SortedFileIter_Valid, it_Key = (\<lambda>it. Some (fi_key it)), it_Val = (\<lambda>it. Some (fi_val it)),
     it_Deleted = (\<lambda>it. Some (fi_deleted it)), it_Next = SortedFileIter_Next, it_Prev = SortedFileIter_Prev\<rparr>"

section \<open>The builder\<close>

definition encodeKV :: "bytes \<Rightarrow> bytes \<Rightarrow> bool \<Rightarrow> bytes" where
  "encodeKV key val del =
     le_bytes 4 (len32 key) @ le_bytes 4 (len32 val) @ [if del then 1 else 0] @ key @ val"

text \<open>The loop ends because a \<^verbatim>\<open>WriteAt\<close> without error has written everything.\<close>

function writeAllAt :: "string \<Rightarrow> nat \<Rightarrow> bytes \<Rightarrow> unit os" where
  "writeAllAt f off b d =
     (if b = [] then (Inr (), d)
      else case os_WriteAt f off b d of
        (n, Some e, d') \<Rightarrow> (Inl e, d')
      | (n, None, d') \<Rightarrow> writeAllAt f (off + n) (drop n b) d')"
  by pat_completeness auto
termination
  by (relation "measure (\<lambda>(f, off, b, d). length b)")
     (auto simp: os_WriteAt_def Let_def split: if_splits option.splits prod.splits)

declare writeAllAt.simps [simp del]

partial_function (option) CreateFromSorted_loop ::
  "'c iter_ops \<Rightarrow> string \<Rightarrow> 'c \<Rightarrow> nat \<Rightarrow> nat \<Rightarrow> disk \<Rightarrow> (nat res \<times> disk) option" where
  "CreateFromSorted_loop ops f it pos n d =
     (if it_Valid ops it
      then (case (it_Key ops it, it_Val ops it, it_Deleted ops it) of
          (Some k, Some v, Some dl) \<Rightarrow>
            (case writeAllAt f pos (encodeKV k v dl) d of
               (Inl e, d1) \<Rightarrow> Some (Inl e, d1)
             | (Inr _, d1) \<Rightarrow>
                 (case writeAllAt f (8 + 8 * n) (le_bytes 8 (word_of_nat pos :: 64 word)) d1 of
                    (Inl e, d2) \<Rightarrow> Some (Inl e, d2)
                  | (Inr _, d2) \<Rightarrow>
                      (case it_Next ops it of
                         None \<Rightarrow> None
                       | Some (Inl e, _) \<Rightarrow> Some (Inl e, d2)
                       | Some (Inr _, it') \<Rightarrow>
                           CreateFromSorted_loop ops f it' (pos + length (encodeKV k v dl)) (n + 1) d2)))
        | _ \<Rightarrow> None)
      else Some (Inr n, d))"

text \<open>
  \<open>CreateFromSorted\<close> gets the two things it asks its argument for, \<^verbatim>\<open>EstimatedSize()\<close> and
  \<^verbatim>\<open>Iter()\<close>, after creating the file.
\<close>

definition SortedFile_CreateFromSorted ::
  "'c iter_ops \<Rightarrow> nat \<Rightarrow> 'c go \<Rightarrow> SortedFile \<Rightarrow> disk \<Rightarrow> (unit res \<times> SortedFile \<times> disk) option" where
  "SortedFile_CreateFromSorted ops est iter f d =
     (case createFileSync (sf_FileName f) d of
        (Inl e, d1) \<Rightarrow> Some (Inl e, f, d1)
      | (Inr _, d1) \<Rightarrow>
          let f1 = f\<lparr>sf_fp := files d1 (sf_FileName f)\<rparr> in
          (case iter of
             None \<Rightarrow> None
           | Some (Inl e) \<Rightarrow> Some (Inl e, f1, d1)
           | Some (Inr it) \<Rightarrow>
               (case CreateFromSorted_loop ops (sf_FileName f) it (8 + 8 * est) 0 d1 of
                  None \<Rightarrow> None
                | Some (Inl e, d2) \<Rightarrow> Some (Inl e, f1\<lparr>sf_fp := files d2 (sf_FileName f)\<rparr>, d2)
                | Some (Inr n, d2) \<Rightarrow>
                    (case writeAllAt (sf_FileName f) 0 (le_bytes 8 (word_of_nat n :: 64 word)) d2 of
                       (Inl e, d3) \<Rightarrow>
                         Some (Inl e, f1\<lparr>sf_fp := files d3 (sf_FileName f), sf_nkeys := int n\<rparr>, d3)
                     | (Inr _, d3) \<Rightarrow>
                         (case os_Sync (sf_FileName f) d3 of (r, d4) \<Rightarrow>
                            Some (r, f1\<lparr>sf_fp := files d4 (sf_FileName f), sf_nkeys := int n\<rparr>, d4))))))"

section \<open>The builder writes the layout\<close>

definition enc :: "Entry \<Rightarrow> bytes" where
  "enc e = encodeKV (e_key e) (e_val e) (e_deleted e)"

text \<open>Where the \<open>k\<close>-th record starts when the data region starts at \<open>start\<close>.\<close>

definition rec_off :: "nat \<Rightarrow> Entry list \<Rightarrow> nat \<Rightarrow> nat" where
  "rec_off start es k = start + length (concat (map enc (take k es)))"

text \<open>The first \<open>n\<close> records and their offset slots are in place.\<close>

definition sst_layout :: "bytes \<Rightarrow> nat \<Rightarrow> Entry list \<Rightarrow> nat \<Rightarrow> bool" where
  "sst_layout c start es n \<longleftrightarrow>
     (\<forall>i<n. has_at c (8 + 8 * i) (le_bytes 8 (word_of_nat (rec_off start es i) :: 64 word)) \<and>
            has_at c (rec_off start es i) (enc (es ! i)))"

definition sst_contents :: "bytes \<Rightarrow> nat \<Rightarrow> Entry list \<Rightarrow> bool" where
  "sst_contents c est es \<longleftrightarrow>
     has_at c 0 (le_bytes 8 (word_of_nat (length es) :: 64 word)) \<and>
     sst_layout c (8 + 8 * est) es (length es)"

text \<open>The sizes the file format can hold, for \<open>est\<close> offset slots.\<close>

definition sst_room :: "nat \<Rightarrow> Entry list \<Rightarrow> bool" where
  "sst_room est es \<longleftrightarrow> length es \<le> est \<and> rec_off (8 + 8 * est) es (length es) < 2 ^ 63 \<and>
     (\<forall>e\<in>set es. entry_fits e)"

lemma length_enc: "length (enc e) = 9 + length (e_key e) + length (e_val e)"
  by (simp add: enc_def encodeKV_def)

lemma enc_nonempty [simp]: "enc e \<noteq> []"
  by (simp add: enc_def encodeKV_def)

lemma rec_off_Suc: "k < length es \<Longrightarrow> rec_off start es (Suc k) = rec_off start es k + length (enc (es ! k))"
  by (simp add: rec_off_def take_Suc_conv_app_nth)

lemma rec_off_mono: "i \<le> j \<Longrightarrow> rec_off start es i \<le> rec_off start es j"
proof (induction j)
  case (Suc j)
  have "rec_off start es j \<le> rec_off start es (Suc j)"
    using rec_off_Suc [of j es start] by (cases "j < length es") (simp_all add: rec_off_def)
  with Suc show ?case by (cases "i = Suc j") auto
qed (simp add: rec_off_def)

lemma rec_off_ge [simp]: "start \<le> rec_off start es k"
  by (simp add: rec_off_def)

lemma writeAllAt_once:
  "writeAllAt f off b d =
     (if b = [] then (Inr (), d)
      else case os_WriteAt f off b d of (n, Some e, d') \<Rightarrow> (Inl e, d') | (n, None, d') \<Rightarrow> (Inr (), d'))"
proof -
  obtain n e d' where w: "os_WriteAt f off b d = (n, e, d')" by (metis prod_cases3)
  then have "e = None \<Longrightarrow> b \<noteq> [] \<Longrightarrow> drop n b = []"
    by (auto simp: os_WriteAt_def Let_def split: option.splits prod.splits)
  then show ?thesis
    by (subst writeAllAt.simps) (auto simp: w writeAllAt.simps [of f "off + n" "[]"] split: option.split)
qed

lemma writeAllAt_files:
  assumes "files d f = Some c" "writeAllAt f off b d = (r, d')"
  shows "\<exists>c'. files d' = (files d)(f := Some c') \<and> (r = Inr u \<longrightarrow> b \<noteq> [] \<longrightarrow> c' = write_bytes c off b)"
  using assms
  by (auto simp: writeAllAt_once os_WriteAt_def Let_def fun_eq_iff split: if_splits option.splits prod.splits)

lemma writeAllAt_frame:
  assumes "writeAllAt f off b d = (r, d')"
  shows "g \<noteq> f \<Longrightarrow> kept d d' g" and "listed d' h = listed d h"
  using assms os_WriteAt_kept [of f off b d _ _ _ g]
  by (auto simp: writeAllAt_once split: if_splits option.splits prod.splits)

lemma writeAllAt_fault_free:
  assumes "files d f = Some c" "writeAllAt f off b d = (r, d')" "fault_free d"
  shows "r = Inr () \<and> fault_free d'"
  using assms by (auto simp: writeAllAt_once os_WriteAt_def split: if_splits)

text \<open>One round of the loop puts one more record and slot in place.\<close>

lemma sst_layout_step:
  assumes lay: "sst_layout c start es n" and n: "n < length es" and start: "8 + 8 * length es \<le> start"
  defines "c1 \<equiv> write_bytes c (rec_off start es n) (enc (es ! n))"
  defines "c2 \<equiv> write_bytes c1 (8 + 8 * n) (le_bytes 8 (word_of_nat (rec_off start es n) :: 64 word))"
  shows "sst_layout c2 start es (Suc n)"
  unfolding sst_layout_def
proof (intro allI impI)
  fix i assume i: "i < Suc n"
  have rs: "8 + 8 * n + 8 \<le> start" using n start by linarith
  have rn: "8 + 8 * n + 8 \<le> rec_off start es n" using rs rec_off_ge [of start es n] by linarith
  have ne: "le_bytes 8 (word_of_nat (rec_off start es n) :: 64 word) \<noteq> []"
    by (metis length_le_bytes list.size(3) zero_neq_numeral)
  show "has_at c2 (8 + 8 * i) (le_bytes 8 (word_of_nat (rec_off start es i) :: 64 word)) \<and>
    has_at c2 (rec_off start es i) (enc (es ! i))"
  proof (cases "i = n")
    case True
    have "has_at c1 (rec_off start es n) (enc (es ! n))"
      unfolding c1_def by (rule has_at_write) simp
    then have "has_at c2 (rec_off start es n) (enc (es ! n))"
      unfolding c2_def using rn by (intro has_at_write_other) auto
    moreover have "has_at c2 (8 + 8 * n) (le_bytes 8 (word_of_nat (rec_off start es n) :: 64 word))"
      unfolding c2_def using ne by (rule has_at_write)
    ultimately show ?thesis using True by simp
  next
    case False
    then have "i < n" using i by simp
    have "rec_off start es i + length (enc (es ! i)) \<le> rec_off start es n"
      using \<open>i < n\<close> n rec_off_Suc [of i es start] rec_off_mono [of "Suc i" n start es] by simp
    then have "has_at c1 (8 + 8 * i) (le_bytes 8 (word_of_nat (rec_off start es i) :: 64 word))"
      "has_at c1 (rec_off start es i) (enc (es ! i))"
      unfolding c1_def using lay \<open>i < n\<close> rn
      by (auto simp: sst_layout_def intro!: has_at_write_other)
    then show ?thesis
      unfolding c2_def using \<open>i < n\<close> rs order_trans [OF rs rec_off_ge, of es i]
      by (intro conjI has_at_write_other) auto
  qed
qed

context scan_cursor
begin

lemma CreateFromSorted_loop_correct:
  assumes "inv it" "0 \<le> pos it" "8 + 8 * length (rep it) \<le> start"
    and "files d f = Some c" "sst_layout c start (rep it) (nat (pos it))"
  shows "\<exists>r d' c'. CreateFromSorted_loop ops f it (rec_off start (rep it) (nat (pos it))) (nat (pos it)) d = Some (r, d') \<and>
    files d' = (files d)(f := Some c') \<and> (\<forall>g. g \<noteq> f \<longrightarrow> kept d d' g) \<and> listed d' f = listed d f \<and>
    (\<forall>m. r = Inr m \<longrightarrow> m = length (rep it) \<and> sst_layout c' start (rep it) m) \<and>
    (fault_free d \<longrightarrow> r = Inr (length (rep it)) \<and> fault_free d')"
  using assms
proof (induction "length (rep it) - nat (pos it)" arbitrary: it d c)
  case 0
  then have "\<not> it_Valid ops it" "nat (pos it) = length (rep it)"
    using valid [of it] pos_range [of it] by auto
  with 0 show ?case
    by (auto simp: CreateFromSorted_loop.simps [of ops f it] intro!: exI [of _ c])
next
  case (Suc x)
  let ?es = "rep it" and ?n = "nat (pos it)"
  let ?w = "le_bytes 8 (word_of_nat (rec_off start ?es ?n) :: 64 word)"
  have v: "it_Valid ops it" using Suc.hyps(2) Suc.prems valid [of it] by auto
  have n: "?n < length ?es" using Suc.hyps(2) by simp
  note at = key [OF Suc.prems(1) v] val [OF Suc.prems(1) v] del [OF Suc.prems(1) v]
  obtain it' where it': "it_Next ops it = Some (Inr (), it')" "inv it'" "rep it' = ?es" "pos it' = pos it + 1"
    using step_next [OF Suc.prems(1) v] by blast
  have n': "nat (pos it') = Suc ?n" using it'(4) Suc.prems(2) by simp
  obtain r1 d1 where w1: "writeAllAt f (rec_off start ?es ?n) (enc (?es ! ?n)) d = (r1, d1)" by fastforce
  obtain r2 d2 where w2: "writeAllAt f (8 + 8 * ?n) ?w d1 = (r2, d2)" by fastforce
  obtain c1 where c1: "files d1 = (files d)(f := Some c1)"
    "r1 = Inr () \<longrightarrow> c1 = write_bytes c (rec_off start ?es ?n) (enc (?es ! ?n))"
    using writeAllAt_files [OF Suc.prems(4) w1, of "()"] by auto
  then have fd1: "files d1 f = Some c1" by simp
  have ne: "?w \<noteq> []" by (metis length_le_bytes list.size(3) zero_neq_numeral)
  obtain c2 where c2: "files d2 = (files d)(f := Some c2)"
    "r2 = Inr () \<longrightarrow> c2 = write_bytes c1 (8 + 8 * ?n) ?w"
    using writeAllAt_files [OF fd1 w2, of "()"] ne c1 by auto
  have fr2: "g \<noteq> f \<Longrightarrow> kept d d2 g" "listed d2 f = listed d f" for g
    using writeAllAt_frame [OF w1] writeAllAt_frame [OF w2] kept_trans by blast+
  have fr1: "g \<noteq> f \<Longrightarrow> kept d d1 g" "listed d1 f = listed d f" for g using writeAllAt_frame [OF w1] by blast+
  note unf = CreateFromSorted_loop.simps [of ops f it] v at enc_def [symmetric] w1 w2 it'(1)
  show ?case
  proof (cases "r1 = Inr () \<and> r2 = Inr ()")
    case False
    have "\<not> fault_free d"
      using False writeAllAt_fault_free [OF Suc.prems(4) w1] writeAllAt_fault_free [OF fd1 w2] by blast
    then show ?thesis using False c1(1) c2(1) fr1 fr2
      by (cases r1; cases r2) (auto simp: unf)
  next
    case True
    have lay: "sst_layout c2 start ?es (Suc ?n)"
      using sst_layout_step [OF Suc.prems(5) n Suc.prems(3)] True c1 c2 by simp
    have fd2: "files d2 f = Some c2" using c2 by simp
    have ff: "fault_free d \<Longrightarrow> fault_free d2"
      using writeAllAt_fault_free [OF Suc.prems(4) w1] writeAllAt_fault_free [OF fd1 w2] by blast
    have "x = length (rep it') - nat (pos it')" using Suc.hyps(2) it' n' by simp
    have "0 \<le> pos it'" using it'(4) Suc.prems(2) by simp
    from Suc.hyps(1) [OF \<open>x = _\<close> it'(2) this, unfolded it'(3) n', OF Suc.prems(3) fd2 lay]
    obtain r d' c' where IH: "CreateFromSorted_loop ops f it' (rec_off start ?es (Suc ?n)) (Suc ?n) d2 = Some (r, d')"
      "files d' = (files d2)(f := Some c')" "\<forall>g. g \<noteq> f \<longrightarrow> kept d2 d' g" "listed d' f = listed d2 f"
      "\<forall>m. r = Inr m \<longrightarrow> m = length ?es \<and> sst_layout c' start ?es m"
      "fault_free d2 \<longrightarrow> r = Inr (length ?es) \<and> fault_free d'" by blast
    have "CreateFromSorted_loop ops f it (rec_off start ?es ?n) ?n d = Some (r, d')"
      using True IH(1) n by (simp add: unf rec_off_Suc)
    moreover have "files d' = (files d)(f := Some c')" using IH(2) c2(1) by simp
    moreover have "g \<noteq> f \<Longrightarrow> kept d d' g" for g using fr2(1) IH(3) kept_trans by blast
    ultimately show ?thesis using IH(4-6) fr2(2) ff by blast
  qed
qed

lemma CreateFromSorted_correct:
  assumes iter: "iter = Some (Inr it)" and it: "inv it" "pos it = 0" and est: "length (rep it) \<le> est"
  shows "\<exists>r f' d'. SortedFile_CreateFromSorted ops est iter sf d = Some (r, f', d') \<and>
    (\<forall>g. g \<noteq> sf_FileName sf \<longrightarrow> kept d d' g) \<and>
    (r = Inr () \<longrightarrow> settled d' (sf_FileName sf) \<and> (\<exists>c. files d' (sf_FileName sf) = Some c \<and> sst_contents c est (rep it))) \<and>
    (fault_free d \<longrightarrow> r = Inr () \<and> fault_free d')"
proof -
  let ?f = "sf_FileName sf" and ?es = "rep it" and ?start = "8 + 8 * est"
  obtain r0 d0 where cr: "createFileSync ?f d = (r0, d0)" by fastforce
  have oth0: "\<forall>g. g \<noteq> ?f \<longrightarrow> kept d d0 g" using createFileSync_kept [OF cr] by blast
  show ?thesis
  proof (cases r0)
    case (Inl e)
    then show ?thesis using cr oth0 createFileSync_fault_free [of d ?f]
      by (auto simp: SortedFile_CreateFromSorted_def)
  next
    case (Inr u)
    then obtain c0 where c0: "files d0 ?f = Some c0" using createFileSync_ok [of ?f d u d0] cr by simp
    have ff0: "fault_free d \<Longrightarrow> fault_free d0" using createFileSync_fault_free [of d ?f] cr by auto
    have s0: "rec_off ?start ?es 0 = ?start" by (simp add: rec_off_def)
    from CreateFromSorted_loop_correct [OF it(1), of ?start d0 ?f c0] it(2) est c0
    obtain r1 d1 c1 where l: "CreateFromSorted_loop ops ?f it ?start 0 d0 = Some (r1, d1)"
      "files d1 = (files d0)(?f := Some c1)" "\<forall>g. g \<noteq> ?f \<longrightarrow> kept d0 d1 g" "listed d1 ?f = listed d0 ?f"
      "\<forall>m. r1 = Inr m \<longrightarrow> m = length ?es \<and> sst_layout c1 ?start ?es m"
      "fault_free d0 \<longrightarrow> r1 = Inr (length ?es) \<and> fault_free d1"
      by (auto simp: s0 sst_layout_def)
    have oth1: "\<forall>g. g \<noteq> ?f \<longrightarrow> kept d d1 g" using oth0 l(3) kept_trans by blast
    show ?thesis
    proof (cases r1)
      case (Inl e)
      then show ?thesis using cr \<open>r0 = Inr u\<close> iter l oth1 ff0
        by (auto simp: SortedFile_CreateFromSorted_def Let_def)
    next
      case (Inr m)
      then have m: "m = length ?es" "sst_layout c1 ?start ?es m" using l(5) by auto
      let ?h = "le_bytes 8 (word_of_nat m :: 64 word)"
      obtain r2 d2 where w: "writeAllAt ?f 0 ?h d1 = (r2, d2)" by fastforce
      obtain r3 d3 where sy: "os_Sync ?f d2 = (r3, d3)" by fastforce
      have ne: "?h \<noteq> []" by (metis length_le_bytes list.size(3) zero_neq_numeral)
      obtain c2 where c2: "files d2 = (files d1)(?f := Some c2)" "r2 = Inr () \<longrightarrow> c2 = write_bytes c1 0 ?h"
        using writeAllAt_files [of d1 ?f c1, OF _ w, of "()"] l(2) ne by auto
      have "sst_contents (write_bytes c1 0 ?h) est ?es"
        using m ne has_at_write [of ?h c1 0]
        by (auto simp: sst_contents_def sst_layout_def rec_off_def intro!: has_at_write_other)
      moreover have "fault_free d \<Longrightarrow> r2 = Inr () \<and> fault_free d2"
        using writeAllAt_fault_free [of d1 ?f c1, OF _ w] l(2,6) ff0 by simp
      moreover have "fault_free d2 \<Longrightarrow> r3 = Inr () \<and> fault_free d3"
        using sy by (auto simp: os_Sync_def)
      moreover have "\<forall>g. g \<noteq> ?f \<longrightarrow> kept d d2 g" "\<forall>g. g \<noteq> ?f \<longrightarrow> kept d d3 g"
        using oth1 writeAllAt_frame(1) [OF w] os_Sync_kept [OF sy] kept_trans by meson+
      moreover have "r3 = Inr () \<longrightarrow> settled d3 ?f"
        using os_Sync_settles [of ?f d2 "()" d3] sy writeAllAt_frame(2) [OF w] l(4) createFileSync_listed [of ?f d u d0] cr \<open>r0 = Inr u\<close>
        by blast
      ultimately show ?thesis
        using cr \<open>r0 = Inr u\<close> iter l(1,2) \<open>r1 = Inr m\<close> w sy c2 os_Sync_files [OF sy]
        by (cases r2) (auto simp: SortedFile_CreateFromSorted_def Let_def)
    qed
  qed
qed

end

section \<open>Reading a file back\<close>

lemma i64_id: "- (2 ^ 63) \<le> x \<Longrightarrow> x < 2 ^ 63 \<Longrightarrow> i64 x = x"
  by (simp add: i64_def sint_sbintrunc' signed_take_bit_int_eq_self)

lemma sint_word_of_nat: "n < 2 ^ 63 \<Longrightarrow> sint (word_of_nat n :: 64 word) = int n"
  using i64_id [of "int n"] by (simp add: i64_def)

lemma SortedFile_index_correct:
  assumes fp: "sf_fp f = Some c" and nk: "sf_nkeys f = int (length es)"
    and c: "sst_contents c est es" and room: "sst_room est es" and i: "i < length es"
  shows "SortedFile_index f (int i) = Some (Inr (es ! i))"
proof -
  let ?o = "rec_off (8 + 8 * est) es i" and ?e = "es ! i"
  let ?hdr = "le_bytes 4 (len32 (e_key ?e)) @ le_bytes 4 (len32 (e_val ?e)) @ [if e_deleted ?e then 1 else 0]"
  have fits: "entry_fits ?e" using room i by (simp add: sst_room_def)
  have lim: "rec_off (8 + 8 * est) es (length es) < 2 ^ 63" "length es \<le> est"
    using room by (simp_all add: sst_room_def)
  have end_i: "?o + length (enc ?e) \<le> rec_off (8 + 8 * est) es (length es)"
    using i rec_off_Suc [of i es] rec_off_mono [of "Suc i" "length es" "8 + 8 * est" es] by simp
  have o: "?o < 2 ^ 63" "?o + 9 < 2 ^ 63" "8 + 8 * est \<le> ?o"
    using end_i lim length_enc [of ?e] by simp_all
  have est: "8 + 8 * est < 2 ^ 63" using o by linarith
  have slot: "has_at c (8 + 8 * i) (le_bytes 8 (word_of_nat ?o :: 64 word))"
    and enc: "has_at c ?o (enc ?e)"
    using c i by (auto simp: sst_contents_def sst_layout_def)
  have "enc ?e = ?hdr @ (e_key ?e @ e_val ?e)" by (simp add: enc_def encodeKV_def)
  with enc have hdr: "has_at c ?o ?hdr" and body: "has_at c (?o + 9) (e_key ?e @ e_val ?e)"
    using has_at_append [of c ?o ?hdr "e_key ?e @ e_val ?e"] by simp_all
  have a1: "i64 (8 + 8 * int i) = int (8 + 8 * i)"
    using i lim est by (subst i64_id) simp_all
  have "8 + 8 * length es \<le> ?o" using lim(2) o(3) by linarith
  then have a2: "i64 (8 + 8 * int (length es)) \<le> int ?o"
    using lim est by (subst i64_id) simp_all
  have a3: "i64 (int ?o + 9) = int (?o + 9)"
    using o by (subst i64_id) simp_all
  have r1: "SortedFile_ReadAt f 8 (i64 (8 + 8 * int i)) = Inr (le_bytes 8 (word_of_nat ?o :: 64 word))"
    unfolding SortedFile_ReadAt_def a1 fp using has_at_ReadAt [OF slot] by simp
  have r2: "SortedFile_ReadAt f 9 (int ?o) = Inr ?hdr"
    unfolding SortedFile_ReadAt_def fp using has_at_ReadAt [OF hdr] by simp
  have r3: "SortedFile_ReadAt f (unat (len32 (e_key ?e) + len32 (e_val ?e))) (i64 (int ?o + 9)) =
      Inr (e_key ?e @ e_val ?e)"
    unfolding SortedFile_ReadAt_def a3 fp entry_fits_lens [OF fits] using has_at_ReadAt [OF body] by simp
  have dec: "(le_word (take 4 ?hdr) :: u32) = len32 (e_key ?e)"
    "(le_word (take 4 (drop 4 ?hdr)) :: u32) = len32 (e_val ?e)"
    "(?hdr ! 8 \<noteq> 0) = e_deleted ?e"
    by (simp_all add: codec_simps nth_append)
  have w: "le_word (le_bytes 8 x) = x" for x :: "64 word" by (simp add: codec_simps)
  have "SortedFile_index f (int i) =
      (if int ?o < i64 (8 + 8 * int (length es)) then Some (Inl (ErrMsg ''sstable: corrupted file''))
       else Some (Inr ?e))"
    unfolding SortedFile_index_def Let_def r1 go_bind_simps w sint_word_of_nat [OF o(1)] r2 dec r3 nk
    using i fits by (simp add: entry_fits_lens)
  then show ?thesis using a2 by simp
qed

lemma SortedFile_Open_correct:
  assumes "files d (sf_FileName f) = Some c" "sst_contents c est es" "length es < 2 ^ 63"
  shows "SortedFile_Open f d = (Inr (), f\<lparr>sf_fp := Some c, sf_nkeys := int (length es)\<rparr>)"
proof -
  have "has_at c 0 (le_bytes 8 (word_of_nat (length es) :: 64 word))"
    using assms(2) by (simp add: sst_contents_def)
  from has_at_ReadAt [OF this, of 8] have "os_ReadAt c 8 0 = Inr (le_bytes 8 (word_of_nat (length es) :: 64 word))"
    by simp
  then show ?thesis
    using assms by (simp add: SortedFile_Open_def os_ReadFile_def Let_def codec_simps sint_word_of_nat)
qed

text \<open>The entries an open file holds, and when it is sound: every record can be read, in key order.\<close>

definition sf_entries :: "SortedFile \<Rightarrow> Entry list" where
  "sf_entries f =
     map (\<lambda>i. case SortedFile_index f (int i) of
            Some (Inr e) \<Rightarrow> e | _ \<Rightarrow> \<lparr>e_key = [], e_val = [], e_deleted = False\<rparr>)
       [0..<nat (sf_nkeys f)]"

definition sf_wf :: "SortedFile \<Rightarrow> bool" where
  "sf_wf f \<longleftrightarrow> 0 \<le> sf_nkeys f \<and> sorted_entries (sf_entries f) \<and>
     (\<forall>i<nat (sf_nkeys f). \<exists>e. SortedFile_index f (int i) = Some (Inr e))"

lemma sf_index:
  assumes "sf_wf f" "0 \<le> p" "p < sf_nkeys f"
  shows "SortedFile_index f p = Some (Inr (sf_entries f ! nat p))"
proof -
  have "nat p < nat (sf_nkeys f)" using assms by simp
  with assms(1) obtain e where "SortedFile_index f (int (nat p)) = Some (Inr e)"
    unfolding sf_wf_def by blast
  with \<open>nat p < nat (sf_nkeys f)\<close> assms(2) show ?thesis by (simp add: sf_entries_def)
qed

lemma length_sf_entries [simp]: "length (sf_entries f) = nat (sf_nkeys f)"
  by (simp add: sf_entries_def)

lemma sf_open_wf:
  assumes "sf_fp f = Some c" "sf_nkeys f = int (length es)"
    and "sst_contents c est es" "sst_room est es" "sorted_entries es"
  shows "sf_wf f" and "sf_entries f = es"
proof -
  note idx = SortedFile_index_correct [OF assms(1-4)]
  show es: "sf_entries f = es"
    using assms(2) idx by (intro nth_equalityI) (simp_all add: sf_entries_def)
  show "sf_wf f" unfolding sf_wf_def es using assms(2,5) idx by auto
qed

lemma SortedFile_search_loop_correct:
  assumes "sf_wf f" "0 \<le> lo" "lo \<le> int (cutp (\<lambda>k. k < t) (sf_entries f))"
    and "int (cutp (\<lambda>k. k < t) (sf_entries f)) \<le> hi" "hi \<le> sf_nkeys f"
  shows "\<exists>found. SortedFile_search_loop f t lo hi = Some (Inr (int (cutp (\<lambda>k. k < t) (sf_entries f)), found))"
  using assms
proof (induction f t lo hi rule: SortedFile_search_loop.induct)
  case (1 f t lo hi)
  let ?n = "cutp (\<lambda>k. k < t) (sf_entries f)"
  show ?case
  proof (cases "lo < hi")
    case False
    then have "SortedFile_search_loop f t lo hi = Some (Inr (lo, False))"
      by (simp add: SortedFile_search_loop.simps [of f t lo hi])
    with False "1.prems" show ?thesis by auto
  next
    case True
    define m where "m = (lo + hi) div 2"
    have m: "lo \<le> m" "m < hi" using True by (auto simp: m_def)
    let ?e = "sf_entries f ! nat m"
    have idx: "SortedFile_index f m = Some (Inr ?e)"
      using m "1.prems" by (intro sf_index) auto
    have len: "nat m < length (sf_entries f)" using m "1.prems" by simp
    have srt: "sorted_entries (sf_entries f)" using "1.prems"(1) by (simp add: sf_wf_def)
    note cut = less_cut_iff [OF srt _ len, of "\<lambda>k. k < t"]
    note unf = SortedFile_search_loop.simps [of f t lo hi] True m_def [symmetric] idx Let_def bytes_Compare_cases
    consider (eq) "e_key ?e = t" | (lt) "e_key ?e < t" | (gt) "t < e_key ?e" by (rule linorder_cases) auto
    then show ?thesis
    proof cases
      case eq
      then have "?n = nat m" using cut_lt_nth [OF srt len] by simp
      then have "int ?n = m" using m "1.prems" by simp
      then show ?thesis using eq by (auto simp: unf)
    next
      case lt
      then have "nat m < ?n" using cut by simp
      with "1.IH"(1) [OF True m_def idx refl] lt m "1.prems" show ?thesis
        by (simp add: unf)
    next
      case gt
      then have "\<not> nat m < ?n" using cut by (auto dest: order_less_asym)
      with "1.IH"(2) [OF True m_def idx refl] gt m "1.prems" show ?thesis
        by (auto simp: unf)
    qed
  qed
qed

section \<open>The cursor satisfies the interface\<close>

definition fi_inv :: "SortedFileIter \<Rightarrow> bool" where
  "fi_inv it \<longleftrightarrow> sf_wf (fi_file it) \<and> - 1 \<le> fi_pos it \<and> fi_pos it \<le> sf_nkeys (fi_file it) \<and>
     (SortedFileIter_Valid it \<longrightarrow>
        sf_entries (fi_file it) ! nat (fi_pos it) =
          \<lparr>e_key = fi_key it, e_val = fi_val it, e_deleted = fi_deleted it\<rparr>)"

definition fi_rep :: "SortedFileIter \<Rightarrow> Entry list" where
  "fi_rep it = sf_entries (fi_file it)"

lemma SortedFileIter_load_correct:
  assumes "sf_wf (fi_file it)" "- 1 \<le> fi_pos it" "fi_pos it \<le> sf_nkeys (fi_file it)"
  shows "\<exists>it'. SortedFileIter_load it = Some (Inr (), it') \<and> fi_inv it' \<and> fi_rep it' = fi_rep it \<and>
    fi_pos it' = fi_pos it"
  using assms sf_index [of "fi_file it" "fi_pos it"]
  by (auto simp: SortedFileIter_load_def fi_inv_def fi_rep_def SortedFileIter_Valid_def)

lemma fi_inv_moved:
  assumes "fi_inv it" "- 1 \<le> p" "p \<le> sf_nkeys (fi_file it)"
  shows "\<exists>it'. SortedFileIter_load (it\<lparr>fi_pos := p\<rparr>) = Some (Inr (), it') \<and> fi_inv it' \<and>
    fi_rep it' = fi_rep it \<and> fi_pos it' = p"
  using SortedFileIter_load_correct [of "it\<lparr>fi_pos := p\<rparr>"] assms by (auto simp: fi_inv_def fi_rep_def)

lemmas SortedFileIter_defs = SortedFile_ops_def SortedFileIter_Valid_def
  SortedFileIter_Next_def SortedFileIter_Prev_def

lemma int_sf_nkeys: "fi_inv c \<Longrightarrow> int (length (fi_rep c)) = sf_nkeys (fi_file c)"
  by (simp add: fi_inv_def fi_rep_def sf_wf_def)

interpretation file_cursor: end_cursor SortedFile_ops fi_inv fi_rep fi_pos
proof unfold_locales
  fix c
  assume c: "fi_inv c"
  note nk = int_sf_nkeys [OF c]
  show "sorted_entries (fi_rep c)" using c by (simp add: fi_inv_def sf_wf_def fi_rep_def)
  show "it_Valid SortedFile_ops c \<longleftrightarrow> 0 \<le> fi_pos c \<and> fi_pos c < int (length (fi_rep c))"
    unfolding nk by (simp add: SortedFileIter_defs)
  show "- 1 \<le> fi_pos c \<and> fi_pos c \<le> int (length (fi_rep c))" unfolding nk using c by (simp add: fi_inv_def)
  show "it_Valid SortedFile_ops c \<Longrightarrow> it_Key SortedFile_ops c = Some (e_key (fi_rep c ! nat (fi_pos c)))"
    "it_Valid SortedFile_ops c \<Longrightarrow> it_Val SortedFile_ops c = Some (e_val (fi_rep c ! nat (fi_pos c)))"
    "it_Valid SortedFile_ops c \<Longrightarrow> it_Deleted SortedFile_ops c = Some (e_deleted (fi_rep c ! nat (fi_pos c)))"
    using c by (simp_all add: SortedFile_ops_def fi_inv_def fi_rep_def)
  show "it_Valid SortedFile_ops c \<Longrightarrow>
      \<exists>c'. it_Next SortedFile_ops c = Some (Inr (), c') \<and> fi_inv c' \<and> fi_rep c' = fi_rep c \<and> fi_pos c' = fi_pos c + 1"
    using fi_inv_moved [OF c, of "fi_pos c + 1"] by (simp add: SortedFileIter_defs)
  show "it_Valid SortedFile_ops c \<Longrightarrow>
      \<exists>c'. it_Prev SortedFile_ops c = Some (Inr (), c') \<and> fi_inv c' \<and> fi_rep c' = fi_rep c \<and> fi_pos c' = fi_pos c - 1"
    using fi_inv_moved [OF c, of "fi_pos c - 1"] by (simp add: SortedFileIter_defs)
  show "fi_pos c = - 1 \<Longrightarrow>
      \<exists>c'. it_Next SortedFile_ops c = Some (Inr (), c') \<and> fi_inv c' \<and> fi_rep c' = fi_rep c \<and> fi_pos c' = 0"
    using fi_inv_moved [OF c, of 0] nk by (simp add: SortedFileIter_defs)
  show "fi_pos c = int (length (fi_rep c)) \<Longrightarrow>
      \<exists>c'. it_Prev SortedFile_ops c = Some (Inr (), c') \<and> fi_inv c' \<and> fi_rep c' = fi_rep c \<and> fi_pos c' = fi_pos c - 1"
    using fi_inv_moved [OF c, of "fi_pos c - 1"] nk by (simp add: SortedFileIter_defs)
qed

lemma SortedFile_at_correct:
  assumes "sf_wf f" "- 1 \<le> p" "p \<le> sf_nkeys f"
  shows "\<exists>it. SortedFile_at f p = Some (Inr it) \<and> fi_inv it \<and> fi_rep it = sf_entries f \<and> fi_pos it = p"
  using SortedFileIter_load_correct [of "\<lparr>fi_file = f, fi_pos = p, fi_key = [], fi_val = [], fi_deleted = False\<rparr>"] assms
  by (auto simp: SortedFile_at_def fi_rep_def)

lemma SortedFile_Iter_correct:
  assumes "sf_wf f"
  shows "\<exists>it. SortedFile_Iter f = Some (Inr it) \<and> fi_inv it \<and> fi_rep it = sf_entries f \<and> fi_pos it = 0"
  using SortedFile_at_correct [OF assms, of 0] assms by (simp add: SortedFile_Iter_def sf_wf_def)

lemma SortedFile_Seek_correct:
  assumes "sf_wf f"
  shows "\<exists>it. SortedFile_Seek f k = Some (Inr it) \<and> fi_inv it \<and> fi_rep it = sf_entries f \<and>
    fi_pos it = int (cutp (\<lambda>x. x < k) (sf_entries f))"
proof -
  let ?n = "cutp (\<lambda>x. x < k) (sf_entries f)"
  have n: "int ?n \<le> sf_nkeys f"
    using cut_le_length [of "\<lambda>x. x < k" "sf_entries f"] assms
    unfolding sf_wf_def length_sf_entries by linarith
  then obtain b where "SortedFile_search f k = Some (Inr (int ?n, b))"
    using SortedFile_search_loop_correct [OF assms, of 0 k "sf_nkeys f"] by (auto simp: SortedFile_search_def)
  then show ?thesis
    using SortedFile_at_correct [OF assms, of "int ?n"] n by (simp add: SortedFile_Seek_def)
qed

end
