(* ===== verification/Merge.thy ===== *)
theory Merge
  imports SSTable
begin

text \<open>
  \<^verbatim>\<open>storage/merge.go\<close>: several sorted levels as one sorted stream, the newest level
  first.  The merge works on any cursors (\<open>iter_ops\<close>); \<open>Merged_ops\<close> is its own method table.
  \<open>merged_inv\<close> describes the states that valid moves reach: every level stands at the cut that the
  current key makes, on the side of the direction of travel.  The result is
  \<open>merged_scan_cursor\<close>: over levels that satisfy \<open>end_cursor\<close> the merge satisfies \<open>scan_cursor\<close> for
  \<open>merge_entries\<close> of the levels, also when the direction changes half way.

  A nil \<^verbatim>\<open>frontier\<close> is the empty list: \<^verbatim>\<open>append([]byte(nil), key...)\<close> is nil exactly when the
  key is empty.
\<close>

record 'c MergedSortedKVIter =
  m_levels :: "'c list"
  m_which :: int
  m_frontier :: bytes
  m_desc :: bool

definition at_which :: "('c \<Rightarrow> 'a option) \<Rightarrow> 'c MergedSortedKVIter \<Rightarrow> 'a option" where
  "at_which get it = Option.bind (slice_at (m_levels it) (m_which it)) get"

definition Merged_Valid :: "'c MergedSortedKVIter \<Rightarrow> bool" where
  "Merged_Valid it \<longleftrightarrow> m_which it \<ge> 0"

definition Merged_Key :: "'c iter_ops \<Rightarrow> 'c MergedSortedKVIter \<Rightarrow> bytes option" where
  "Merged_Key ops it = at_which (it_Key ops) it"

definition Merged_Val :: "'c iter_ops \<Rightarrow> 'c MergedSortedKVIter \<Rightarrow> bytes option" where
  "Merged_Val ops it = at_which (it_Val ops) it"

definition Merged_Deleted :: "'c iter_ops \<Rightarrow> 'c MergedSortedKVIter \<Rightarrow> bool option" where
  "Merged_Deleted ops it = at_which (it_Deleted ops) it"

definition captureFrontier :: "'c iter_ops \<Rightarrow> 'c MergedSortedKVIter \<Rightarrow> 'c MergedSortedKVIter option" where
  "captureFrontier ops it =
     (if m_which it < 0 then Some (it\<lparr>m_frontier := []\<rparr>)
      else case Merged_Key ops it of None \<Rightarrow> None | Some k \<Rightarrow> Some (it\<lparr>m_frontier := k\<rparr>))"

text \<open>The loop of \<^verbatim>\<open>extreme\<close> over the levels from index \<open>i\<close> on.\<close>

fun extreme_loop :: "'c iter_ops \<Rightarrow> bool \<Rightarrow> 'c list \<Rightarrow> int \<Rightarrow> 'c list \<Rightarrow> int \<Rightarrow> int option" where
  "extreme_loop ops ds all i [] best = Some best"
| "extreme_loop ops ds all i (lv # lvs) best =
     (if \<not> it_Valid ops lv then extreme_loop ops ds all (i + 1) lvs best
      else if best = -1 then extreme_loop ops ds all (i + 1) lvs i
      else case (it_Key ops lv, Option.bind (slice_at all best) (it_Key ops)) of
        (Some k, Some kb) \<Rightarrow>
          let c = bytes_Compare k kb in
          extreme_loop ops ds all (i + 1) lvs (if (\<not> ds \<and> c < 0) \<or> (ds \<and> c > 0) then i else best)
      | _ \<Rightarrow> None)"

definition extreme :: "'c iter_ops \<Rightarrow> 'c MergedSortedKVIter \<Rightarrow> int option" where
  "extreme ops it = extreme_loop ops (m_desc it) (m_levels it) 0 (m_levels it) (-1)"

definition advance :: "'c iter_ops \<Rightarrow> bool \<Rightarrow> ('c, unit) st" where
  "advance ops ds lv = (if ds then it_Prev ops lv else it_Next ops lv)"

text \<open>\<^verbatim>\<open>for lv.Valid() && bytes.Compare(lv.Key(), key) >= 0\<close> stepping back (\<open>ds\<close>), or the mirror image.\<close>

partial_function (option) reorient_loop :: "'c iter_ops \<Rightarrow> bytes \<Rightarrow> bool \<Rightarrow> 'c \<Rightarrow> (unit res \<times> 'c) option" where
  "reorient_loop ops key ds lv =
     (if it_Valid ops lv
      then (case it_Key ops lv of
          None \<Rightarrow> None
        | Some k \<Rightarrow>
            if (if ds then bytes_Compare k key \<ge> 0 else bytes_Compare k key \<le> 0)
            then (case advance ops ds lv of
                None \<Rightarrow> None
              | Some (Inl e, lv') \<Rightarrow> Some (Inl e, lv')
              | Some (Inr _, lv') \<Rightarrow> reorient_loop ops key ds lv')
            else Some (Inr (), lv))
      else Some (Inr (), lv))"

definition reorient :: "'c iter_ops \<Rightarrow> bytes \<Rightarrow> bool \<Rightarrow> ('c, unit) st" where
  "reorient ops key ds lv =
     (if \<not> it_Valid ops lv
      then (case advance ops ds lv of
          None \<Rightarrow> None
        | Some (Inl e, lv') \<Rightarrow> Some (Inl e, lv')
        | Some (Inr _, lv') \<Rightarrow> reorient_loop ops key ds lv')
      else reorient_loop ops key ds lv)"

text \<open>A loop over the levels that stops at the first error; the levels before it have moved.\<close>

primrec each_level :: "('c, unit) st \<Rightarrow> ('c list, unit) st" where
  "each_level f [] = Some (Inr (), [])"
| "each_level f (lv # lvs) =
     (case f lv of
        None \<Rightarrow> None
      | Some (Inl e, lv') \<Rightarrow> Some (Inl e, lv' # lvs)
      | Some (Inr _, lv') \<Rightarrow>
          (case each_level f lvs of None \<Rightarrow> None | Some (r, lvs') \<Rightarrow> Some (r, lv' # lvs')))"

text \<open>\<^verbatim>\<open>it.which = it.extreme(); it.captureFrontier()\<close>\<close>

definition settle :: "'c iter_ops \<Rightarrow> 'c MergedSortedKVIter \<Rightarrow> 'c MergedSortedKVIter option" where
  "settle ops it =
     (case extreme ops it of None \<Rightarrow> None | Some w \<Rightarrow> captureFrontier ops (it\<lparr>m_which := w\<rparr>))"

text \<open>One level of the advance loop: only a level that stands on the current key moves.\<close>

definition advance_if_on :: "'c iter_ops \<Rightarrow> bytes \<Rightarrow> bool \<Rightarrow> ('c, unit) st" where
  "advance_if_on ops key ds lv =
     (if it_Valid ops lv
      then (case it_Key ops lv of
          None \<Rightarrow> None
        | Some k \<Rightarrow> if k = key then advance ops ds lv else Some (Inr (), lv))
      else Some (Inr (), lv))"

definition step_levels ::
  "'c iter_ops \<Rightarrow> ('c, unit) st \<Rightarrow> ('c MergedSortedKVIter, unit) st" where
  "step_levels ops f it =
     (case each_level f (m_levels it) of
        None \<Rightarrow> None
      | Some (Inl e, lvs) \<Rightarrow> Some (Inl e, it\<lparr>m_levels := lvs\<rparr>)
      | Some (Inr _, lvs) \<Rightarrow>
          (case settle ops (it\<lparr>m_levels := lvs\<rparr>) of None \<Rightarrow> None | Some it' \<Rightarrow> Some (Inr (), it')))"

definition Merged_step :: "'c iter_ops \<Rightarrow> bool \<Rightarrow> ('c MergedSortedKVIter, unit) st" where
  "Merged_step ops ds it =
     (if ds \<noteq> m_desc it
      then let it1 = it\<lparr>m_desc := ds\<rparr> in
           if m_frontier it1 = [] then Some (Inr (), it1\<lparr>m_which := -1\<rparr>)
           else step_levels ops (reorient ops (m_frontier it1) ds) it1
      else if m_which it < 0 then Some (Inr (), it)
      else case Merged_Key ops it of
        None \<Rightarrow> None
      | Some key \<Rightarrow> step_levels ops (advance_if_on ops key ds) it)"

definition Merged_Next :: "'c iter_ops \<Rightarrow> ('c MergedSortedKVIter, unit) st" where
  "Merged_Next ops it = Merged_step ops False it"

definition Merged_Prev :: "'c iter_ops \<Rightarrow> ('c MergedSortedKVIter, unit) st" where
  "Merged_Prev ops it = Merged_step ops True it"

definition Merged_ops :: "'c iter_ops \<Rightarrow> 'c MergedSortedKVIter iter_ops" where
  "Merged_ops ops = \<lparr>
     it_Valid = Merged_Valid, it_Key = Merged_Key ops, it_Val = Merged_Val ops,
     it_Deleted = Merged_Deleted ops, it_Next = Merged_Next ops, it_Prev = Merged_Prev ops\<rparr>"

text \<open>\<^verbatim>\<open>cursor\<close> opens every level in turn; the first error ends it.\<close>

primrec open_levels :: "('s \<Rightarrow> 'c go) \<Rightarrow> 's list \<Rightarrow> 'c list go" where
  "open_levels opn [] = Some (Inr [])"
| "open_levels opn (s # ss) =
     go_bind (opn s) (\<lambda>it. go_bind (open_levels opn ss) (\<lambda>its. Some (Inr (it # its))))"

definition Merged_cursor :: "'c iter_ops \<Rightarrow> ('s \<Rightarrow> 'c go) \<Rightarrow> 's list \<Rightarrow> 'c MergedSortedKVIter go" where
  "Merged_cursor ops opn m =
     go_bind (open_levels opn m) (\<lambda>its.
       case settle ops \<lparr>m_levels = its, m_which = 0, m_frontier = [], m_desc = False\<rparr> of
         None \<Rightarrow> None | Some it \<Rightarrow> Some (Inr it))"

section \<open>The levels of the engine\<close>

text \<open>
  The two implementations of \<^verbatim>\<open>SortedKV\<close> that are merged, and of \<^verbatim>\<open>SortedKVIter\<close> under a
  merge; \<open>level_ops\<close> dispatches on the implementation.
\<close>

datatype SortedKV = MemKV SortedArray | FileKV SortedFile

datatype level_iter = ArrIter SortedArrayIter | FileIter SortedFileIter

definition level_ops :: "level_iter iter_ops" where
  "level_ops = \<lparr>
     it_Valid = case_level_iter SortedArrayIter_Valid SortedFileIter_Valid,
     it_Key = case_level_iter SortedArrayIter_Key (\<lambda>it. Some (fi_key it)),
     it_Val = case_level_iter SortedArrayIter_Val (\<lambda>it. Some (fi_val it)),
     it_Deleted = case_level_iter SortedArrayIter_Deleted (\<lambda>it. Some (fi_deleted it)),
     it_Next = case_level_iter (\<lambda>a. map_option (apsnd ArrIter) (SortedArrayIter_Next a))
                               (\<lambda>f. map_option (apsnd FileIter) (SortedFileIter_Next f)),
     it_Prev = case_level_iter (\<lambda>a. map_option (apsnd ArrIter) (SortedArrayIter_Prev a))
                               (\<lambda>f. map_option (apsnd FileIter) (SortedFileIter_Prev f))\<rparr>"

definition SortedKV_EstimatedSize :: "SortedKV \<Rightarrow> int" where
  "SortedKV_EstimatedSize s =
     (case s of MemKV a \<Rightarrow> int (SortedArray_EstimatedSize a) | FileKV f \<Rightarrow> SortedFile_EstimatedSize f)"

definition SortedKV_Iter :: "SortedKV \<Rightarrow> level_iter go" where
  "SortedKV_Iter s =
     (case s of
        MemKV a \<Rightarrow> Some (map_sum id ArrIter (SortedArray_Iter a))
      | FileKV f \<Rightarrow> map_option (map_sum id FileIter) (SortedFile_Iter f))"

definition SortedKV_Seek :: "bytes \<Rightarrow> SortedKV \<Rightarrow> level_iter go" where
  "SortedKV_Seek key s =
     (case s of
        MemKV a \<Rightarrow> Some (map_sum id ArrIter (SortedArray_Seek a key))
      | FileKV f \<Rightarrow> map_option (map_sum id FileIter) (SortedFile_Seek f key))"

definition MergedSortedKV_EstimatedSize :: "SortedKV list \<Rightarrow> int" where
  "MergedSortedKV_EstimatedSize m = sum_list (map SortedKV_EstimatedSize m)"

definition MergedSortedKV_Iter :: "SortedKV list \<Rightarrow> level_iter MergedSortedKVIter go" where
  "MergedSortedKV_Iter m = Merged_cursor level_ops SortedKV_Iter m"

definition MergedSortedKV_Seek :: "SortedKV list \<Rightarrow> bytes \<Rightarrow> level_iter MergedSortedKVIter go" where
  "MergedSortedKV_Seek m key = Merged_cursor level_ops (SortedKV_Seek key) m"

section \<open>The extreme level\<close>

text \<open>Among the first \<open>n\<close> levels, \<open>b\<close> is the first one with the smallest (largest) current key.\<close>

definition is_extreme :: "'c iter_ops \<Rightarrow> bool \<Rightarrow> 'c list \<Rightarrow> nat \<Rightarrow> int \<Rightarrow> bool" where
  "is_extreme ops ds all n b \<longleftrightarrow>
     b = -1 \<and> (\<forall>j<n. \<not> it_Valid ops (all ! j)) \<or>
     (\<exists>m kb. b = int m \<and> m < n \<and> it_Valid ops (all ! m) \<and> it_Key ops (all ! m) = Some kb \<and>
        (\<forall>j<n. \<forall>k. it_Valid ops (all ! j) \<longrightarrow> it_Key ops (all ! j) = Some k \<longrightarrow>
           (if ds then k \<le> kb else kb \<le> k) \<and> (j < m \<longrightarrow> k \<noteq> kb)))"

lemma extreme_loop_correct:
  assumes "\<And>lv. lv \<in> set all \<Longrightarrow> it_Valid ops lv \<Longrightarrow> it_Key ops lv \<noteq> None"
    and "all = done @ lvs" "is_extreme ops ds all (length done) best"
  shows "\<exists>b. extreme_loop ops ds all (int (length done)) lvs best = Some b \<and> is_extreme ops ds all (length all) b"
  using assms(2,3)
proof (induction lvs arbitrary: "done" best)
  case Nil
  then show ?case by simp
next
  case (Cons lv lvs)
  let ?n = "length done"
  have lv: "all ! ?n = lv" "?n < length all" using Cons.prems(1) by simp_all
  have step: "\<exists>b. extreme_loop ops ds all (int ?n + 1) lvs best' = Some b \<and> is_extreme ops ds all (length all) b"
    if "is_extreme ops ds all (Suc ?n) best'" for best'
    using Cons.IH [of "done @ [lv]" best'] that Cons.prems(1) by (simp add: add.commute)
  show ?case
  proof (cases "it_Valid ops lv")
    case False
    then have "is_extreme ops ds all (Suc ?n) best"
      using Cons.prems(2) lv(1) by (auto simp: is_extreme_def less_Suc_eq)
    from step [OF this] False show ?thesis by simp
  next
    case True
    then obtain k where k: "it_Key ops lv = Some k" using assms(1) [of lv] Cons.prems(1) by auto
    show ?thesis
    proof (cases "best = -1")
      case best: True
      then have "is_extreme ops ds all (Suc ?n) (int ?n)"
        using Cons.prems(2) lv(1) True k by (auto simp: is_extreme_def less_Suc_eq)
      from step [OF this] True best show ?thesis by simp
    next
      case False
      with Cons.prems(2) obtain m kb where m: "best = int m" "m < ?n" "it_Valid ops (all ! m)" "it_Key ops (all ! m) = Some kb"
        and le: "\<And>j k. j < ?n \<Longrightarrow> it_Valid ops (all ! j) \<Longrightarrow> it_Key ops (all ! j) = Some k \<Longrightarrow>
           (if ds then k \<le> kb else kb \<le> k) \<and> (j < m \<longrightarrow> k \<noteq> kb)"
        unfolding is_extreme_def by blast
      let ?better = "(\<not> ds \<and> k < kb) \<or> (ds \<and> k > kb)"
      have "slice_at all best = Some (all ! m)" using m lv(2) by (simp add: slice_at_def)
      then have unf: "extreme_loop ops ds all (int ?n) (lv # lvs) best =
          extreme_loop ops ds all (int ?n + 1) lvs (if ?better then int ?n else best)"
        using True False k m(4) by (simp add: Let_def)
      have "is_extreme ops ds all (Suc ?n) (if ?better then int ?n else best)"
      proof (cases ?better)
        case b: True
        have "(if ds then k' \<le> k else k \<le> k') \<and> (j < ?n \<longrightarrow> k' \<noteq> k)"
          if "j < Suc ?n" "it_Valid ops (all ! j)" "it_Key ops (all ! j) = Some k'" for j k'
          using that le [of j k'] lv(1) k b by (cases "j = ?n") (auto simp: less_Suc_eq split: if_splits)
        then show ?thesis unfolding is_extreme_def using b lv(1) True k by auto
      next
        case nb: False
        have "(if ds then k' \<le> kb else kb \<le> k') \<and> (j < m \<longrightarrow> k' \<noteq> kb)"
          if "j < Suc ?n" "it_Valid ops (all ! j)" "it_Key ops (all ! j) = Some k'" for j k'
          using that le [of j k'] lv(1) k nb m(2) by (cases "j = ?n") (auto simp: less_Suc_eq not_less split: if_splits)
        then show ?thesis unfolding is_extreme_def using nb m by auto
      qed
      from step [OF this] show ?thesis unfolding unf .
    qed
  qed
qed

lemma extreme_correct:
  assumes "\<And>lv. lv \<in> set (m_levels it) \<Longrightarrow> it_Valid ops lv \<Longrightarrow> it_Key ops lv \<noteq> None"
  shows "\<exists>b. extreme ops it = Some b \<and> is_extreme ops (m_desc it) (m_levels it) (length (m_levels it)) b"
  using extreme_loop_correct [of "m_levels it" ops "[]" "m_levels it" "m_desc it" "-1"] assms
  by (simp add: extreme_def is_extreme_def)

lemma each_level_correct:
  assumes "\<And>lv. lv \<in> set lvs \<Longrightarrow> \<exists>lv'. f lv = Some (Inr (), lv') \<and> R lv lv'"
  shows "\<exists>lvs'. each_level f lvs = Some (Inr (), lvs') \<and> list_all2 R lvs lvs'"
  using assms
proof (induction lvs)
  case (Cons lv lvs)
  then obtain lvs' where "each_level f lvs = Some (Inr (), lvs')" "list_all2 R lvs lvs'" by auto
  moreover obtain lv' where "f lv = Some (Inr (), lv')" "R lv lv'" using Cons.prems by auto
  ultimately show ?case by auto
qed simp

section \<open>The states of a merge\<close>

definition merged_rep :: "('c \<Rightarrow> Entry list) \<Rightarrow> 'c MergedSortedKVIter \<Rightarrow> Entry list" where
  "merged_rep rep it = merge_entries (map rep (m_levels it))"

definition merged_pos :: "('c \<Rightarrow> Entry list) \<Rightarrow> 'c MergedSortedKVIter \<Rightarrow> int" where
  "merged_pos rep it =
     (if m_which it \<ge> 0 then int (cutp (\<lambda>k. k < m_frontier it) (merged_rep rep it))
      else if m_desc it then -1 else int (length (merged_rep rep it)))"

text \<open>Every level stands at the cut of \<open>P\<close>: on the first entry past it going up, on the last
  entry before it going down.\<close>

definition levels_at ::
  "('c \<Rightarrow> bool) \<Rightarrow> ('c \<Rightarrow> Entry list) \<Rightarrow> ('c \<Rightarrow> int) \<Rightarrow> bool \<Rightarrow> (bytes \<Rightarrow> bool) \<Rightarrow> 'c list \<Rightarrow> bool" where
  "levels_at ok rep pos ds P lvs \<longleftrightarrow>
     (\<forall>lv\<in>set lvs. ok lv \<and> pos lv = int (cutp P (rep lv)) - (if ds then 1 else 0))"

definition first_with :: "Entry list list \<Rightarrow> bytes \<Rightarrow> nat \<Rightarrow> bool" where
  "first_with ess k m \<longleftrightarrow> m < length ess \<and> k \<in> e_key ` set (ess ! m) \<and> (\<forall>j<m. k \<notin> e_key ` set (ess ! j))"

definition merged_inv ::
  "('c \<Rightarrow> bool) \<Rightarrow> ('c \<Rightarrow> Entry list) \<Rightarrow> ('c \<Rightarrow> int) \<Rightarrow> 'c MergedSortedKVIter \<Rightarrow> bool" where
  "merged_inv ok rep pos it \<longleftrightarrow>
     (m_desc it \<longrightarrow> [] \<notin> level_keys (map rep (m_levels it))) \<and>
     (if m_which it \<ge> 0
      then first_with (map rep (m_levels it)) (m_frontier it) (nat (m_which it)) \<and>
           levels_at ok rep pos (m_desc it)
             (if m_desc it then (\<lambda>k. k \<le> m_frontier it) else (\<lambda>k. k < m_frontier it)) (m_levels it)
      else m_frontier it = [] \<and>
           levels_at ok rep pos (m_desc it) (\<lambda>k. \<not> m_desc it) (m_levels it))"

lemma first_with_keys: "first_with ess k m \<Longrightarrow> k \<in> level_keys ess"
  by (auto simp: first_with_def level_keys_def)

lemma levels_map_first_with:
  "first_with ess k m \<Longrightarrow> levels_map ess k = es_map (ess ! m) k"
proof (induction ess arbitrary: m)
  case (Cons es ess)
  show ?case
  proof (cases m)
    case 0
    then obtain e where "es_map es k = Some e"
      using Cons.prems es_map_None [of es k] by (cases "es_map es k") (auto simp: first_with_def)
    with 0 show ?thesis by (simp add: map_add_def)
  next
    case (Suc m')
    have "k \<notin> e_key ` set es" using Cons.prems Suc by (force simp: first_with_def)
    then have "es_map es k = None" by (simp add: es_map_None)
    moreover have "first_with ess k m'"
      using Cons.prems Suc by (auto simp: first_with_def)
    ultimately show ?thesis using Cons.IH [of m'] Suc by (simp add: map_add_def)
  qed
qed (simp add: first_with_def)

lemma level_keys_iff: "k \<in> level_keys (map rep lvs) \<longleftrightarrow> (\<exists>lv\<in>set lvs. k \<in> e_key ` set (rep lv))"
  by (simp add: level_keys_def)

text \<open>Stepping over levels that satisfy \<open>end_cursor\<close>.\<close>

context end_cursor
begin

lemma levels_valid_key:
  assumes "levels_at inv rep pos ds P lvs" "lv \<in> set lvs"
  shows "inv lv" "it_Valid ops lv \<Longrightarrow> it_Key ops lv \<noteq> None" "sorted_entries (rep lv)"
  using assms key [of lv] sorted [of lv] by (auto simp: levels_at_def)

lemma level_up:
  assumes at: "levels_at inv rep pos False P lvs" and lv: "lv \<in> set lvs" and P: "down_closed P"
  shows "it_Valid ops lv \<longleftrightarrow> (\<exists>k\<in>e_key ` set (rep lv). \<not> P k)"
    and "it_Valid ops lv \<Longrightarrow> it_Key ops lv = Some c \<Longrightarrow>
       c \<in> e_key ` set (rep lv) \<and> \<not> P c \<and> (\<forall>k\<in>e_key ` set (rep lv). \<not> P k \<longrightarrow> c \<le> k)"
proof -
  let ?es = "rep lv" and ?n = "cutp P (rep lv)"
  have i: "inv lv" and p: "pos lv = int ?n" and s: "sorted_entries ?es"
    using at lv sorted by (auto simp: levels_at_def)
  note cut = less_cut_iff [OF s P]
  have v: "it_Valid ops lv \<longleftrightarrow> ?n < length ?es" using valid [OF i] p by simp
  also have "\<dots> \<longleftrightarrow> (\<exists>k\<in>e_key ` set ?es. \<not> P k)"
  proof
    assume "?n < length ?es"
    with cut [of ?n] show "\<exists>k\<in>e_key ` set ?es. \<not> P k" by force
  next
    assume "\<exists>k\<in>e_key ` set ?es. \<not> P k"
    then obtain j where "j < length ?es" "\<not> P (e_key (?es ! j))" by (auto simp: in_set_conv_nth)
    with cut [of j] show "?n < length ?es" by linarith
  qed
  finally show "it_Valid ops lv \<longleftrightarrow> (\<exists>k\<in>e_key ` set ?es. \<not> P k)" .
  assume val: "it_Valid ops lv" and c: "it_Key ops lv = Some c"
  then have n: "?n < length ?es" and ck: "c = e_key (?es ! ?n)" using v key [OF i val] p by simp_all
  have "c \<le> k" if "k \<in> e_key ` set ?es" "\<not> P k" for k
  proof -
    from that obtain j where j: "j < length ?es" "k = e_key (?es ! j)" by (auto simp: in_set_conv_nth)
    with that cut [of j] have "?n \<le> j" by simp
    then show ?thesis
      using sorted_entries_nth_less [OF s, of ?n j] j ck by (cases "?n = j") auto
  qed
  then show "c \<in> e_key ` set ?es \<and> \<not> P c \<and> (\<forall>k\<in>e_key ` set ?es. \<not> P k \<longrightarrow> c \<le> k)"
    using n ck cut [of ?n] by auto
qed

lemma level_down:
  assumes at: "levels_at inv rep pos True P lvs" and lv: "lv \<in> set lvs" and P: "down_closed P"
  shows "it_Valid ops lv \<longleftrightarrow> (\<exists>k\<in>e_key ` set (rep lv). P k)"
    and "it_Valid ops lv \<Longrightarrow> it_Key ops lv = Some c \<Longrightarrow>
       c \<in> e_key ` set (rep lv) \<and> P c \<and> (\<forall>k\<in>e_key ` set (rep lv). P k \<longrightarrow> k \<le> c)"
proof -
  let ?es = "rep lv" and ?n = "cutp P (rep lv)"
  have i: "inv lv" and p: "pos lv = int ?n - 1" and s: "sorted_entries ?es"
    using at lv sorted by (auto simp: levels_at_def)
  note cut = less_cut_iff [OF s P]
  have le: "?n \<le> length ?es" by simp
  have v: "it_Valid ops lv \<longleftrightarrow> 0 < ?n" using valid [OF i] p le by auto
  also have "\<dots> \<longleftrightarrow> (\<exists>k\<in>e_key ` set ?es. P k)"
  proof
    assume "0 < ?n"
    with le have "0 < length ?es" by linarith
    with cut [of 0] \<open>0 < ?n\<close> show "\<exists>k\<in>e_key ` set ?es. P k" by force
  next
    assume "\<exists>k\<in>e_key ` set ?es. P k"
    then obtain j where "j < length ?es" "P (e_key (?es ! j))" by (auto simp: in_set_conv_nth)
    with cut [of j] show "0 < ?n" by linarith
  qed
  finally show "it_Valid ops lv \<longleftrightarrow> (\<exists>k\<in>e_key ` set ?es. P k)" .
  assume val: "it_Valid ops lv" and c: "it_Key ops lv = Some c"
  then have n: "0 < ?n" and ck: "c = e_key (?es ! (?n - 1))"
    using v key [OF i val] p by (simp_all add: nat_diff_distrib)
  have n1: "?n - 1 < length ?es" using n le by linarith
  have "k \<le> c" if "k \<in> e_key ` set ?es" "P k" for k
  proof -
    from that obtain j where j: "j < length ?es" "k = e_key (?es ! j)" by (auto simp: in_set_conv_nth)
    with that cut [of j] have "j \<le> ?n - 1" by simp
    then show ?thesis
      using sorted_entries_nth_less [OF s, of j "?n - 1"] n1 j ck by (cases "j = ?n - 1") auto
  qed
  then show "c \<in> e_key ` set ?es \<and> P c \<and> (\<forall>k\<in>e_key ` set ?es. P k \<longrightarrow> k \<le> c)"
    using n n1 ck cut [of "?n - 1"] by auto
qed

text \<open>Whatever the cut, the extreme level is the first one that holds the next key in the
  direction of travel, and that key makes the same cut.\<close>

lemma extreme_key:
  assumes at: "levels_at inv rep pos ds P lvs" and P: "down_closed P"
    and ex: "is_extreme ops ds lvs (length lvs) (int m)"
    and Q: "Q = (if ds then (\<lambda>x. x \<le> kb) else (\<lambda>x. x < kb))"
    and kb: "it_Key ops (lvs ! m) = Some kb"
  shows "first_with (map rep lvs) kb m" and "\<And>k. k \<in> level_keys (map rep lvs) \<Longrightarrow> P k = Q k"
proof -
  from ex kb have m: "m < length lvs" "it_Valid ops (lvs ! m)"
    and best: "\<And>j k. j < length lvs \<Longrightarrow> it_Valid ops (lvs ! j) \<Longrightarrow> it_Key ops (lvs ! j) = Some k \<Longrightarrow>
         (if ds then k \<le> kb else kb \<le> k) \<and> (j < m \<longrightarrow> k \<noteq> kb)"
    by (auto simp: is_extreme_def)
  define Out where "Out = (\<lambda>k. if ds then P k else \<not> P k)"
  have lvl1: "it_Valid ops lv \<longleftrightarrow> (\<exists>k\<in>e_key ` set (rep lv). Out k)" if "lv \<in> set lvs" for lv
  proof (cases ds)
    case True
    then show ?thesis using level_down(1) [OF _ that P] at by (simp add: Out_def)
  next
    case False
    then show ?thesis using level_up(1) [OF _ that P] at by (simp add: Out_def)
  qed
  have lvl2: "c \<in> e_key ` set (rep lv) \<and> Out c \<and>
       (\<forall>k\<in>e_key ` set (rep lv). Out k \<longrightarrow> (if ds then k \<le> c else c \<le> k))"
    if "lv \<in> set lvs" "it_Valid ops lv" "it_Key ops lv = Some c" for lv c
  proof (cases ds)
    case True
    then show ?thesis using level_down(2) [OF _ that(1) P that(2,3)] at by (simp add: Out_def)
  next
    case False
    then show ?thesis using level_up(2) [OF _ that(1) P that(2,3)] at by (simp add: Out_def)
  qed
  have mem: "lvs ! m \<in> set lvs" using m(1) by simp
  note kbm = lvl2 [OF mem m(2) kb]
  have out: "if ds then k \<le> kb else kb \<le> k" if "k \<in> level_keys (map rep lvs)" "Out k" for k
  proof -
    from that(1) obtain j where j: "j < length lvs" "k \<in> e_key ` set (rep (lvs ! j))"
      unfolding level_keys_iff by (metis in_set_conv_nth)
    then have jm: "lvs ! j \<in> set lvs" by simp
    with lvl1 [OF jm] j that(2) have v: "it_Valid ops (lvs ! j)" by blast
    then obtain c where c: "it_Key ops (lvs ! j) = Some c"
      using levels_valid_key [OF at jm] by blast
    show ?thesis
      using best [OF j(1) v c] lvl2 [OF jm v c] j(2) that(2) by (cases ds) (auto intro: order_trans)
  qed
  show "P k = Q k" if k: "k \<in> level_keys (map rep lvs)" for k
  proof (cases "Out k")
    case True
    then show ?thesis using out [OF k True] by (cases ds) (auto simp: Out_def Q)
  next
    case False
    have "Out kb" using kbm by blast
    with False have "if ds then kb < k else k < kb"
      using P by (cases ds) (auto simp: Out_def down_closed_def not_le [symmetric])
    then show ?thesis using False by (cases ds) (auto simp: Out_def Q)
  qed
  show "first_with (map rep lvs) kb m"
    unfolding first_with_def
  proof (intro conjI allI impI)
    show "m < length (map rep lvs)" using m by simp
    show "kb \<in> e_key ` set (map rep lvs ! m)" using kbm m by simp
    fix j assume "j < m"
    show "kb \<notin> e_key ` set (map rep lvs ! j)"
    proof
      assume "kb \<in> e_key ` set (map rep lvs ! j)"
      then have kj: "kb \<in> e_key ` set (rep (lvs ! j))" using \<open>j < m\<close> m(1) by simp
      have j: "j < length lvs" "lvs ! j \<in> set lvs" using \<open>j < m\<close> m(1) by simp_all
      with lvl1 [OF j(2)] kj kbm have v: "it_Valid ops (lvs ! j)" by blast
      then obtain c where c: "it_Key ops (lvs ! j) = Some c"
        using levels_valid_key [OF at j(2)] by blast
      have "c = kb" using best [OF j(1) v c] lvl2 [OF j(2) v c] kj kbm by (cases ds) auto
      then show False using best [OF j(1) v c] \<open>j < m\<close> by simp
    qed
  qed
qed

lemma levels_at_cong:
  assumes at: "levels_at inv rep pos ds P lvs" and "down_closed P" "down_closed Q"
    and "\<And>k. k \<in> level_keys (map rep lvs) \<Longrightarrow> P k = Q k"
  shows "levels_at inv rep pos ds Q lvs"
  unfolding levels_at_def
proof (intro ballI)
  fix lv assume lv: "lv \<in> set lvs"
  then have i: "inv lv" and p: "pos lv = int (cutp P (rep lv)) - (if ds then 1 else 0)"
    using at by (auto simp: levels_at_def)
  have "cutp P (rep lv) = cutp Q (rep lv)"
    using assms(2-4) lv by (intro cut_cong sorted [OF i]) (auto simp: level_keys_iff)
  with i p show "inv lv \<and> pos lv = int (cutp Q (rep lv)) - (if ds then 1 else 0)" by simp
qed

lemma cut_merged_cong:
  assumes "down_closed P" "down_closed Q"
    and "\<And>k. k \<in> level_keys ess \<Longrightarrow> P k = Q k"
  shows "cutp P (merge_entries ess) = cutp Q (merge_entries ess)"
  using assms keys_merge_entries [of ess] by (intro cut_cong) auto

lemma settle_correct:
  assumes at: "levels_at inv rep pos (m_desc it) P (m_levels it)" and P: "down_closed P"
    and ne: "m_desc it \<Longrightarrow> [] \<notin> level_keys (map rep (m_levels it))"
  shows "\<exists>it'. settle ops it = Some it' \<and> m_levels it' = m_levels it \<and> m_desc it' = m_desc it \<and>
    merged_inv inv rep pos it' \<and>
    merged_pos rep it' = int (cutp P (merged_rep rep it)) - (if m_desc it then 1 else 0)"
proof -
  let ?lvs = "m_levels it" and ?ds = "m_desc it"
  let ?K = "level_keys (map rep ?lvs)" and ?M = "merge_entries (map rep ?lvs)"
  obtain b where b: "extreme ops it = Some b" "is_extreme ops ?ds ?lvs (length ?lvs) b"
    using extreme_correct [of it ops] levels_valid_key(2) [OF at] by blast
  show ?thesis
  proof (cases "b = -1")
    case True
    then have inval: "\<not> it_Valid ops lv" if "lv \<in> set ?lvs" for lv
      using b(2) that by (auto simp: is_extreme_def in_set_conv_nth)
    have PQ: "P k = (\<not> ?ds)" if "k \<in> ?K" for k
      using inval that level_up(1) [OF _ _ P] level_down(1) [OF _ _ P] at
      by (cases ?ds) (auto simp: level_keys_iff)
    have dQ: "down_closed (\<lambda>k. \<not> ?ds)" by (simp add: down_closed_def)
    have at': "levels_at inv rep pos ?ds (\<lambda>k. \<not> ?ds) ?lvs"
      using levels_at_cong [OF at P dQ PQ] .
    have "cutp P ?M = cutp (\<lambda>k. \<not> ?ds) ?M"
      using cut_merged_cong [OF P dQ PQ] .
    then show ?thesis
      using b True at' ne
      by (auto simp: settle_def captureFrontier_def merged_inv_def merged_pos_def merged_rep_def)
  next
    case False
    with b(2) obtain m kb where m: "b = int m" "m < length ?lvs" "it_Key ops (?lvs ! m) = Some kb"
      by (auto simp: is_extreme_def)
    define Q where "Q = (if ?ds then (\<lambda>x. x \<le> kb) else (\<lambda>x. x < kb))"
    note ek = extreme_key [OF at P b(2) [unfolded m(1)] Q_def m(3)]
    have dQ: "down_closed Q" by (simp add: Q_def)
    have at': "levels_at inv rep pos ?ds Q ?lvs"
      by (rule levels_at_cong [OF at P dQ ek(2)])
    have cutM: "cutp P ?M = cutp Q ?M" by (rule cut_merged_cong [OF P dQ ek(2)])
    have kbM: "kb \<in> e_key ` set ?M"
      using first_with_keys [OF ek(1)] by (simp add: keys_merge_entries)
    have "int (cutp (\<lambda>k. k < kb) ?M) = int (cutp Q ?M) - (if ?ds then 1 else 0)"
      using cut_at_key(3) [OF sorted_merge_entries kbM] by (simp add: Q_def)
    then show ?thesis
      using b m at' ne ek(1) cutM
      by (auto simp: settle_def captureFrontier_def Merged_Key_def at_which_def slice_at_def
          merged_inv_def merged_pos_def merged_rep_def Q_def)
  qed
qed

text \<open>The levels move one by one; each ends at the cut of \<open>Q\<close>.\<close>

lemma each_level_at:
  assumes "\<And>lv. lv \<in> set lvs \<Longrightarrow> \<exists>lv'. f lv = Some (Inr (), lv') \<and> inv lv' \<and> rep lv' = rep lv \<and>
      pos lv' = int (cutp Q (rep lv)) - (if ds then 1 else 0)"
  shows "\<exists>lvs'. each_level f lvs = Some (Inr (), lvs') \<and> map rep lvs' = map rep lvs \<and>
    levels_at inv rep pos ds Q lvs'"
proof -
  define R where "R = (\<lambda>lv lv'. inv lv' \<and> rep lv' = rep lv \<and>
      pos lv' = int (cutp Q (rep lv)) - (if ds then 1 else 0))"
  obtain lvs' where e: "each_level f lvs = Some (Inr (), lvs')" and r: "list_all2 R lvs lvs'"
    using each_level_correct [of lvs f R] assms unfolding R_def by blast
  from r have "map rep lvs' = map rep lvs"
    by (induction rule: list_all2_induct) (auto simp: R_def)
  moreover from r have "levels_at inv rep pos ds Q lvs'"
    by (induction rule: list_all2_induct) (auto simp: R_def levels_at_def)
  ultimately show ?thesis using e by blast
qed

lemma advance_if_on_up:
  assumes at: "levels_at inv rep pos False (\<lambda>k. k < F) lvs" and lv: "lv \<in> set lvs"
  shows "\<exists>lv'. advance_if_on ops F False lv = Some (Inr (), lv') \<and> inv lv' \<and> rep lv' = rep lv \<and>
      pos lv' = int (cutp (\<lambda>k. k \<le> F) (rep lv))"
proof -
  have i: "inv lv" and p: "pos lv = int (cutp (\<lambda>k. k < F) (rep lv))" and s: "sorted_entries (rep lv)"
    using at lv sorted by (auto simp: levels_at_def)
  note up = level_up [OF at lv down_closed_simps(1)]
  show ?thesis
  proof (cases "it_Valid ops lv \<and> it_Key ops lv = Some F")
    case True
    with up(2) [of F] have "F \<in> e_key ` set (rep lv)" by blast
    from cut_at_key(3) [OF s this] step_next [OF i] True p show ?thesis
      by (auto simp: advance_if_on_def advance_def)
  next
    case False
    have "F \<notin> e_key ` set (rep lv)"
    proof
      assume F: "F \<in> e_key ` set (rep lv)"
      with up(1) have v: "it_Valid ops lv" by force
      then obtain c where c: "it_Key ops lv = Some c" using levels_valid_key(2) [OF at lv] by blast
      with up(2) [OF v c] F have "c = F" by force
      with v c False show False by simp
    qed
    with cut_no_key [OF s] p i False levels_valid_key(2) [OF at lv] show ?thesis
      by (auto simp: advance_if_on_def)
  qed
qed

lemma advance_if_on_down:
  assumes at: "levels_at inv rep pos True (\<lambda>k. k \<le> F) lvs" and lv: "lv \<in> set lvs"
  shows "\<exists>lv'. advance_if_on ops F True lv = Some (Inr (), lv') \<and> inv lv' \<and> rep lv' = rep lv \<and>
      pos lv' = int (cutp (\<lambda>k. k < F) (rep lv)) - 1"
proof -
  have i: "inv lv" and p: "pos lv = int (cutp (\<lambda>k. k \<le> F) (rep lv)) - 1" and s: "sorted_entries (rep lv)"
    using at lv sorted by (auto simp: levels_at_def)
  note down = level_down [OF at lv down_closed_simps(2)]
  show ?thesis
  proof (cases "it_Valid ops lv \<and> it_Key ops lv = Some F")
    case True
    with down(2) [of F] have "F \<in> e_key ` set (rep lv)" by blast
    from cut_at_key(3) [OF s this] step_prev [OF i] True p show ?thesis
      by (auto simp: advance_if_on_def advance_def)
  next
    case False
    have "F \<notin> e_key ` set (rep lv)"
    proof
      assume F: "F \<in> e_key ` set (rep lv)"
      with down(1) have v: "it_Valid ops lv" by force
      then obtain c where c: "it_Key ops lv = Some c" using levels_valid_key(2) [OF at lv] by blast
      with down(2) [OF v c] F have "c = F" by force
      with v c False show False by simp
    qed
    with cut_no_key [OF s] p i False levels_valid_key(2) [OF at lv] show ?thesis
      by (auto simp: advance_if_on_def)
  qed
qed

text \<open>Reorientation walks back over the frontier, at most once over the level.\<close>

lemma reorient_loop_down:
  assumes "inv lv" "int (cutp (\<lambda>k. k < F) (rep lv)) - 1 \<le> pos lv" "pos lv < int (length (rep lv))"
  shows "\<exists>lv'. reorient_loop ops F True lv = Some (Inr (), lv') \<and> inv lv' \<and> rep lv' = rep lv \<and>
      pos lv' = int (cutp (\<lambda>k. k < F) (rep lv)) - 1"
  using assms
proof (induction "nat (pos lv + 1)" arbitrary: lv rule: less_induct)
  case less
  let ?n = "cutp (\<lambda>k. k < F) (rep lv)"
  note i = less.prems(1) and s = sorted [OF less.prems(1)]
  show ?case
  proof (cases "it_Valid ops lv")
    case False
    then have "pos lv = -1" using valid [OF i] pos_range [OF i] less.prems(3) by linarith
    with less.prems(2) False i show ?thesis by (subst reorient_loop.simps) auto
  next
    case v: True
    then have r: "0 \<le> pos lv" using valid [OF i] by simp
    have cut: "nat (pos lv) < ?n \<longleftrightarrow> e_key (rep lv ! nat (pos lv)) < F"
      using less_cut_iff [OF s down_closed_simps(1), of "nat (pos lv)" F] less.prems(3) r by simp
    show ?thesis
    proof (cases "e_key (rep lv ! nat (pos lv)) < F")
      case True
      with cut r less.prems(2) have "pos lv = int ?n - 1" by linarith
      with True v i key [OF i v] show ?thesis
        by (subst reorient_loop.simps) (auto simp: bytes_Compare_order)
    next
      case False
      obtain lv' where lv': "it_Prev ops lv = Some (Inr (), lv')" "inv lv'" "rep lv' = rep lv" "pos lv' = pos lv - 1"
        using step_prev [OF i v] by blast
      have "\<exists>lv''. reorient_loop ops F True lv' = Some (Inr (), lv'') \<and> inv lv'' \<and> rep lv'' = rep lv' \<and>
          pos lv'' = int (cutp (\<lambda>k. k < F) (rep lv')) - 1"
        using lv' less.prems False cut r by (intro less.hyps) auto
      with lv' v False key [OF i v] show ?thesis
        by (subst reorient_loop.simps) (auto simp: bytes_Compare_order advance_def)
    qed
  qed
qed

lemma reorient_loop_up:
  assumes "inv lv" "pos lv \<le> int (cutp (\<lambda>k. k \<le> F) (rep lv))" "0 \<le> pos lv"
  shows "\<exists>lv'. reorient_loop ops F False lv = Some (Inr (), lv') \<and> inv lv' \<and> rep lv' = rep lv \<and>
      pos lv' = int (cutp (\<lambda>k. k \<le> F) (rep lv))"
  using assms
proof (induction "nat (int (length (rep lv)) - pos lv)" arbitrary: lv rule: less_induct)
  case less
  let ?n = "cutp (\<lambda>k. k \<le> F) (rep lv)"
  note i = less.prems(1) and s = sorted [OF less.prems(1)]
  have le: "?n \<le> length (rep lv)" by simp
  show ?case
  proof (cases "it_Valid ops lv")
    case False
    then have "pos lv = int ?n" using valid [OF i] less.prems(2,3) le by linarith
    with False i show ?thesis by (subst reorient_loop.simps) auto
  next
    case v: True
    then have r: "nat (pos lv) < length (rep lv)" using valid [OF i] by auto
    have cut: "nat (pos lv) < ?n \<longleftrightarrow> e_key (rep lv ! nat (pos lv)) \<le> F"
      using less_cut_iff [OF s down_closed_simps(2) r, of F] .
    show ?thesis
    proof (cases "e_key (rep lv ! nat (pos lv)) \<le> F")
      case False
      with cut less.prems(2,3) have "pos lv = int ?n" by linarith
      with False v i key [OF i v] show ?thesis
        by (subst reorient_loop.simps) (auto simp: bytes_Compare_order)
    next
      case True
      obtain lv' where lv': "it_Next ops lv = Some (Inr (), lv')" "inv lv'" "rep lv' = rep lv" "pos lv' = pos lv + 1"
        using step_next [OF i v] by blast
      have "\<exists>lv''. reorient_loop ops F False lv' = Some (Inr (), lv'') \<and> inv lv'' \<and> rep lv'' = rep lv' \<and>
          pos lv'' = int (cutp (\<lambda>k. k \<le> F) (rep lv'))"
        using lv' less.prems True cut r by (intro less.hyps) auto
      with lv' v True key [OF i v] show ?thesis
        by (subst reorient_loop.simps) (auto simp: bytes_Compare_order advance_def)
    qed
  qed
qed

lemma reorient_down:
  assumes i: "inv lv" and p: "pos lv = int (cutp (\<lambda>k. k < F) (rep lv))"
  shows "\<exists>lv'. reorient ops F True lv = Some (Inr (), lv') \<and> inv lv' \<and> rep lv' = rep lv \<and>
      pos lv' = int (cutp (\<lambda>k. k < F) (rep lv)) - 1"
proof (cases "it_Valid ops lv")
  case True
  then show ?thesis using reorient_loop_down [OF i, of F] p valid [OF i] by (simp add: reorient_def)
next
  case False
  have le: "cutp (\<lambda>k. k < F) (rep lv) \<le> length (rep lv)" by simp
  with False have l: "pos lv = int (length (rep lv))" using valid [OF i] p by linarith
  from prev_after [OF i this] obtain lv' where lv': "it_Prev ops lv = Some (Inr (), lv')" "inv lv'"
    "rep lv' = rep lv" "pos lv' = int (length (rep lv)) - 1" using l by auto
  show ?thesis
    using reorient_loop_down [OF lv'(2), of F] lv' le False by (simp add: reorient_def advance_def)
qed

lemma reorient_up:
  assumes i: "inv lv" and p: "pos lv = int (cutp (\<lambda>k. k \<le> F) (rep lv)) - 1"
  shows "\<exists>lv'. reorient ops F False lv = Some (Inr (), lv') \<and> inv lv' \<and> rep lv' = rep lv \<and>
      pos lv' = int (cutp (\<lambda>k. k \<le> F) (rep lv))"
proof (cases "it_Valid ops lv")
  case True
  then show ?thesis using reorient_loop_up [OF i, of F] p valid [OF i] by (simp add: reorient_def)
next
  case False
  have le: "cutp (\<lambda>k. k \<le> F) (rep lv) \<le> length (rep lv)" by simp
  with False have "pos lv = -1" using valid [OF i] p by linarith
  from next_before [OF i this] obtain lv' where lv': "it_Next ops lv = Some (Inr (), lv')" "inv lv'"
    "rep lv' = rep lv" "pos lv' = 0" by blast
  show ?thesis
    using reorient_loop_up [OF lv'(2), of F] lv' False by (simp add: reorient_def advance_def)
qed

text \<open>What a valid merge shows is the entry of the merged list at its position.\<close>

lemma Merged_level:
  assumes mi: "merged_inv inv rep pos it" and v: "0 \<le> m_which it"
  obtains lv where "slice_at (m_levels it) (m_which it) = Some lv" "lv \<in> set (m_levels it)" "inv lv"
    "it_Valid ops lv" "it_Key ops lv = Some (m_frontier it)"
    "first_with (map rep (m_levels it)) (m_frontier it) (nat (m_which it))"
    "lv = m_levels it ! nat (m_which it)"
proof -
  let ?lvs = "m_levels it" and ?F = "m_frontier it" and ?m = "nat (m_which it)"
  let ?P = "if m_desc it then (\<lambda>k. k \<le> ?F) else (\<lambda>k. k < ?F)"
  let ?lv = "?lvs ! ?m"
  have fw: "first_with (map rep ?lvs) ?F ?m" and at: "levels_at inv rep pos (m_desc it) ?P ?lvs"
    using mi v by (simp_all add: merged_inv_def)
  from fw have m: "?m < length ?lvs" "?F \<in> e_key ` set (rep ?lv)" by (auto simp: first_with_def)
  then have lv: "?lv \<in> set ?lvs" by simp
  have P: "down_closed ?P" by simp
  have v': "it_Valid ops ?lv \<and> it_Key ops ?lv = Some ?F"
  proof (cases "m_desc it")
    case True
    with at have at': "levels_at inv rep pos True (\<lambda>k. k \<le> ?F) ?lvs" by simp
    have va: "it_Valid ops ?lv" using level_down(1) [OF at' lv] m(2) by auto
    then obtain c where c: "it_Key ops ?lv = Some c" using levels_valid_key(2) [OF at lv] by blast
    note d = level_down(2) [OF at' lv down_closed_simps(2) va c]
    from d have "c \<le> ?F" by blast
    moreover from d m(2) have "?F \<le> c" by blast
    ultimately have "c = ?F" by simp
    with va c show ?thesis by simp
  next
    case False
    with at have at': "levels_at inv rep pos False (\<lambda>k. k < ?F) ?lvs" by simp
    have va: "it_Valid ops ?lv" using level_up(1) [OF at' lv] m(2) by auto
    then obtain c where c: "it_Key ops ?lv = Some c" using levels_valid_key(2) [OF at lv] by blast
    note u = level_up(2) [OF at' lv down_closed_simps(1) va c]
    from u have "?F \<le> c" by auto
    moreover from u m(2) have "c \<le> ?F" by blast
    ultimately have "c = ?F" by simp
    with va c show ?thesis by simp
  qed
  show thesis
    by (rule that [of ?lv]) (use v v' m lv fw levels_valid_key(1) [OF at lv] in \<open>auto simp: slice_at_def\<close>)
qed

lemma Merged_Key_frontier:
  "merged_inv inv rep pos it \<Longrightarrow> 0 \<le> m_which it \<Longrightarrow> Merged_Key ops it = Some (m_frontier it)"
  by (erule (1) Merged_level) (simp add: Merged_Key_def at_which_def)

lemma Merged_current:
  assumes mi: "merged_inv inv rep pos it" and v: "0 \<le> m_which it"
  shows "Merged_Key ops it = Some (e_key (merged_rep rep it ! nat (merged_pos rep it)))"
    and "Merged_Val ops it = Some (e_val (merged_rep rep it ! nat (merged_pos rep it)))"
    and "Merged_Deleted ops it = Some (e_deleted (merged_rep rep it ! nat (merged_pos rep it)))"
proof -
  let ?M = "merge_entries (map rep (m_levels it))" and ?F = "m_frontier it"
  from Merged_level [OF mi v] obtain lv where lv: "slice_at (m_levels it) (m_which it) = Some lv"
    "inv lv" "it_Valid ops lv" "it_Key ops lv = Some ?F"
    and fw: "first_with (map rep (m_levels it)) ?F (nat (m_which it))"
    and lvm: "lv = m_levels it ! nat (m_which it)" by metis
  let ?e = "rep lv ! nat (pos lv)"
  have e: "e_key ?e = ?F" "?e \<in> set (rep lv)"
    using key [OF lv(2,3)] lv(4) entry_at_mem [OF lv(2,3)] by (auto simp: entry_at_def)
  have ml: "nat (m_which it) < length (m_levels it)" using fw by (auto simp: first_with_def)
  have "levels_map (map rep (m_levels it)) ?F = Some ?e"
    using levels_map_first_with [OF fw] es_map_mem [OF sorted [OF lv(2)] e(2)] e(1) lvm ml by simp
  then have M: "es_map ?M ?F = Some ?e" by simp
  have FM: "?F \<in> e_key ` set ?M" using first_with_keys [OF fw] by (simp add: keys_merge_entries)
  have pe: "?M ! cutp (\<lambda>k. k < ?F) ?M = ?e"
    using M es_map_cutp [OF sorted_merge_entries, of "map rep (m_levels it)" ?F]
      cut_at_key(1,2) [OF sorted_merge_entries FM] by (simp add: Let_def)
  then have cur: "merged_rep rep it ! nat (merged_pos rep it) = ?e"
    using v by (simp add: merged_pos_def merged_rep_def)
  show "Merged_Key ops it = Some (e_key (merged_rep rep it ! nat (merged_pos rep it)))"
    "Merged_Val ops it = Some (e_val (merged_rep rep it ! nat (merged_pos rep it)))"
    "Merged_Deleted ops it = Some (e_deleted (merged_rep rep it ! nat (merged_pos rep it)))"
    using key [OF lv(2,3)] val [OF lv(2,3)] del [OF lv(2,3)] lv(1)
    by (simp_all add: Merged_Key_def Merged_Val_def Merged_Deleted_def at_which_def cur)
qed

text \<open>One step of the merge from a valid state.\<close>

lemma Merged_step_correct:
  assumes mi: "merged_inv inv rep pos it" and v: "0 \<le> m_which it"
    and ne: "ds \<Longrightarrow> [] \<notin> level_keys (map rep (m_levels it))"
  shows "\<exists>it'. Merged_step ops ds it = Some (Inr (), it') \<and> merged_inv inv rep pos it' \<and>
    map rep (m_levels it') = map rep (m_levels it) \<and>
    merged_pos rep it' = merged_pos rep it + (if ds then -1 else 1)"
proof -
  let ?lvs = "m_levels it" and ?F = "m_frontier it" and ?M = "merge_entries (map rep (m_levels it))"
  let ?P = "if m_desc it then (\<lambda>k. k \<le> ?F) else (\<lambda>k. k < ?F)"
  let ?Q = "if ds then (\<lambda>k. k < ?F) else (\<lambda>k. k \<le> ?F)"
  have fw: "first_with (map rep ?lvs) ?F (nat (m_which it))"
    and at: "levels_at inv rep pos (m_desc it) ?P ?lvs"
    and ned: "m_desc it \<Longrightarrow> [] \<notin> level_keys (map rep ?lvs)"
    using mi v by (simp_all add: merged_inv_def)
  have lvpos: "inv lv \<and> pos lv = int (cutp ?P (rep lv)) - (if m_desc it then 1 else 0)" if "lv \<in> set ?lvs" for lv
    using at that by (auto simp: levels_at_def)
  have FM: "?F \<in> e_key ` set ?M" using first_with_keys [OF fw] by (simp add: keys_merge_entries)
  have pos0: "merged_pos rep it = int (cutp (\<lambda>k. k < ?F) ?M)"
    using v by (simp add: merged_pos_def merged_rep_def)
  have pos1: "int (cutp ?Q ?M) - (if ds then 1 else 0) = merged_pos rep it + (if ds then -1 else 1)"
    using cut_at_key(3) [OF sorted_merge_entries FM] by (simp add: pos0)
  have finish: "\<exists>it'. step_levels ops f it1 = Some (Inr (), it') \<and> merged_inv inv rep pos it' \<and>
      map rep (m_levels it') = map rep ?lvs \<and> merged_pos rep it' = merged_pos rep it + (if ds then -1 else 1)"
    if f: "\<And>lv. lv \<in> set ?lvs \<Longrightarrow> \<exists>lv'. f lv = Some (Inr (), lv') \<and> inv lv' \<and> rep lv' = rep lv \<and>
        pos lv' = int (cutp ?Q (rep lv)) - (if ds then 1 else 0)"
      and it1: "m_levels it1 = ?lvs" "m_desc it1 = ds" for f it1
  proof -
    obtain lvs' where e: "each_level f ?lvs = Some (Inr (), lvs')" and r: "map rep lvs' = map rep ?lvs"
      and at': "levels_at inv rep pos ds ?Q lvs'"
      using each_level_at [OF f] by blast
    have dQ: "down_closed ?Q" by simp
    let ?it2 = "it1\<lparr>m_levels := lvs'\<rparr>"
    have at2: "levels_at inv rep pos (m_desc ?it2) ?Q (m_levels ?it2)" using at' it1 by simp
    have ne2: "m_desc ?it2 \<Longrightarrow> [] \<notin> level_keys (map rep (m_levels ?it2))" using ne r it1 by simp
    from settle_correct [OF at2 dQ ne2] obtain it' where it': "settle ops ?it2 = Some it'"
      "m_levels it' = lvs'" "merged_inv inv rep pos it'"
      "merged_pos rep it' = int (cutp ?Q (merged_rep rep ?it2)) - (if ds then 1 else 0)"
      using it1 by auto
    have "merged_rep rep ?it2 = ?M" by (simp add: merged_rep_def r)
    with it' pos1 have "merged_pos rep it' = merged_pos rep it + (if ds then -1 else 1)" by simp
    with it' e r it1 show ?thesis by (simp add: step_levels_def)
  qed
  show ?thesis
  proof (cases "ds = m_desc it")
    case same: True
    have on: "\<exists>lv'. advance_if_on ops ?F ds lv = Some (Inr (), lv') \<and> inv lv' \<and> rep lv' = rep lv \<and>
        pos lv' = int (cutp ?Q (rep lv)) - (if ds then 1 else 0)" if lv: "lv \<in> set ?lvs" for lv
    proof (cases ds)
      case True
      then show ?thesis using advance_if_on_down [OF _ lv, of ?F] at same by simp
    next
      case False
      then show ?thesis using advance_if_on_up [OF _ lv, of ?F] at same by simp
    qed
    have "Merged_Key ops it = Some ?F" using Merged_Key_frontier [OF mi v] .
    then have "Merged_step ops ds it = step_levels ops (advance_if_on ops ?F ds) it"
      using v same by (simp add: Merged_step_def)
    then show ?thesis using finish [OF on, of it] same by simp
  next
    case flip: False
    have F: "?F \<noteq> []"
      using first_with_keys [OF fw] ned ne flip by (cases ds) (auto simp: first_with_def)
    have on: "\<exists>lv'. reorient ops ?F ds lv = Some (Inr (), lv') \<and> inv lv' \<and> rep lv' = rep lv \<and>
        pos lv' = int (cutp ?Q (rep lv)) - (if ds then 1 else 0)" if lv: "lv \<in> set ?lvs" for lv
    proof (cases ds)
      case True
      then show ?thesis using reorient_down [of lv ?F] lvpos [OF lv] flip by simp
    next
      case False
      then show ?thesis using reorient_up [of lv ?F] lvpos [OF lv] flip by simp
    qed
    have "Merged_step ops ds it = step_levels ops (reorient ops ?F ds) (it\<lparr>m_desc := ds\<rparr>)"
      using F flip by (auto simp: Merged_step_def)
    then show ?thesis using finish [OF on, of "it\<lparr>m_desc := ds\<rparr>"] by simp
  qed
qed

text \<open>The merge is a cursor over the merged entries.\<close>

lemma merged_scan_cursor:
  "scan_cursor (Merged_ops ops) (merged_inv inv rep pos) (merged_rep rep) (merged_pos rep)"
proof
  fix c assume mi: "merged_inv inv rep pos c"
  let ?M = "merged_rep rep c"
  have Mle: "int (cutp P ?M) \<le> int (length ?M)" for P by simp
  show "sorted_entries ?M" by (simp add: merged_rep_def)
  have fk: "cutp (\<lambda>k. k < m_frontier c) ?M < length ?M" if "0 \<le> m_which c"
  proof -
    have "m_frontier c \<in> e_key ` set ?M"
      using mi that first_with_keys by (auto simp: merged_inv_def merged_rep_def keys_merge_entries)
    then show ?thesis using cut_at_key(1) [of ?M] by (simp add: merged_rep_def)
  qed
  show "it_Valid (Merged_ops ops) c \<longleftrightarrow> 0 \<le> merged_pos rep c \<and> merged_pos rep c < int (length ?M)"
    using fk by (auto simp: Merged_ops_def Merged_Valid_def merged_pos_def)
  show "- 1 \<le> merged_pos rep c \<and> merged_pos rep c \<le> int (length ?M)"
    using Mle by (auto simp: merged_pos_def intro: order_trans [of _ 0])
  assume "it_Valid (Merged_ops ops) c"
  then have v: "0 \<le> m_which c" by (simp add: Merged_ops_def Merged_Valid_def)
  note cur = Merged_current [OF mi v]
  show "it_Key (Merged_ops ops) c = Some (e_key (?M ! nat (merged_pos rep c)))"
    "it_Val (Merged_ops ops) c = Some (e_val (?M ! nat (merged_pos rep c)))"
    "it_Deleted (Merged_ops ops) c = Some (e_deleted (?M ! nat (merged_pos rep c)))"
    using cur by (simp_all add: Merged_ops_def)
  show "\<exists>c'. it_Next (Merged_ops ops) c = Some (Inr (), c') \<and> merged_inv inv rep pos c' \<and>
      merged_rep rep c' = ?M \<and> merged_pos rep c' = merged_pos rep c + 1"
    using Merged_step_correct [OF mi v, of False]
    by (auto simp: Merged_ops_def Merged_Next_def merged_rep_def)
qed

lemma merged_back_cursor:
  "back_cursor (Merged_ops ops) (\<lambda>it. merged_inv inv rep pos it \<and> [] \<notin> e_key ` set (merged_rep rep it))
     (merged_rep rep) (merged_pos rep)"
proof (rule scan_cursor.back_cursor_if [OF merged_scan_cursor])
  fix c assume mi: "merged_inv inv rep pos c" and va: "it_Valid (Merged_ops ops) c"
    and ne: "[] \<notin> e_key ` set (merged_rep rep c)"
  from va have v: "0 \<le> m_which c" by (simp add: Merged_ops_def Merged_Valid_def)
  from ne show "\<exists>c'. it_Prev (Merged_ops ops) c = Some (Inr (), c') \<and> merged_inv inv rep pos c' \<and>
      merged_rep rep c' = merged_rep rep c \<and> merged_pos rep c' = merged_pos rep c - 1"
    using Merged_step_correct [OF mi v, of True]
    by (auto simp: Merged_ops_def Merged_Prev_def merged_rep_def keys_merge_entries)
qed

text \<open>Opening: every level at the cut of \<open>P\<close> puts the merge at the cut of \<open>P\<close>.\<close>

lemma open_levels_at:
  assumes "\<And>s. s \<in> set m \<Longrightarrow> \<exists>c. opn s = Some (Inr c) \<and> inv c \<and> rep c = es s \<and> pos c = int (cutp P (es s))"
  shows "\<exists>its. open_levels opn m = Some (Inr its) \<and> map rep its = map es m \<and> levels_at inv rep pos False P its"
  using assms
proof (induction m)
  case (Cons s m)
  then obtain its where its: "open_levels opn m = Some (Inr its)" "map rep its = map es m"
    "levels_at inv rep pos False P its" by auto
  obtain c where c: "opn s = Some (Inr c)" "inv c" "rep c = es s" "pos c = int (cutp P (es s))"
    using Cons.prems by auto
  show ?case using its c by (auto simp: levels_at_def go_bind_def)
qed (simp add: levels_at_def)

lemma Merged_cursor_at:
  assumes P: "down_closed P"
    and "\<And>s. s \<in> set m \<Longrightarrow> \<exists>c. opn s = Some (Inr c) \<and> inv c \<and> rep c = es s \<and> pos c = int (cutp P (es s))"
  shows "\<exists>it. Merged_cursor ops opn m = Some (Inr it) \<and> merged_inv inv rep pos it \<and>
    merged_rep rep it = merge_entries (map es m) \<and>
    merged_pos rep it = int (cutp P (merge_entries (map es m)))"
proof -
  obtain its where its: "open_levels opn m = Some (Inr its)" "map rep its = map es m"
    "levels_at inv rep pos False P its"
    using open_levels_at [where m = m and opn = opn and es = es and P = P] assms(2) by blast
  let ?it = "\<lparr>m_levels = its, m_which = 0, m_frontier = [], m_desc = False\<rparr>"
  have "levels_at inv rep pos (m_desc ?it) P (m_levels ?it)" using its(3) by simp
  from settle_correct [OF this P] obtain it where "settle ops ?it = Some it" "m_levels it = its"
    "merged_inv inv rep pos it" "merged_pos rep it = int (cutp P (merged_rep rep ?it))" by auto
  with its(1,2) show ?thesis
    by (auto simp: Merged_cursor_def go_bind_def merged_rep_def)
qed

end

section \<open>The merge over the levels of the engine\<close>

definition level_inv :: "level_iter \<Rightarrow> bool" where
  "level_inv = case_level_iter ai_inv fi_inv"

definition level_rep :: "level_iter \<Rightarrow> Entry list" where
  "level_rep = case_level_iter ai_rep fi_rep"

definition level_pos :: "level_iter \<Rightarrow> int" where
  "level_pos = case_level_iter ai_pos fi_pos"

definition skv_wf :: "SortedKV \<Rightarrow> bool" where
  "skv_wf = case_SortedKV arr_wf sf_wf"

definition skv_entries :: "SortedKV \<Rightarrow> Entry list" where
  "skv_entries = case_SortedKV arr_entries sf_entries"

lemma level_ops_simps:
  "it_Valid level_ops (ArrIter a) = it_Valid SortedArray_ops a"
  "it_Valid level_ops (FileIter f) = it_Valid SortedFile_ops f"
  "it_Key level_ops (ArrIter a) = it_Key SortedArray_ops a"
  "it_Key level_ops (FileIter f) = it_Key SortedFile_ops f"
  "it_Val level_ops (ArrIter a) = it_Val SortedArray_ops a"
  "it_Val level_ops (FileIter f) = it_Val SortedFile_ops f"
  "it_Deleted level_ops (ArrIter a) = it_Deleted SortedArray_ops a"
  "it_Deleted level_ops (FileIter f) = it_Deleted SortedFile_ops f"
  "it_Next level_ops (ArrIter a) = map_option (apsnd ArrIter) (it_Next SortedArray_ops a)"
  "it_Next level_ops (FileIter f) = map_option (apsnd FileIter) (it_Next SortedFile_ops f)"
  "it_Prev level_ops (ArrIter a) = map_option (apsnd ArrIter) (it_Prev SortedArray_ops a)"
  "it_Prev level_ops (FileIter f) = map_option (apsnd FileIter) (it_Prev SortedFile_ops f)"
  by (simp_all add: level_ops_def SortedArray_ops_def SortedFile_ops_def)

lemma level_abs_simps:
  "level_inv (ArrIter a) = ai_inv a" "level_inv (FileIter f) = fi_inv f"
  "level_rep (ArrIter a) = ai_rep a" "level_rep (FileIter f) = fi_rep f"
  "level_pos (ArrIter a) = ai_pos a" "level_pos (FileIter f) = fi_pos f"
  by (simp_all add: level_inv_def level_rep_def level_pos_def)

interpretation levels: end_cursor level_ops level_inv level_rep level_pos
proof (unfold_locales, goal_cases)
  case (1 c) then show ?case
    by (cases c) (simp_all add: level_abs_simps arr_cursor.sorted file_cursor.sorted)
next
  case (2 c) then show ?case
    by (cases c) (simp_all add: level_ops_simps level_abs_simps arr_cursor.valid file_cursor.valid)
next
  case (3 c) then show ?case
    by (cases c) (simp_all add: level_ops_simps level_abs_simps arr_cursor.key file_cursor.key)
next
  case (4 c) then show ?case
    by (cases c) (simp_all add: level_ops_simps level_abs_simps arr_cursor.val file_cursor.val)
next
  case (5 c) then show ?case
    by (cases c) (simp_all add: level_ops_simps level_abs_simps arr_cursor.del file_cursor.del)
next
  case (6 c) then show ?case
    by (cases c) (simp_all add: level_abs_simps arr_cursor.pos_range file_cursor.pos_range)
next
  case (7 c) then show ?case
    using arr_cursor.step_next file_cursor.step_next
    by (cases c) (fastforce simp: level_ops_simps level_abs_simps)+
next
  case (8 c) then show ?case
    using arr_cursor.step_prev file_cursor.step_prev
    by (cases c) (fastforce simp: level_ops_simps level_abs_simps)+
next
  case (9 c) then show ?case
    using arr_cursor.next_before file_cursor.next_before
    by (cases c) (fastforce simp: level_ops_simps level_abs_simps)+
next
  case (10 c) then show ?case
    using arr_cursor.prev_after file_cursor.prev_after
    by (cases c) (fastforce simp: level_ops_simps level_abs_simps)+
qed

abbreviation "db_merge_inv \<equiv> merged_inv level_inv level_rep level_pos"
abbreviation "db_merge_rep \<equiv> merged_rep level_rep"
abbreviation "db_merge_pos \<equiv> merged_pos level_rep"
abbreviation "db_merge_back \<equiv> (\<lambda>it. db_merge_inv it \<and> [] \<notin> e_key ` set (db_merge_rep it))"

interpretation db_merge: scan_cursor "Merged_ops level_ops" db_merge_inv db_merge_rep db_merge_pos
  by (rule levels.merged_scan_cursor)

interpretation db_merge_back: back_cursor "Merged_ops level_ops" db_merge_back db_merge_rep db_merge_pos
  by (rule levels.merged_back_cursor)

lemma SortedKV_open:
  assumes "skv_wf s"
  shows "\<exists>c. SortedKV_Iter s = Some (Inr c) \<and> level_inv c \<and> level_rep c = skv_entries s \<and> level_pos c = 0"
    and "\<exists>c. SortedKV_Seek k s = Some (Inr c) \<and> level_inv c \<and> level_rep c = skv_entries s \<and>
      level_pos c = int (cutp (\<lambda>x. x < k) (skv_entries s))"
proof -
  have "(\<exists>c. SortedKV_Iter s = Some (Inr c) \<and> level_inv c \<and> level_rep c = skv_entries s \<and> level_pos c = 0) \<and>
    (\<exists>c. SortedKV_Seek k s = Some (Inr c) \<and> level_inv c \<and> level_rep c = skv_entries s \<and>
      level_pos c = int (cutp (\<lambda>x. x < k) (skv_entries s)))"
  proof (cases s)
    case (MemKV a)
    then have wf: "arr_wf a" using assms by (simp add: skv_wf_def)
    obtain i j where "SortedArray_Iter a = Inr i" "SortedArray_Seek a k = Inr j"
      by (cases "SortedArray_search a k") (simp add: SortedArray_Iter_def SortedArray_Seek_def)
    with SortedArray_Iter_correct [OF wf] SortedArray_Seek_correct [OF wf] MemKV show ?thesis
      by (simp add: SortedKV_Iter_def SortedKV_Seek_def skv_entries_def level_abs_simps)
  next
    case (FileKV f)
    then have wf: "sf_wf f" using assms by (simp add: skv_wf_def)
    from SortedFile_Iter_correct [OF wf] SortedFile_Seek_correct [OF wf, of k] FileKV show ?thesis
      by (auto simp: SortedKV_Iter_def SortedKV_Seek_def skv_entries_def level_abs_simps)
  qed
  then show "\<exists>c. SortedKV_Iter s = Some (Inr c) \<and> level_inv c \<and> level_rep c = skv_entries s \<and> level_pos c = 0"
    "\<exists>c. SortedKV_Seek k s = Some (Inr c) \<and> level_inv c \<and> level_rep c = skv_entries s \<and>
      level_pos c = int (cutp (\<lambda>x. x < k) (skv_entries s))" by blast+
qed

lemma MergedSortedKV_Iter_at:
  assumes "\<forall>s\<in>set m. skv_wf s"
  shows "\<exists>it. MergedSortedKV_Iter m = Some (Inr it) \<and> db_merge_inv it \<and>
    db_merge_rep it = merge_entries (map skv_entries m) \<and> db_merge_pos it = 0"
  using levels.Merged_cursor_at [of "\<lambda>_. False" m SortedKV_Iter skv_entries] SortedKV_open(1) assms
  by (simp add: MergedSortedKV_Iter_def)

lemma MergedSortedKV_Seek_at:
  assumes "\<forall>s\<in>set m. skv_wf s"
  shows "\<exists>it. MergedSortedKV_Seek m k = Some (Inr it) \<and> db_merge_inv it \<and>
    db_merge_rep it = merge_entries (map skv_entries m) \<and>
    db_merge_pos it = int (cutp (\<lambda>x. x < k) (merge_entries (map skv_entries m)))"
  using levels.Merged_cursor_at [of "\<lambda>x. x < k" m "SortedKV_Seek k" skv_entries] SortedKV_open(2) assms
  by (simp add: MergedSortedKV_Seek_def)

end
