(* ===== verification/FilterDel.thy ===== *)
theory FilterDel
  imports Merge
begin

text \<open>
  \<^verbatim>\<open>storage/filterdel.go\<close>: the last stage of a read, which drops the tombstones that the merge
  still emits.  \<^verbatim>\<open>NoDeletedIter\<close> embeds the wrapped cursor and overrides two methods, so here it
  is the same cursor under the method table \<open>NoDeleted_ops\<close>.  Over any \<open>scan_cursor\<close> the result is
  a \<open>scan_cursor\<close> for the live entries, and over a \<open>back_cursor\<close> a \<open>back_cursor\<close>.
\<close>

text \<open>\<^verbatim>\<open>for it.Valid() && it.Deleted()\<close>, stepping by \<open>stp\<close> (\<^verbatim>\<open>Next\<close> or \<^verbatim>\<open>Prev\<close> of the wrapped cursor).\<close>

partial_function (option) skip_deleted ::
  "'c iter_ops \<Rightarrow> ('c, unit) st \<Rightarrow> 'c \<Rightarrow> (unit res \<times> 'c) option" where
  "skip_deleted ops stp it =
     (if it_Valid ops it
      then (case it_Deleted ops it of
          None \<Rightarrow> None
        | Some dl \<Rightarrow>
            if dl
            then (case stp it of
                None \<Rightarrow> None
              | Some (Inl e, it') \<Rightarrow> Some (Inl e, it')
              | Some (Inr _, it') \<Rightarrow> skip_deleted ops stp it')
            else Some (Inr (), it))
      else Some (Inr (), it))"

definition filterDeleted :: "'c iter_ops \<Rightarrow> 'c \<Rightarrow> 'c go" where
  "filterDeleted ops it =
     (case skip_deleted ops (it_Next ops) it of
        None \<Rightarrow> None
      | Some (Inl e, _) \<Rightarrow> Some (Inl e)
      | Some (Inr _, it') \<Rightarrow> Some (Inr it'))"

definition NoDeletedIter_Next :: "'c iter_ops \<Rightarrow> ('c, unit) st" where
  "NoDeletedIter_Next ops it =
     (case it_Next ops it of
        None \<Rightarrow> None
      | Some (Inl e, it') \<Rightarrow> Some (Inl e, it')
      | Some (Inr _, it') \<Rightarrow> skip_deleted ops (it_Next ops) it')"

definition NoDeletedIter_Prev :: "'c iter_ops \<Rightarrow> ('c, unit) st" where
  "NoDeletedIter_Prev ops it =
     (case it_Prev ops it of
        None \<Rightarrow> None
      | Some (Inl e, it') \<Rightarrow> Some (Inl e, it')
      | Some (Inr _, it') \<Rightarrow> skip_deleted ops (it_Prev ops) it')"

definition NoDeleted_ops :: "'c iter_ops \<Rightarrow> 'c iter_ops" where
  "NoDeleted_ops ops = ops\<lparr>it_Next := NoDeletedIter_Next ops, it_Prev := NoDeletedIter_Prev ops\<rparr>"

text \<open>\<^verbatim>\<open>NoDeletedSortedKV\<close>: \<open>inner\<close> is the cursor that the wrapped \<^verbatim>\<open>Iter\<close> or \<^verbatim>\<open>Seek\<close> returns.\<close>

definition NoDeletedSortedKV_Iter :: "'c iter_ops \<Rightarrow> 'c go \<Rightarrow> 'c go" where
  "NoDeletedSortedKV_Iter ops inner = go_bind inner (filterDeleted ops)"

definition NoDeletedSortedKV_Seek :: "'c iter_ops \<Rightarrow> (bytes \<Rightarrow> 'c go) \<Rightarrow> bytes \<Rightarrow> 'c go" where
  "NoDeletedSortedKV_Seek ops inner key = go_bind (inner key) (filterDeleted ops)"

section \<open>Counting live entries\<close>

definition live_before :: "Entry list \<Rightarrow> nat \<Rightarrow> nat" where
  "live_before es n = length (live_entries (take n es))"

lemma live_before_0 [simp]: "live_before es 0 = 0"
  by (simp add: live_before_def live_entries_def)

lemma live_before_Suc:
  "n < length es \<Longrightarrow> live_before es (Suc n) = live_before es n + (if e_deleted (es ! n) then 0 else 1)"
  by (simp add: live_before_def live_entries_def take_Suc_conv_app_nth)

lemma live_before_all: "length es \<le> n \<Longrightarrow> live_before es n = length (live_entries es)"
  by (simp add: live_before_def)

lemma live_nth:
  assumes "n < length es" "\<not> e_deleted (es ! n)"
  shows "live_entries es ! live_before es n = es ! n" "live_before es n < length (live_entries es)"
proof -
  have "live_entries es = live_entries (take n es) @ es ! n # live_entries (drop (Suc n) es)"
    using assms by (subst id_take_nth_drop [OF assms(1)]) (simp add: live_entries_def)
  then show "live_entries es ! live_before es n = es ! n" "live_before es n < length (live_entries es)"
    by (simp_all add: live_before_def nth_append)
qed

lemma live_cut:
  assumes "sorted_entries es" "down_closed P"
  shows "live_before es (cutp P es) = cutp P (live_entries es)"
  using assms(1)
proof (induction es)
  case Nil
  then show ?case by (simp add: live_entries_def cutp_def)
next
  case (Cons e es)
  then have IH: "live_before es (cutp P es) = cutp P (live_entries es)" by (simp add: sorted_simps)
  show ?case
  proof (cases "P (e_key e)")
    case True
    with IH show ?thesis by (auto simp: live_before_def cutp_def live_entries_def)
  next
    case False
    have "\<not> P (e_key x)" if "x \<in> set (live_entries (e # es))" for x
      using that False assms(2) Cons.prems
      by (auto simp: live_entries_def sorted_simps down_closed_def split: if_splits dest: less_imp_le)
    then have "cutp P (live_entries (e # es)) = 0"
      by (cases "live_entries (e # es)") (auto simp: cutp_def)
    with False show ?thesis by (simp add: cutp_def)
  qed
qed

lemma live_entries_keys: "e_key ` set (live_entries es) \<subseteq> e_key ` set es"
  by (auto simp: live_entries_def)

section \<open>The filter over a cursor\<close>

context scan_cursor
begin

definition nodel_inv :: "'c \<Rightarrow> bool" where
  "nodel_inv c \<longleftrightarrow> inv c \<and> (it_Valid ops c \<longrightarrow> \<not> e_deleted (entry_at c))"

definition nodel_rep :: "'c \<Rightarrow> Entry list" where
  "nodel_rep c = live_entries (rep c)"

definition nodel_pos :: "'c \<Rightarrow> int" where
  "nodel_pos c = (if pos c < 0 then -1 else int (live_before (rep c) (nat (pos c))))"

lemma skip_deleted_next:
  assumes "inv c" "0 \<le> pos c"
  shows "\<exists>c'. skip_deleted ops (it_Next ops) c = Some (Inr (), c') \<and> nodel_inv c' \<and> rep c' = rep c \<and>
    pos c \<le> pos c' \<and> nodel_pos c' = int (live_before (rep c) (nat (pos c)))"
  using assms
proof (induction "nat (int (length (rep c)) - pos c)" arbitrary: c rule: less_induct)
  case less
  note i = less.prems(1)
  show ?case
  proof (cases "it_Valid ops c")
    case False
    with less.prems show ?thesis
      by (subst skip_deleted.simps) (simp add: nodel_inv_def nodel_pos_def)
  next
    case v: True
    then have r: "nat (pos c) < length (rep c)" using valid [OF i] by auto
    show ?thesis
    proof (cases "e_deleted (entry_at c)")
      case False
      with v del [OF i v] i less.prems(2) show ?thesis
        by (subst skip_deleted.simps) (simp add: nodel_inv_def nodel_pos_def entry_at_def)
    next
      case True
      obtain c1 where c1: "it_Next ops c = Some (Inr (), c1)" "inv c1" "rep c1 = rep c" "pos c1 = pos c + 1"
        using step_next [OF i v] by blast
      have lb: "live_before (rep c) (nat (pos c1)) = live_before (rep c) (nat (pos c))"
        using True r less.prems(2) by (simp add: c1 nat_add_distrib live_before_Suc entry_at_def)
      have "\<exists>c'. skip_deleted ops (it_Next ops) c1 = Some (Inr (), c') \<and> nodel_inv c' \<and> rep c' = rep c1 \<and>
          pos c1 \<le> pos c' \<and> nodel_pos c' = int (live_before (rep c1) (nat (pos c1)))"
        using c1 less.prems(2) r by (intro less.hyps) auto
      then obtain c' where "skip_deleted ops (it_Next ops) c1 = Some (Inr (), c')" "nodel_inv c'" "rep c' = rep c"
        "pos c1 \<le> pos c'" "nodel_pos c' = int (live_before (rep c) (nat (pos c)))"
        unfolding c1(3) lb by blast
      then show ?thesis
        using v True del [OF i v] c1(1,4) by (subst skip_deleted.simps) (simp add: entry_at_def)
    qed
  qed
qed

lemma filterDeleted_at:
  assumes "inv c" "0 \<le> pos c"
  shows "\<exists>c'. filterDeleted ops c = Some (Inr c') \<and> nodel_inv c' \<and> nodel_rep c' = live_entries (rep c) \<and>
    0 \<le> pos c' \<and> rep c' = rep c \<and> nodel_pos c' = int (live_before (rep c) (nat (pos c)))"
  using skip_deleted_next [OF assms] assms(2) by (auto simp: filterDeleted_def nodel_rep_def)

lemma nodel_at:
  assumes "nodel_inv c" "it_Valid ops c"
  shows "nodel_rep c ! nat (nodel_pos c) = rep c ! nat (pos c)" "nodel_pos c < int (length (nodel_rep c))"
    "0 \<le> nodel_pos c"
proof -
  have i: "inv c" and nd: "\<not> e_deleted (rep c ! nat (pos c))" and r: "0 \<le> pos c" "nat (pos c) < length (rep c)"
    using assms valid [of c] by (auto simp: nodel_inv_def entry_at_def)
  from live_nth [OF r(2) nd] r(1)
  show "nodel_rep c ! nat (nodel_pos c) = rep c ! nat (pos c)" "nodel_pos c < int (length (nodel_rep c))"
    "0 \<le> nodel_pos c" by (simp_all add: nodel_rep_def nodel_pos_def)
qed

lemma nodel_scan_cursor: "scan_cursor (NoDeleted_ops ops) nodel_inv nodel_rep nodel_pos"
proof
  fix c assume n: "nodel_inv c"
  then have i: "inv c" by (simp add: nodel_inv_def)
  show "sorted_entries (nodel_rep c)" by (simp add: nodel_rep_def sorted_entries_live sorted [OF i])
  have inval: "nodel_pos c = -1 \<or> nodel_pos c = int (length (nodel_rep c))" if "\<not> it_Valid ops c"
    using that valid [OF i] by (auto simp: nodel_pos_def nodel_rep_def live_before_all)
  show "it_Valid (NoDeleted_ops ops) c = (0 \<le> nodel_pos c \<and> nodel_pos c < int (length (nodel_rep c)))"
    using nodel_at(2,3) [OF n] inval by (cases "it_Valid ops c") (auto simp: NoDeleted_ops_def)
  show "- 1 \<le> nodel_pos c \<and> nodel_pos c \<le> int (length (nodel_rep c))"
    using nodel_at(2,3) [OF n] inval by (cases "it_Valid ops c") auto
  assume "it_Valid (NoDeleted_ops ops) c"
  then have v: "it_Valid ops c" by (simp add: NoDeleted_ops_def)
  show "it_Key (NoDeleted_ops ops) c = Some (e_key (nodel_rep c ! nat (nodel_pos c)))"
    "it_Val (NoDeleted_ops ops) c = Some (e_val (nodel_rep c ! nat (nodel_pos c)))"
    "it_Deleted (NoDeleted_ops ops) c = Some (e_deleted (nodel_rep c ! nat (nodel_pos c)))"
    using key [OF i v] val [OF i v] del [OF i v] nodel_at(1) [OF n v] by (simp_all add: NoDeleted_ops_def)
  have r: "0 \<le> pos c" "nat (pos c) < length (rep c)" using valid [OF i] v by auto
  have nd: "\<not> e_deleted (rep c ! nat (pos c))" using n v by (simp add: nodel_inv_def entry_at_def)
  obtain c1 where c1: "it_Next ops c = Some (Inr (), c1)" "inv c1" "rep c1 = rep c" "pos c1 = pos c + 1"
    using step_next [OF i v] by blast
  have "int (live_before (rep c) (nat (pos c + 1))) = nodel_pos c + 1"
    using r nd by (simp add: nodel_pos_def nat_add_distrib live_before_Suc)
  then show "\<exists>c'. it_Next (NoDeleted_ops ops) c = Some (Inr (), c') \<and> nodel_inv c' \<and>
      nodel_rep c' = nodel_rep c \<and> nodel_pos c' = nodel_pos c + 1"
    using skip_deleted_next [OF c1(2)] c1 r(1)
    by (auto simp: NoDeleted_ops_def NoDeletedIter_Next_def nodel_rep_def)
qed

end

context back_cursor
begin

lemma skip_deleted_prev:
  assumes "inv c" "pos c < int (length (rep c))"
  shows "\<exists>c'. skip_deleted ops (it_Prev ops) c = Some (Inr (), c') \<and> nodel_inv c' \<and> rep c' = rep c \<and>
    nodel_pos c' = int (live_before (rep c) (nat (pos c + 1))) - 1 \<and> pos c' \<le> pos c"
  using assms
proof (induction "nat (pos c + 1)" arbitrary: c rule: less_induct)
  case less
  note i = less.prems(1)
  show ?case
  proof (cases "it_Valid ops c")
    case False
    then have "pos c = -1" using valid [OF i] pos_range [OF i] less.prems(2) by linarith
    with False i show ?thesis
      by (subst skip_deleted.simps) (simp add: nodel_inv_def nodel_pos_def)
  next
    case v: True
    then have r: "0 \<le> pos c" "nat (pos c) < length (rep c)" using valid [OF i] by auto
    show ?thesis
    proof (cases "e_deleted (entry_at c)")
      case False
      with v del [OF i v] i r show ?thesis
        by (subst skip_deleted.simps)
           (simp add: nodel_inv_def nodel_pos_def entry_at_def nat_add_distrib live_before_Suc)
    next
      case True
      obtain c1 where c1: "it_Prev ops c = Some (Inr (), c1)" "inv c1" "rep c1 = rep c" "pos c1 = pos c - 1"
        using step_prev [OF i v] by blast
      have lb: "live_before (rep c) (nat (pos c1 + 1)) = live_before (rep c) (nat (pos c + 1))"
        using True r by (simp add: c1 nat_add_distrib live_before_Suc entry_at_def)
      have "\<exists>c'. skip_deleted ops (it_Prev ops) c1 = Some (Inr (), c') \<and> nodel_inv c' \<and> rep c' = rep c1 \<and>
          nodel_pos c' = int (live_before (rep c1) (nat (pos c1 + 1))) - 1 \<and> pos c' \<le> pos c1"
        using c1 r less.prems(2) by (intro less.hyps) auto
      then obtain c' where "skip_deleted ops (it_Prev ops) c1 = Some (Inr (), c')" "nodel_inv c'" "rep c' = rep c"
        "nodel_pos c' = int (live_before (rep c) (nat (pos c + 1))) - 1" "pos c' \<le> pos c1"
        unfolding c1(3) lb by blast
      then show ?thesis
        using v True del [OF i v] c1(1,4) by (subst skip_deleted.simps) (simp add: entry_at_def)
    qed
  qed
qed

lemma nodel_back_cursor: "back_cursor (NoDeleted_ops ops) nodel_inv nodel_rep nodel_pos"
proof (rule back_cursor.intro [OF nodel_scan_cursor], unfold_locales)
  fix c assume n: "nodel_inv c" and "it_Valid (NoDeleted_ops ops) c"
  then have i: "inv c" and v: "it_Valid ops c" by (simp_all add: NoDeleted_ops_def nodel_inv_def)
  have r: "0 \<le> pos c" "pos c < int (length (rep c))" using valid [OF i] v by auto
  obtain c1 where c1: "it_Prev ops c = Some (Inr (), c1)" "inv c1" "rep c1 = rep c" "pos c1 = pos c - 1"
    using step_prev [OF i v] by blast
  have "int (live_before (rep c) (nat (pos c))) - 1 = nodel_pos c - 1" using r by (simp add: nodel_pos_def)
  then show "\<exists>c'. it_Prev (NoDeleted_ops ops) c = Some (Inr (), c') \<and> nodel_inv c' \<and>
      nodel_rep c' = nodel_rep c \<and> nodel_pos c' = nodel_pos c - 1"
    using skip_deleted_prev [OF c1(2)] c1 r
    by (auto simp: NoDeleted_ops_def NoDeletedIter_Prev_def nodel_rep_def)
qed

end

section \<open>The filter over the merge\<close>

abbreviation "store_ops \<equiv> NoDeleted_ops (Merged_ops level_ops)"

interpretation store: scan_cursor store_ops db_merge.nodel_inv db_merge.nodel_rep db_merge.nodel_pos
  by (rule db_merge.nodel_scan_cursor)

interpretation store_back: back_cursor store_ops db_merge_back.nodel_inv db_merge_back.nodel_rep db_merge_back.nodel_pos
  by (rule db_merge_back.nodel_back_cursor)

end
