(* ===== verification/Ranged.thy ===== *)
theory Ranged
  imports FilterDel
begin

text \<open>
  \<^verbatim>\<open>storage/ranged.go\<close>: a cursor restricted to a closed key interval and a direction.
  \<open>Ranged_open\<close> is what \<^verbatim>\<open>KV.Range\<close> does with the cursor that \<^verbatim>\<open>Seek\<close> returned.  The locale
  \<open>entry_stream\<close> is the contract a reader of the range relies on (the row iterator of \<^verbatim>\<open>table/\<close>
  is proved against it); its interpretation is the range over the merged, filtered store.
\<close>

record 'c RangedKVIter =
  rk_iter :: 'c
  rk_stop :: bytes
  rk_desc :: bool

definition Ranged_Key :: "'c iter_ops \<Rightarrow> 'c RangedKVIter \<Rightarrow> bytes option" where
  "Ranged_Key ops it = it_Key ops (rk_iter it)"

definition Ranged_Val :: "'c iter_ops \<Rightarrow> 'c RangedKVIter \<Rightarrow> bytes option" where
  "Ranged_Val ops it = it_Val ops (rk_iter it)"

definition Ranged_Deleted :: "'c iter_ops \<Rightarrow> 'c RangedKVIter \<Rightarrow> bool option" where
  "Ranged_Deleted ops it = it_Deleted ops (rk_iter it)"

definition ranged_lift :: "('c, unit) st \<Rightarrow> ('c RangedKVIter, unit) st" where
  "ranged_lift f it = map_option (apsnd (\<lambda>c. it\<lparr>rk_iter := c\<rparr>)) (f (rk_iter it))"

definition Ranged_Prev :: "'c iter_ops \<Rightarrow> ('c RangedKVIter, unit) st" where
  "Ranged_Prev ops it = ranged_lift (if rk_desc it then it_Next ops else it_Prev ops) it"

definition Ranged_Valid :: "'c iter_ops \<Rightarrow> 'c RangedKVIter \<Rightarrow> bool option" where
  "Ranged_Valid ops it =
     (if \<not> it_Valid ops (rk_iter it) then Some False
      else case it_Key ops (rk_iter it) of
        None \<Rightarrow> None
      | Some k \<Rightarrow>
          let r = bytes_Compare k (rk_stop it) in
          Some (if rk_desc it \<and> r < 0 then False
                else if \<not> rk_desc it \<and> r > 0 then False
                else True))"

definition Ranged_Next :: "'c iter_ops \<Rightarrow> ('c RangedKVIter, unit) st" where
  "Ranged_Next ops it =
     (case Ranged_Valid ops it of
        None \<Rightarrow> None
      | Some v \<Rightarrow>
          if \<not> v then Some (Inr (), it)
          else ranged_lift (if rk_desc it then it_Prev ops else it_Next ops) it)"

definition Ranged_open :: "'c iter_ops \<Rightarrow> bytes \<Rightarrow> bytes \<Rightarrow> bool \<Rightarrow> 'c \<Rightarrow> 'c RangedKVIter option" where
  "Ranged_open ops start stop ds kvit =
     (if ds
      then (case (if it_Valid ops kvit then map_option (\<lambda>k. bytes_Compare k start > 0) (it_Key ops kvit)
                  else Some True) of
          None \<Rightarrow> None
        | Some back \<Rightarrow>
            if back
            then map_option (\<lambda>(_, c). \<lparr>rk_iter = c, rk_stop = stop, rk_desc = ds\<rparr>) (it_Prev ops kvit)
            else Some \<lparr>rk_iter = kvit, rk_stop = stop, rk_desc = ds\<rparr>)
      else Some \<lparr>rk_iter = kvit, rk_stop = stop, rk_desc = ds\<rparr>)"

section \<open>The contract of a stream of entries\<close>

text \<open>The first \<open>n\<close> entries that a reader of the stream gets.\<close>

fun read_entries ::
  "('r \<Rightarrow> bool option) \<Rightarrow> ('r \<Rightarrow> bytes option) \<Rightarrow> ('r \<Rightarrow> bytes option) \<Rightarrow> ('r, unit) st \<Rightarrow> nat \<Rightarrow> 'r \<Rightarrow>
    (bytes \<times> bytes) list go" where
  "read_entries vld ky vl nxt 0 r = Some (Inr [])"
| "read_entries vld ky vl nxt (Suc n) r =
     (case vld r of
        None \<Rightarrow> None
      | Some v \<Rightarrow>
          if \<not> v then Some (Inr [])
          else (case (ky r, vl r) of
              (Some k, Some x) \<Rightarrow>
                (case nxt r of
                   None \<Rightarrow> None
                 | Some (Inl e, _) \<Rightarrow> Some (Inl e)
                 | Some (Inr _, r') \<Rightarrow>
                     go_bind (read_entries vld ky vl nxt n r') (\<lambda>kvs. Some (Inr ((k, x) # kvs))))
            | _ \<Rightarrow> None))"

locale entry_stream =
  fixes vld :: "'r \<Rightarrow> bool option"
    and ky vl :: "'r \<Rightarrow> bytes option"
    and nxt :: "('r, unit) st"
    and ok :: "'r \<Rightarrow> bool"
    and todo :: "'r \<Rightarrow> Entry list"
  assumes at_end: "ok r \<Longrightarrow> todo r = [] \<Longrightarrow> vld r = Some False"
    and at_entry: "ok r \<Longrightarrow> todo r = e # es \<Longrightarrow>
        vld r = Some True \<and> ky r = Some (e_key e) \<and> vl r = Some (e_val e)"
    and advances: "ok r \<Longrightarrow> todo r = e # es \<Longrightarrow>
        \<exists>r'. nxt r = Some (Inr (), r') \<and> ok r' \<and> todo r' = es"
begin

lemma read_all:
  "ok r \<Longrightarrow> read_entries vld ky vl nxt n r = Some (Inr (take n (map (\<lambda>e. (e_key e, e_val e)) (todo r))))"
proof (induction n arbitrary: r)
  case (Suc n)
  show ?case
  proof (cases "todo r")
    case Nil
    then show ?thesis using at_end [OF Suc.prems] by simp
  next
    case (Cons e es)
    from at_entry [OF Suc.prems Cons] advances [OF Suc.prems Cons] Suc.IH Cons show ?thesis
      by (auto simp: go_bind_def)
  qed
qed simp

end

section \<open>What a range holds\<close>

definition range_entries :: "bytes \<Rightarrow> bytes \<Rightarrow> bool \<Rightarrow> Entry list \<Rightarrow> Entry list" where
  "range_entries start stop ds es =
     (if ds then rev (filter (\<lambda>e. stop \<le> e_key e \<and> e_key e \<le> start) es)
      else filter (\<lambda>e. start \<le> e_key e \<and> e_key e \<le> stop) es)"

lemma sorted_takeWhile_le:
  "sorted_entries es \<Longrightarrow> takeWhile (\<lambda>e. e_key e \<le> K) es = filter (\<lambda>e. e_key e \<le> K) es"
proof (induction es)
  case (Cons e es)
  show ?case
  proof (cases "e_key e \<le> K")
    case False
    then have "\<not> e_key x \<le> K" if "x \<in> set es" for x using that Cons.prems by (auto simp: sorted_simps)
    with False show ?thesis by (auto simp: filter_empty_conv)
  qed (use Cons in \<open>auto simp: sorted_simps\<close>)
qed simp

lemma sorted_drop_cut:
  "sorted_entries es \<Longrightarrow> drop (cutp (\<lambda>k. k < K) es) es = filter (\<lambda>e. K \<le> e_key e) es"
proof (induction es)
  case (Cons e es)
  show ?case
  proof (cases "e_key e < K")
    case False
    then have "filter (\<lambda>e. K \<le> e_key e) es = es" using Cons.prems by (auto simp: sorted_simps filter_id_conv)
    with False show ?thesis by (simp add: cutp_def)
  qed (use Cons in \<open>auto simp: sorted_simps cutp_def not_le\<close>)
qed (simp add: cutp_def)

lemma sorted_take_cut_le:
  "sorted_entries es \<Longrightarrow> take (cutp (\<lambda>k. k \<le> K) es) es = filter (\<lambda>e. e_key e \<le> K) es"
  unfolding cutp_def by (metis (no_types) sorted_takeWhile_le takeWhile_eq_take)

lemma takeWhile_rev_ge:
  "sorted_entries es \<Longrightarrow> takeWhile (\<lambda>e. K \<le> e_key e) (rev es) = rev (filter (\<lambda>e. K \<le> e_key e) es)"
proof (induction es rule: rev_induct)
  case (snoc e es)
  show ?case
  proof (cases "K \<le> e_key e")
    case False
    then have "\<not> K \<le> e_key x" if "x \<in> set es" for x using that snoc.prems by (auto simp: sorted_simps)
    with False show ?thesis by (auto simp: filter_empty_conv)
  qed (use snoc in \<open>auto simp: sorted_simps\<close>)
qed simp

lemma sorted_entries_take: "sorted_entries es \<Longrightarrow> sorted_entries (take n es)"
  by (metis append_take_drop_id sorted_entries_append)

section \<open>Ascending over a cursor\<close>

context scan_cursor
begin

definition asc_ok :: "'c RangedKVIter \<Rightarrow> bool" where
  "asc_ok r \<longleftrightarrow> inv (rk_iter r) \<and> 0 \<le> pos (rk_iter r) \<and> \<not> rk_desc r"

definition asc_todo :: "'c RangedKVIter \<Rightarrow> Entry list" where
  "asc_todo r = takeWhile (\<lambda>e. e_key e \<le> rk_stop r) (rest (rk_iter r))"

lemma asc_stream:
  "entry_stream (Ranged_Valid ops) (Ranged_Key ops) (Ranged_Val ops) (Ranged_Next ops) asc_ok asc_todo"
proof
  fix r assume ok: "asc_ok r"
  then have i: "inv (rk_iter r)" and p: "0 \<le> pos (rk_iter r)" and nd: "\<not> rk_desc r" by (simp_all add: asc_ok_def)
  have V: "Ranged_Valid ops r = Some (e_key (entry_at (rk_iter r)) \<le> rk_stop r)" if "it_Valid ops (rk_iter r)"
    using that key [OF i that] nd by (auto simp: Ranged_Valid_def entry_at_def Let_def)
  show "Ranged_Valid ops r = Some False" if "asc_todo r = []"
  proof (cases "it_Valid ops (rk_iter r)")
    case True
    with that rest_valid [OF i True] V show ?thesis by (auto simp: asc_todo_def split: if_splits)
  qed (simp add: Ranged_Valid_def)
  fix e es assume todo: "asc_todo r = e # es"
  have v: "it_Valid ops (rk_iter r)"
    using todo not_valid_rest [OF i _ p] by (cases "it_Valid ops (rk_iter r)") (auto simp: asc_todo_def)
  note rv = rest_valid [OF i v]
  have e: "entry_at (rk_iter r) = e" "e_key e \<le> rk_stop r"
    using todo rv by (auto simp: asc_todo_def split: if_splits)
  show "Ranged_Valid ops r = Some True \<and> Ranged_Key ops r = Some (e_key e) \<and> Ranged_Val ops r = Some (e_val e)"
    using V [OF v] e key [OF i v] val [OF i v] by (simp add: Ranged_Key_def Ranged_Val_def entry_at_def)
  obtain c' where c': "it_Next ops (rk_iter r) = Some (Inr (), c')" "inv c'" "rep c' = rep (rk_iter r)"
    "pos c' = pos (rk_iter r) + 1" "rest (rk_iter r) = entry_at (rk_iter r) # rest c'"
    using step_next_rest [OF i v] by metis
  show "\<exists>r'. Ranged_Next ops r = Some (Inr (), r') \<and> asc_ok r' \<and> asc_todo r' = es"
    using c' V [OF v] e nd p todo by (simp add: Ranged_Next_def ranged_lift_def asc_ok_def asc_todo_def)
qed

lemma asc_open:
  assumes "inv c" "pos c = int (cutp (\<lambda>k. k < start) (rep c))"
  shows "\<exists>r. Ranged_open ops start stop False c = Some r \<and> asc_ok r \<and> \<not> rk_desc r \<and>
    asc_todo r = range_entries start stop False (rep c)"
proof -
  have "takeWhile (\<lambda>e. e_key e \<le> stop) (rest c) = range_entries start stop False (rep c)"
  proof -
    have r: "rest c = filter (\<lambda>e. start \<le> e_key e) (rep c)"
      using assms sorted_drop_cut [OF sorted [OF assms(1)], of start] by (simp add: rest_def)
    have "sorted_entries (rest c)"
      using sorted [OF assms(1)] by (metis append_take_drop_id rest_def sorted_entries_append)
    then have "sorted_entries (filter (\<lambda>e. start \<le> e_key e) (rep c))" by (simp add: r)
    then show ?thesis by (simp add: r sorted_takeWhile_le range_entries_def)
  qed
  with assms show ?thesis by (simp add: Ranged_open_def asc_ok_def asc_todo_def)
qed

end

section \<open>Descending over a cursor that steps back\<close>

context back_cursor
begin

definition desc_ok :: "'a RangedKVIter \<Rightarrow> bool" where
  "desc_ok r \<longleftrightarrow> inv (rk_iter r) \<and> pos (rk_iter r) < int (length (rep (rk_iter r))) \<and> rk_desc r"

definition desc_todo :: "'a RangedKVIter \<Rightarrow> Entry list" where
  "desc_todo r = takeWhile (\<lambda>e. rk_stop r \<le> e_key e) (rev (front (rk_iter r)))"

lemma front_valid:
  assumes "inv c" "it_Valid ops c" "pos c' = pos c - 1" "rep c' = rep c"
  shows "rev (front c) = entry_at c # rev (front c')"
proof -
  have r: "0 \<le> pos c" "nat (pos c) < length (rep c)" using valid [OF assms(1)] assms(2) by auto
  have "nat (pos c + 1) = Suc (nat (pos c))" using r by (simp add: nat_add_distrib)
  then have "front c = front c' @ [entry_at c]"
    using r assms(3,4) by (simp add: front_def entry_at_def take_Suc_conv_app_nth)
  then show ?thesis by simp
qed

lemma desc_stream:
  "entry_stream (Ranged_Valid ops) (Ranged_Key ops) (Ranged_Val ops) (Ranged_Next ops) desc_ok desc_todo"
proof
  fix r assume ok: "desc_ok r"
  then have i: "inv (rk_iter r)" and p: "pos (rk_iter r) < int (length (rep (rk_iter r)))" and d: "rk_desc r"
    by (simp_all add: desc_ok_def)
  have V: "Ranged_Valid ops r = Some (rk_stop r \<le> e_key (entry_at (rk_iter r)))" if "it_Valid ops (rk_iter r)"
    using that key [OF i that] d by (auto simp: Ranged_Valid_def entry_at_def Let_def)
  have step: "\<exists>c'. it_Prev ops (rk_iter r) = Some (Inr (), c') \<and> inv c' \<and> rep c' = rep (rk_iter r) \<and>
      pos c' = pos (rk_iter r) - 1 \<and> rev (front (rk_iter r)) = entry_at (rk_iter r) # rev (front c')"
    if "it_Valid ops (rk_iter r)"
    using step_prev [OF i that] front_valid [OF i that] by metis
  show "Ranged_Valid ops r = Some False" if "desc_todo r = []"
  proof (cases "it_Valid ops (rk_iter r)")
    case True
    with that step [OF True] V show ?thesis by (auto simp: desc_todo_def split: if_splits)
  qed (simp add: Ranged_Valid_def)
  fix e es assume todo: "desc_todo r = e # es"
  have v: "it_Valid ops (rk_iter r)"
  proof (rule ccontr)
    assume "\<not> it_Valid ops (rk_iter r)"
    then have "pos (rk_iter r) = -1" using valid [OF i] pos_range [OF i] p by linarith
    with todo show False by (simp add: desc_todo_def front_def)
  qed
  from step [OF v] obtain c' where c': "it_Prev ops (rk_iter r) = Some (Inr (), c')" "inv c'"
    "rep c' = rep (rk_iter r)" "pos c' = pos (rk_iter r) - 1"
    "rev (front (rk_iter r)) = entry_at (rk_iter r) # rev (front c')" by blast
  have e: "entry_at (rk_iter r) = e" "rk_stop r \<le> e_key e"
    using todo c'(5) by (auto simp: desc_todo_def split: if_splits)
  show "Ranged_Valid ops r = Some True \<and> Ranged_Key ops r = Some (e_key e) \<and> Ranged_Val ops r = Some (e_val e)"
    using V [OF v] e key [OF i v] val [OF i v] by (simp add: Ranged_Key_def Ranged_Val_def entry_at_def)
  show "\<exists>r'. Ranged_Next ops r = Some (Inr (), r') \<and> desc_ok r' \<and> desc_todo r' = es"
    using c' V [OF v] e d p todo by (simp add: Ranged_Next_def ranged_lift_def desc_ok_def desc_todo_def)
qed

lemma desc_open:
  assumes i: "inv c" and p: "pos c = int (cutp (\<lambda>k. k < start) (rep c))" and v: "it_Valid ops c"
  shows "\<exists>r. Ranged_open ops start stop True c = Some r \<and> desc_ok r \<and> rk_desc r \<and>
    desc_todo r = range_entries start stop True (rep c)"
proof -
  let ?es = "rep c" and ?n = "cutp (\<lambda>k. k < start) (rep c)"
  note s = sorted [OF i]
  have n: "?n < length ?es" using v valid [OF i] p by simp
  have k: "it_Key ops c = Some (e_key (?es ! ?n))" using key [OF i v] p by simp
  have gen: "takeWhile (\<lambda>e. stop \<le> e_key e) (rev (front c')) = range_entries start stop True ?es"
    if "rep c' = ?es" "pos c' + 1 = int (cutp (\<lambda>k. k \<le> start) ?es)" for c'
  proof -
    have f: "front c' = filter (\<lambda>e. e_key e \<le> start) ?es"
      using sorted_take_cut_le [OF s, of start] that by (simp add: front_def)
    have "sorted_entries (filter (\<lambda>e. e_key e \<le> start) ?es)"
      using sorted_entries_take [OF s] by (simp add: sorted_take_cut_le [OF s, symmetric])
    then show ?thesis
      by (simp add: f takeWhile_rev_ge range_entries_def conj_commute)
  qed
  have le: "start \<le> e_key (?es ! ?n)"
    using less_cut_iff [OF s down_closed_simps(1) n, of start] by (simp add: not_less)
  show ?thesis
  proof (cases "start < e_key (?es ! ?n)")
    case True
    then have "start \<notin> e_key ` set ?es" using cut_at_key(2) [OF s, of start] by auto
    then have cut: "cutp (\<lambda>k. k \<le> start) ?es = ?n" by (rule cut_no_key [OF s])
    obtain c' where c': "it_Prev ops c = Some (Inr (), c')" "inv c'" "rep c' = ?es" "pos c' = pos c - 1"
      using step_prev [OF i v] by blast
    then have "takeWhile (\<lambda>e. stop \<le> e_key e) (rev (front c')) = range_entries start stop True ?es"
      using cut p by (intro gen) simp_all
    with c' v k True p n show ?thesis
      by (simp add: Ranged_open_def desc_ok_def desc_todo_def)
  next
    case False
    with le have e: "e_key (?es ! ?n) = start" by simp
    then have "start \<in> e_key ` set ?es" using n by (metis image_eqI nth_mem)
    then have "cutp (\<lambda>k. k \<le> start) ?es = Suc ?n" by (rule cut_at_key(3) [OF s])
    then have "takeWhile (\<lambda>e. stop \<le> e_key e) (rev (front c)) = range_entries start stop True ?es"
      using p by (intro gen) simp_all
    moreover have "it_Key ops c = Some start" using k e by simp
    ultimately show ?thesis using i v p n
      by (simp add: Ranged_open_def desc_ok_def desc_todo_def)
  qed
qed

end

section \<open>Ranges over the store\<close>

definition store_range_ok :: "level_iter MergedSortedKVIter RangedKVIter \<Rightarrow> bool" where
  "store_range_ok r = (if rk_desc r then store_back.desc_ok r else store.asc_ok r)"

definition store_range_todo :: "level_iter MergedSortedKVIter RangedKVIter \<Rightarrow> Entry list" where
  "store_range_todo r = (if rk_desc r then store_back.desc_todo r else store.asc_todo r)"

lemma Ranged_Next_desc: "Ranged_Next ops r = Some (x, r') \<Longrightarrow> rk_desc r' = rk_desc r"
  by (auto simp: Ranged_Next_def ranged_lift_def split: option.splits if_splits)

interpretation store_range: entry_stream "Ranged_Valid store_ops" "Ranged_Key store_ops" "Ranged_Val store_ops"
  "Ranged_Next store_ops" store_range_ok store_range_todo
proof
  fix r assume ok: "store_range_ok r"
  show "Ranged_Valid store_ops r = Some False" if "store_range_todo r = []"
    using ok that entry_stream.at_end [OF store.asc_stream] entry_stream.at_end [OF store_back.desc_stream]
    by (auto simp: store_range_ok_def store_range_todo_def split: if_splits)
  fix e es assume todo: "store_range_todo r = e # es"
  show "Ranged_Valid store_ops r = Some True \<and> Ranged_Key store_ops r = Some (e_key e) \<and>
      Ranged_Val store_ops r = Some (e_val e)"
    using ok todo entry_stream.at_entry [OF store.asc_stream] entry_stream.at_entry [OF store_back.desc_stream]
    by (auto simp: store_range_ok_def store_range_todo_def split: if_splits)
  show "\<exists>r'. Ranged_Next store_ops r = Some (Inr (), r') \<and> store_range_ok r' \<and> store_range_todo r' = es"
  proof (cases "rk_desc r")
    case True
    with ok todo entry_stream.advances [OF store_back.desc_stream, of r e es]
    obtain r' where "Ranged_Next store_ops r = Some (Inr (), r')" "store_back.desc_ok r'" "store_back.desc_todo r' = es"
      by (auto simp: store_range_ok_def store_range_todo_def)
    with True Ranged_Next_desc [of store_ops r] show ?thesis
      by (auto simp: store_range_ok_def store_range_todo_def)
  next
    case False
    with ok todo entry_stream.advances [OF store.asc_stream, of r e es]
    obtain r' where "Ranged_Next store_ops r = Some (Inr (), r')" "store.asc_ok r'" "store.asc_todo r' = es"
      by (auto simp: store_range_ok_def store_range_todo_def)
    with False Ranged_Next_desc [of store_ops r] show ?thesis
      by (auto simp: store_range_ok_def store_range_todo_def)
  qed
qed

end
