(* ===== verification/Log.thy ===== *)
theory Log
  imports Entry
begin

text \<open>
  \<^verbatim>\<open>storage/log.go\<close>: the append-only write-ahead log.  A \<open>Log\<close> is the file name and,
  while the file is open, the offset of its descriptor (the file is not opened in append mode, so
  writes go to that offset).  The lemmas show that a successful \<open>Log_Write\<close> at the end of the
  file appends exactly one record and syncs it, that a failed one leaves the earlier bytes alone,
  and that \<open>Log_Read\<close> walks the records one by one.
\<close>

record Log =
  FileName :: string
  log_fp :: "nat option"

definition Log_Open :: "Log \<Rightarrow> disk \<Rightarrow> unit res \<times> Log \<times> disk" where
  "Log_Open log d =
     (case createFileSync (FileName log) d of
        (Inl e, d') \<Rightarrow> (Inl e, log\<lparr>log_fp := None\<rparr>, d')
      | (Inr _, d') \<Rightarrow> (Inr (), log\<lparr>log_fp := Some 0\<rparr>, d'))"

text \<open>Closing keeps the contents; a log that was never opened closes without error.\<close>

definition Log_Close :: "Log \<Rightarrow> unit res" where
  "Log_Close log = Inr ()"

text \<open>A method of a nil \<^verbatim>\<open>*os.File\<close> returns \<^verbatim>\<open>os.ErrInvalid\<close>, here \<open>IOErr\<close>.\<close>

definition Log_Write :: "Log \<Rightarrow> Entry \<Rightarrow> disk \<Rightarrow> unit res \<times> Log \<times> disk" where
  "Log_Write log ent d =
     (case log_fp log of
        None \<Rightarrow> (Inl IOErr, log, d)
      | Some p \<Rightarrow>
          (case os_WriteAt (FileName log) p (Entry_Encode ent) d of
             (n, Some e, d1) \<Rightarrow> (Inl e, log\<lparr>log_fp := Some (p + n)\<rparr>, d1)
           | (n, None, d1) \<Rightarrow>
               (case os_Sync (FileName log) d1 of
                  (r, d2) \<Rightarrow> (r, log\<lparr>log_fp := Some (p + n)\<rparr>, d2))))"

definition Log_Truncate :: "Log \<Rightarrow> disk \<Rightarrow> unit res \<times> Log \<times> disk" where
  "Log_Truncate log d =
     (case log_fp log of
        None \<Rightarrow> (Inl IOErr, log, d)
      | Some p \<Rightarrow>
          (case os_Truncate (FileName log) 0 d of
             (Inl e, d1) \<Rightarrow> (Inl e, log, d1)
           | (Inr _, d1) \<Rightarrow>
               (case os_Sync (FileName log) d1 of
                  (r, d2) \<Rightarrow> (r, log\<lparr>log_fp := Some 0\<rparr>, d2))))"

text \<open>\<^verbatim>\<open>Read\<close> gives an entry, or \<open>None\<close> for the end of the usable log.\<close>

definition Log_Read :: "disk \<Rightarrow> (Log, Entry option) st" where
  "Log_Read d log =
     (case log_fp log of
        None \<Rightarrow> Some (Inl IOErr, log)
      | Some p \<Rightarrow>
          (let r = drop p (case files d (FileName log) of None \<Rightarrow> [] | Some c \<Rightarrow> c) in
           case Entry_Decode r of
             None \<Rightarrow> None
           | Some (x, r') \<Rightarrow>
               let log' = log\<lparr>log_fp := Some (p + (length r - length r'))\<rparr> in
               (case x of
                  Inr ent \<Rightarrow> Some (Inr (Some ent), log')
                | Inl e \<Rightarrow>
                    if e = EOF \<or> e = ErrUnexpectedEOF \<or> e = ErrBadSum
                    then Some (Inr None, log') else Some (Inl e, log'))))"

section \<open>Facts about the log\<close>

text \<open>What a log file holds: the records of a list of entries, one after the other.\<close>

definition log_bytes :: "Entry list \<Rightarrow> bytes" where
  "log_bytes es = concat (map Entry_Encode es)"

lemma log_bytes_simps [simp]:
  "log_bytes [] = []" "log_bytes (e # es) = Entry_Encode e @ log_bytes es"
  "log_bytes (es @ fs) = log_bytes es @ log_bytes fs"
  by (simp_all add: log_bytes_def)

lemma Entry_Encode_nonempty [simp]: "Entry_Encode e \<noteq> []"
  using length_Entry_Encode [of e] by auto

text \<open>A write is a \<^verbatim>\<open>WriteAt\<close> at the offset, then a \<^verbatim>\<open>Sync\<close> unless it failed.\<close>

lemma Log_Write_steps:
  assumes p: "log_fp log = Some p" and w: "Log_Write log ent d = (r, log', d')"
  obtains n e d1 where "os_WriteAt (FileName log) p (Entry_Encode ent) d = (n, e, d1)"
    and "log' = log\<lparr>log_fp := Some (p + n)\<rparr>" and "files d' = files d1"
    and "case e of None \<Rightarrow> os_Sync (FileName log) d1 = (r, d') | Some x \<Rightarrow> r = Inl x"
proof -
  obtain n e d1 where wr: "os_WriteAt (FileName log) p (Entry_Encode ent) d = (n, e, d1)"
    by (metis prod_cases3)
  show ?thesis
  proof (cases e)
    case None
    obtain r2 d2 where sy: "os_Sync (FileName log) d1 = (r2, d2)" by fastforce
    with w p wr None have "r = r2" "d' = d2" "log' = log\<lparr>log_fp := Some (p + n)\<rparr>"
      by (simp_all add: Log_Write_def)
    with that [OF wr] sy None os_Sync_files [OF sy] show ?thesis by simp
  next
    case (Some x)
    with w p wr have "r = Inl x" "d' = d1" "log' = log\<lparr>log_fp := Some (p + n)\<rparr>"
      by (simp_all add: Log_Write_def)
    with that [OF wr] Some show ?thesis by simp
  qed
qed

lemma Log_Write_ok:
  assumes f: "files d (FileName log) = Some c" and p: "log_fp log = Some (length c)"
    and w: "Log_Write log ent d = (Inr u, log', d')"
  shows "files d' = (files d)(FileName log := Some (c @ Entry_Encode ent))"
    and "log' = log\<lparr>log_fp := Some (length (c @ Entry_Encode ent))\<rparr>"
    and "listed d (FileName log) \<Longrightarrow> settled d' (FileName log)"
proof -
  from p w obtain n e d1 where wr: "os_WriteAt (FileName log) (length c) (Entry_Encode ent) d = (n, e, d1)"
    and l: "log' = log\<lparr>log_fp := Some (length c + n)\<rparr>" and fd: "files d' = files d1"
    and er: "case e of None \<Rightarrow> os_Sync (FileName log) d1 = (Inr u, d') | Some x \<Rightarrow> Inr u = Inl x"
    by (rule Log_Write_steps)
  from er have e: "e = None" and sy: "os_Sync (FileName log) d1 = (Inr u, d')"
    by (cases e; simp)+
  note ap = os_WriteAt_append [OF f wr]
  show "files d' = (files d)(FileName log := Some (c @ Entry_Encode ent))" using ap fd e by simp
  show "log' = log\<lparr>log_fp := Some (length (c @ Entry_Encode ent))\<rparr>" using ap l e by simp
  show "settled d' (FileName log)" if "listed d (FileName log)" using os_Sync_settles [OF sy] wr that by simp
qed

lemma Log_Write_fault_free:
  assumes "files d (FileName log) = Some c" "log_fp log = Some p" "fault_free d"
  shows "\<exists>log' d'. Log_Write log ent d = (Inr (), log', d') \<and> fault_free d'"
  using assms by (simp add: Log_Write_def os_WriteAt_def os_Sync_def)

text \<open>Whatever happens, a write leaves the old log and a prefix of the new record.\<close>

lemma Log_Write_prefix:
  assumes f: "files d (FileName log) = Some c" and p: "log_fp log = Some (length c)"
    and w: "Log_Write log ent d = (r, log', d')"
  shows "\<exists>n. files d' = (files d)(FileName log := Some (c @ take n (Entry_Encode ent))) \<and>
    log' = log\<lparr>log_fp := Some (length (c @ take n (Entry_Encode ent)))\<rparr>"
proof -
  from p w obtain n e d1 where wr: "os_WriteAt (FileName log) (length c) (Entry_Encode ent) d = (n, e, d1)"
    and "log' = log\<lparr>log_fp := Some (length c + n)\<rparr>" "files d' = files d1"
    by (rule Log_Write_steps)
  with os_WriteAt_append [OF f wr] show ?thesis by (intro exI [of _ n]) auto
qed

text \<open>Other files are left alone, and a power cut leaves of the log what was there and a prefix of the
  record.\<close>

lemma Log_Write_kept: "Log_Write log ent d = (r, log', d') \<Longrightarrow> g \<noteq> FileName log \<Longrightarrow> kept d d' g"
  by (auto simp: Log_Write_def dest: os_WriteAt_kept [of _ _ _ _ _ _ _ g] os_Sync_kept [of _ _ _ _ g] kept_trans
      split: option.splits prod.splits)

lemma Log_Write_listed [simp]: "Log_Write log ent d = (r, log', d') \<Longrightarrow> listed d' g = listed d g"
  by (auto simp: Log_Write_def split: option.splits prod.splits)

lemma after_cut_Log_Write:
  assumes f: "files d (FileName log) = Some c" and p: "log_fp log = Some (length c)"
    and w: "Log_Write log ent d = (r, log', d')"
  shows "set (after_cut d' (FileName log)) \<subseteq> set (after_cut d (FileName log)) \<union> {Some (c @ take k (Entry_Encode ent)) | k. True}"
proof -
  from p w obtain n e d1 where wr: "os_WriteAt (FileName log) (length c) (Entry_Encode ent) d = (n, e, d1)"
    and er: "case e of None \<Rightarrow> os_Sync (FileName log) d1 = (r, d') | Some x \<Rightarrow> r = Inl x"
    and l: "log' = log\<lparr>log_fp := Some (length c + n)\<rparr>" "files d' = files d1"
    by (rule Log_Write_steps)
  have "d' = d1 \<or> os_Sync (FileName log) d1 = (r, d')"
    using w p wr er by (cases e) (simp_all add: Log_Write_def)
  then have "set (after_cut d' (FileName log)) \<subseteq> set (after_cut d1 (FileName log))" using after_cut_Sync [of "FileName log" d1 r d' "FileName log"] by blast
  then show ?thesis using after_cut_WriteAt [OF wr f] by auto
qed

lemma Log_Write_name: "Log_Write log ent d = (r, log', d') \<Longrightarrow> FileName log' = FileName log"
  by (auto simp: Log_Write_def split: option.splits prod.splits)

lemma Log_Read_entry:
  assumes "files d (FileName log) = Some (a @ Entry_Encode ent @ b)" "log_fp log = Some (length a)"
    and "entry_fits ent"
  shows "Log_Read d log = Some (Inr (Some ent), log\<lparr>log_fp := Some (length (a @ Entry_Encode ent))\<rparr>)"
  using assms by (simp add: Log_Read_def Entry_Decode_Encode Let_def)

lemma Log_Read_eof:
  assumes "files d (FileName log) = Some (a @ p)" "log_fp log = Some (length a)"
    and "Entry_Decode p = Some (Inl e, r')" "e \<in> {EOF, ErrUnexpectedEOF, ErrBadSum}"
  shows "\<exists>log'. Log_Read d log = Some (Inr None, log')"
  using assms by (auto simp: Log_Read_def Let_def)

text \<open>A decoded entry moves the offset by at least a header, so reading a log ends.\<close>

lemma Log_Read_progress:
  assumes "Log_Read d log = Some (Inr (Some ent), log')"
  shows "\<exists>c p q. files d (FileName log) = Some c \<and> log_fp log = Some p \<and> log_fp log' = Some q \<and>
    p < q \<and> q \<le> length c \<and> FileName log' = FileName log"
proof -
  from assms obtain p where p: "log_fp log = Some p"
    by (cases "log_fp log") (auto simp: Log_Read_def)
  let ?c = "case files d (FileName log) of None \<Rightarrow> [] | Some c \<Rightarrow> c"
  obtain r' where dec: "Entry_Decode (drop p ?c) = Some (Inr ent, r')"
    and log': "log' = log\<lparr>log_fp := Some (p + (length (drop p ?c) - length r'))\<rparr>"
    using assms by (auto simp: Log_Read_def p Let_def split: option.splits prod.splits sum.splits if_splits)
  from Entry_Decode_rest(2) [OF dec refl] have "length r' + 13 \<le> length ?c - p" by simp
  then show ?thesis using p log' by (cases "files d (FileName log)") auto
qed

section \<open>Truncation\<close>

lemma Log_Truncate_cases:
  assumes p: "log_fp lg = Some p" and t: "Log_Truncate lg d = (r, lg', d')"
  obtains (failed) e where "r = Inl e" "lg' = lg" "os_Truncate (FileName lg) 0 d = (Inl e, d')"
  | (emptied) d1 where "os_Truncate (FileName lg) 0 d = (Inr (), d1)" "os_Sync (FileName lg) d1 = (r, d')" "lg' = lg\<lparr>log_fp := Some 0\<rparr>"
proof -
  obtain r1 d1 where t1: "os_Truncate (FileName lg) 0 d = (r1, d1)" by force
  obtain r2 d2 where y: "os_Sync (FileName lg) d1 = (r2, d2)" by force
  show ?thesis using that t p t1 y by (cases r1) (simp_all add: Log_Truncate_def)
qed

lemma Log_Truncate_frame:
  assumes "Log_Truncate lg d = (r, lg', d')"
  shows "FileName lg' = FileName lg" "g \<noteq> FileName lg \<Longrightarrow> kept d d' g"
proof -
  have "FileName lg' = FileName lg \<and> (g \<noteq> FileName lg \<longrightarrow> kept d d' g)"
  proof (cases "log_fp lg")
    case (Some p)
    then show ?thesis using assms
      by (cases rule: Log_Truncate_cases) (auto dest: os_Truncate_kept [of _ _ _ _ _ g] os_Sync_kept [of _ _ _ _ g] kept_trans)
  qed (use assms in \<open>simp add: Log_Truncate_def\<close>)
  then show "FileName lg' = FileName lg" "g \<noteq> FileName lg \<Longrightarrow> kept d d' g" by blast+
qed

lemma Log_Truncate_result:
  assumes f: "files d (FileName lg) = Some c" and p: "log_fp lg = Some p" and t: "Log_Truncate lg d = (r, lg', d')"
  shows "set (after_cut d' (FileName lg)) \<subseteq> insert (Some []) (set (after_cut d (FileName lg)))"
    and "r = Inr () \<Longrightarrow> files d' (FileName lg) = Some [] \<and> lg' = lg\<lparr>log_fp := Some 0\<rparr> \<and>
      (listed d (FileName lg) \<longrightarrow> settled d' (FileName lg))"
proof -
  have "set (after_cut d' (FileName lg)) \<subseteq> insert (Some []) (set (after_cut d (FileName lg))) \<and>
    (r = Inr () \<longrightarrow> files d' (FileName lg) = Some [] \<and> lg' = lg\<lparr>log_fp := Some 0\<rparr> \<and> (listed d (FileName lg) \<longrightarrow> settled d' (FileName lg)))"
    using p t
  proof (cases rule: Log_Truncate_cases)
    case (failed e)
    then show ?thesis using after_cut_Truncate [OF failed(3) f] by simp
  next
    case (emptied d1)
    have "files d1 (FileName lg) = Some []" using emptied(1) f by (auto simp: os_Truncate_def split: option.splits prod.splits)
    moreover have "settled d' (FileName lg)" if "r = Inr ()" "listed d (FileName lg)"
      using os_Sync_settles [of "FileName lg" d1 "()" d'] emptied(1,2) that by simp
    moreover have "set (after_cut d' (FileName lg)) \<subseteq> insert (Some []) (set (after_cut d (FileName lg)))"
      using after_cut_Truncate [OF emptied(1) f] after_cut_Sync [OF emptied(2), of "FileName lg"] by blast
    ultimately show ?thesis using os_Sync_files [OF emptied(2)] emptied(3) by simp
  qed
  then show "set (after_cut d' (FileName lg)) \<subseteq> insert (Some []) (set (after_cut d (FileName lg)))"
    "r = Inr () \<Longrightarrow> files d' (FileName lg) = Some [] \<and> lg' = lg\<lparr>log_fp := Some 0\<rparr> \<and> (listed d (FileName lg) \<longrightarrow> settled d' (FileName lg))"
    by blast+
qed

lemma Log_Truncate_fault_free:
  assumes "files d (FileName lg) = Some c" "log_fp lg = Some p" "fault_free d"
  shows "\<exists>lg' d'. Log_Truncate lg d = (Inr (), lg', d') \<and> fault_free d'"
  using assms by (simp add: Log_Truncate_def os_Truncate_def os_Sync_def)

end
