(* ===== verification/Json.thy ===== *)
theory Json
  imports Prelude
begin

text \<open>
  What the engine uses of \<^verbatim>\<open>encoding/json\<close> and of \<^verbatim>\<open>%d\<close>/\<^verbatim>\<open>strconv\<close>: decimal numbers, string
  quoting as \<^verbatim>\<open>Marshal\<close> does it (HTML-safe escapes, invalid UTF-8 replaced), and the scanner of
  \<^verbatim>\<open>Unmarshal\<close> as a parser to a tree.  A Go string is a list of bytes, here a \<open>string\<close>.  The parser
  runs on fuel; every call either consumes a character or is the first of its level, so twice the
  length of the text is enough.  The main lemma is \<open>json_parse_render\<close>: what \<^verbatim>\<open>Marshal\<close> writes for
  plain names and integers, \<^verbatim>\<open>Unmarshal\<close> reads back.
\<close>

section \<open>Decimal numbers\<close>

definition digit_char :: "nat \<Rightarrow> char" where
  "digit_char n = char_of (n + 48)"

fun decimal :: "nat \<Rightarrow> string" where
  "decimal n = (if n < 10 then [digit_char n] else decimal (n div 10) @ [digit_char (n mod 10)])"

definition int_decimal :: "int \<Rightarrow> string" where
  "int_decimal i = (if i < 0 then CHR ''-'' # decimal (nat (- i)) else decimal (nat i))"

definition is_digit :: "char \<Rightarrow> bool" where
  "is_digit c \<longleftrightarrow> 48 \<le> (of_char c :: nat) \<and> (of_char c :: nat) \<le> 57"

definition digits_val :: "string \<Rightarrow> nat" where
  "digits_val s = foldl (\<lambda>n c. 10 * n + (of_char c - 48)) 0 s"

text \<open>\<^verbatim>\<open>strconv.ParseInt\<close> / \<^verbatim>\<open>ParseUint\<close> in base 10 on a number token of the scanner.\<close>

definition parse_int :: "string \<Rightarrow> int option" where
  "parse_int s =
     (let neg = (s \<noteq> [] \<and> hd s = CHR ''-''); ds = (if neg then tl s else s)
      in if ds \<noteq> [] \<and> list_all is_digit ds
         then Some (if neg then - int (digits_val ds) else int (digits_val ds)) else None)"

definition parse_int_in :: "int \<Rightarrow> int \<Rightarrow> string \<Rightarrow> int option" where
  "parse_int_in lo hi s =
     (case parse_int s of None \<Rightarrow> None | Some i \<Rightarrow> if lo \<le> i \<and> i \<le> hi then Some i else None)"

definition parse_uint_in :: "nat \<Rightarrow> string \<Rightarrow> nat option" where
  "parse_uint_in hi s =
     (if s \<noteq> [] \<and> list_all is_digit s \<and> digits_val s \<le> hi then Some (digits_val s) else None)"

declare decimal.simps [simp del]

lemma of_char_digit [simp]: "n < 10 \<Longrightarrow> (of_char (digit_char n) :: nat) = n + 48"
  by (simp add: digit_char_def)

lemma is_digit_digit_char [simp]: "n < 10 \<Longrightarrow> is_digit (digit_char n)"
  by (simp add: is_digit_def)

lemma decimal_digits: "list_all is_digit (decimal n)"
  by (induction n rule: decimal.induct) (subst decimal.simps, auto)

lemma decimal_nonempty [simp]: "decimal n \<noteq> []"
  by (subst decimal.simps) simp

lemma digits_val_decimal [simp]: "digits_val (decimal n) = n"
proof (induction n rule: decimal.induct)
  case (1 n)
  show ?case
  proof (cases "n < 10")
    case True
    then show ?thesis by (subst decimal.simps) (simp add: digits_val_def)
  next
    case False
    then have "digits_val (decimal n) = 10 * digits_val (decimal (n div 10)) + n mod 10"
      by (subst decimal.simps) (simp add: digits_val_def)
    with 1 False show ?thesis by simp
  qed
qed

lemma decimal_inj: "decimal m = decimal n \<longleftrightarrow> m = n"
  by (metis digits_val_decimal)

lemma parse_uint_decimal: "n \<le> hi \<Longrightarrow> parse_uint_in hi (decimal n) = Some n"
  by (simp add: parse_uint_in_def decimal_digits)

lemma decimal_hd: "is_digit (hd (decimal n))"
  using decimal_digits [of n] by (cases "decimal n") simp_all

lemma parse_int_decimal [simp]: "parse_int (int_decimal i) = Some i"
proof -
  have "hd (decimal n) \<noteq> CHR ''-''" for n
    using decimal_hd [of n] by (auto simp: is_digit_def)
  then show ?thesis by (simp add: parse_int_def int_decimal_def decimal_digits)
qed

lemma parse_int_in_decimal: "lo \<le> i \<Longrightarrow> i \<le> hi \<Longrightarrow> parse_int_in lo hi (int_decimal i) = Some i"
  by (simp add: parse_int_in_def)

lemma digit_char_0 [simp]: "digit_char 0 = CHR ''0''"
  using char_of_char [of "CHR ''0''", where 'a = nat] by (simp add: digit_char_def)

text \<open>A number without a leading zero, unless it is zero.\<close>

lemma decimal_shape: "decimal n = ''0'' \<or> (\<exists>d ds. decimal n = d # ds \<and> d \<noteq> CHR ''0'')"
proof (induction n rule: decimal.induct)
  case (1 n)
  show ?case
  proof (cases "n < 10")
    case True
    have "digit_char n = CHR ''0'' \<longleftrightarrow> n = 0"
    proof
      assume "digit_char n = CHR ''0''"
      then have "(of_char (digit_char n) :: nat) = of_char CHR ''0''" by simp
      with True show "n = 0" by simp
    qed simp
    with True show ?thesis by (subst decimal.simps, subst (2) decimal.simps) auto
  next
    case False
    then have "n div 10 \<noteq> 0" by auto
    moreover have "decimal 0 = ''0''" by (simp add: decimal.simps)
    ultimately have "decimal (n div 10) \<noteq> ''0''" using decimal_inj by metis
    with 1 False obtain d ds where "decimal (n div 10) = d # ds" "d \<noteq> CHR ''0''" by blast
    then have "decimal n = d # ds @ [digit_char (n mod 10)] \<and> d \<noteq> CHR ''0''"
      using False by (subst decimal.simps) simp
    then show ?thesis by blast
  qed
qed

section \<open>UTF-8\<close>

definition byte_val :: "char \<Rightarrow> nat" where
  "byte_val c = of_char c"

definition is_cont :: "nat \<Rightarrow> bool" where
  "is_cont b \<longleftrightarrow> 128 \<le> b \<and> b \<le> 191"

text \<open>\<^verbatim>\<open>utf8.DecodeRune\<close> on a nonempty string: the rune and its width; \<open>(65533, 1)\<close> is \<^verbatim>\<open>RuneError\<close>.\<close>

definition utf8_DecodeRune :: "string \<Rightarrow> nat \<times> nat" where
  "utf8_DecodeRune s =
     (let b = (\<lambda>i. if i < length s then byte_val (s ! i) else 0); b0 = b 0; b1 = b 1; b2 = b 2; b3 = b 3
      in if b0 < 128 then (b0, 1)
         else if 194 \<le> b0 \<and> b0 \<le> 223 \<and> is_cont b1 then ((b0 - 192) * 64 + (b1 - 128), 2)
         else if 224 \<le> b0 \<and> b0 \<le> 239 \<and> is_cont b1 \<and> is_cont b2 \<and>
                 (b0 = 224 \<longrightarrow> 160 \<le> b1) \<and> (b0 = 237 \<longrightarrow> b1 \<le> 159)
         then ((b0 - 224) * 4096 + (b1 - 128) * 64 + (b2 - 128), 3)
         else if 240 \<le> b0 \<and> b0 \<le> 244 \<and> is_cont b1 \<and> is_cont b2 \<and> is_cont b3 \<and>
                 (b0 = 240 \<longrightarrow> 144 \<le> b1) \<and> (b0 = 244 \<longrightarrow> b1 \<le> 143)
         then ((b0 - 240) * 262144 + (b1 - 128) * 4096 + (b2 - 128) * 64 + (b3 - 128), 4)
         else (65533, 1))"

definition utf8_AppendRune :: "nat \<Rightarrow> string" where
  "utf8_AppendRune r =
     (let cont = (\<lambda>n. char_of (128 + n mod 64)) in
      if r < 128 then [char_of r]
      else if r < 2048 then [char_of (192 + r div 64), cont r]
      else if 1114111 < r \<or> 55296 \<le> r \<and> r \<le> 57343 then map char_of [239, 191, 189 :: nat]
      else if r < 65536 then [char_of (224 + r div 4096), cont (r div 64), cont r]
      else [char_of (240 + r div 262144), cont (r div 4096), cont (r div 64), cont r])"

section \<open>Writing\<close>

definition hex_char :: "nat \<Rightarrow> char" where
  "hex_char n = (if n < 10 then char_of (n + 48) else char_of (n + 87))"

definition html_safe :: "nat \<Rightarrow> bool" where
  "html_safe b \<longleftrightarrow> 32 \<le> b \<and> b < 128 \<and> b \<notin> {34, 38, 60, 62, 92}"

definition escape_ascii :: "nat \<Rightarrow> string" where
  "escape_ascii b =
     (if b = 92 \<or> b = 34 then [CHR 92, char_of b]
      else if b = 8 then [CHR 92, CHR ''b'']
      else if b = 12 then [CHR 92, CHR ''f'']
      else if b = 10 then [CHR 92, CHR ''n'']
      else if b = 13 then [CHR 92, CHR ''r'']
      else if b = 9 then [CHR 92, CHR ''t'']
      else [CHR 92, CHR ''u'', CHR ''0'', CHR ''0'', hex_char (b div 16), hex_char (b mod 16)])"

function json_escape :: "string \<Rightarrow> string" where
  "json_escape s =
     (if s = [] then []
      else let b = byte_val (hd s) in
        if b < 128
        then (if html_safe b then [hd s] else escape_ascii b) @ json_escape (tl s)
        else case utf8_DecodeRune s of (r, n) \<Rightarrow>
          (if r = 65533 \<and> n = 1 then CHR 92 # ''ufffd''
           else if r = 8232 \<or> r = 8233 then CHR 92 # ''u202'' @ [hex_char (r mod 16)]
           else take n s) @ json_escape (drop (max 1 n) s))"
  by pat_completeness auto
termination by (relation "measure length") auto

declare json_escape.simps [simp del]

definition json_quote :: "string \<Rightarrow> string" where
  "json_quote s = CHR 34 # json_escape s @ [CHR 34]"

datatype json =
    JNull
  | JBool bool
  | JNum string
  | JStr string
  | JArr "json list"
  | JObj "(string \<times> json) list"

fun join_with :: "char \<Rightarrow> string list \<Rightarrow> string" where
  "join_with sep [] = []"
| "join_with sep [s] = s"
| "join_with sep (s # ss) = s @ sep # join_with sep ss"

fun json_render :: "json \<Rightarrow> string" where
  "json_render JNull = ''null''"
| "json_render (JBool b) = (if b then ''true'' else ''false'')"
| "json_render (JNum n) = n"
| "json_render (JStr s) = json_quote s"
| "json_render (JArr vs) = CHR ''['' # join_with CHR '','' (map json_render vs) @ '']''"
| "json_render (JObj kvs) =
     CHR ''{'' # join_with CHR '','' (map (\<lambda>(k, v). json_quote k @ CHR '':'' # json_render v) kvs) @ ''}''"

section \<open>Reading\<close>

definition is_space :: "char \<Rightarrow> bool" where
  "is_space c \<longleftrightarrow> byte_val c \<in> {32, 9, 10, 13}"

definition skip_space :: "string \<Rightarrow> string" where
  "skip_space s = dropWhile is_space s"

definition hex_val :: "char \<Rightarrow> nat option" where
  "hex_val c =
     (let b = byte_val c in
      if 48 \<le> b \<and> b \<le> 57 then Some (b - 48)
      else if 97 \<le> b \<and> b \<le> 102 then Some (b - 87)
      else if 65 \<le> b \<and> b \<le> 70 then Some (b - 55)
      else None)"

text \<open>Four hex digits after a backslash and \<^verbatim>\<open>u\<close>.\<close>

definition hex4 :: "string \<Rightarrow> nat option" where
  "hex4 s =
     (case s of
        a # b # c # d # _ \<Rightarrow>
          (case (hex_val a, hex_val b, hex_val c, hex_val d) of
             (Some w, Some x, Some y, Some z) \<Rightarrow> Some (((w * 16 + x) * 16 + y) * 16 + z)
           | _ \<Rightarrow> None)
      | _ \<Rightarrow> None)"

text \<open>One escape sequence after its backslash: what it stands for and how long it is.  A surrogate
  pair is one rune; a lone surrogate becomes the replacement character.\<close>

definition unescape :: "string \<Rightarrow> (string \<times> nat) option" where
  "unescape s =
     (case s of
        [] \<Rightarrow> None
      | c # r \<Rightarrow>
          if c \<in> {CHR 34, CHR 92, CHR ''/''} then Some ([c], 1)
          else if c = CHR ''b'' then Some ([CHR 8], 1)
          else if c = CHR ''f'' then Some ([CHR 12], 1)
          else if c = CHR ''n'' then Some ([CHR 10], 1)
          else if c = CHR ''r'' then Some ([CHR 13], 1)
          else if c = CHR ''t'' then Some ([CHR 9], 1)
          else if c = CHR ''u'' then
            (case hex4 r of
               None \<Rightarrow> None
             | Some u \<Rightarrow>
                 if 55296 \<le> u \<and> u \<le> 57343 then
                   (let r2 = drop 4 r in
                    case (if take 2 r2 = [CHR 92, CHR ''u''] then hex4 (drop 2 r2) else None) of
                      Some l \<Rightarrow>
                        if u \<le> 56319 \<and> 56320 \<le> l \<and> l \<le> 57343
                        then Some (utf8_AppendRune (65536 + (u - 55296) * 1024 + (l - 56320)), 11)
                        else Some (utf8_AppendRune 65533, 5)
                    | None \<Rightarrow> Some (utf8_AppendRune 65533, 5))
                 else Some (utf8_AppendRune u, 5))
          else None)"

text \<open>The rest of a string literal after its opening quote.\<close>

function scan_string :: "string \<Rightarrow> (string \<times> string) option" where
  "scan_string s =
     (if s = [] then None
      else let c = hd s; b = byte_val c in
        if b = 34 then Some ([], tl s)
        else if b < 32 then None
        else if b = 92 then
          (case unescape (tl s) of
             None \<Rightarrow> None
           | Some (out, n) \<Rightarrow> map_option (apfst ((@) out)) (scan_string (drop (1 + n) s)))
        else if b < 128 then map_option (apfst ((#) c)) (scan_string (tl s))
        else case utf8_DecodeRune s of (r, n) \<Rightarrow>
          map_option (apfst ((@) (utf8_AppendRune r))) (scan_string (drop (max 1 n) s)))"
  by pat_completeness auto
termination by (relation "measure length") auto

declare scan_string.simps [simp del]

definition scan_sign :: "char set \<Rightarrow> string \<Rightarrow> string \<times> string" where
  "scan_sign cs s = (case s of [] \<Rightarrow> ([], []) | x # xs \<Rightarrow> if x \<in> cs then ([x], xs) else ([], s))"

definition scan_digits :: "string \<Rightarrow> string \<times> string" where
  "scan_digits s = (takeWhile is_digit s, dropWhile is_digit s)"

definition scan_int_part :: "string \<Rightarrow> (string \<times> string) option" where
  "scan_int_part s =
     (case s of
        [] \<Rightarrow> None
      | c # r \<Rightarrow> if c = CHR ''0'' then Some ([c], r) else if is_digit c then Some (scan_digits s) else None)"

definition scan_frac_part :: "string \<Rightarrow> (string \<times> string) option" where
  "scan_frac_part s =
     (case s of
        c # r \<Rightarrow>
          if c = CHR ''.''
          then (case scan_digits r of (ds, r') \<Rightarrow> if ds = [] then None else Some (c # ds, r'))
          else Some ([], s)
      | [] \<Rightarrow> Some ([], []))"

definition scan_exp_part :: "string \<Rightarrow> (string \<times> string) option" where
  "scan_exp_part s =
     (case s of
        c # r \<Rightarrow>
          if c = CHR ''e'' \<or> c = CHR ''E''
          then (case scan_sign {CHR ''+'', CHR ''-''} r of (sg, r1) \<Rightarrow>
                case scan_digits r1 of (ds, r') \<Rightarrow> if ds = [] then None else Some (c # sg @ ds, r'))
          else Some ([], s)
      | [] \<Rightarrow> Some ([], []))"

definition scan_number :: "string \<Rightarrow> (string \<times> string) option" where
  "scan_number s =
     (case scan_sign {CHR ''-''} s of (sg, s1) \<Rightarrow>
      case scan_int_part s1 of
        None \<Rightarrow> None
      | Some (i, s2) \<Rightarrow>
          (case scan_frac_part s2 of
             None \<Rightarrow> None
           | Some (f, s3) \<Rightarrow>
               (case scan_exp_part s3 of
                  None \<Rightarrow> None
                | Some (e, s4) \<Rightarrow> Some (sg @ i @ f @ e, s4))))"

text \<open>A value by its first character; \<open>el\<close> and \<open>mb\<close> scan the elements of an array and the members
  of an object.\<close>

definition scan_at ::
  "(string \<Rightarrow> (json list \<times> string) option) \<Rightarrow> (string \<Rightarrow> ((string \<times> json) list \<times> string) option) \<Rightarrow>
   char \<Rightarrow> string \<Rightarrow> (json \<times> string) option" where
  "scan_at el mb c r =
     (if c = CHR 34 then map_option (apfst JStr) (scan_string r)
      else if c = CHR ''['' then
        (case skip_space r of
           d # r' \<Rightarrow> if d = CHR '']'' then Some (JArr [], r') else map_option (apfst JArr) (el r)
         | [] \<Rightarrow> None)
      else if c = CHR ''{'' then
        (case skip_space r of
           d # r' \<Rightarrow> if d = CHR ''}'' then Some (JObj [], r') else map_option (apfst JObj) (mb r)
         | [] \<Rightarrow> None)
      else if take 4 (c # r) = ''null'' then Some (JNull, drop 4 (c # r))
      else if take 4 (c # r) = ''true'' then Some (JBool True, drop 4 (c # r))
      else if take 5 (c # r) = ''false'' then Some (JBool False, drop 5 (c # r))
      else map_option (apfst JNum) (scan_number (c # r)))"

fun scan_value :: "nat \<Rightarrow> string \<Rightarrow> (json \<times> string) option"
  and scan_elems :: "nat \<Rightarrow> string \<Rightarrow> (json list \<times> string) option"
  and scan_members :: "nat \<Rightarrow> string \<Rightarrow> ((string \<times> json) list \<times> string) option" where
  "scan_value 0 s = None"
| "scan_value (Suc n) s =
     (case skip_space s of [] \<Rightarrow> None | c # r \<Rightarrow> scan_at (scan_elems n) (scan_members n) c r)"
| "scan_elems 0 s = None"
| "scan_elems (Suc n) s =
     (case scan_value n s of
        None \<Rightarrow> None
      | Some (v, s1) \<Rightarrow>
          (case skip_space s1 of
             c # r \<Rightarrow>
               if c = CHR '','' then map_option (apfst ((#) v)) (scan_elems n r)
               else if c = CHR '']'' then Some ([v], r) else None
           | [] \<Rightarrow> None))"
| "scan_members 0 s = None"
| "scan_members (Suc n) s =
     (case skip_space s of
        q # s1 \<Rightarrow>
          if q \<noteq> CHR 34 then None
          else (case scan_string s1 of
              None \<Rightarrow> None
            | Some (k, s2) \<Rightarrow>
                (case skip_space s2 of
                   d # s3 \<Rightarrow>
                     if d \<noteq> CHR '':'' then None
                     else (case scan_value n s3 of
                         None \<Rightarrow> None
                       | Some (v, s4) \<Rightarrow>
                           (case skip_space s4 of
                              c # r \<Rightarrow>
                                if c = CHR '','' then map_option (apfst ((#) (k, v))) (scan_members n r)
                                else if c = CHR ''}'' then Some ([(k, v)], r) else None
                            | [] \<Rightarrow> None))
                 | [] \<Rightarrow> None))
      | [] \<Rightarrow> None)"

definition json_parse :: "string \<Rightarrow> json option" where
  "json_parse s =
     (case scan_value (2 * length s + 2) s of
        Some (v, r) \<Rightarrow> if skip_space r = [] then Some v else None
      | None \<Rightarrow> None)"

text \<open>Struct fields match exactly or up to ASCII case, as \<^verbatim>\<open>foldName\<close> does for these names.\<close>

definition lower :: "char \<Rightarrow> char" where
  "lower c = (if 65 \<le> byte_val c \<and> byte_val c \<le> 90 then char_of (byte_val c + 32) else c)"

definition field_is :: "string \<Rightarrow> string \<Rightarrow> bool" where
  "field_is name k \<longleftrightarrow> map lower k = map lower name"

section \<open>Reading back what was written\<close>

definition plain :: "string \<Rightarrow> bool" where
  "plain s \<longleftrightarrow> list_all (\<lambda>c. html_safe (byte_val c)) s"

definition number_token :: "string \<Rightarrow> bool" where
  "number_token n \<longleftrightarrow> (\<exists>i. n = int_decimal i)"

text \<open>The trees \<^verbatim>\<open>Marshal\<close> writes for the engine's structs.\<close>

fun plain_json :: "json \<Rightarrow> bool" where
  "plain_json JNull = True"
| "plain_json (JBool b) = True"
| "plain_json (JNum n) = number_token n"
| "plain_json (JStr s) = plain s"
| "plain_json (JArr vs) = list_all plain_json vs"
| "plain_json (JObj kvs) = list_all (\<lambda>(k, v). plain k \<and> plain_json v) kvs"

definition delimited :: "string \<Rightarrow> bool" where
  "delimited r \<longleftrightarrow> r = [] \<or> hd r \<in> {CHR '','', CHR '']'', CHR ''}''}"

lemma json_escape_plain: "plain s \<Longrightarrow> json_escape s = s"
proof (induction s)
  case Nil
  then show ?case by (simp add: json_escape.simps)
next
  case (Cons c s)
  then show ?case by (subst json_escape.simps) (auto simp: plain_def html_safe_def)
qed

lemma scan_string_plain: "plain s \<Longrightarrow> scan_string (s @ CHR 34 # r) = Some (s, r)"
proof (induction s)
  case Nil
  then show ?case by (subst scan_string.simps) (simp add: byte_val_def)
next
  case (Cons c s)
  then show ?case by (subst scan_string.simps) (auto simp: plain_def html_safe_def)
qed

lemma not_space [simp]:
  "\<not> is_space CHR 34" "\<not> is_space CHR ''[''" "\<not> is_space CHR ''{''" "\<not> is_space CHR '',''"
  "\<not> is_space CHR '']''" "\<not> is_space CHR ''}''" "\<not> is_space CHR '':''" "\<not> is_space CHR ''n''"
  "\<not> is_space CHR ''t''" "\<not> is_space CHR ''f''" "\<not> is_space CHR ''-''"
  by (simp_all add: is_space_def byte_val_def)

lemma skip_space_Cons [simp]: "\<not> is_space c \<Longrightarrow> skip_space (c # r) = c # r"
  by (simp add: skip_space_def)

lemma not_digit [simp]:
  "\<not> is_digit CHR '',''" "\<not> is_digit CHR '']''" "\<not> is_digit CHR ''}''" "\<not> is_digit CHR ''-''"
  "\<not> is_digit CHR 34" "\<not> is_digit CHR ''[''" "\<not> is_digit CHR ''{''" "\<not> is_digit CHR ''n''"
  "\<not> is_digit CHR ''t''" "\<not> is_digit CHR ''f''"
  by (simp_all add: is_digit_def)

lemma digit_not_space: "is_digit c \<Longrightarrow> \<not> is_space c"
  by (auto simp: is_digit_def is_space_def byte_val_def)

lemma delimited_simps [simp]:
  "delimited (CHR '','' # r)" "delimited (CHR '']'' # r)" "delimited (CHR ''}'' # r)" "delimited []"
  by (simp_all add: delimited_def)

lemma scan_digits_delimited:
  assumes "list_all is_digit ds" "delimited r"
  shows "scan_digits (ds @ r) = (ds, r)"
proof -
  have "takeWhile is_digit (ds @ r) = ds @ takeWhile is_digit r"
    "dropWhile is_digit (ds @ r) = dropWhile is_digit r"
    using assms(1) by (auto simp: list_all_iff)
  moreover have "takeWhile is_digit r = []" "dropWhile is_digit r = r"
    using assms(2) by (cases r; auto simp: delimited_def)+
  ultimately show ?thesis by (simp add: scan_digits_def)
qed

lemma scan_tail_delimited:
  assumes "delimited r"
  shows "scan_frac_part r = Some ([], r)" "scan_exp_part r = Some ([], r)"
  using assms by (cases r; auto simp: scan_frac_part_def scan_exp_part_def delimited_def)+

lemma scan_int_part_decimal:
  assumes "delimited r"
  shows "scan_int_part (decimal n @ r) = Some (decimal n, r)"
  using decimal_shape [of n]
proof
  assume "decimal n = ''0''"
  then show ?thesis by (simp add: scan_int_part_def)
next
  assume "\<exists>d ds. decimal n = d # ds \<and> d \<noteq> CHR ''0''"
  then obtain d ds where d: "decimal n = d # ds" "d \<noteq> CHR ''0''" by blast
  then have "is_digit d" using decimal_hd [of n] by simp
  then show ?thesis
    using scan_digits_delimited [OF decimal_digits assms, of n] d by (simp add: scan_int_part_def)
qed

lemma scan_number_decimal:
  assumes "delimited r"
  shows "scan_number (int_decimal i @ r) = Some (int_decimal i, r)"
proof -
  have nm: "decimal n = c # cs \<Longrightarrow> c \<noteq> CHR ''-''" for n c cs
    using decimal_hd [of n] by auto
  obtain c cs where c: "decimal (nat i) = c # cs" by (cases "decimal (nat i)") simp_all
  show ?thesis
  proof (cases "i < 0")
    case True
    then show ?thesis
      using scan_int_part_decimal [OF assms, of "nat (- i)"] scan_tail_delimited [OF assms]
      by (simp add: scan_number_def scan_sign_def int_decimal_def)
  next
    case False
    then show ?thesis
      using scan_int_part_decimal [OF assms, of "nat i"] scan_tail_delimited [OF assms] nm [OF c] c
      by (simp add: scan_number_def scan_sign_def int_decimal_def)
  qed
qed

lemma number_hd:
  assumes "number_token n"
  shows "\<exists>c cs. n = c # cs \<and> (is_digit c \<or> c = CHR ''-'')"
proof -
  from assms obtain i where n: "n = int_decimal i" by (auto simp: number_token_def)
  show ?thesis
  proof (cases "i < 0")
    case False
    then show ?thesis using decimal_hd [of "nat i"] n
      by (cases "decimal (nat i)") (auto simp: int_decimal_def)
  qed (simp add: n int_decimal_def)
qed

lemma render_hd: "plain_json v \<Longrightarrow>
    \<exists>c cs. json_render v = c # cs \<and> \<not> is_space c \<and> c \<noteq> CHR '']''"
proof (cases v)
  case (JNum n)
  assume "plain_json v"
  with JNum obtain c cs where c: "n = c # cs" "is_digit c \<or> c = CHR ''-''"
    using number_hd [of n] by auto
  then have "\<not> is_space c" "c \<noteq> CHR '']''" using digit_not_space by auto
  with c JNum show ?thesis by simp
next
  case (JBool b)
  then show ?thesis by (cases b) simp_all
qed (simp_all add: json_quote_def)

fun json_depth :: "json \<Rightarrow> nat" where
  "json_depth (JArr vs) = Suc (length vs + sum_list (map json_depth vs))"
| "json_depth (JObj kvs) = Suc (length kvs + sum_list (map (\<lambda>(k, v). json_depth v) kvs))"
| "json_depth _ = 1"

lemma scan_elems_render:
  assumes IH: "\<And>v r n. v \<in> set vs \<Longrightarrow> delimited r \<Longrightarrow> json_depth v \<le> n \<Longrightarrow>
      scan_value n (json_render v @ r) = Some (v, r)"
    and "vs \<noteq> []" "length vs + sum_list (map json_depth vs) \<le> n"
  shows "scan_elems n (join_with CHR '','' (map json_render vs) @ CHR '']'' # r) = Some (vs, r)"
  using assms
proof (induction vs arbitrary: n)
  case (Cons v vs)
  from Cons.prems(3) obtain m where n: "n = Suc m" by (cases n) auto
  have v: "scan_value m (json_render v @ r') = Some (v, r')" if "delimited r'" for r'
    using Cons.prems(1) [of v r' m] Cons.prems(3) that n by simp
  show ?case
  proof (cases vs)
    case Nil
    then show ?thesis using v [of "CHR '']'' # r"] n by simp
  next
    case (Cons w ws)
    have "scan_elems m (join_with CHR '','' (map json_render vs) @ CHR '']'' # r) = Some (vs, r)"
      using Cons.prems n Cons by (intro Cons.IH) auto
    then show ?thesis
      using v [of "CHR '','' # join_with CHR '','' (map json_render vs) @ CHR '']'' # r"] n Cons by simp
  qed
qed simp

lemma scan_members_render:
  assumes IH: "\<And>k v r n. (k, v) \<in> set kvs \<Longrightarrow> delimited r \<Longrightarrow> json_depth v \<le> n \<Longrightarrow>
      scan_value n (json_render v @ r) = Some (v, r)"
    and "list_all (\<lambda>(k, v). plain k) kvs"
    and "kvs \<noteq> []" "length kvs + sum_list (map (\<lambda>(k, v). json_depth v) kvs) \<le> n"
  shows "scan_members n (join_with CHR '','' (map (\<lambda>(k, v). json_quote k @ CHR '':'' # json_render v) kvs) @
      CHR ''}'' # r) = Some (kvs, r)"
  using assms
proof (induction kvs arbitrary: n)
  case (Cons kv kvs)
  obtain k v where kv: "kv = (k, v)" by force
  from Cons.prems(4) obtain m where n: "n = Suc m" by (cases n) auto
  have v: "scan_value m (json_render v @ r') = Some (v, r')" if "delimited r'" for r'
    using Cons.prems(1) [of k v r' m] Cons.prems(4) that n kv by simp
  have k: "plain k" using Cons.prems(2) kv by simp
  have q: "json_quote k @ x = CHR 34 # k @ CHR 34 # x" for x
    using k by (simp add: json_quote_def json_escape_plain)
  show ?case
  proof (cases kvs)
    case Nil
    then show ?thesis using v [of "CHR ''}'' # r"] n kv k by (simp add: q scan_string_plain)
  next
    case (Cons w ws)
    let ?j = "join_with CHR '','' (map (\<lambda>(k, v). json_quote k @ CHR '':'' # json_render v) kvs) @ CHR ''}'' # r"
    have "scan_members m ?j = Some (kvs, r)"
      by (rule Cons.IH [OF Cons.prems(1) [OF list.set_intros(2)]]) (use Cons.prems n Cons kv in auto)
    then show ?thesis
      using v [of "CHR '','' # ?j"] n kv k Cons by (simp add: q scan_string_plain)
  qed
qed simp

lemma scan_value_render:
  "plain_json v \<Longrightarrow> delimited r \<Longrightarrow> json_depth v \<le> n \<Longrightarrow> scan_value n (json_render v @ r) = Some (v, r)"
proof (induction v arbitrary: r n)
  case JNull
  then show ?case by (cases n) (simp_all add: scan_at_def)
next
  case (JBool b)
  then show ?case by (cases n) (simp_all add: scan_at_def)
next
  case (JNum d)
  then obtain m where n: "n = Suc m" by (cases n) simp_all
  from JNum obtain i where d: "d = int_decimal i" by (auto simp: number_token_def)
  obtain c cs where c: "d = c # cs" "is_digit c \<or> c = CHR ''-''" using number_hd [of d] JNum.prems(1) by auto
  then have "\<not> is_space c" using digit_not_space by auto
  moreover have "c \<noteq> CHR 34" "c \<noteq> CHR ''[''" "c \<noteq> CHR ''{''" "c \<noteq> CHR ''n''" "c \<noteq> CHR ''t''" "c \<noteq> CHR ''f''"
    using c(2) by auto
  ultimately have "scan_value n (d @ r) = map_option (apfst JNum) (scan_number (d @ r))"
    unfolding n c(1) by (simp add: scan_at_def)
  then show ?case using scan_number_decimal [OF JNum.prems(2), of i] d by simp
next
  case (JStr s)
  then show ?case
    by (cases n) (simp_all add: json_quote_def json_escape_plain scan_string_plain scan_at_def)
next
  case (JArr vs)
  then obtain m where n: "n = Suc m" by (cases n) simp_all
  show ?case
  proof (cases vs)
    case Nil
    then show ?thesis by (simp add: n scan_at_def)
  next
    case (Cons w ws)
    have "plain_json w" using JArr.prems Cons by simp
    then obtain c cs where c: "json_render w = c # cs" "\<not> is_space c" "c \<noteq> CHR '']''" using render_hd by blast
    then obtain j where j: "join_with CHR '','' (map json_render vs) = c # j"
      using Cons by (cases ws) auto
    have "scan_elems m (join_with CHR '','' (map json_render vs) @ CHR '']'' # r) = Some (vs, r)"
      using JArr n Cons by (intro scan_elems_render) (auto simp: list_all_iff)
    then show ?thesis using c j n by (simp add: scan_at_def)
  qed
next
  case (JObj kvs)
  then obtain m where n: "n = Suc m" by (cases n) simp_all
  show ?case
  proof (cases kvs)
    case Nil
    then show ?thesis by (simp add: n scan_at_def)
  next
    case (Cons w ws)
    obtain j where j: "join_with CHR '','' (map (\<lambda>(k, v). json_quote k @ CHR '':'' # json_render v) kvs) = CHR 34 # j"
      using Cons by (cases w; cases ws) (auto simp: json_quote_def)
    have "scan_members m (join_with CHR '','' (map (\<lambda>(k, v). json_quote k @ CHR '':'' # json_render v) kvs) @
        CHR ''}'' # r) = Some (kvs, r)"
    proof (rule scan_members_render)
      show "scan_value n' (json_render x @ r') = Some (x, r')"
        if "(k, x) \<in> set kvs" "delimited r'" "json_depth x \<le> n'" for k x r' n'
        using JObj.IH [of "(k, x)" x r' n'] JObj.prems(1) that by (auto simp: list_all_iff)
      show "list_all (\<lambda>(k, v). plain k) kvs" using JObj.prems(1) by (auto simp: list_all_iff)
    qed (use JObj.prems n Cons in auto)
    then show ?thesis using j n by (simp add: scan_at_def)
  qed
qed

text \<open>The whole text of a plain tree reads back; the fuel of \<open>json_parse\<close> is enough for it.\<close>

lemma length_join_with: "sum_list (map length ss) + length ss \<le> Suc (length (join_with c ss))"
  by (induction c ss rule: join_with.induct) auto

lemma json_depth_le: "plain_json v \<Longrightarrow> json_depth v \<le> 2 * length (json_render v)"
proof (induction v)
  case (JNum n)
  then show ?case using number_hd [of n] by auto
next
  case (JArr vs)
  then have "\<forall>v\<in>set vs. json_depth v \<le> 2 * length (json_render v)" by (auto simp: list_all_iff)
  then have "sum_list (map json_depth vs) + length vs \<le> 2 * (sum_list (map length (map json_render vs)) + length vs)"
    by (induction vs) auto
  also have "\<dots> \<le> 2 * Suc (length (join_with CHR '','' (map json_render vs)))"
    using length_join_with [of "map json_render vs" "CHR '',''"] by simp
  finally show ?case by simp
next
  case (JObj kvs)
  let ?f = "\<lambda>(k, v). json_quote k @ CHR '':'' # json_render v"
  have "\<forall>(k, v)\<in>set kvs. json_depth v \<le> 2 * length (json_render v)"
    using JObj by (fastforce simp: list_all_iff)
  then have "sum_list (map (\<lambda>(k, v). json_depth v) kvs) + length kvs \<le> 2 * (sum_list (map length (map ?f kvs)) + length kvs)"
    by (induction kvs) auto
  also have "\<dots> \<le> 2 * Suc (length (join_with CHR '','' (map ?f kvs)))"
    using length_join_with [of "map ?f kvs" "CHR '',''"] by simp
  finally show ?case by simp
qed (simp_all add: json_quote_def)

lemma json_parse_render: "plain_json v \<Longrightarrow> json_parse (json_render v) = Some v"
  using scan_value_render [of v "[]" "2 * length (json_render v) + 2"] json_depth_le [of v]
  by (simp add: json_parse_def skip_space_def)

section \<open>A cut text does not parse\<close>

text \<open>For texts without escapes and outside bytes above 127, which is what the engine writes: if a
  prefix parses as an object, the scanner has stopped at the object's closing brace, so the prefix
  is the whole text.\<close>

definition simple_text :: "string \<Rightarrow> bool" where
  "simple_text s \<longleftrightarrow> list_all (\<lambda>c. byte_val c < 128 \<and> c \<noteq> CHR 92) s"

lemma simple_text_simps [simp]:
  "simple_text []" "simple_text (c # s) \<longleftrightarrow> byte_val c < 128 \<and> c \<noteq> CHR 92 \<and> simple_text s"
  "simple_text (s @ s') \<longleftrightarrow> simple_text s \<and> simple_text s'"
  by (simp_all add: simple_text_def)

lemma byte_val_92: "byte_val c = 92 \<longleftrightarrow> c = CHR 92"
proof -
  have "byte_val c = byte_val CHR 92 \<longleftrightarrow> c = CHR 92" by (simp only: byte_val_def of_char_eq_iff)
  then show ?thesis by (simp add: byte_val_def)
qed

text \<open>Each scanner returns a rest of its input and does not look past it.\<close>

definition extends :: "(string \<Rightarrow> ('a \<times> string) option) \<Rightarrow> string \<Rightarrow> 'a \<Rightarrow> string \<Rightarrow> bool" where
  "extends f s x r \<longleftrightarrow> (\<exists>u. s = u @ r) \<and> (\<forall>t. f (s @ t) = Some (x, r @ t))"

lemma extendsD: "extends f s x r \<Longrightarrow> f (s @ t) = Some (x, r @ t)"
  by (simp add: extends_def)

lemma extends_simple: "extends f s x r \<Longrightarrow> simple_text s \<Longrightarrow> simple_text r"
  by (auto simp: extends_def)

lemma scan_string_ext: "simple_text s \<Longrightarrow> scan_string s = Some (x, r) \<Longrightarrow> extends scan_string s x r"
proof (induction s arbitrary: x)
  case Nil
  then show ?case by (simp add: scan_string.simps)
next
  case (Cons c s)
  have c: "byte_val c < 128" "byte_val c \<noteq> 92" "simple_text s" using Cons.prems(1) by (simp_all add: byte_val_92)
  have step: "scan_string (c # z) = (if byte_val c = 34 then Some ([], z) else if byte_val c < 32 then None
      else map_option (apfst ((#) c)) (scan_string z))" for z
    using c by (subst scan_string.simps) simp
  show ?case
  proof (cases "byte_val c = 34")
    case True
    then show ?thesis using Cons.prems(2) by (auto simp: step extends_def)
  next
    case False
    with Cons.prems(2) obtain y where y: "scan_string s = Some (y, r)" "x = c # y" "\<not> byte_val c < 32"
      by (auto simp: step split: if_splits)
    from Cons.IH [OF c(3) y(1)] y False show ?thesis by (auto simp: step extends_def)
  qed
qed

lemma skip_space_ext: "skip_space s = c # r \<Longrightarrow> (\<exists>u. s = u @ c # r) \<and> (\<forall>t. skip_space (s @ t) = c # r @ t)"
  by (induction s) (auto simp: skip_space_def split: if_splits)

lemma scan_digits_ext:
  "scan_digits s = (ds, r) \<Longrightarrow> r \<noteq> [] \<Longrightarrow> s = ds @ r \<and> scan_digits (s @ t) = (ds, r @ t)"
  by (induction s arbitrary: ds) (auto simp: scan_digits_def split: if_splits)

lemma scan_int_part_ext: "scan_int_part s = Some (x, r) \<Longrightarrow> r \<noteq> [] \<Longrightarrow> extends scan_int_part s x r"
  using scan_digits_ext [of s x r] by (auto simp: scan_int_part_def extends_def split: list.splits if_splits)

lemma scan_sign_ext:
  "scan_sign cs s = (sg, r) \<Longrightarrow> r \<noteq> [] \<Longrightarrow> s = sg @ r \<and> scan_sign cs (s @ t) = (sg, r @ t)"
  by (auto simp: scan_sign_def split: list.splits if_splits)

lemma scan_frac_part_ext: "scan_frac_part s = Some (x, r) \<Longrightarrow> r \<noteq> [] \<Longrightarrow> extends scan_frac_part s x r"
proof (cases s)
  case (Cons c cs)
  assume x: "scan_frac_part s = Some (x, r)" and r: "r \<noteq> []"
  show ?thesis
  proof (cases "c = CHR ''.''")
    case True
    obtain ds where ds: "scan_digits cs = (ds, r)" "ds \<noteq> []" "x = c # ds"
      using x True Cons by (auto simp: scan_frac_part_def split: prod.splits if_splits)
    from scan_digits_ext [OF ds(1) r] have d: "cs = ds @ r" "\<And>t. scan_digits (cs @ t) = (ds, r @ t)" by blast+
    have "scan_frac_part (s @ t) = Some (x, r @ t)" for t
      unfolding scan_frac_part_def Cons using d(2) [of t] ds True by simp
    then show ?thesis using Cons d(1) by (simp add: extends_def)
  next
    case False
    with x Cons show ?thesis by (auto simp: scan_frac_part_def extends_def)
  qed
qed (simp add: scan_frac_part_def)

lemma scan_exp_part_ext: "scan_exp_part s = Some (x, r) \<Longrightarrow> r \<noteq> [] \<Longrightarrow> extends scan_exp_part s x r"
proof (cases s)
  case (Cons c cs)
  assume x: "scan_exp_part s = Some (x, r)" and r: "r \<noteq> []"
  show ?thesis
  proof (cases "c = CHR ''e'' \<or> c = CHR ''E''")
    case False
    with x Cons show ?thesis by (auto simp: scan_exp_part_def extends_def)
  next
    case e: True
    obtain sg r1 ds where sg: "scan_sign {CHR ''+'', CHR ''-''} cs = (sg, r1)" "scan_digits r1 = (ds, r)"
      "ds \<noteq> []" "x = c # sg @ ds"
      using x e Cons by (auto simp: scan_exp_part_def split: prod.splits if_splits)
    from scan_digits_ext [OF sg(2) r] have d: "r1 = ds @ r" "\<And>t. scan_digits (r1 @ t) = (ds, r @ t)" by blast+
    then have "r1 \<noteq> []" using sg(3) by simp
    from scan_sign_ext [OF sg(1) this]
    have g: "cs = sg @ r1" "\<And>t. scan_sign {CHR ''+'', CHR ''-''} (cs @ t) = (sg, r1 @ t)" by blast+
    have "scan_exp_part (s @ t) = Some (x, r @ t)" for t
      unfolding scan_exp_part_def Cons using d(2) [of t] g(2) [of t] sg(3,4) e by simp
    then show ?thesis using Cons d(1) g(1) by (simp add: extends_def)
  qed
qed (simp add: scan_exp_part_def)

lemma scan_number_ext: "scan_number s = Some (x, r) \<Longrightarrow> r \<noteq> [] \<Longrightarrow> extends scan_number s x r"
proof -
  assume x: "scan_number s = Some (x, r)" and r: "r \<noteq> []"
  obtain sg s1 where sg: "scan_sign {CHR ''-''} s = (sg, s1)" by force
  from x sg obtain i s2 f s3 e where p: "scan_int_part s1 = Some (i, s2)" "scan_frac_part s2 = Some (f, s3)"
    "scan_exp_part s3 = Some (e, r)" "x = sg @ i @ f @ e"
    by (auto simp: scan_number_def split: option.splits prod.splits)
  note E = scan_exp_part_ext [OF p(3) r]
  then have "s3 \<noteq> []" using r by (auto simp: extends_def)
  note F = scan_frac_part_ext [OF p(2) this]
  then have "s2 \<noteq> []" using \<open>s3 \<noteq> []\<close> by (auto simp: extends_def)
  note I = scan_int_part_ext [OF p(1) this]
  then have "s1 \<noteq> []" using \<open>s2 \<noteq> []\<close> by (auto simp: extends_def)
  from scan_sign_ext [OF sg this]
  have g: "s = sg @ s1" "\<And>t. scan_sign {CHR ''-''} (s @ t) = (sg, s1 @ t)" by blast+
  have "scan_number (s @ t) = Some (x, r @ t)" for t
    using extendsD [OF E] extendsD [OF F] extendsD [OF I] g(2) [of t] p(4) by (simp add: scan_number_def)
  moreover have "\<exists>u. s = u @ r" using E F I g(1) by (auto simp: extends_def)
  ultimately show "extends scan_number s x r" by (simp add: extends_def)
qed

lemma take_ext:
  assumes "take n s = w" "length w = n"
  shows "take n (s @ t) = w" "drop n (s @ t) = drop n s @ t" "s = w @ drop n s"
proof -
  have "length (take n s) = n" using assms by simp
  then have "n \<le> length s" by (simp add: min_def split: if_splits)
  then show "take n (s @ t) = w" "drop n (s @ t) = drop n s @ t" using assms by simp_all
  show "s = w @ drop n s" using assms(1) by (metis append_take_drop_id)
qed

text \<open>More fuel changes nothing.\<close>

lemma scan_at_mono:
  assumes "scan_at el mb c r = Some x" "\<And>s y. el s = Some y \<Longrightarrow> el' s = Some y"
    and "\<And>s y. mb s = Some y \<Longrightarrow> mb' s = Some y"
  shows "scan_at el' mb' c r = Some x"
proof (cases "c = CHR ''[''")
  case True
  with assms(1) show ?thesis by (auto simp: scan_at_def assms(2) split: list.splits if_splits)
next
  case arr: False
  show ?thesis
  proof (cases "c = CHR ''{''")
    case True
    with assms(1) show ?thesis by (auto simp: scan_at_def assms(3) split: list.splits if_splits)
  next
    case False
    with arr have "scan_at el' mb' c r = scan_at el mb c r" by (simp add: scan_at_def)
    with assms(1) show ?thesis by simp
  qed
qed

lemma scan_value_fuel:
  "scan_value n s = Some x \<Longrightarrow> scan_value (Suc n) s = Some x"
  "scan_elems n s = Some y \<Longrightarrow> scan_elems (Suc n) s = Some y"
  "scan_members n s = Some z \<Longrightarrow> scan_members (Suc n) s = Some z"
proof (induction n arbitrary: s x y z)
  case (Suc n)
  {
    case 1
    then obtain c r where c: "skip_space s = c # r" "scan_at (scan_elems n) (scan_members n) c r = Some x"
      by (auto split: list.splits)
    from scan_at_mono [OF c(2), of "scan_elems (Suc n)" "scan_members (Suc n)"] Suc.IH(2,3)
    have "scan_at (scan_elems (Suc n)) (scan_members (Suc n)) c r = Some x" by blast
    with c(1) show ?case by (simp only: scan_value.simps list.case)
  next
    case 2
    then obtain v s1 where v: "scan_value n s = Some (v, s1)" by (auto split: option.splits)
    with 2 obtain c r where c: "skip_space s1 = c # r" by (cases "skip_space s1") auto
    show ?case
    proof (cases "c = CHR '',''")
      case True
      with 2 v c obtain ws where ws: "scan_elems n r = Some ws" "y = apfst ((#) v) ws" by auto
      show ?thesis
        by (subst scan_elems.simps) (simp add: Suc.IH(1) [OF v] c True Suc.IH(2) [OF ws(1)] ws(2)
            del: scan_value.simps scan_elems.simps)
    next
      case False
      with 2 v c have "c = CHR '']''" "y = ([v], r)" by (auto split: if_splits)
      then show ?thesis
        by (subst scan_elems.simps) (simp add: Suc.IH(1) [OF v] c del: scan_value.simps)
    qed
  next
    case 3
    then obtain q s1 where q: "skip_space s = q # s1" "q = CHR 34" by (auto split: list.splits if_splits)
    with 3 obtain k s2 where k: "scan_string s1 = Some (k, s2)" by (auto split: option.splits)
    with 3 q obtain s3 where s3: "skip_space s2 = CHR '':'' # s3" by (auto split: list.splits if_splits)
    with 3 q k obtain v s4 where v: "scan_value n s3 = Some (v, s4)" by (auto split: option.splits)
    with 3 q k s3 obtain c r where c: "skip_space s4 = c # r" by (cases "skip_space s4") auto
    show ?case
    proof (cases "c = CHR '',''")
      case True
      with 3 q k s3 v c obtain ws where ws: "scan_members n r = Some ws" "z = apfst ((#) (k, v)) ws" by auto
      show ?thesis
        by (subst scan_members.simps) (simp add: q k s3 Suc.IH(1) [OF v] c True Suc.IH(3) [OF ws(1)] ws(2)
            del: scan_value.simps scan_members.simps)
    next
      case False
      with 3 q k s3 v c have "c = CHR ''}''" "z = ([(k, v)], r)" by (auto split: if_splits)
      then show ?thesis
        by (subst scan_members.simps) (simp add: q k s3 Suc.IH(1) [OF v] c del: scan_value.simps scan_members.simps)
    qed
  }
qed simp_all

lemma scan_at_ext:
  assumes e: "\<And>s vs r. simple_text s \<Longrightarrow> el s = Some (vs, r) \<Longrightarrow> extends el s vs r"
    and m: "\<And>s vs r. simple_text s \<Longrightarrow> mb s = Some (vs, r) \<Longrightarrow> extends mb s vs r"
    and s: "simple_text (c # q)" and v: "scan_at el mb c q = Some (v, r)" and r: "r \<noteq> [] \<or> (\<forall>x. v \<noteq> JNum x)"
  shows "(\<exists>u. c # q = u @ r) \<and> scan_at el mb c (q @ t) = Some (v, r @ t)"
proof -
  have q: "simple_text q" using s by simp
  consider "c = CHR 34" | "c = CHR ''[''" | "c = CHR ''{''"
    | "take 4 (c # q) = ''null''" | "take 4 (c # q) = ''true''" | "take 5 (c # q) = ''false''"
    | "c \<noteq> CHR 34" "c \<noteq> CHR ''[''" "c \<noteq> CHR ''{''" "take 4 (c # q) \<noteq> ''null''"
      "take 4 (c # q) \<noteq> ''true''" "take 5 (c # q) \<noteq> ''false''" by blast
  then show ?thesis
  proof cases
    case 1
    with v obtain x where x: "scan_string q = Some (x, r)" "v = JStr x" by (auto simp: scan_at_def)
    from scan_string_ext [OF q x(1)] x 1 show ?thesis by (auto simp: extends_def scan_at_def)
  next
    case 2
    with v obtain d r' where d: "skip_space q = d # r'" by (cases "skip_space q") (simp_all add: scan_at_def)
    from skip_space_ext [OF d] have d': "\<And>t. skip_space (q @ t) = d # r' @ t" "\<exists>u. q = u @ d # r'" by blast+
    show ?thesis
    proof (cases "d = CHR '']''")
      case True
      with 2 v d d' show ?thesis by (auto simp: scan_at_def)
    next
      case False
      with 2 v d obtain x where x: "el q = Some (x, r)" "v = JArr x" by (auto simp: scan_at_def)
      from e [OF q x(1)] x 2 False d' show ?thesis by (auto simp: extends_def scan_at_def)
    qed
  next
    case 3
    with v obtain d r' where d: "skip_space q = d # r'" by (cases "skip_space q") (simp_all add: scan_at_def)
    from skip_space_ext [OF d] have d': "\<And>t. skip_space (q @ t) = d # r' @ t" "\<exists>u. q = u @ d # r'" by blast+
    show ?thesis
    proof (cases "d = CHR ''}''")
      case True
      with 3 v d d' show ?thesis by (auto simp: scan_at_def)
    next
      case False
      with 3 v d obtain x where x: "mb q = Some (x, r)" "v = JObj x" by (auto simp: scan_at_def)
      from m [OF q x(1)] x 3 False d' show ?thesis by (auto simp: extends_def scan_at_def)
    qed
  next
    case 4
    note t = take_ext(1,2) [OF 4, where t = t] take_ext(3) [OF 4]
    have c: "c = CHR ''n''" using 4 by simp
    from v 4 c have "v = JNull" "r = drop 4 (c # q)" by (simp_all add: scan_at_def)
    moreover have "\<exists>u. c # q = u @ drop 4 (c # q)" by (metis append_take_drop_id)
    ultimately show ?thesis using t 4 c by (simp add: scan_at_def)
  next
    case 5
    note t = take_ext(1,2) [OF 5, where t = t] take_ext(3) [OF 5]
    have c: "c = CHR ''t''" using 5 by simp
    from v 5 c have "v = JBool True" "r = drop 4 (c # q)" by (simp_all add: scan_at_def)
    moreover have "\<exists>u. c # q = u @ drop 4 (c # q)" by (metis append_take_drop_id)
    ultimately show ?thesis using t 5 c by (simp add: scan_at_def)
  next
    case 6
    note t = take_ext(1,2) [OF 6, where t = t] take_ext(3) [OF 6]
    have c: "c = CHR ''f''" using 6 by simp
    from v 6 c have "v = JBool False" "r = drop 5 (c # q)" by (simp_all add: scan_at_def)
    moreover have "\<exists>u. c # q = u @ drop 5 (c # q)" by (metis append_take_drop_id)
    ultimately show ?thesis using t 6 c by (simp add: scan_at_def)
  next
    case 7
    with v obtain x where x: "scan_number (c # q) = Some (x, r)" "v = JNum x" by (auto simp: scan_at_def)
    with r have r: "r \<noteq> []" by simp
    note ext = scan_number_ext [OF x(1) r]
    have n: "c = CHR ''-'' \<or> is_digit c" using x(1)
      by (auto simp: scan_number_def scan_sign_def scan_int_part_def is_digit_def split: if_splits option.splits)
    then have "c \<noteq> CHR ''n''" "c \<noteq> CHR ''t''" "c \<noteq> CHR ''f''" by auto
    then show ?thesis using ext x(2) 7(1-3) by (auto simp: extends_def scan_at_def)
  qed
qed

lemma scan_value_ext:
  "simple_text s \<Longrightarrow> scan_value n s = Some (v, r) \<Longrightarrow> r \<noteq> [] \<or> (\<forall>x. v \<noteq> JNum x) \<Longrightarrow> extends (scan_value n) s v r"
  "simple_text s \<Longrightarrow> scan_elems n s = Some (vs, r) \<Longrightarrow> extends (scan_elems n) s vs r"
  "simple_text s \<Longrightarrow> scan_members n s = Some (kvs, r) \<Longrightarrow> extends (scan_members n) s kvs r"
proof (induction n arbitrary: s v vs kvs r)
  case (Suc n)
  {
    case 1
    then obtain c q where c: "skip_space s = c # q" "scan_at (scan_elems n) (scan_members n) c q = Some (v, r)"
      by (auto split: list.splits)
    from skip_space_ext [OF c(1)] obtain u where u: "s = u @ c # q"
      and sk: "\<And>t. skip_space (s @ t) = c # q @ t" by blast
    have "simple_text (c # q)" using 1(1) u by simp
    have at: "(\<exists>u. c # q = u @ r) \<and> scan_at (scan_elems n) (scan_members n) c (q @ t) = Some (v, r @ t)" for t
      using scan_at_ext [OF Suc.IH(2,3) \<open>simple_text (c # q)\<close> c(2) 1(3)] .
    have "scan_value (Suc n) (s @ t) = Some (v, r @ t)" for t
      unfolding scan_value.simps sk list.case using at [of t] by blast
    moreover obtain u' where "c # q = u' @ r" using at by blast
    then have "\<exists>u. s = u @ r" unfolding u by auto
    ultimately show ?case by (simp only: extends_def) blast
  next
    case 2
    from 2(2) obtain w s1 where w: "scan_value n s = Some (w, s1)" by (auto split: option.splits)
    with 2(2) obtain c q where c: "skip_space s1 = c # q" by (cases "skip_space s1") auto
    then have "s1 \<noteq> []" by (auto simp: skip_space_def)
    with Suc.IH(1) [OF 2(1) w] have ext: "extends (scan_value n) s w s1" by blast
    from skip_space_ext [OF c] obtain u where u: "s1 = u @ c # q"
      and sk: "\<And>t. skip_space (s1 @ t) = c # q @ t" by blast
    have q: "simple_text q" using extends_simple [OF ext 2(1)] u by simp
    show ?case
    proof (cases "c = CHR '',''")
      case True
      with 2(2) w c obtain ws where ws: "scan_elems n q = Some (ws, r)" "vs = w # ws" by auto
      from Suc.IH(2) [OF q ws(1)] ext u sk ws(2) True show ?thesis by (auto simp: extends_def)
    next
      case False
      with 2(2) w c have "c = CHR '']''" "vs = [w]" "r = q" by (auto split: if_splits)
      with ext u sk show ?thesis by (auto simp: extends_def)
    qed
  next
    case 3
    from 3(2) obtain s1 where s1: "skip_space s = CHR 34 # s1" by (auto split: list.splits if_splits)
    from skip_space_ext [OF s1] obtain u1 where u1: "s = u1 @ CHR 34 # s1"
      and sk1: "\<And>t. skip_space (s @ t) = CHR 34 # s1 @ t" by blast
    have q1: "simple_text s1" using 3(1) u1 by simp
    from 3(2) s1 obtain k s2 where k: "scan_string s1 = Some (k, s2)" by (auto split: option.splits)
    note ext1 = scan_string_ext [OF q1 k]
    have q2: "simple_text s2" by (rule extends_simple [OF ext1 q1])
    from 3(2) s1 k obtain s3 where s3: "skip_space s2 = CHR '':'' # s3" by (auto split: list.splits if_splits)
    from skip_space_ext [OF s3] obtain u2 where u2: "s2 = u2 @ CHR '':'' # s3"
      and sk2: "\<And>t. skip_space (s2 @ t) = CHR '':'' # s3 @ t" by blast
    have q3: "simple_text s3" using q2 u2 by simp
    from 3(2) s1 k s3 obtain w s4 where w: "scan_value n s3 = Some (w, s4)" by (auto split: option.splits)
    with 3(2) s1 k s3 obtain c q where c: "skip_space s4 = c # q" by (cases "skip_space s4") auto
    then have "s4 \<noteq> []" by (auto simp: skip_space_def)
    with Suc.IH(1) [OF q3 w] have ext: "extends (scan_value n) s3 w s4" by blast
    from skip_space_ext [OF c] obtain u where u: "s4 = u @ c # q"
      and sk: "\<And>t. skip_space (s4 @ t) = c # q @ t" by blast
    have q: "simple_text q" using extends_simple [OF ext q3] u by simp
    have un: "\<exists>z. s = z @ q" using u1 ext1 u2 ext u by (auto simp: extends_def)
    note X = sk1 sk2 sk extendsD [OF ext1] extendsD [OF ext]
    show ?case
    proof (cases "c = CHR '',''")
      case True
      with 3(2) s1 k s3 w c obtain ws where ws: "scan_members n q = Some (ws, r)" "kvs = (k, w) # ws" by auto
      note E = Suc.IH(3) [OF q ws(1)]
      have "scan_members (Suc n) (s @ t) = Some (kvs, r @ t)" for t
        using ws(2) True extendsD [OF E, of t] by (simp add: X)
      moreover have "\<exists>z. s = z @ r" using un E by (auto simp: extends_def)
      ultimately show ?thesis by (simp add: extends_def)
    next
      case False
      with 3(2) s1 k s3 w c have "c = CHR ''}''" "kvs = [(k, w)]" "r = q" by (auto split: if_splits)
      with un X show ?thesis by (simp add: extends_def)
    qed
  }
qed simp_all

lemma scan_value_more: "scan_value n s = Some x \<Longrightarrow> n \<le> m \<Longrightarrow> scan_value m s = Some x"
  by (induction m) (auto simp: le_Suc_eq simp del: scan_value.simps intro: scan_value_fuel(1))

text \<open>What is written is such a text.\<close>

lemma plain_simple: "plain s \<Longrightarrow> simple_text s"
  by (auto simp: plain_def simple_text_def list_all_iff html_safe_def byte_val_def)

lemma simple_text_join:
  "list_all simple_text ss \<Longrightarrow> byte_val c < 128 \<Longrightarrow> c \<noteq> CHR 92 \<Longrightarrow> simple_text (join_with c ss)"
  by (induction c ss rule: join_with.induct) auto

lemma simple_text_decimal: "simple_text (decimal n)"
  using decimal_digits [of n] by (auto simp: simple_text_def list_all_iff is_digit_def byte_val_def)

lemma simple_text_render: "plain_json v \<Longrightarrow> simple_text (json_render v)"
proof (induction v)
  case (JNum n)
  then show ?case
    using simple_text_decimal by (auto simp: number_token_def int_decimal_def byte_val_def)
next
  case (JArr vs)
  then have "simple_text (join_with CHR '','' (map json_render vs))"
    by (intro simple_text_join) (auto simp: list_all_iff byte_val_def)
  then show ?case by (simp add: byte_val_def)
next
  case (JObj kvs)
  have "simple_text (join_with CHR '','' (map (\<lambda>(k, v). json_quote k @ CHR '':'' # json_render v) kvs))"
    using JObj
    by (intro simple_text_join)
       (fastforce simp: list_all_iff byte_val_def json_quote_def json_escape_plain dest: plain_simple)+
  then show ?case by (simp add: byte_val_def)
qed (auto simp: json_quote_def json_escape_plain byte_val_def dest: plain_simple)

lemma json_parse_cut:
  assumes v: "plain_json (JObj kvs)"
    and n: "n < length (json_render (JObj kvs))"
  shows "json_parse (take n (json_render (JObj kvs))) = None"
proof (rule ccontr)
  let ?f = "json_render (JObj kvs)"
  define p q where "p = take n ?f" and "q = drop n ?f"
  have pq: "?f = p @ q" "q \<noteq> []" using n by (simp_all add: p_def q_def)
  assume "json_parse (take n ?f) \<noteq> None"
  then obtain w r where w: "scan_value (2 * length p + 2) p = Some (w, r)" "skip_space r = []"
    by (auto simp: json_parse_def p_def split: option.splits prod.splits if_splits)
  have "p \<noteq> []" using w(1) by (auto simp: numeral_2_eq_2 skip_space_def)
  then obtain z where p: "p = CHR ''{'' # z" using pq(1) by (cases p) auto
  have "\<forall>x. w \<noteq> JNum x" using w(1) p by (auto simp: numeral_2_eq_2 scan_at_def split: list.splits if_splits)
  moreover have "simple_text p" using simple_text_render [OF v] unfolding pq(1) by simp
  ultimately have "scan_value (2 * length p + 2) (p @ q) = Some (w, r @ q)"
    using scan_value_ext(1) [OF _ w(1)] by (auto dest: extendsD)
  then have "scan_value (2 * length ?f + 2) ?f = Some (w, r @ q)"
    unfolding pq(1) by (rule scan_value_more) simp
  moreover have "scan_value (2 * length ?f + 2) ?f = Some (JObj kvs, [])"
    using scan_value_render [OF v, of "[]" "2 * length ?f + 2"] json_depth_le [OF v] by simp
  ultimately show False using pq(2) by simp
qed

end
