(* ===== verification/Meta.thy ===== *)
theory Meta
  imports Json Os Crc32
begin

text \<open>
  \<^verbatim>\<open>storage/meta.go\<close>: the two metadata slots.  A slot file is
  \<^verbatim>\<open>[ crc32 | version | json(data) ]\<close>; \<open>slot_bytes\<close> is what \<^verbatim>\<open>write\<close> puts there.  A closed
  \<^verbatim>\<open>*os.File\<close> is \<open>mi_fp = False\<close>.  A nil and an empty \<^verbatim>\<open>SSTables\<close> are both the empty list (and
  marshal as \<^verbatim>\<open>null\<close>); the engine only ever writes non-empty ones.  When \<^verbatim>\<open>Unmarshal\<close> fails the slot
  stays as invalid as it was and its \<^verbatim>\<open>data\<close> is never read, so \<open>unmarshal_meta\<close> gives no partial
  result.
\<close>

record KVMetaData =
  md_Version :: "64 word"
  md_SSTables :: "string list"

record KVMetaItem =
  mi_FileName :: string
  mi_fp :: bool
  mi_data :: KVMetaData
  mi_valid :: bool

section \<open>The JSON of the metadata\<close>

definition marshal_meta :: "KVMetaData \<Rightarrow> json" where
  "marshal_meta m =
     JObj [(''Version'', JNum (decimal (unat (md_Version m)))),
           (''SSTables'', if md_SSTables m = [] then JNull else JArr (map JStr (md_SSTables m)))]"

primrec unmarshal_strings :: "json list \<Rightarrow> string list option" where
  "unmarshal_strings [] = Some []"
| "unmarshal_strings (v # vs) =
     (case v of
        JStr s \<Rightarrow> map_option ((#) s) (unmarshal_strings vs)
      | JNull \<Rightarrow> map_option ((#) '''') (unmarshal_strings vs)
      | _ \<Rightarrow> None)"

definition unmarshal_meta_field :: "string \<times> json \<Rightarrow> KVMetaData \<Rightarrow> KVMetaData option" where
  "unmarshal_meta_field kv m =
     (case kv of (k, v) \<Rightarrow>
        if field_is ''Version'' k then
          (case v of
             JNull \<Rightarrow> Some m
           | JNum n \<Rightarrow> map_option (\<lambda>i. m\<lparr>md_Version := word_of_nat i\<rparr>) (parse_uint_in (2 ^ 64 - 1) n)
           | _ \<Rightarrow> None)
        else if field_is ''SSTables'' k then
          (case v of
             JNull \<Rightarrow> Some (m\<lparr>md_SSTables := []\<rparr>)
           | JArr vs \<Rightarrow> map_option (\<lambda>ss. m\<lparr>md_SSTables := ss\<rparr>) (unmarshal_strings vs)
           | _ \<Rightarrow> None)
        else Some m)"

definition unmarshal_meta :: "string \<Rightarrow> KVMetaData \<Rightarrow> KVMetaData option" where
  "unmarshal_meta s m =
     (case json_parse s of
        Some JNull \<Rightarrow> Some m
      | Some (JObj kvs) \<Rightarrow>
          fold (\<lambda>kv acc. case acc of None \<Rightarrow> None | Some x \<Rightarrow> unmarshal_meta_field kv x) kvs (Some m)
      | _ \<Rightarrow> None)"

section \<open>One slot\<close>

definition KVMetaItem_open :: "KVMetaItem \<Rightarrow> disk \<Rightarrow> unit res \<times> KVMetaItem \<times> disk" where
  "KVMetaItem_open it d =
     (case createFileSync (mi_FileName it) d of
        (Inl e, d1) \<Rightarrow> (Inl e, it, d1)
      | (Inr _, d1) \<Rightarrow>
          let it1 = it\<lparr>mi_fp := True\<rparr> in
          (case os_ReadFile (mi_FileName it) d1 of
             Inl e \<Rightarrow> (Inl e, it1, d1)
           | Inr buf \<Rightarrow>
               if length buf < 12 then (Inr (), it1, d1)
               else if crc32_ChecksumIEEE (drop 4 buf) \<noteq> le_word (take 4 buf) then (Inr (), it1, d1)
               else
                 let data = (mi_data it1)\<lparr>md_Version := le_word (take 8 (drop 4 buf))\<rparr> in
                 (case unmarshal_meta (string_of (drop 12 buf)) data of
                    None \<Rightarrow> (Inr (), it1\<lparr>mi_data := data\<rparr>, d1)
                  | Some data' \<Rightarrow> (Inr (), it1\<lparr>mi_data := data', mi_valid := True\<rparr>, d1))))"

definition slot_body :: "KVMetaData \<Rightarrow> bytes" where
  "slot_body data = le_bytes 8 (md_Version data) @ bytes_of (json_render (marshal_meta data))"

definition slot_bytes :: "KVMetaData \<Rightarrow> bytes" where
  "slot_bytes data = le_bytes 4 (crc32_ChecksumIEEE (slot_body data)) @ slot_body data"

definition KVMetaItem_write :: "KVMetaItem \<Rightarrow> KVMetaData \<Rightarrow> disk \<Rightarrow> unit res \<times> KVMetaItem \<times> disk" where
  "KVMetaItem_write it data d =
     (let out = slot_bytes data in
      if \<not> mi_fp it then (Inl IOErr, it, d)
      else case os_Truncate (mi_FileName it) 0 d of
        (Inl e, d1) \<Rightarrow> (Inl e, it, d1)
      | (Inr _, d1) \<Rightarrow>
          (case os_WriteAt (mi_FileName it) 0 out d1 of
             (_, Some e, d2) \<Rightarrow> (Inl e, it, d2)
           | (_, None, d2) \<Rightarrow>
               (case os_Sync (mi_FileName it) d2 of
                  (Inl e, d3) \<Rightarrow> (Inl e, it, d3)
                | (Inr _, d3) \<Rightarrow> (Inr (), it\<lparr>mi_data := data, mi_valid := True\<rparr>, d3))))"

section \<open>The store of two slots\<close>

record KVMetaStore =
  slot0 :: KVMetaItem
  slot1 :: KVMetaItem

definition KVMetaStore_Open :: "KVMetaStore \<Rightarrow> disk \<Rightarrow> unit res \<times> KVMetaStore \<times> disk" where
  "KVMetaStore_Open m d =
     (case KVMetaItem_open (slot0 m) d of
        (Inl e, s0, d1) \<Rightarrow> (Inl e, m\<lparr>slot0 := s0\<rparr>, d1)
      | (Inr _, s0, d1) \<Rightarrow>
          (case KVMetaItem_open (slot1 m) d1 of
             (r, s1, d2) \<Rightarrow> (r, m\<lparr>slot0 := s0, slot1 := s1\<rparr>, d2)))"

definition KVMetaStore_Close :: "KVMetaStore \<Rightarrow> unit res" where
  "KVMetaStore_Close m = Inr ()"

definition KVMetaStore_current :: "KVMetaStore \<Rightarrow> int" where
  "KVMetaStore_current m =
     (let a = mi_valid (slot0 m); b = mi_valid (slot1 m) in
      if a \<and> b then (if md_Version (mi_data (slot0 m)) \<ge> md_Version (mi_data (slot1 m)) then 0 else 1)
      else if a then 0
      else if b then 1
      else -1)"

definition zero_meta :: KVMetaData where
  "zero_meta = \<lparr>md_Version = 0, md_SSTables = []\<rparr>"

definition KVMetaStore_slot :: "KVMetaStore \<Rightarrow> int \<Rightarrow> KVMetaItem" where
  "KVMetaStore_slot m i = (if i = 0 then slot0 m else slot1 m)"

definition KVMetaStore_Get :: "KVMetaStore \<Rightarrow> KVMetaData" where
  "KVMetaStore_Get m =
     (let i = KVMetaStore_current m in
      if i \<ge> 0 then mi_data (KVMetaStore_slot m i) else zero_meta)"

definition KVMetaStore_Set :: "KVMetaStore \<Rightarrow> KVMetaData \<Rightarrow> disk \<Rightarrow> unit res \<times> KVMetaStore \<times> disk" where
  "KVMetaStore_Set m data d =
     (let cur = KVMetaStore_current m in
      if cur \<ge> 0 \<and> md_Version data \<le> md_Version (mi_data (KVMetaStore_slot m cur))
      then (Inl ErrMetaVersion, m, d)
      else if cur = 0
        then (case KVMetaItem_write (slot1 m) data d of (r, s1, d') \<Rightarrow> (r, m\<lparr>slot1 := s1\<rparr>, d'))
        else (case KVMetaItem_write (slot0 m) data d of (r, s0, d') \<Rightarrow> (r, m\<lparr>slot0 := s0\<rparr>, d')))"

section \<open>A slot reads back\<close>

definition plain_meta :: "KVMetaData \<Rightarrow> bool" where
  "plain_meta m \<longleftrightarrow> list_all plain (md_SSTables m)"

lemma int_decimal_nat: "int_decimal (int n) = decimal n"
  by (simp add: int_decimal_def)

lemma plain_json_meta: "plain_meta m \<Longrightarrow> plain_json (marshal_meta m)"
proof -
  have "number_token (decimal n)" for n
    unfolding number_token_def by (metis int_decimal_nat)
  moreover have "plain ''Version''" "plain ''SSTables''" by (simp_all add: plain_def html_safe_def byte_val_def)
  ultimately show "plain_meta m \<Longrightarrow> plain_json (marshal_meta m)"
    by (auto simp: marshal_meta_def plain_meta_def list_all_iff)
qed

lemma unmarshal_strings_JStr [simp]: "unmarshal_strings (map JStr ss) = Some ss"
  by (induction ss) simp_all

lemma unmarshal_meta_correct:
  assumes "plain_meta m"
  shows "unmarshal_meta (json_render (marshal_meta m)) m' = Some (m'\<lparr>md_Version := md_Version m, md_SSTables := md_SSTables m\<rparr>)"
proof -
  have f: "field_is ''Version'' ''Version''" "\<not> field_is ''Version'' ''SSTables''" "field_is ''SSTables'' ''SSTables''"
    by (simp_all add: field_is_def lower_def byte_val_def)
  have v: "parse_uint_in (2 ^ 64 - 1) (decimal (unat (md_Version m))) = Some (unat (md_Version m))"
  proof (rule parse_uint_decimal)
    have "unat (md_Version m) < 2 ^ 64" by (rule order.strict_trans2 [OF unsigned_less]) simp
    then show "unat (md_Version m) \<le> 2 ^ 64 - 1" by simp
  qed
  show ?thesis
    using f v json_parse_render [OF plain_json_meta [OF assms]]
    by (auto simp: unmarshal_meta_def unmarshal_meta_field_def marshal_meta_def)
qed

text \<open>What a slot file says, as an open from scratch sees it.\<close>

definition slot_decode :: "bytes \<Rightarrow> KVMetaData option" where
  "slot_decode buf =
     (if length buf < 12 then None
      else if crc32_ChecksumIEEE (drop 4 buf) \<noteq> (le_word (take 4 buf) :: u32) then None
      else unmarshal_meta (string_of (drop 12 buf)) (zero_meta\<lparr>md_Version := le_word (take 8 (drop 4 buf))\<rparr>))"

lemma slot_decode_bytes:
  assumes "plain_meta m"
  shows "slot_decode (slot_bytes m) = Some m"
proof -
  have l: "\<not> length (slot_bytes m) < 12" by (simp add: slot_bytes_def slot_body_def)
  have 1: "drop 4 (slot_bytes m) = slot_body m" "take 4 (slot_bytes m) = le_bytes 4 (crc32_ChecksumIEEE (slot_body m))"
    by (simp_all add: slot_bytes_def)
  have 2: "drop 12 (slot_bytes m) = bytes_of (json_render (marshal_meta m))"
    by (simp add: slot_bytes_def slot_body_def)
  have 3: "(le_word (le_bytes 4 (crc32_ChecksumIEEE (slot_body m))) :: u32) = crc32_ChecksumIEEE (slot_body m)"
    by (rule le_word_le_bytes_full) simp
  show ?thesis
    using l unfolding slot_decode_def 1 2 3
    by (simp add: unmarshal_meta_correct [OF assms])
qed

definition fresh_item :: "string \<Rightarrow> KVMetaItem" where
  "fresh_item f = \<lparr>mi_FileName = f, mi_fp = False, mi_data = zero_meta, mi_valid = False\<rparr>"

lemma KVMetaItem_open_fresh:
  assumes "createFileSync f d = (Inr (), d1)"
  shows "\<exists>it. KVMetaItem_open (fresh_item f) d = (Inr (), it, d1) \<and> mi_FileName it = f \<and> mi_fp it \<and>
    (case slot_decode (case files d f of None \<Rightarrow> [] | Some c \<Rightarrow> c) of
       None \<Rightarrow> \<not> mi_valid it | Some m \<Rightarrow> mi_valid it \<and> mi_data it = m)"
proof -
  let ?c = "case files d f of None \<Rightarrow> [] | Some c \<Rightarrow> c"
  have "os_ReadFile f d1 = Inr ?c"
    using createFileSync_ok [OF assms] by (simp add: os_ReadFile_def)
  with assms show ?thesis
    by (auto simp: KVMetaItem_open_def fresh_item_def slot_decode_def Let_def split: option.splits)
qed

text \<open>A write ends with the whole slot on disk, or with a prefix of it (nothing but the slot's file
  changes), or before anything was touched.\<close>

lemma KVMetaItem_write_disk:
  assumes "files d (mi_FileName it) = Some c" "KVMetaItem_write it data d = (r, it', d')"
  shows "files d' = files d \<or>
      (\<exists>n. files d' = (files d)(mi_FileName it := Some (take n (slot_bytes data))))"
    and "r = Inr u \<Longrightarrow> files d' = (files d)(mi_FileName it := Some (slot_bytes data)) \<and>
      it' = it\<lparr>mi_data := data, mi_valid := True\<rparr>"
    and "r = Inl e \<Longrightarrow> it' = it"
proof -
  let ?f = "mi_FileName it" and ?out = "slot_bytes data"
  have "length ?out \<noteq> 0" by (simp add: slot_bytes_def slot_body_def)
  then have ne: "?out \<noteq> []" by auto
  have "(files d' = files d \<or> (\<exists>n. files d' = (files d)(?f := Some (take n ?out)))) \<and>
    (r = Inr u \<longrightarrow> files d' = (files d)(?f := Some ?out) \<and> it' = it\<lparr>mi_data := data, mi_valid := True\<rparr>) \<and>
    (r = Inl e \<longrightarrow> it' = it)"
  proof (cases "mi_fp it")
    case False
    with assms(2) show ?thesis by (auto simp: KVMetaItem_write_def Let_def)
  next
    case fp: True
    obtain r1 d1 where t: "os_Truncate ?f 0 d = (r1, d1)" by force
    show ?thesis
    proof (cases r1)
      case (Inl x)
      then have "files d1 = files d" using t assms(1) by (auto simp: os_Truncate_def split: option.splits prod.splits)
      with Inl t fp assms(2) show ?thesis by (auto simp: KVMetaItem_write_def Let_def)
    next
      case (Inr x)
      then have f1: "files d1 = (files d)(?f := Some [])"
        using t assms(1) by (auto simp: os_Truncate_def split: option.splits prod.splits)
      obtain n e1 d2 where w: "os_WriteAt ?f 0 ?out d1 = (n, e1, d2)" by (metis prod_cases3)
      have n: "e1 = None \<longrightarrow> n = length ?out" and f2: "files d2 = (files d)(?f := Some (take n ?out))"
        using os_WriteAt_append [of d1 ?f "[]" ?out n e1 d2] w f1 by auto
      show ?thesis
      proof (cases e1)
        case (Some y)
        with w t Inr fp assms(2) f2 show ?thesis by (auto simp: KVMetaItem_write_def Let_def)
      next
        case None
        obtain r3 d3 where s: "os_Sync ?f d2 = (r3, d3)" by force
        then have f3: "files d3 = (files d)(?f := Some ?out)" using os_Sync_files [OF s] f2 n None by simp
        with None w t Inr fp s assms(2) show ?thesis
          by (cases r3) (auto simp: KVMetaItem_write_def Let_def intro: exI [of _ "length ?out"])
      qed
    qed
  qed
  then show "files d' = files d \<or> (\<exists>n. files d' = (files d)(?f := Some (take n ?out)))"
    "r = Inr u \<Longrightarrow> files d' = (files d)(?f := Some ?out) \<and> it' = it\<lparr>mi_data := data, mi_valid := True\<rparr>"
    "r = Inl e \<Longrightarrow> it' = it"
    by blast+
qed

text \<open>What a write does without looking at the disk.\<close>

lemma KVMetaItem_write_memory:
  assumes "KVMetaItem_write it data d = (r, it', d')"
  shows "it' = (case r of Inl _ \<Rightarrow> it | Inr _ \<Rightarrow> it\<lparr>mi_data := data, mi_valid := True\<rparr>)"
    and "g \<noteq> mi_FileName it \<Longrightarrow> kept d d' g" and "listed d' h = listed d h"
proof -
  show "it' = (case r of Inl _ \<Rightarrow> it | Inr _ \<Rightarrow> it\<lparr>mi_data := data, mi_valid := True\<rparr>)"
    using assms by (auto simp: KVMetaItem_write_def Let_def split: prod.splits sum.splits option.splits if_splits)
  show "g \<noteq> mi_FileName it \<Longrightarrow> kept d d' g"
    using assms
    by (auto simp: KVMetaItem_write_def Let_def split: prod.splits sum.splits option.splits if_splits
        dest!: os_Truncate_kept [of _ _ _ _ _ g] os_WriteAt_kept [of _ _ _ _ _ _ _ g] os_Sync_kept [of _ _ _ _ g]
        intro: kept_trans)
  show "listed d' h = listed d h"
    using assms by (auto simp: KVMetaItem_write_def Let_def split: prod.splits sum.splits option.splits if_splits)
qed

text \<open>What a power cut may leave of the slot.\<close>

lemma KVMetaItem_write_crash:
  assumes f: "files d (mi_FileName it) = Some c" and w: "KVMetaItem_write it data d = (r, it', d')"
  shows "set (after_cut d' (mi_FileName it)) \<subseteq> set (after_cut d (mi_FileName it)) \<union> {Some (take n (slot_bytes data)) | n. True}"
    and "r = Inr u \<Longrightarrow> listed d (mi_FileName it) \<Longrightarrow> settled d' (mi_FileName it)"
proof -
  let ?f = "mi_FileName it" and ?S = "set (after_cut d (mi_FileName it)) \<union> {Some (take n (slot_bytes data)) | n. True}"
  have "set (after_cut d' ?f) \<subseteq> ?S \<and> (r = Inr u \<longrightarrow> listed d ?f \<longrightarrow> settled d' ?f)"
  proof (cases "mi_fp it")
    case False
    then show ?thesis using w by (auto simp: KVMetaItem_write_def Let_def)
  next
    case fp: True
    obtain r1 d1 where t: "os_Truncate ?f 0 d = (r1, d1)" by force
    have "Some [] \<in> {Some (take n (slot_bytes data)) | n. True}" by (auto intro: exI [of _ 0])
    then have s1: "set (after_cut d1 ?f) \<subseteq> ?S" using after_cut_Truncate [OF t f] by blast
    show ?thesis
    proof (cases r1)
      case (Inl x)
      then show ?thesis using w t fp s1 by (auto simp: KVMetaItem_write_def Let_def)
    next
      case (Inr x)
      then have f1: "files d1 ?f = Some []" using t f by (auto simp: os_Truncate_def split: option.splits prod.splits)
      obtain n e1 d2 where o: "os_WriteAt ?f 0 (slot_bytes data) d1 = (n, e1, d2)" by (metis prod_cases3)
      have "write_bytes [] 0 b = b" for b by (simp add: write_bytes_def)
      then have s2: "set (after_cut d2 ?f) \<subseteq> ?S" using after_cut_WriteAt [OF o f1] s1 by auto
      obtain r3 d3 where y: "os_Sync ?f d2 = (r3, d3)" by force
      have "set (after_cut d3 ?f) \<subseteq> ?S" using after_cut_Sync [OF y, of ?f] s2 by blast
      then show ?thesis using w t fp Inr o y s2 os_Sync_settles [of ?f d2 x d3]
        by (cases e1; cases r3) (auto simp: KVMetaItem_write_def Let_def)
    qed
  qed
  then show "set (after_cut d' ?f) \<subseteq> ?S" "r = Inr u \<Longrightarrow> listed d ?f \<Longrightarrow> settled d' ?f" by blast+
qed

lemma KVMetaStore_Set_memory:
  assumes "KVMetaStore_Set m data d = (r, m', d')"
  shows "r = Inr u \<Longrightarrow> KVMetaStore_Get m' = data" and "r = Inl e \<Longrightarrow> m' = m"
    and "mi_FileName (slot0 m') = mi_FileName (slot0 m)" "mi_FileName (slot1 m') = mi_FileName (slot1 m)"
    and "g \<noteq> mi_FileName (slot0 m) \<Longrightarrow> g \<noteq> mi_FileName (slot1 m) \<Longrightarrow> kept d d' g"
proof -
  have "(r = Inr u \<longrightarrow> KVMetaStore_Get m' = data) \<and> (r = Inl e \<longrightarrow> m' = m) \<and>
    mi_FileName (slot0 m') = mi_FileName (slot0 m) \<and> mi_FileName (slot1 m') = mi_FileName (slot1 m) \<and>
    (g \<noteq> mi_FileName (slot0 m) \<longrightarrow> g \<noteq> mi_FileName (slot1 m) \<longrightarrow> kept d d' g)"
  proof (cases "KVMetaStore_current m \<ge> 0 \<and>
      md_Version data \<le> md_Version (mi_data (KVMetaStore_slot m (KVMetaStore_current m)))")
    case True
    then show ?thesis using assms by (auto simp: KVMetaStore_Set_def Let_def)
  next
    case old: False
    show ?thesis
    proof (cases "KVMetaStore_current m = 0")
      case True
      obtain s1 where w: "KVMetaItem_write (slot1 m) data d = (r, s1, d')" "m' = m\<lparr>slot1 := s1\<rparr>"
        using assms True old by (auto simp: KVMetaStore_Set_def Let_def split: prod.splits)
      then show ?thesis using KVMetaItem_write_memory [OF w(1)] True old
        by (auto simp: KVMetaStore_Get_def KVMetaStore_current_def KVMetaStore_slot_def Let_def not_le
            split: sum.splits if_splits)
    next
      case False
      obtain s0 where w: "KVMetaItem_write (slot0 m) data d = (r, s0, d')" "m' = m\<lparr>slot0 := s0\<rparr>"
        using assms False old by (auto simp: KVMetaStore_Set_def Let_def split: prod.splits)
      then show ?thesis using KVMetaItem_write_memory [OF w(1)] False old
        by (auto simp: KVMetaStore_Get_def KVMetaStore_current_def KVMetaStore_slot_def Let_def not_le
            split: sum.splits if_splits)
    qed
  qed
  then show "r = Inr u \<Longrightarrow> KVMetaStore_Get m' = data" "r = Inl e \<Longrightarrow> m' = m"
    "mi_FileName (slot0 m') = mi_FileName (slot0 m)" "mi_FileName (slot1 m') = mi_FileName (slot1 m)"
    "g \<noteq> mi_FileName (slot0 m) \<Longrightarrow> g \<noteq> mi_FileName (slot1 m) \<Longrightarrow> kept d d' g"
    by blast+
qed

section \<open>Double buffering\<close>

text \<open>The metadata that a store with these two slot contents holds.\<close>

definition meta_pick :: "KVMetaData option \<Rightarrow> KVMetaData option \<Rightarrow> KVMetaData" where
  "meta_pick a b =
     (case (a, b) of
        (Some x, Some y) \<Rightarrow> if md_Version x \<ge> md_Version y then x else y
      | (Some x, None) \<Rightarrow> x
      | (None, Some y) \<Rightarrow> y
      | (None, None) \<Rightarrow> zero_meta)"

definition slot_view :: "KVMetaItem \<Rightarrow> KVMetaData option" where
  "slot_view it = (if mi_valid it then Some (mi_data it) else None)"

definition file_bytes :: "disk \<Rightarrow> string \<Rightarrow> bytes" where
  "file_bytes d f = (case files d f of None \<Rightarrow> [] | Some c \<Rightarrow> c)"

definition meta_on_disk :: "disk \<Rightarrow> string \<Rightarrow> string \<Rightarrow> KVMetaData" where
  "meta_on_disk d f0 f1 = meta_pick (slot_decode (file_bytes d f0)) (slot_decode (file_bytes d f1))"

definition fresh_store :: "string \<Rightarrow> string \<Rightarrow> KVMetaStore" where
  "fresh_store f0 f1 = \<lparr>slot0 = fresh_item f0, slot1 = fresh_item f1\<rparr>"

text \<open>Memory and disk agree, slot by slot.\<close>

definition meta_inv :: "KVMetaStore \<Rightarrow> disk \<Rightarrow> bool" where
  "meta_inv m d \<longleftrightarrow>
     mi_FileName (slot0 m) \<noteq> mi_FileName (slot1 m) \<and>
     (\<forall>it\<in>{slot0 m, slot1 m}. mi_fp it \<and> files d (mi_FileName it) \<noteq> None \<and>
        slot_decode (file_bytes d (mi_FileName it)) = slot_view it)"

lemma KVMetaStore_Get_pick: "KVMetaStore_Get m = meta_pick (slot_view (slot0 m)) (slot_view (slot1 m))"
  by (auto simp: KVMetaStore_Get_def KVMetaStore_current_def meta_pick_def slot_view_def
      KVMetaStore_slot_def Let_def)

lemma slot_decode_Nil [simp]: "slot_decode [] = None"
  by (simp add: slot_decode_def)

text \<open>A cut slot is not accepted, whatever its checksum: the JSON at its end is cut, too.\<close>

lemma slot_decode_torn:
  assumes "plain_meta data" "n < length (slot_bytes data)"
  shows "slot_decode (take n (slot_bytes data)) = None"
proof (cases "n < 12")
  case False
  let ?t = "json_render (marshal_meta data)"
  have "drop 12 (take n (slot_bytes data)) = take (n - 12) (bytes_of ?t)"
    using False by (simp add: slot_bytes_def slot_body_def drop_take)
  also have "string_of \<dots> = take (n - 12) ?t"
    by (metis string_of_bytes_of string_of_def take_map)
  finally have t: "string_of (drop 12 (take n (slot_bytes data))) = take (n - 12) ?t" .
  have "n - 12 < length ?t" using False assms(2) by (simp add: slot_bytes_def slot_body_def bytes_of_def)
  then have "json_parse (take (n - 12) ?t) = None"
    using plain_json_meta [OF assms(1)] json_parse_cut unfolding marshal_meta_def by blast
  then show ?thesis unfolding slot_decode_def t by (simp add: unmarshal_meta_def)
next
  case True
  then have "length (take n (slot_bytes data)) < 12" by simp
  then show ?thesis by (simp only: slot_decode_def if_True)
qed

lemma slot_decode_prefix:
  assumes "plain_meta data"
  shows "slot_decode (take n (slot_bytes data)) \<in> {None, Some data}"
  using slot_decode_torn [OF assms] slot_decode_bytes [OF assms] by (cases "n < length (slot_bytes data)") simp_all

lemma KVMetaStore_Open_fresh:
  assumes "fault_free d" "f0 \<noteq> f1"
  shows "\<exists>m d'. KVMetaStore_Open (fresh_store f0 f1) d = (Inr (), m, d') \<and> KVMetaStore_Get m = meta_on_disk d f0 f1 \<and>
    meta_inv m d' \<and> mi_FileName (slot0 m) = f0 \<and> mi_FileName (slot1 m) = f1 \<and> fault_free d' \<and>
    (\<forall>f. f \<noteq> f0 \<longrightarrow> f \<noteq> f1 \<longrightarrow> files d' f = files d f) \<and> (\<forall>g. settled d g \<longrightarrow> settled d' g)"
proof -
  obtain d1 where d1: "createFileSync f0 d = (Inr (), d1)" "fault_free d1"
    using createFileSync_fault_free [OF assms(1)] by blast
  obtain d2 where d2: "createFileSync f1 d1 = (Inr (), d2)" "fault_free d2"
    using createFileSync_fault_free [OF d1(2)] by blast
  note f1 = createFileSync_ok [OF d1(1)] and f2 = createFileSync_ok [OF d2(1)]
  have b: "file_bytes d1 f1 = file_bytes d f1" using f1 assms(2) by (simp add: file_bytes_def)
  obtain a where a: "KVMetaItem_open (fresh_item f0) d = (Inr (), a, d1)" "mi_FileName a = f0" "mi_fp a"
    "slot_view a = slot_decode (file_bytes d f0)"
    using KVMetaItem_open_fresh [OF d1(1)] by (auto simp: slot_view_def file_bytes_def split: option.splits)
  obtain c where c: "KVMetaItem_open (fresh_item f1) d1 = (Inr (), c, d2)" "mi_FileName c = f1" "mi_fp c"
    "slot_view c = slot_decode (file_bytes d f1)"
    using KVMetaItem_open_fresh [OF d2(1)] b by (auto simp: slot_view_def file_bytes_def split: option.splits)
  let ?m = "\<lparr>slot0 = a, slot1 = c\<rparr>"
  have o: "KVMetaStore_Open (fresh_store f0 f1) d = (Inr (), ?m, d2)"
    using a(1) c(1) by (simp add: KVMetaStore_Open_def fresh_store_def)
  have "meta_inv ?m d2"
    using a c assms(2) f1 f2 by (simp add: meta_inv_def file_bytes_def)
  moreover have "\<forall>f. f \<noteq> f0 \<longrightarrow> f \<noteq> f1 \<longrightarrow> files d2 f = files d f" by (simp add: f1 f2)
  moreover have "\<forall>g. settled d g \<longrightarrow> settled d2 g" using createFileSync_settled [OF d1(1)] createFileSync_settled [OF d2(1)] by blast
  ultimately show ?thesis using o a c d2(2)
    by (simp add: KVMetaStore_Get_pick meta_on_disk_def)
qed

lemma meta_pick_newer:
  "a = None \<or> md_Version (the a) < md_Version x \<Longrightarrow> meta_pick a (Some x) = x"
  "b = None \<or> md_Version (the b) < md_Version x \<Longrightarrow> meta_pick (Some x) b = x"
  by (auto simp: meta_pick_def split: option.splits)

text \<open>\<^verbatim>\<open>Set\<close> refuses a version that is not later, or writes the slot \<open>f\<close> that does not hold the current
  data: whatever that slot decodes to then, the other one still holds them, and a later version wins.\<close>

lemma KVMetaStore_Set_slot:
  assumes inv: "meta_inv m d" and set: "KVMetaStore_Set m data d = (r, m', d')"
  obtains (stale) "r = Inl ErrMetaVersion" "m' = m" "d' = d"
  | (wrote) it it' g where "it \<in> {slot0 m, slot1 m}" "KVMetaItem_write it data d = (r, it', d')" "mi_FileName it \<noteq> g"
      "{mi_FileName (slot0 m), mi_FileName (slot1 m)} = {mi_FileName it, g}"
      "\<And>c. slot_decode (file_bytes c g) = slot_decode (file_bytes d g) \<Longrightarrow>
        slot_decode (file_bytes c (mi_FileName it)) \<in> {None, slot_decode (file_bytes d (mi_FileName it))} \<Longrightarrow>
        meta_on_disk c (mi_FileName (slot0 m)) (mi_FileName (slot1 m)) = KVMetaStore_Get m"
      "\<And>c. slot_decode (file_bytes c g) = slot_decode (file_bytes d g) \<Longrightarrow>
        slot_decode (file_bytes c (mi_FileName it)) = Some data \<Longrightarrow>
        meta_on_disk c (mi_FileName (slot0 m)) (mi_FileName (slot1 m)) = data"
      "{slot0 m', slot1 m'} = insert it' ({slot0 m, slot1 m} - {it})" "\<And>x. x \<in> {slot0 m, slot1 m} - {it} \<Longrightarrow> mi_FileName x = g"
proof -
  let ?f0 = "mi_FileName (slot0 m)" and ?f1 = "mi_FileName (slot1 m)"
  have ne: "?f0 \<noteq> ?f1" and dec: "slot_decode (file_bytes d ?f0) = slot_view (slot0 m)"
    "slot_decode (file_bytes d ?f1) = slot_view (slot1 m)"
    using inv by (simp_all add: meta_inv_def)
  define G where "G = KVMetaStore_Get m"
  have G: "G = meta_pick (slot_view (slot0 m)) (slot_view (slot1 m))" by (simp add: G_def KVMetaStore_Get_pick)
  have sl: "slot0 m \<noteq> slot1 m" using ne by auto
  show ?thesis
  proof (cases "KVMetaStore_current m \<ge> 0 \<and>
      md_Version data \<le> md_Version (mi_data (KVMetaStore_slot m (KVMetaStore_current m)))")
    case True
    then show ?thesis using set stale by (simp add: KVMetaStore_Set_def Let_def)
  next
    case old: False
    show ?thesis
    proof (cases "KVMetaStore_current m = 0")
      case True
      have v0: "slot_view (slot0 m) = Some G" "md_Version G < md_Version data"
        using True old by (auto simp: KVMetaStore_current_def G meta_pick_def slot_view_def KVMetaStore_slot_def
            Let_def not_le split: if_splits)
      have g: "meta_pick (Some G) None = G" "meta_pick (Some G) (slot_view (slot1 m)) = G" "meta_pick (Some G) (Some data) = data"
        using v0(2) G [unfolded v0(1), symmetric] by (simp_all add: meta_pick_def)
      obtain s1 where w: "KVMetaItem_write (slot1 m) data d = (r, s1, d')" "m' = m\<lparr>slot1 := s1\<rparr>"
        using set True old by (auto simp: KVMetaStore_Set_def Let_def split: prod.splits)
      show ?thesis
        by (rule wrote [of "slot1 m" s1 ?f0]) (use w ne sl dec v0(1) g in \<open>auto simp: meta_on_disk_def G_def [symmetric]\<close>)
    next
      case False
      have v1: "slot_view (slot0 m) = None \<and> slot_view (slot1 m) = None \<and> G = zero_meta \<or>
          slot_view (slot1 m) = Some G \<and> md_Version G < md_Version data"
        using False old by (auto simp: KVMetaStore_current_def G meta_pick_def slot_view_def KVMetaStore_slot_def
            Let_def not_le split: if_splits)
      have g: "meta_pick None (slot_view (slot1 m)) = G" "meta_pick (Some data) (slot_view (slot1 m)) = data"
        using v1 by (auto simp: meta_pick_def)
      obtain s0 where w: "KVMetaItem_write (slot0 m) data d = (r, s0, d')" "m' = m\<lparr>slot0 := s0\<rparr>"
        using set False old by (auto simp: KVMetaStore_Set_def Let_def split: prod.splits)
      show ?thesis
        by (rule wrote [of "slot0 m" s0 ?f1]) (use w ne sl dec g in \<open>auto simp: meta_on_disk_def G_def [symmetric] G [symmetric]\<close>)
    qed
  qed
qed

text \<open>\<^verbatim>\<open>Set\<close>: on success the new data is current in memory and on disk; on failure memory keeps the
  old data, and what a restart finds is the old or the new data, never anything else.\<close>

lemma KVMetaStore_Set_correct:
  assumes inv: "meta_inv m d" and pl: "plain_meta data"
    and set: "KVMetaStore_Set m data d = (r, m', d')"
  shows "r = Inr () \<Longrightarrow> meta_inv m' d' \<and> KVMetaStore_Get m' = data"
    and "r = Inl e \<Longrightarrow> m' = m"
    and "meta_on_disk d' (mi_FileName (slot0 m)) (mi_FileName (slot1 m)) \<in> {KVMetaStore_Get m, data}"
    and "mi_FileName (slot0 m') = mi_FileName (slot0 m) \<and> mi_FileName (slot1 m') = mi_FileName (slot1 m) \<and>
      (\<forall>f. f \<noteq> mi_FileName (slot0 m) \<longrightarrow> f \<noteq> mi_FileName (slot1 m) \<longrightarrow> kept d d' f)"
proof -
  note mem = KVMetaStore_Set_memory [OF set]
  show "r = Inl e \<Longrightarrow> m' = m" by (rule mem(2))
  show "mi_FileName (slot0 m') = mi_FileName (slot0 m) \<and> mi_FileName (slot1 m') = mi_FileName (slot1 m) \<and>
      (\<forall>f. f \<noteq> mi_FileName (slot0 m) \<longrightarrow> f \<noteq> mi_FileName (slot1 m) \<longrightarrow> kept d d' f)" using mem(3-5) by blast
  have same: "meta_on_disk d (mi_FileName (slot0 m)) (mi_FileName (slot1 m)) = KVMetaStore_Get m"
    using inv by (simp add: meta_inv_def meta_on_disk_def KVMetaStore_Get_pick)
  from inv set have "meta_on_disk d' (mi_FileName (slot0 m)) (mi_FileName (slot1 m)) \<in> {KVMetaStore_Get m, data} \<and>
    (r = Inr () \<longrightarrow> meta_inv m' d')"
  proof (cases rule: KVMetaStore_Set_slot)
    case stale
    then show ?thesis using same by simp
  next
    case (wrote it it' g)
    let ?f = "mi_FileName it"
    obtain c where c: "files d ?f = Some c" using inv wrote(1) unfolding meta_inv_def by blast
    note wd = KVMetaItem_write_disk [OF c wrote(2)]
    have g: "files d' g = files d g" using wd(1) wrote(3) by auto
    then have dg: "slot_decode (file_bytes d' g) = slot_decode (file_bytes d g)" by (simp add: file_bytes_def)
    have "slot_decode (file_bytes d' ?f) \<in> {None, slot_decode (file_bytes d ?f), Some data}"
      using wd(1)
    proof (elim disjE exE)
      fix n assume n: "files d' = (files d)(?f := Some (take n (slot_bytes data)))"
      show ?thesis using slot_decode_prefix [OF pl, of n] by (auto simp: file_bytes_def n)
    qed (simp add: file_bytes_def)
    then have one: "meta_on_disk d' (mi_FileName (slot0 m)) (mi_FileName (slot1 m)) \<in> {KVMetaStore_Get m, data}"
      using wrote(5,6) [OF dg] by blast
    have "meta_inv m' d'" if r: "r = Inr ()"
    proof -
      have fd: "files d' ?f = Some (slot_bytes data)" and it': "it' = it\<lparr>mi_data := data, mi_valid := True\<rparr>" using wd(2) [OF r] by simp_all
      have "mi_fp x \<and> files d' (mi_FileName x) \<noteq> None \<and> slot_decode (file_bytes d' (mi_FileName x)) = slot_view x"
        if "x \<in> {slot0 m', slot1 m'}" for x
      proof (cases "x = it'")
        case True
        then show ?thesis using fd it' inv wrote(1) slot_decode_bytes [OF pl] by (auto simp: meta_inv_def file_bytes_def slot_view_def)
      next
        case False
        then have x: "x \<in> {slot0 m, slot1 m}" "x \<noteq> it" using that unfolding wrote(7) by auto
        then have "mi_FileName x = g" using wrote(8) by blast
        then show ?thesis using x(1) inv g dg by (auto simp: meta_inv_def)
      qed
      then show ?thesis using inv mem(3,4) by (simp add: meta_inv_def)
    qed
    with one show ?thesis by blast
  qed
  then show "meta_on_disk d' (mi_FileName (slot0 m)) (mi_FileName (slot1 m)) \<in> {KVMetaStore_Get m, data}"
    "r = Inr () \<Longrightarrow> meta_inv m' d' \<and> KVMetaStore_Get m' = data" using mem(1) by blast+
qed

text \<open>So after a power cut, too, when the slots had been synced before; and on success they are synced
  again, so that the new data is what every crash leaves.\<close>

lemma KVMetaStore_Set_crash:
  assumes inv: "meta_inv m d" and pl: "plain_meta data" and set: "KVMetaStore_Set m data d = (r, m', d')"
    and st: "settled d (mi_FileName (slot0 m))" "settled d (mi_FileName (slot1 m))"
  shows "crash_leaves d' c \<Longrightarrow> meta_on_disk c (mi_FileName (slot0 m)) (mi_FileName (slot1 m)) \<in> {KVMetaStore_Get m, data}"
    and "r = Inr () \<Longrightarrow> settled d' (mi_FileName (slot0 m)) \<and> settled d' (mi_FileName (slot1 m))"
proof -
  let ?a = "mi_FileName (slot0 m)" and ?b = "mi_FileName (slot1 m)"
  from inv set have "(crash_leaves d' c \<longrightarrow> meta_on_disk c ?a ?b \<in> {KVMetaStore_Get m, data}) \<and>
    (r = Inr () \<longrightarrow> settled d' ?a \<and> settled d' ?b)"
  proof (cases rule: KVMetaStore_Set_slot)
    case stale
    have "meta_on_disk c ?a ?b = KVMetaStore_Get m" if "crash_leaves d c"
      using inv crash_leaves_settled [OF that st(1)] crash_leaves_settled [OF that st(2)]
      by (simp add: meta_inv_def meta_on_disk_def KVMetaStore_Get_pick file_bytes_def)
    then show ?thesis using stale by simp
  next
    case (wrote it it' g)
    let ?f = "mi_FileName it"
    have "\<forall>x\<in>{?f, g}. settled d x" unfolding wrote(4) [symmetric] using st by simp
    then have sf: "settled d ?f" "settled d g" by simp_all
    obtain b where b: "files d ?f = Some b" using inv wrote(1) unfolding meta_inv_def by blast
    have kg: "kept d d' g" by (rule KVMetaItem_write_memory(2) [OF wrote(2) not_sym [OF wrote(3)]])
    have "meta_on_disk c ?a ?b \<in> {KVMetaStore_Get m, data}" if c: "crash_leaves d' c"
    proof -
      have dg: "slot_decode (file_bytes c g) = slot_decode (file_bytes d g)"
        using crash_leaves_kept [OF c kg sf(2)] by (simp add: file_bytes_def)
      have "files c ?f \<in> set (after_cut d' ?f)" using c by (simp add: crash_leaves_def)
      then have "files c ?f = files d ?f \<or> (\<exists>n. files c ?f = Some (take n (slot_bytes data)))"
        using KVMetaItem_write_crash(1) [OF b wrote(2)] after_cut_settled [OF sf(1)] by auto
      then have "slot_decode (file_bytes c ?f) \<in> {None, slot_decode (file_bytes d ?f), Some data}"
      proof (elim disjE exE)
        fix n assume n: "files c ?f = Some (take n (slot_bytes data))"
        show ?thesis using slot_decode_prefix [OF pl, of n] by (auto simp: file_bytes_def n)
      qed (simp add: file_bytes_def)
      then show ?thesis using wrote(5,6) [OF dg] by blast
    qed
    moreover have "settled d' ?a \<and> settled d' ?b" if "r = Inr ()"
    proof -
      have "settled d' ?f" using KVMetaItem_write_crash(2) [OF b wrote(2)] that settled_listed [OF sf(1)] by blast
      moreover have "settled d' g" using kept_settled [OF kg sf(2)] .
      ultimately have "\<forall>x\<in>{?f, g}. settled d' x" by simp
      then show ?thesis unfolding wrote(4) [symmetric] by simp
    qed
    ultimately show ?thesis by blast
  qed
  then show "crash_leaves d' c \<Longrightarrow> meta_on_disk c ?a ?b \<in> {KVMetaStore_Get m, data}"
    "r = Inr () \<Longrightarrow> settled d' ?a \<and> settled d' ?b" by blast+
qed

text \<open>Without a disk fault new metadata of a later version is written.\<close>

lemma KVMetaItem_write_fault_free:
  assumes "files d (mi_FileName it) = Some c" "mi_fp it" "fault_free d"
  shows "\<exists>it' d'. KVMetaItem_write it data d = (Inr (), it', d') \<and> fault_free d'"
proof -
  have "slot_bytes data \<noteq> []" by (metis length_le_bytes append_is_Nil_conv list.size(3) slot_bytes_def zero_neq_numeral)
  then show ?thesis using assms by (simp add: KVMetaItem_write_def os_Truncate_def os_WriteAt_def os_Sync_def set_file_def)
qed

lemma KVMetaStore_Set_fault_free:
  assumes inv: "meta_inv m d" and d: "fault_free d" and v: "md_Version (KVMetaStore_Get m) < md_Version data"
  shows "\<exists>m' d'. KVMetaStore_Set m data d = (Inr (), m', d') \<and> fault_free d'"
proof -
  obtain c0 c1 where f: "files d (mi_FileName (slot0 m)) = Some c0" "files d (mi_FileName (slot1 m)) = Some c1"
    "mi_fp (slot0 m)" "mi_fp (slot1 m)" using inv by (auto simp: meta_inv_def)
  have "\<not> (KVMetaStore_current m \<ge> 0 \<and> md_Version data \<le> md_Version (mi_data (KVMetaStore_slot m (KVMetaStore_current m))))"
    using v by (auto simp: KVMetaStore_Get_def Let_def)
  then show ?thesis
    using KVMetaItem_write_fault_free [OF f(1,3) d, of data] KVMetaItem_write_fault_free [OF f(2,4) d, of data]
    by (auto simp: KVMetaStore_Set_def Let_def)
qed

end
