(* ===== verification/Filepath.thy ===== *)
theory Filepath
  imports Json
begin

text \<open>
  \<^verbatim>\<open>path/filepath\<close> on Unix as far as the engine uses it: \<^verbatim>\<open>Join\<close> of the database directory and a
  file name.  What the engine relies on is that different simple names give different paths
  (\<open>filepath_Join_inj\<close>).
\<close>

fun split_slash :: "string \<Rightarrow> string list" where
  "split_slash [] = [[]]"
| "split_slash (c # s) =
     (if c = CHR ''/'' then [] # split_slash s
      else case split_slash s of [] \<Rightarrow> [[c]] | w # ws \<Rightarrow> (c # w) # ws)"

definition clean_step :: "bool \<Rightarrow> string list \<Rightarrow> string \<Rightarrow> string list" where
  "clean_step rooted st c =
     (if c = [] \<or> c = ''.'' then st
      else if c = ''..''
        then (if st \<noteq> [] \<and> last st \<noteq> ''..'' then butlast st else if rooted then st else st @ [c])
      else st @ [c])"

definition filepath_Clean :: "string \<Rightarrow> string" where
  "filepath_Clean p =
     (let rooted = (p \<noteq> [] \<and> hd p = CHR ''/'');
          st = foldl (clean_step rooted) [] (split_slash p)
      in if rooted then CHR ''/'' # join_with CHR ''/'' st
         else if st = [] then ''.'' else join_with CHR ''/'' st)"

definition filepath_Join :: "string \<Rightarrow> string \<Rightarrow> string" where
  "filepath_Join a b =
     (if a = [] then (if b = [] then [] else filepath_Clean b)
      else if b = [] then filepath_Clean a
      else filepath_Clean (a @ CHR ''/'' # b))"

definition simple_name :: "string \<Rightarrow> bool" where
  "simple_name s \<longleftrightarrow> s \<notin> {'''', ''.'', ''..''} \<and> CHR ''/'' \<notin> set s"

lemma split_slash_nonempty [simp]: "split_slash s \<noteq> []"
  by (induction s) (auto split: list.splits)

lemma split_slash_simple: "CHR ''/'' \<notin> set s \<Longrightarrow> split_slash s = [s]"
  by (induction s) auto

lemma split_slash_append: "split_slash (a @ CHR ''/'' # b) = split_slash a @ split_slash b"
  by (induction a) (auto split: list.splits)

lemma join_with_snoc: "join_with c (ss @ [s]) = (if ss = [] then s else join_with c ss @ c # s)"
  by (induction c ss rule: join_with.induct) auto

lemma filepath_Join_simple:
  assumes "a \<noteq> []" "simple_name b"
  shows "filepath_Join a b =
    (let rooted = (hd a = CHR ''/''); st = foldl (clean_step rooted) [] (split_slash a)
     in (if rooted then ''/'' else '''') @ (if st = [] then b else join_with CHR ''/'' st @ CHR ''/'' # b))"
proof -
  from assms(2) have b: "b \<noteq> []" "b \<noteq> ''.''" "b \<noteq> ''..''" "split_slash b = [b]"
    by (auto simp: simple_name_def split_slash_simple)
  have "clean_step rt st b = st @ [b]" for rt st using b by (simp add: clean_step_def)
  with assms(1) b show ?thesis
    by (simp add: filepath_Join_def filepath_Clean_def split_slash_append join_with_snoc Let_def)
qed

lemma filepath_Join_inj:
  assumes "a \<noteq> []" "simple_name b" "simple_name c"
  shows "filepath_Join a b = filepath_Join a c \<longleftrightarrow> b = c"
  using assms by (simp add: filepath_Join_simple Let_def)

end
