(* ===== verification/KV.thy ===== *)
theory KV
  imports Complex_Main Ranged Log Meta Filepath
begin

text \<open>
  \<^verbatim>\<open>storage/kv.go\<close>: the store.  \<open>kv\<close> is the struct \<^verbatim>\<open>KV\<close>; the disk is passed next to it.  The
  float32 \<^verbatim>\<open>GrowthFactor\<close> is a rational, and so is the product in \<open>KV_shouldMerge\<close>: the product of a
  float32 and a level size below \<open>2 ^ 29\<close> is exact in float64.  Loops whose end depends on other
  components are \<open>partial_function\<close>s; that they do end is proved where they are used.
\<close>

record KVOptions =
  Dirpath :: string
  LogShreshold :: int
  GrowthFactor :: rat

record kv =
  kv_Options :: KVOptions
  kv_meta :: KVMetaStore
  kv_log :: Log
  kv_mem :: SortedArray
  kv_main :: "SortedFile list"
  kv_version :: "64 word"

definition logFileName :: string where
  "logFileName = ''kv_log''"

text \<open>\<^verbatim>\<open>fmt.Sprintf("sstable_%d", version)\<close>\<close>

definition sstable_name :: "64 word \<Rightarrow> string" where
  "sstable_name v = ''sstable_'' @ decimal (unat v)"

section \<open>Opening\<close>

definition new_file :: "string \<Rightarrow> SortedFile" where
  "new_file f = \<lparr>sf_FileName = f, sf_fp = None, sf_nkeys = 0\<rparr>"

text \<open>The loop of \<^verbatim>\<open>openLevels\<close>: the levels opened before an error stay.\<close>

primrec openLevels_loop :: "string \<Rightarrow> string list \<Rightarrow> disk \<Rightarrow> SortedFile list \<Rightarrow> unit res \<times> SortedFile list" where
  "openLevels_loop dir [] d main = (Inr (), main)"
| "openLevels_loop dir (n # ns) d main =
     (case SortedFile_Open (new_file (filepath_Join dir n)) d of
        (Inl e, _) \<Rightarrow> (Inl e, main)
      | (Inr _, f) \<Rightarrow> openLevels_loop dir ns d (main @ [f]))"

definition KV_openLevels :: "kv \<Rightarrow> disk \<Rightarrow> unit res \<times> kv" where
  "KV_openLevels s d =
     (case openLevels_loop (Dirpath (kv_Options s)) (md_SSTables (KVMetaStore_Get (kv_meta s))) d [] of
        (r, main) \<Rightarrow> (r, s\<lparr>kv_main := main\<rparr>))"

text \<open>The replay loop of \<^verbatim>\<open>Open\<close>.\<close>

definition replay_entry :: "Entry \<Rightarrow> SortedArray \<Rightarrow> SortedArray" where
  "replay_entry ent a =
     (if e_deleted ent then SortedArray_Del a (e_key ent)
      else snd (SortedArray_Set a (e_key ent) (e_val ent)))"

partial_function (option) KV_replay :: "disk \<Rightarrow> kv \<Rightarrow> (unit res \<times> kv) option" where
  "KV_replay d s =
     (case Log_Read d (kv_log s) of
        None \<Rightarrow> None
      | Some (Inl e, lg) \<Rightarrow> Some (Inl e, s\<lparr>kv_log := lg\<rparr>)
      | Some (Inr None, lg) \<Rightarrow> Some (Inr (), s\<lparr>kv_log := lg\<rparr>)
      | Some (Inr (Some ent), lg) \<Rightarrow>
          KV_replay d (s\<lparr>kv_log := lg, kv_mem := replay_entry ent (kv_mem s)\<rparr>))"

definition KV_paths :: "kv \<Rightarrow> kv" where
  "KV_paths s =
     (let dir = Dirpath (kv_Options s); m = kv_meta s in
      s\<lparr>kv_log := (kv_log s)\<lparr>FileName := filepath_Join dir logFileName\<rparr>,
        kv_meta := m\<lparr>slot0 := (slot0 m)\<lparr>mi_FileName := filepath_Join dir ''meta0''\<rparr>,
                     slot1 := (slot1 m)\<lparr>mi_FileName := filepath_Join dir ''meta1''\<rparr>\<rparr>\<rparr>)"

definition KV_Open :: "kv \<Rightarrow> disk \<Rightarrow> (unit res \<times> kv \<times> disk) option" where
  "KV_Open s d =
     (if Dirpath (kv_Options s) = '''' then Some (Inl (ErrMsg ''kv: Options.Dirpath is required''), s, d)
      else case os_MkdirAll d of
        (Inl e, d1) \<Rightarrow> Some (Inl e, s, d1)
      | (Inr _, d1) \<Rightarrow>
          let s1 = KV_paths s in
          (case KVMetaStore_Open (kv_meta s1) d1 of
             (Inl e, m, d2) \<Rightarrow> Some (Inl e, s1\<lparr>kv_meta := m\<rparr>, d2)
           | (Inr _, m, d2) \<Rightarrow>
               let s2 = s1\<lparr>kv_meta := m, kv_version := md_Version (KVMetaStore_Get m)\<rparr> in
               (case Log_Open (kv_log s2) d2 of
                  (Inl e, lg, d3) \<Rightarrow> Some (Inl e, s2\<lparr>kv_log := lg\<rparr>, d3)
                | (Inr _, lg, d3) \<Rightarrow>
                    (case KV_replay d3 (s2\<lparr>kv_log := lg, kv_mem := SortedArray_Clear (kv_mem s2)\<rparr>) of
                       None \<Rightarrow> None
                     | Some (Inl e, s4) \<Rightarrow> Some (Inl e, s4, d3)
                     | Some (Inr _, s4) \<Rightarrow>
                         (case KV_openLevels s4 d3 of (r, s5) \<Rightarrow> Some (r, s5, d3))))))"

definition KV_Close :: "kv \<Rightarrow> unit res" where
  "KV_Close s =
     (let err = Log_Close (kv_log s);
          err = (case err of Inr _ \<Rightarrow> KVMetaStore_Close (kv_meta s) | Inl e \<Rightarrow> Inl e)
      in foldl (\<lambda>err f. case err of Inr _ \<Rightarrow> SortedFile_Close f | Inl e \<Rightarrow> Inl e) err (kv_main s))"

section \<open>Reading and writing\<close>

definition KV_levels :: "kv \<Rightarrow> SortedKV list" where
  "KV_levels s = MemKV (kv_mem s) # map FileKV (kv_main s)"

text \<open>The loop of \<^verbatim>\<open>Get\<close> over the SSTable levels.\<close>

primrec Get_levels :: "bytes \<Rightarrow> SortedFile list \<Rightarrow> bytes option go" where
  "Get_levels key [] = Some (Inr None)"
| "Get_levels key (f # fs) =
     go_bind (SortedFile_Seek f key) (\<lambda>it.
       if SortedFileIter_Valid it \<and> fi_key it = key
       then Some (Inr (if fi_deleted it then None else Some (fi_val it)))
       else Get_levels key fs)"

text \<open>\<^verbatim>\<open>(val, true)\<close> is \<open>Some val\<close>, \<^verbatim>\<open>(nil, false)\<close> is \<open>None\<close>.\<close>

definition KV_Get :: "kv \<Rightarrow> bytes \<Rightarrow> bytes option go" where
  "KV_Get s key =
     (case SortedArray_state (kv_mem s) key of (st, v) \<Rightarrow>
        if st = entryPresent then Some (Inr (Some v))
        else if st = entryTombstone then Some (Inr None)
        else Get_levels key (kv_main s))"

datatype UpdateMode = ModeUpsert | ModeInsert | ModeUpdate

text \<open>The log record first, then the MemTable; \<open>upd\<close> is the MemTable update.\<close>

definition KV_commit :: "kv \<Rightarrow> Entry \<Rightarrow> (SortedArray \<Rightarrow> SortedArray) \<Rightarrow> disk \<Rightarrow> (bool res \<times> kv \<times> disk) option" where
  "KV_commit s ent upd d =
     (case Log_Write (kv_log s) ent d of
        (Inl e, lg, d') \<Rightarrow> Some (Inl e, s\<lparr>kv_log := lg\<rparr>, d')
      | (Inr _, lg, d') \<Rightarrow> Some (Inr True, s\<lparr>kv_log := lg, kv_mem := upd (kv_mem s)\<rparr>, d'))"

definition KV_SetEx :: "kv \<Rightarrow> bytes \<Rightarrow> bytes \<Rightarrow> UpdateMode \<Rightarrow> disk \<Rightarrow> (bool res \<times> kv \<times> disk) option" where
  "KV_SetEx s key val mode d =
     (case KV_Get s key of
        None \<Rightarrow> None
      | Some (Inl e) \<Rightarrow> Some (Inl e, s, d)
      | Some (Inr got) \<Rightarrow>
          let existed = (got \<noteq> None) in
          if existed \<and> mode = ModeInsert then Some (Inr False, s, d)
          else if \<not> existed \<and> mode = ModeUpdate then Some (Inr False, s, d)
          else KV_commit s \<lparr>e_key = key, e_val = val, e_deleted = False\<rparr>
                 (\<lambda>a. snd (SortedArray_Set a key val)) d)"

definition KV_Set :: "kv \<Rightarrow> bytes \<Rightarrow> bytes \<Rightarrow> disk \<Rightarrow> (bool res \<times> kv \<times> disk) option" where
  "KV_Set s key val d = KV_SetEx s key val ModeUpsert d"

definition KV_Del :: "kv \<Rightarrow> bytes \<Rightarrow> disk \<Rightarrow> (bool res \<times> kv \<times> disk) option" where
  "KV_Del s key d =
     (case KV_Get s key of
        None \<Rightarrow> None
      | Some (Inl e) \<Rightarrow> Some (Inl e, s, d)
      | Some (Inr None) \<Rightarrow> Some (Inr False, s, d)
      | Some (Inr (Some _)) \<Rightarrow>
          KV_commit s \<lparr>e_key = key, e_val = [], e_deleted = True\<rparr> (\<lambda>a. SortedArray_Del a key) d)"

definition KV_Seek :: "kv \<Rightarrow> bytes \<Rightarrow> level_iter MergedSortedKVIter go" where
  "KV_Seek s key = go_bind (MergedSortedKV_Seek (KV_levels s) key) (filterDeleted (Merged_ops level_ops))"

text \<open>\<^verbatim>\<open>KV.Range\<close> of \<^verbatim>\<open>storage/ranged.go\<close>.\<close>

definition KV_Range ::
  "kv \<Rightarrow> bytes \<Rightarrow> bytes \<Rightarrow> bool \<Rightarrow> level_iter MergedSortedKVIter RangedKVIter go" where
  "KV_Range s start stop ds =
     go_bind (KV_Seek s start) (\<lambda>kvit.
       case Ranged_open store_ops start stop ds kvit of None \<Rightarrow> None | Some r \<Rightarrow> Some (Inr r))"

section \<open>Compaction\<close>

definition KV_compactLog :: "kv \<Rightarrow> disk \<Rightarrow> (unit res \<times> kv \<times> disk) option" where
  "KV_compactLog s d =
     (let dir = Dirpath (kv_Options s);
          s1 = s\<lparr>kv_version := kv_version s + 1\<rparr>;
          name = sstable_name (kv_version s1) in
      case SortedFile_CreateFromSorted level_ops (SortedArray_EstimatedSize (kv_mem s1)) (SortedKV_Iter (MemKV (kv_mem s1)))
             (new_file (filepath_Join dir name)) d of
        None \<Rightarrow> None
      | Some (Inl e, _, d1) \<Rightarrow> Some (Inl e, s1, d1)
      | Some (Inr _, _, d1) \<Rightarrow>
          let names = name # md_SSTables (KVMetaStore_Get (kv_meta s1)) in
          (case KVMetaStore_Set (kv_meta s1) \<lparr>md_Version = kv_version s1, md_SSTables = names\<rparr> d1 of
             (Inl e, m, d2) \<Rightarrow> Some (Inl e, s1\<lparr>kv_meta := m\<rparr>, d2)
           | (Inr _, m, d2) \<Rightarrow>
               (case KV_openLevels (s1\<lparr>kv_meta := m\<rparr>) d2 of
                  (Inl e, s3) \<Rightarrow> Some (Inl e, s3, d2)
                | (Inr _, s3) \<Rightarrow>
                    let s4 = s3\<lparr>kv_mem := SortedArray_Clear (kv_mem s3)\<rparr> in
                    (case Log_Truncate (kv_log s4) d2 of
                       (r, lg, d3) \<Rightarrow> Some (r, s4\<lparr>kv_log := lg\<rparr>, d3)))))"

definition KV_shouldMerge :: "kv \<Rightarrow> nat \<Rightarrow> bool" where
  "KV_shouldMerge s i =
     (if GrowthFactor (kv_Options s) \<le> 1 then False
      else let lower = of_int (SortedFile_Size (kv_main s ! (i + 1)));
               upper = of_int (SortedFile_Size (kv_main s ! i))
           in lower \<le> GrowthFactor (kv_Options s) * upper)"

text \<open>\<^verbatim>\<open>_ = os.Remove\<close>: errors are dropped.\<close>

definition remove_ignoring :: "string \<Rightarrow> string \<Rightarrow> disk \<Rightarrow> disk" where
  "remove_ignoring dir n d = snd (os_Remove (filepath_Join dir n) d)"

definition KV_compactSSTable :: "kv \<Rightarrow> nat \<Rightarrow> disk \<Rightarrow> (unit res \<times> kv \<times> disk) option" where
  "KV_compactSSTable s i d =
     (let dir = Dirpath (kv_Options s);
          s1 = s\<lparr>kv_version := kv_version s + 1\<rparr>;
          name = sstable_name (kv_version s1);
          m2 = [FileKV (kv_main s1 ! i), FileKV (kv_main s1 ! (i + 1))];
          est = nat (MergedSortedKV_EstimatedSize m2);
          f = new_file (filepath_Join dir name) in
      case (if i + 2 = length (kv_main s1)
            then SortedFile_CreateFromSorted store_ops est
                   (NoDeletedSortedKV_Iter (Merged_ops level_ops) (MergedSortedKV_Iter m2)) f d
            else SortedFile_CreateFromSorted (Merged_ops level_ops) est (MergedSortedKV_Iter m2) f d) of
        None \<Rightarrow> None
      | Some (Inl e, _, d1) \<Rightarrow> Some (Inl e, s1, d1)
      | Some (Inr _, _, d1) \<Rightarrow>
          let old = md_SSTables (KVMetaStore_Get (kv_meta s1));
              names = take i old @ name # drop (i + 2) old in
          if length old < i + 2 then None else
          (case KVMetaStore_Set (kv_meta s1) \<lparr>md_Version = kv_version s1, md_SSTables = names\<rparr> d1 of
             (Inl e, m, d2) \<Rightarrow> Some (Inl e, s1\<lparr>kv_meta := m\<rparr>, d2)
           | (Inr _, m, d2) \<Rightarrow>
               (case KV_openLevels (s1\<lparr>kv_meta := m\<rparr>) d2 of
                  (Inl e, s3) \<Rightarrow> Some (Inl e, s3, d2)
                | (Inr _, s3) \<Rightarrow>
                    Some (Inr (), s3,
                      remove_ignoring dir (old ! (i + 1)) (remove_ignoring dir (old ! i) d2)))))"

text \<open>The merge loop of \<^verbatim>\<open>Compact\<close>: after a merge the same position is looked at again.\<close>

partial_function (option) Compact_loop :: "kv \<Rightarrow> nat \<Rightarrow> disk \<Rightarrow> (unit res \<times> kv \<times> disk) option" where
  "Compact_loop s i d =
     (if i + 1 < length (kv_main s)
      then (if KV_shouldMerge s i
            then (case KV_compactSSTable s i d of
                None \<Rightarrow> None
              | Some (Inl e, s', d') \<Rightarrow> Some (Inl e, s', d')
              | Some (Inr _, s', d') \<Rightarrow> Compact_loop s' i d')
            else Compact_loop s (i + 1) d)
      else Some (Inr (), s, d))"

definition KV_Compact :: "kv \<Rightarrow> disk \<Rightarrow> (unit res \<times> kv \<times> disk) option" where
  "KV_Compact s d =
     (if SortedArray_Size (kv_mem s) > 0 \<and> int (SortedArray_Size (kv_mem s)) \<ge> LogShreshold (kv_Options s)
      then (case KV_compactLog s d of
          None \<Rightarrow> None
        | Some (Inl e, s', d') \<Rightarrow> Some (Inl e, s', d')
        | Some (Inr _, s', d') \<Rightarrow> Compact_loop s' 0 d')
      else Compact_loop s 0 d)"

end
