(* ===== verification/Store.thy ===== *)
theory Store
  imports KV
begin

text \<open>
  What the store promises while the process lives, for every script of disk faults.  \<open>kv_view\<close> is
  the map of live keys that a \<open>kv\<close> stands for; reads return it, \<^verbatim>\<open>SetEx\<close> and \<^verbatim>\<open>Del\<close> change it as
  \<open>map_SetEx\<close> and \<open>map_Del\<close> say, scans list it in key order.  The locale \<open>kv_contract\<close> is the
  interface the table layer uses.
\<close>

definition level_entries :: "kv \<Rightarrow> Entry list list" where
  "level_entries s = map skv_entries (KV_levels s)"

definition kv_view :: "kv \<Rightarrow> bytes \<Rightarrow> bytes option" where
  "kv_view s = visible (levels_map (level_entries s))"

definition kv_ok :: "kv \<Rightarrow> bool" where
  "kv_ok s \<longleftrightarrow> arr_wf (kv_mem s) \<and> (\<forall>f\<in>set (kv_main s). sf_wf f)"

text \<open>The live entries of the store in key order.\<close>

definition store_entries :: "kv \<Rightarrow> Entry list" where
  "store_entries s = live_entries (merge_entries (level_entries s))"

definition map_SetEx ::
  "(bytes \<Rightarrow> bytes option) \<Rightarrow> bytes \<Rightarrow> bytes \<Rightarrow> UpdateMode \<Rightarrow> bool \<times> (bytes \<Rightarrow> bytes option)" where
  "map_SetEx m k v mode =
     (if m k \<noteq> None \<and> mode = ModeInsert \<or> m k = None \<and> mode = ModeUpdate then (False, m)
      else (True, m(k \<mapsto> v)))"

definition map_Del :: "(bytes \<Rightarrow> bytes option) \<Rightarrow> bytes \<Rightarrow> bool \<times> (bytes \<Rightarrow> bytes option)" where
  "map_Del m k = (m k \<noteq> None, m(k := None))"

text \<open>A map of byte strings as the list of its pairs in key order.\<close>

definition pairs_of :: "(bytes \<Rightarrow> bytes option) \<Rightarrow> (bytes \<times> bytes) list" where
  "pairs_of m = map (\<lambda>k. (k, the (m k))) (sorted_list_of_set (dom m))"

section \<open>Reading\<close>

lemma level_entries_simp: "level_entries s = arr_entries (kv_mem s) # map sf_entries (kv_main s)"
  by (simp add: level_entries_def KV_levels_def skv_entries_def)

lemma kv_ok_levels: "kv_ok s \<Longrightarrow> \<forall>l\<in>set (KV_levels s). skv_wf l"
  by (auto simp: kv_ok_def KV_levels_def skv_wf_def)

lemma visible_levels_Cons:
  "visible (levels_map (es # ess)) k =
     (case es_map es k of None \<Rightarrow> visible (levels_map ess) k
      | Some e \<Rightarrow> if e_deleted e then None else Some (e_val e))"
  by (simp add: visible_def map_add_def split: option.splits)

lemma Seek_hit:
  assumes wf: "sf_wf f" and seek: "SortedFile_Seek f k = Some (Inr it)"
  shows "es_map (sf_entries f) k =
    (if SortedFileIter_Valid it \<and> fi_key it = k
     then Some \<lparr>e_key = k, e_val = fi_val it, e_deleted = fi_deleted it\<rparr> else None)"
proof -
  let ?es = "sf_entries f" and ?n = "cutp (\<lambda>x. x < k) (sf_entries f)"
  have it: "fi_inv it" "fi_rep it = ?es" "fi_pos it = int ?n"
    using SortedFile_Seek_correct [OF wf, of k] seek by auto
  have s: "sorted_entries ?es" using wf by (simp add: sf_wf_def)
  have v: "SortedFileIter_Valid it \<longleftrightarrow> ?n < length ?es"
    using file_cursor.valid [OF it(1)] it(2,3) by (simp add: SortedFile_ops_def del: length_sf_entries)
  show ?thesis
  proof (cases "?n < length ?es")
    case True
    then have "?es ! ?n = \<lparr>e_key = fi_key it, e_val = fi_val it, e_deleted = fi_deleted it\<rparr>"
      using it v by (simp add: fi_inv_def fi_rep_def)
    with True v show ?thesis by (auto simp: es_map_cutp [OF s] Let_def)
  qed (use v in \<open>simp add: es_map_cutp [OF s] Let_def\<close>)
qed

lemma Get_levels_correct:
  "\<forall>f\<in>set fs. sf_wf f \<Longrightarrow> Get_levels k fs = Some (Inr (visible (levels_map (map sf_entries fs)) k))"
proof (induction fs)
  case Nil
  then show ?case by (simp add: visible_def)
next
  case (Cons f fs)
  then have wf: "sf_wf f" by simp
  then obtain it where it: "SortedFile_Seek f k = Some (Inr it)"
    using SortedFile_Seek_correct [of f k] by blast
  from Seek_hit [OF wf it] Cons it show ?case
    by (auto simp: visible_levels_Cons simp del: levels_map.simps)
qed

lemma KV_Get_view: "kv_ok s \<Longrightarrow> KV_Get s k = Some (Inr (kv_view s k))"
  using SortedArray_state_correct [of "kv_mem s" k] Get_levels_correct [of "kv_main s" k]
  by (auto simp: KV_Get_def kv_ok_def kv_view_def level_entries_simp visible_levels_Cons
      simp del: levels_map.simps split: option.splits)

section \<open>Writing\<close>

text \<open>The MemTable's entry decides.\<close>

lemma kv_view_mem:
  assumes "kv_ok s" "arr_wf a" "arr_entries a = put_entry e (arr_entries (kv_mem s))"
  shows "kv_view (s\<lparr>kv_log := lg, kv_mem := a\<rparr>) = (kv_view s)(e_key e := if e_deleted e then None else Some (e_val e))"
proof
  fix k
  have "es_map (arr_entries a) = (es_map (arr_entries (kv_mem s)))(e_key e \<mapsto> e)"
    using assms by (simp add: put_entry_correct(2) kv_ok_def arr_wf_def)
  then show "kv_view (s\<lparr>kv_log := lg, kv_mem := a\<rparr>) k =
      ((kv_view s)(e_key e := if e_deleted e then None else Some (e_val e))) k"
    by (simp add: kv_view_def level_entries_simp visible_levels_Cons del: levels_map.simps)
qed

lemma KV_commit_correct:
  assumes ok: "kv_ok s" and a: "arr_wf (upd (kv_mem s))" "arr_entries (upd (kv_mem s)) = put_entry e (arr_entries (kv_mem s))"
  shows "\<exists>r s' d'. KV_commit s e upd d = Some (r, s', d') \<and> kv_ok s' \<and>
    (r = Inr True \<and> kv_view s' = (kv_view s)(e_key e := if e_deleted e then None else Some (e_val e)) \<or>
     (\<exists>x. r = Inl x) \<and> kv_view s' = kv_view s)"
proof -
  obtain r lg d' where w: "Log_Write (kv_log s) e d = (r, lg, d')" by (metis prod_cases3)
  show ?thesis
  proof (cases r)
    case (Inl x)
    have "kv_view (s\<lparr>kv_log := lg\<rparr>) = kv_view s" by (simp add: kv_view_def level_entries_simp)
    with w Inl ok show ?thesis by (auto simp: KV_commit_def kv_ok_def)
  next
    case (Inr u)
    have "kv_ok (s\<lparr>kv_log := lg, kv_mem := upd (kv_mem s)\<rparr>)" using ok a by (simp add: kv_ok_def)
    with w Inr kv_view_mem [OF ok a] show ?thesis by (auto simp: KV_commit_def)
  qed
qed

lemma KV_SetEx_correct:
  assumes "kv_ok s"
  shows "\<exists>r s' d'. KV_SetEx s k v mode d = Some (r, s', d') \<and> kv_ok s' \<and>
    (case r of Inr b \<Rightarrow> (b, kv_view s') = map_SetEx (kv_view s) k v mode | Inl e \<Rightarrow> kv_view s' = kv_view s)"
proof (cases "kv_view s k \<noteq> None \<and> mode = ModeInsert \<or> kv_view s k = None \<and> mode = ModeUpdate")
  case True
  then show ?thesis using assms KV_Get_view [OF assms, of k] by (auto simp: KV_SetEx_def map_SetEx_def)
next
  case False
  let ?e = "\<lparr>e_key = k, e_val = v, e_deleted = False\<rparr>" and ?u = "\<lambda>a. snd (SortedArray_Set a k v)"
  have a: "arr_wf (?u (kv_mem s))" "arr_entries (?u (kv_mem s)) = put_entry ?e (arr_entries (kv_mem s))"
    using SortedArray_update(1,2) assms by (simp_all add: kv_ok_def)
  have c: "KV_SetEx s k v mode d = KV_commit s ?e ?u d"
    using False KV_Get_view [OF assms, of k] by (auto simp: KV_SetEx_def Let_def)
  have "map_SetEx (kv_view s) k v mode = (True, (kv_view s)(k \<mapsto> v))" using False by (simp add: map_SetEx_def)
  with KV_commit_correct [where upd = ?u, OF assms a, of d] show ?thesis unfolding c by auto
qed

lemma KV_Del_correct:
  assumes "kv_ok s"
  shows "\<exists>r s' d'. KV_Del s k d = Some (r, s', d') \<and> kv_ok s' \<and>
    (case r of Inr b \<Rightarrow> (b, kv_view s') = map_Del (kv_view s) k | Inl e \<Rightarrow> kv_view s' = kv_view s)"
proof (cases "kv_view s k")
  case None
  then have "(kv_view s)(k := None) = kv_view s" by auto
  with None show ?thesis using assms KV_Get_view [OF assms, of k] by (auto simp: KV_Del_def map_Del_def)
next
  case (Some v)
  let ?e = "\<lparr>e_key = k, e_val = [], e_deleted = True\<rparr>" and ?u = "\<lambda>a. SortedArray_Del a k"
  have a: "arr_wf (?u (kv_mem s))" "arr_entries (?u (kv_mem s)) = put_entry ?e (arr_entries (kv_mem s))"
    using SortedArray_update(3,4) assms by (simp_all add: kv_ok_def)
  have c: "KV_Del s k d = KV_commit s ?e ?u d"
    using Some KV_Get_view [OF assms, of k] by (simp add: KV_Del_def)
  with KV_commit_correct [where upd = ?u, OF assms a, of d] Some show ?thesis unfolding c by (auto simp: map_Del_def)
qed

section \<open>The contract\<close>

locale kv_contract =
  fixes ok :: "'s \<Rightarrow> bool"
    and view :: "'s \<Rightarrow> bytes \<Rightarrow> bytes option"
    and get :: "'s \<Rightarrow> bytes \<Rightarrow> bytes option go"
    and setex :: "'s \<Rightarrow> bytes \<Rightarrow> bytes \<Rightarrow> UpdateMode \<Rightarrow> 'd \<Rightarrow> (bool res \<times> 's \<times> 'd) option"
    and del :: "'s \<Rightarrow> bytes \<Rightarrow> 'd \<Rightarrow> (bool res \<times> 's \<times> 'd) option"
  assumes get_law: "ok s \<Longrightarrow> get s k = Some (Inr (view s k))"
    and setex_law: "ok s \<Longrightarrow> \<exists>r s' d'. setex s k v mode d = Some (r, s', d') \<and> ok s' \<and>
        (case r of Inr b \<Rightarrow> (b, view s') = map_SetEx (view s) k v mode | Inl e \<Rightarrow> view s' = view s)"
    and del_law: "ok s \<Longrightarrow> \<exists>r s' d'. del s k d = Some (r, s', d') \<and> ok s' \<and>
        (case r of Inr b \<Rightarrow> (b, view s') = map_Del (view s) k | Inl e \<Rightarrow> view s' = view s)"
begin

lemma setex_cases:
  assumes "ok s" "setex s k v mode d = Some (r, s', d')"
  shows "ok s'" and "r = Inr b \<Longrightarrow> b \<longleftrightarrow> (case view s k of None \<Rightarrow> mode \<noteq> ModeUpdate | Some _ \<Rightarrow> mode \<noteq> ModeInsert)"
    and "view s' = (if r = Inr True then (view s)(k \<mapsto> v) else view s)"
  using setex_law [OF assms(1), of k v mode d] assms(2)
  by (auto simp: map_SetEx_def split: sum.splits if_splits option.splits)

lemma read_your_write:
  assumes "ok s" "setex s k v mode d = Some (Inr True, s', d')"
  shows "get s' k = Some (Inr (Some v))" and "j \<noteq> k \<Longrightarrow> get s' j = get s j"
  using setex_cases [OF assms] assms(1) by (simp_all add: get_law)

lemma insert_twice:
  assumes "ok s" "setex s k v mode d = Some (Inr True, s1, d1)"
  shows "\<exists>d2. setex s1 k w ModeInsert d1 = Some (Inr False, s1, d2) \<or>
    (\<exists>r s2. setex s1 k w ModeInsert d1 = Some (r, s2, d2) \<and> r \<noteq> Inr True \<and> view s2 = view s1)"
proof -
  note c = setex_cases [OF assms]
  from setex_law [OF c(1), of k w ModeInsert d1] c(3) show ?thesis
    by (fastforce simp: map_SetEx_def split: sum.splits)
qed

lemma del_cases:
  assumes "ok s" "del s k d = Some (r, s', d')"
  shows "ok s'" and "r = Inr b \<Longrightarrow> b \<longleftrightarrow> view s k \<noteq> None"
    and "view s' = (case r of Inr _ \<Rightarrow> (view s)(k := None) | Inl _ \<Rightarrow> view s)"
  using del_law [OF assms(1), of k d] assms(2) by (auto simp: map_Del_def split: sum.splits)

end

interpretation kvc: kv_contract kv_ok kv_view KV_Get KV_SetEx KV_Del
  by unfold_locales (rule KV_Get_view KV_SetEx_correct KV_Del_correct; assumption)+

section \<open>Scanning\<close>

lemma store_entries_sorted [simp]: "sorted_entries (store_entries s)"
  by (simp add: store_entries_def sorted_entries_live)

lemma store_entries_map: "es_map (store_entries s) k = Some e \<Longrightarrow> kv_view s k = Some (e_val e)"
  by (auto simp: store_entries_def es_map_live kv_view_def visible_def split: option.splits if_splits)

lemma store_entries_dom: "e_key ` set (store_entries s) = dom (kv_view s)"
proof -
  have "dom (es_map (store_entries s)) = dom (kv_view s)"
    by (auto simp: store_entries_def es_map_live kv_view_def visible_def dom_def split: option.splits if_splits)
  then show ?thesis by (simp add: dom_es_map)
qed

lemma finite_dom_view [simp]: "finite (dom (kv_view s))"
  by (simp flip: store_entries_dom)

lemma store_entries_pairs: "map (\<lambda>e. (e_key e, e_val e)) (store_entries s) = pairs_of (kv_view s)"
proof -
  have "map e_key (store_entries s) = sorted_list_of_set (dom (kv_view s))"
    using store_entries_sorted [of s] store_entries_dom [of s] set_sorted_list_of_set [OF finite_dom_view, of s]
    by (intro strict_sorted_equal) (simp_all add: sorted_entries_def)
  moreover have "e_val e = the (kv_view s (e_key e))" if "e \<in> set (store_entries s)" for e
    using store_entries_map [of s "e_key e" e] es_map_mem [OF store_entries_sorted that] by simp
  ultimately show ?thesis
    by (simp add: pairs_of_def flip: \<open>map e_key _ = _\<close>)
qed

lemma KV_Seek_at:
  assumes "kv_ok s"
  shows "\<exists>it. KV_Seek s k = Some (Inr it) \<and> db_merge.nodel_inv it \<and> 0 \<le> db_merge_pos it \<and>
    db_merge_rep it = merge_entries (level_entries s) \<and>
    db_merge.nodel_rep it = store_entries s \<and>
    db_merge.nodel_pos it = int (cutp (\<lambda>x. x < k) (store_entries s))"
proof -
  obtain c where c: "MergedSortedKV_Seek (KV_levels s) k = Some (Inr c)" "db_merge_inv c"
    "db_merge_rep c = merge_entries (level_entries s)"
    "db_merge_pos c = int (cutp (\<lambda>x. x < k) (merge_entries (level_entries s)))"
    using MergedSortedKV_Seek_at [OF kv_ok_levels [OF assms], of k] by (auto simp: level_entries_def)
  with db_merge.filterDeleted_at [OF c(2)] show ?thesis
    by (fastforce simp: KV_Seek_def store_entries_def live_cut)
qed

text \<open>Ascending ranges.\<close>

lemma KV_Range_asc:
  assumes "kv_ok s"
  shows "\<exists>r. KV_Range s start stop False = Some (Inr r) \<and> store_range_ok r \<and>
    store_range_todo r = range_entries start stop False (store_entries s)"
proof -
  from KV_Seek_at [OF assms, of start] obtain it where it: "KV_Seek s start = Some (Inr it)"
    "db_merge.nodel_inv it" "db_merge.nodel_rep it = store_entries s"
    "db_merge.nodel_pos it = int (cutp (\<lambda>x. x < start) (store_entries s))" by blast
  have "db_merge.nodel_pos it = int (cutp (\<lambda>x. x < start) (db_merge.nodel_rep it))" using it by simp
  from store.asc_open [OF it(2) this, of stop] it show ?thesis
    by (auto simp: KV_Range_def store_range_ok_def store_range_todo_def)
qed

definition kv_no_empty_key :: "kv \<Rightarrow> bool" where
  "kv_no_empty_key s \<longleftrightarrow> [] \<notin> level_keys (level_entries s)"

lemma KV_Seek_back:
  assumes ok: "kv_ok s" and ne: "kv_no_empty_key s"
  shows "\<exists>it. KV_Seek s start = Some (Inr it) \<and> db_merge_back.nodel_inv it \<and>
    db_merge_back.nodel_rep it = store_entries s \<and>
    db_merge_back.nodel_pos it = int (cutp (\<lambda>x. x < start) (store_entries s))"
proof -
  from KV_Seek_at [OF ok, of start] obtain it where it: "KV_Seek s start = Some (Inr it)"
    "db_merge.nodel_inv it" "db_merge.nodel_rep it = store_entries s"
    "db_merge.nodel_pos it = int (cutp (\<lambda>x. x < start) (store_entries s))"
    "db_merge_rep it = merge_entries (level_entries s)" by blast
  have "[] \<notin> e_key ` set (db_merge_rep it)" using ne it(5) by (simp add: keys_merge_entries kv_no_empty_key_def)
  with it(2) have "db_merge_back.nodel_inv it"
    by (simp add: db_merge.nodel_inv_def db_merge_back.nodel_inv_def db_merge.entry_at_def db_merge_back.entry_at_def)
  moreover have "db_merge_back.nodel_rep it = store_entries s"
    "db_merge_back.nodel_pos it = int (cutp (\<lambda>x. x < start) (db_merge_back.nodel_rep it))"
    using it by (simp_all add: db_merge.nodel_rep_def db_merge_back.nodel_rep_def
        db_merge.nodel_pos_def db_merge_back.nodel_pos_def)
  ultimately show ?thesis using it(1) by auto
qed

lemma KV_Range_desc:
  assumes ok: "kv_ok s" and ne: "kv_no_empty_key s" and above: "\<exists>k\<in>dom (kv_view s). start \<le> k"
  shows "\<exists>r. KV_Range s start stop True = Some (Inr r) \<and> store_range_ok r \<and>
    store_range_todo r = range_entries start stop True (store_entries s)"
proof -
  obtain it where it: "KV_Seek s start = Some (Inr it)" and i: "db_merge_back.nodel_inv it"
    and rp: "db_merge_back.nodel_rep it = store_entries s"
    "db_merge_back.nodel_pos it = int (cutp (\<lambda>x. x < start) (db_merge_back.nodel_rep it))"
    using KV_Seek_back [OF ok ne, of start] by auto
  from above obtain k where "k \<in> e_key ` set (store_entries s)" "start \<le> k"
    by (auto simp: store_entries_dom)
  then obtain e where e: "e \<in> set (store_entries s)" "\<not> e_key e < start" by (auto simp: not_less)
  then obtain j where "j < length (store_entries s)" "\<not> e_key (store_entries s ! j) < start"
    by (auto simp: in_set_conv_nth)
  then have "cutp (\<lambda>x. x < start) (store_entries s) < length (store_entries s)"
    using less_cut_iff [OF store_entries_sorted down_closed_simps(1), of j s start] by linarith
  then have v: "it_Valid store_ops it" using store_back.valid [OF i] rp by simp
  from store_back.desc_open [OF i rp(2) v, of stop] it(1) rp(1) show ?thesis
    by (auto simp: KV_Range_def store_range_ok_def store_range_todo_def)
qed

text \<open>Past the last live key a descending range is empty: the exhausted merge has lost the key it
  would have to step back from.\<close>

lemma KV_Range_desc_past_end:
  assumes ok: "kv_ok s" and above: "\<forall>k\<in>dom (kv_view s). k < start"
  shows "\<exists>r. KV_Range s start stop True = Some (Inr r) \<and> Ranged_Valid store_ops r = Some False"
proof -
  from KV_Seek_at [OF ok, of start] obtain it where it: "KV_Seek s start = Some (Inr it)"
    "db_merge.nodel_inv it" "db_merge.nodel_rep it = store_entries s"
    "db_merge.nodel_pos it = int (cutp (\<lambda>x. x < start) (store_entries s))" by blast
  have "cutp (\<lambda>x. x < start) (store_entries s) = length (store_entries s)"
  proof (rule cut_unique)
    show "e_key (store_entries s ! i) < start" if "i < length (store_entries s)" for i
      using above that store_entries_dom [of s] nth_mem [OF that] by blast
  qed simp_all
  then have nv: "\<not> it_Valid store_ops it" using store.valid [OF it(2)] it by simp
  then have w: "m_which it < 0" by (simp add: NoDeleted_ops_def Merged_ops_def Merged_Valid_def)
  have mi: "db_merge_inv it" using it(2) by (simp add: db_merge.nodel_inv_def)
  then have "m_frontier it = []" using w by (simp add: merged_inv_def)
  then obtain c where c: "Merged_Prev level_ops it = Some (Inr (), c)" "m_which c < 0"
    using w by (cases "m_desc it") (auto simp: Merged_Prev_def Merged_step_def Let_def)
  then have "it_Prev store_ops it = Some (Inr (), c)"
    by (simp add: NoDeleted_ops_def NoDeletedIter_Prev_def Merged_ops_def skip_deleted.simps [of _ _ c] Merged_Valid_def)
  with it(1) nv c(2) show ?thesis
    by (simp add: KV_Range_def Ranged_open_def Ranged_Valid_def NoDeleted_ops_def Merged_ops_def Merged_Valid_def)
qed

section \<open>Where errors come from\<close>

text \<open>The only error of a write is that of its log record.\<close>

definition log_error :: "kv \<Rightarrow> disk \<Rightarrow> gerror \<Rightarrow> bool" where
  "log_error s d err \<longleftrightarrow> (\<exists>ent lg d'. Log_Write (kv_log s) ent d = (Inl err, lg, d'))"

lemma KV_commit_error: "KV_commit s ent upd d = Some (Inl err, s', d') \<Longrightarrow> log_error s d err"
  by (auto simp: KV_commit_def log_error_def split: prod.splits sum.splits)

lemma KV_write_error:
  assumes "kv_ok s"
  shows "KV_SetEx s k v mode d = Some (Inl err, s', d') \<Longrightarrow> log_error s d err"
    and "KV_Del s k d = Some (Inl err, s', d') \<Longrightarrow> log_error s d err"
  using KV_Get_view [OF assms, of k] KV_commit_error
  by (auto simp: KV_SetEx_def KV_Del_def Let_def split: if_splits option.splits)

text \<open>An open log has no other error than the disk's.\<close>

lemma log_error_disk:
  assumes "files d (FileName (kv_log s)) = Some c" "log_fp (kv_log s) = Some p" "log_error s d err"
  shows "err = IOErr" "\<not> fault_free d"
proof -
  obtain ent lg d' where w: "Log_Write (kv_log s) ent d = (Inl err, lg, d')" using assms(3) by (auto simp: log_error_def)
  show "err = IOErr" using w assms(1,2)
    by (auto simp: Log_Write_def os_WriteAt_def os_Sync_def Let_def split: option.splits prod.splits if_splits)
  show "\<not> fault_free d" using w Log_Write_fault_free [OF assms(1,2), of ent] by auto
qed

end
