(* ===== verification/Compaction.thy ===== *)
theory Compaction
  imports Store
begin

text \<open>
  Compaction keeps the map: \<open>kv_live\<close> says that the SSTable files on disk are the levels the
  store has open and that no file name of a later version is in use; under it \<^verbatim>\<open>Compact\<close> returns
  for every script of disk faults, and whatever it returns, \<open>kv_view\<close> is what it was.  \<open>kv_room\<close>
  bounds the bytes in the store by \<open>2 ^ 63\<close>, the range of the file offsets.
\<close>

definition level_on_disk :: "string \<Rightarrow> disk \<Rightarrow> string \<Rightarrow> SortedFile \<Rightarrow> bool" where
  "level_on_disk dir d n f \<longleftrightarrow>
     (\<exists>c est es. files d (filepath_Join dir n) = Some c \<and> sst_contents c est es \<and> sst_room est es \<and>
        sorted_entries es \<and>
        f = \<lparr>sf_FileName = filepath_Join dir n, sf_fp = Some c, sf_nkeys = int (length es)\<rparr>)"

definition kv_names :: "kv \<Rightarrow> string list" where
  "kv_names s = md_SSTables (KVMetaStore_Get (kv_meta s))"

definition kv_dir :: "kv \<Rightarrow> string" where
  "kv_dir s = Dirpath (kv_Options s)"

definition used_names :: "64 word \<Rightarrow> string set" where
  "used_names v = {sstable_name w | w. w \<le> v}"

definition kv_live :: "kv \<Rightarrow> disk \<Rightarrow> bool" where
  "kv_live s d \<longleftrightarrow>
     kv_dir s \<noteq> [] \<and> arr_wf (kv_mem s) \<and>
     FileName (kv_log s) = filepath_Join (kv_dir s) logFileName \<and>
     mi_FileName (slot0 (kv_meta s)) = filepath_Join (kv_dir s) ''meta0'' \<and>
     mi_FileName (slot1 (kv_meta s)) = filepath_Join (kv_dir s) ''meta1'' \<and>
     list_all2 (level_on_disk (kv_dir s) d) (kv_names s) (kv_main s) \<and>
     distinct (kv_names s) \<and> set (kv_names s) \<subseteq> used_names (kv_version s)"

definition entry_weight :: "Entry \<Rightarrow> nat" where
  "entry_weight e = 17 + length (e_key e) + length (e_val e)"

definition weight :: "Entry list \<Rightarrow> nat" where
  "weight es = sum_list (map entry_weight es)"

definition levels_room :: "Entry list list \<Rightarrow> bool" where
  "levels_room ess \<longleftrightarrow>
     8 + sum_list (map weight ess) < 2 ^ 63 \<and> (\<forall>es\<in>set ess. \<forall>e\<in>set es. entry_fits e)"

definition kv_room :: "kv \<Rightarrow> bool" where
  "kv_room s \<longleftrightarrow> levels_room (level_entries s)"

section \<open>Names\<close>

lemma simple_sstable_name [simp]: "simple_name (sstable_name v)"
  using decimal_digits [of "unat v"]
  by (auto simp: simple_name_def sstable_name_def list_all_iff is_digit_def)

lemma simple_fixed_names [simp]:
  "simple_name ''meta0''" "simple_name ''meta1''" "simple_name logFileName"
  by (simp_all add: simple_name_def logFileName_def)

lemma sstable_name_inj [simp]: "sstable_name v = sstable_name w \<longleftrightarrow> v = w"
  by (simp add: sstable_name_def decimal_inj word_unat_eq_iff)

lemma sstable_name_other [simp]:
  "sstable_name v \<noteq> ''meta0''" "sstable_name v \<noteq> ''meta1''" "sstable_name v \<noteq> logFileName"
  "''meta0'' \<noteq> logFileName" "''meta1'' \<noteq> logFileName"
  by (simp_all add: sstable_name_def logFileName_def)

lemma plain_sstable_name [simp]: "plain (sstable_name v)"
proof -
  have "plain (decimal n)" for n
    using decimal_digits [of n] by (auto simp: plain_def list_all_iff is_digit_def html_safe_def byte_val_def)
  moreover have "plain ''sstable_''" by (simp add: plain_def html_safe_def byte_val_def)
  ultimately show ?thesis by (simp add: sstable_name_def plain_def)
qed

lemma used_names_mono: "v \<le> w \<Longrightarrow> used_names v \<subseteq> used_names w"
  by (auto simp: used_names_def)

lemma used_simple: "n \<in> used_names v \<Longrightarrow> simple_name n"
  by (auto simp: used_names_def)

lemma used_names_new:
  assumes "unat v + 1 < 2 ^ 64"
  shows "sstable_name (v + 1) \<notin> used_names v" "sstable_name (v + 1) \<in> used_names (v + 1)" "v \<le> v + 1"
proof -
  have "v < v + 1" using assms by (simp add: word_less_nat_alt unat_word_ariths)
  then show "sstable_name (v + 1) \<notin> used_names v" "v \<le> v + 1"
    by (auto simp: used_names_def)
  show "sstable_name (v + 1) \<in> used_names (v + 1)" by (auto simp: used_names_def)
qed

section \<open>Levels on disk\<close>

lemma level_on_disk_open:
  assumes "level_on_disk dir d n f"
  shows "SortedFile_Open (new_file (filepath_Join dir n)) d = (Inr (), f)" "sf_wf f"
proof -
  from assms obtain c est es where l: "files d (filepath_Join dir n) = Some c" "sst_contents c est es"
    "sst_room est es" "sorted_entries es"
    "f = \<lparr>sf_FileName = filepath_Join dir n, sf_fp = Some c, sf_nkeys = int (length es)\<rparr>"
    unfolding level_on_disk_def by blast
  have "rec_off (8 + 8 * est) es (length es) < 2 ^ 63" "length es \<le> est" using l(3) by (simp_all add: sst_room_def)
  moreover have "8 + 8 * est \<le> rec_off (8 + 8 * est) es (length es)" by simp
  ultimately have "length es < 2 ^ 63" by linarith
  with SortedFile_Open_correct [of d "new_file (filepath_Join dir n)" c est es] l
  show "SortedFile_Open (new_file (filepath_Join dir n)) d = (Inr (), f)" by (simp add: new_file_def)
  show "sf_wf f" using sf_open_wf(1) [of f c es est] l by simp
qed

lemma level_on_disk_new:
  assumes "files d (filepath_Join dir n) = Some c" "sst_contents c est es" "sst_room est es" "sorted_entries es"
  shows "\<exists>f. level_on_disk dir d n f \<and> sf_entries f = es"
proof -
  let ?f = "\<lparr>sf_FileName = filepath_Join dir n, sf_fp = Some c, sf_nkeys = int (length es)\<rparr>"
  have "level_on_disk dir d n ?f" using assms unfolding level_on_disk_def by blast
  moreover have "sf_entries ?f = es" using sf_open_wf(2) [of ?f c es est] assms by simp
  ultimately show ?thesis by blast
qed

lemma level_on_disk_frame:
  "level_on_disk dir d n f \<Longrightarrow> files d' (filepath_Join dir n) = files d (filepath_Join dir n) \<Longrightarrow>
   level_on_disk dir d' n f"
  by (simp add: level_on_disk_def)

lemma openLevels_loop_correct:
  "list_all2 (level_on_disk dir d) ns fs \<Longrightarrow> openLevels_loop dir ns d acc = (Inr (), acc @ fs)"
proof (induction ns fs arbitrary: acc rule: list_all2_induct)
  case (Cons n ns f fs)
  then show ?case using level_on_disk_open(1) [of dir d n f] by simp
qed simp

lemma KV_openLevels_correct:
  "list_all2 (level_on_disk (kv_dir s) d) (kv_names s) fs \<Longrightarrow> KV_openLevels s d = (Inr (), s\<lparr>kv_main := fs\<rparr>)"
  by (simp add: KV_openLevels_def openLevels_loop_correct kv_dir_def kv_names_def)

lemma kv_live_ok: "kv_live s d \<Longrightarrow> kv_ok s"
proof -
  assume l: "kv_live s d"
  then have "list_all2 (level_on_disk (kv_dir s) d) (kv_names s) (kv_main s)" by (simp add: kv_live_def)
  then have "\<forall>f\<in>set (kv_main s). sf_wf f"
    by (induction rule: list_all2_induct) (auto dest: level_on_disk_open(2))
  with l show "kv_ok s" by (simp add: kv_live_def kv_ok_def)
qed

text \<open>The levels see only their own files.\<close>

lemma kv_live_frame_names:
  assumes live: "kv_live s d"
    and "\<And>n. n \<in> set (kv_names s) \<Longrightarrow> files d' (filepath_Join (kv_dir s) n) = files d (filepath_Join (kv_dir s) n)"
  shows "kv_live s d'"
proof -
  have "list_all2 (level_on_disk (kv_dir s) d) (kv_names s) (kv_main s)" using live by (simp add: kv_live_def)
  then have "list_all2 (level_on_disk (kv_dir s) d') (kv_names s) (kv_main s)"
    using assms(2) unfolding list_all2_conv_all_nth by (metis level_on_disk_frame nth_mem)
  with live show ?thesis by (simp add: kv_live_def)
qed

lemma levels_frame:
  assumes "list_all2 (level_on_disk dir d) ns fs" "\<And>n. n \<in> set ns \<Longrightarrow> files d' (filepath_Join dir n) = files d (filepath_Join dir n)"
  shows "list_all2 (level_on_disk dir d') ns fs"
  using assms unfolding list_all2_conv_all_nth by (metis level_on_disk_frame nth_mem)

lemma kv_live_frame:
  assumes "kv_live s d" "\<And>v. files d' (filepath_Join (kv_dir s) (sstable_name v)) = files d (filepath_Join (kv_dir s) (sstable_name v))"
  shows "kv_live s d'"
  using assms by (auto simp: kv_live_def used_names_def intro!: levels_frame [of "kv_dir s" d])

lemma kv_live_updates:
  "kv_live s d \<Longrightarrow> arr_wf a \<Longrightarrow> kv_live (s\<lparr>kv_mem := a\<rparr>) d"
  "kv_live s d \<Longrightarrow> FileName lg = FileName (kv_log s) \<Longrightarrow> kv_live (s\<lparr>kv_log := lg\<rparr>) d"
  by (simp_all add: kv_live_def kv_dir_def kv_names_def)

section \<open>Weights\<close>

lemma weight_eq: "weight es = 8 * length es + length (concat (map enc es))"
  by (induction es) (simp_all add: weight_def entry_weight_def length_enc)

lemma distinct_sorted_entries: "sorted_entries es \<Longrightarrow> distinct es"
  using sorted_entries_distinct by (auto simp: distinct_map)

lemma merge_entries_subset: "set (merge_entries ess) \<subseteq> \<Union> (set ` set ess)"
proof
  fix e assume e: "e \<in> set (merge_entries ess)"
  then have "levels_map ess (e_key e) = Some e"
    using es_map_mem [OF sorted_merge_entries e] by simp
  then show "e \<in> \<Union> (set ` set ess)"
    by (induction ess) (auto simp: map_add_Some_iff dest: es_map_Some_key)
qed

text \<open>A sorted list drawn from the entries of some levels is no bigger than the levels together.\<close>

lemma sum_set_le_list: "(\<Sum>e\<in>set es. g e) \<le> sum_list (map g es)" for g :: "Entry \<Rightarrow> nat"
proof (induction es)
  case (Cons e es)
  then show ?case by (cases "e \<in> set es") (simp_all add: insert_absorb)
qed simp

lemma sum_le_levels:
  fixes g :: "Entry \<Rightarrow> nat"
  shows "finite A \<Longrightarrow> A \<subseteq> \<Union> (set ` set ess) \<Longrightarrow> (\<Sum>e\<in>A. g e) \<le> sum_list (map (\<lambda>es. sum_list (map g es)) ess)"
proof (induction ess arbitrary: A)
  case (Cons es ess)
  have "(\<Sum>e\<in>A. g e) \<le> (\<Sum>e\<in>set es \<union> (A - set es). g e)"
    using Cons.prems(1) by (intro sum_mono2) auto
  also have "\<dots> = (\<Sum>e\<in>set es. g e) + (\<Sum>e\<in>A - set es. g e)"
    using Cons.prems(1) by (intro sum.union_disjoint) auto
  also have "\<dots> \<le> sum_list (map g es) + sum_list (map (\<lambda>es. sum_list (map g es)) ess)"
    using Cons.prems by (intro add_mono sum_set_le_list Cons.IH) auto
  finally show ?case by simp
qed simp

lemma sum_sorted_le_levels:
  fixes g :: "Entry \<Rightarrow> nat"
  assumes "sorted_entries es" "set es \<subseteq> \<Union> (set ` set ess)"
  shows "sum_list (map g es) \<le> sum_list (map (\<lambda>es. sum_list (map g es)) ess)"
proof -
  have "sum_list (map g es) = (\<Sum>e\<in>set es. g e)"
    by (rule sum_list_distinct_conv_sum_set [OF distinct_sorted_entries [OF assms(1)]])
  then show ?thesis using sum_le_levels [OF _ assms(2), of g] by simp
qed

lemma length_le_levels:
  assumes "sorted_entries es" "set es \<subseteq> set a \<union> set b"
  shows "length es \<le> length a + length b"
  using sum_sorted_le_levels [of es "[a, b]" "\<lambda>_. 1"] assms by (simp add: sum_list_triv)

text \<open>So a merge of two levels has room where the two have.\<close>

lemma merge_room:
  assumes room: "levels_room ess" and ab: "weight a + weight b \<le> sum_list (map weight ess)" "{a, b} \<subseteq> set ess"
    and es: "sorted_entries es" "set es \<subseteq> set a \<union> set b"
  shows "sst_room (length a + length b) es" "length es \<le> length a + length b" "weight es \<le> weight a + weight b"
    "\<forall>e\<in>set es. entry_fits e"
proof -
  have u: "set es \<subseteq> \<Union> (set ` set [a, b])" using es(2) by simp
  have l: "length es \<le> length a + length b" by (rule length_le_levels [OF es])
  have "length (concat (map enc es)) \<le> length (concat (map enc a)) + length (concat (map enc b))"
    using sum_sorted_le_levels [OF es(1) u, of "\<lambda>e. length (enc e)"] by (simp add: length_concat comp_def)
  moreover have "8 + (weight a + weight b) < 2 ^ 63" using room ab(1) by (simp add: levels_room_def)
  ultimately have "8 + 8 * (length a + length b) + length (concat (map enc es)) < 2 ^ 63"
    by (simp add: weight_eq)
  moreover have f: "\<forall>e\<in>set es. entry_fits e" using room ab(2) es(2) by (auto simp: levels_room_def)
  ultimately show "sst_room (length a + length b) es"
    using l by (simp add: sst_room_def rec_off_def)
  show "length es \<le> length a + length b" by (rule l)
  show "weight es \<le> weight a + weight b"
    using sum_sorted_le_levels [OF es(1) u, of entry_weight] by (simp add: weight_def)
  show "\<forall>e\<in>set es. entry_fits e" by (rule f)
qed

section \<open>Publishing a new level\<close>

text \<open>The version of the next file is free.\<close>

definition bumped :: "kv \<Rightarrow> kv" where
  "bumped s = s\<lparr>kv_version := kv_version s + 1\<rparr>"

lemma bumped_simps [simp]:
  "kv_Options (bumped s) = kv_Options s" "kv_meta (bumped s) = kv_meta s" "kv_log (bumped s) = kv_log s"
  "kv_mem (bumped s) = kv_mem s" "kv_main (bumped s) = kv_main s" "kv_version (bumped s) = kv_version s + 1"
  "kv_dir (bumped s) = kv_dir s" "kv_names (bumped s) = kv_names s" "kv_view (bumped s) = kv_view s"
  "kv_room (bumped s) = kv_room s" "level_entries (bumped s) = level_entries s"
  by (simp_all add: bumped_def kv_dir_def kv_names_def kv_view_def kv_room_def level_entries_simp)

lemma bumped_meta [simp]: "(bumped s)\<lparr>kv_meta := kv_meta s\<rparr> = bumped s"
  by (simp add: bumped_def)

lemma Join_neq:
  assumes "kv_dir s \<noteq> []" "simple_name a" "simple_name b" "a \<noteq> b"
  shows "filepath_Join (kv_dir s) a \<noteq> filepath_Join (kv_dir s) b"
  using assms filepath_Join_inj by blast

text \<open>After a failed or not yet published creation of the next file.\<close>

lemma kv_live_bumped:
  assumes live: "kv_live s d" and v: "unat (kv_version s) + 1 < 2 ^ 64"
    and fr: "\<And>g. g \<noteq> filepath_Join (kv_dir s) (sstable_name (kv_version s + 1)) \<Longrightarrow> kept d d' g"
  shows "kv_live (bumped s) d'"
proof -
  have nm: "set (kv_names s) \<subseteq> used_names (kv_version s)" and dir: "kv_dir s \<noteq> []"
    using live by (simp_all add: kv_live_def)
  have "list_all2 (level_on_disk (kv_dir s) d') (kv_names s) (kv_main s)"
  proof (rule levels_frame)
    show "list_all2 (level_on_disk (kv_dir s) d) (kv_names s) (kv_main s)" using live by (simp add: kv_live_def)
    fix n assume n: "n \<in> set (kv_names s)"
    then have "n \<noteq> sstable_name (kv_version s + 1)" "simple_name n"
      using nm used_names_new(1) [OF v] by (auto simp: used_names_def)
    then show "files d' (filepath_Join (kv_dir s) n) = files d (filepath_Join (kv_dir s) n)"
      using Join_neq [OF dir] by (intro kept_files fr) simp
  qed
  moreover have "set (kv_names s) \<subseteq> used_names (kv_version s + 1)"
    using nm used_names_mono [OF used_names_new(3) [OF v]] by blast
  ultimately show ?thesis using live by (simp add: kv_live_def)
qed

text \<open>The new level is on disk, the metadata names the new list of levels.\<close>

lemma kv_live_publish:
  assumes live: "kv_live s1 d1" and new: "list_all2 (level_on_disk (kv_dir s1) d1) names fs"
    and names: "distinct names" "set names \<subseteq> used_names (kv_version s1)"
    and set: "KVMetaStore_Set (kv_meta s1) \<lparr>md_Version = kv_version s1, md_SSTables = names\<rparr> d1 = (r, m, d2)"
  shows "r = Inl e \<Longrightarrow> m = kv_meta s1 \<and> kv_live s1 d2"
    and "r = Inr u \<Longrightarrow> KV_openLevels (s1\<lparr>kv_meta := m\<rparr>) d2 = (Inr (), s1\<lparr>kv_meta := m, kv_main := fs\<rparr>) \<and>
      kv_live (s1\<lparr>kv_meta := m, kv_main := fs\<rparr>) d2 \<and> kv_names (s1\<lparr>kv_meta := m, kv_main := fs\<rparr>) = names"
    and "\<And>v. files d2 (filepath_Join (kv_dir s1) (sstable_name v)) = files d1 (filepath_Join (kv_dir s1) (sstable_name v))"
proof -
  note sm = KVMetaStore_Set_memory [OF set]
  have dir: "kv_dir s1 \<noteq> []" using live by (simp add: kv_live_def)
  have sl: "mi_FileName (slot0 (kv_meta s1)) = filepath_Join (kv_dir s1) ''meta0''"
    "mi_FileName (slot1 (kv_meta s1)) = filepath_Join (kv_dir s1) ''meta1''"
    using live by (simp_all add: kv_live_def)
  show fr: "files d2 (filepath_Join (kv_dir s1) (sstable_name v)) = files d1 (filepath_Join (kv_dir s1) (sstable_name v))" for v
    unfolding sl [symmetric] using Join_neq [OF dir] by (intro kept_files sm(5)) (simp_all add: sl)
  show "m = kv_meta s1 \<and> kv_live s1 d2" if "r = Inl e"
    using sm(2) [OF that] kv_live_frame [OF live fr] by simp
  assume r: "r = Inr u"
  let ?s2 = "s1\<lparr>kv_meta := m\<rparr>"
  have g: "kv_names ?s2 = names" using sm(1) [OF r] by (simp add: kv_names_def)
  have "list_all2 (level_on_disk (kv_dir s1) d2) names fs"
    using names(2) fr by (intro levels_frame [OF new]) (auto simp: used_names_def)
  then have l: "list_all2 (level_on_disk (kv_dir ?s2) d2) (kv_names ?s2) fs" by (simp add: g kv_dir_def)
  moreover have "kv_names (?s2\<lparr>kv_main := fs\<rparr>) = names" using g by (simp add: kv_names_def)
  moreover have "kv_live (?s2\<lparr>kv_main := fs\<rparr>) d2"
    using live l names g sm(3,4) by (simp add: kv_live_def kv_dir_def kv_names_def)
  ultimately show "KV_openLevels ?s2 d2 = (Inr (), s1\<lparr>kv_meta := m, kv_main := fs\<rparr>) \<and>
      kv_live (s1\<lparr>kv_meta := m, kv_main := fs\<rparr>) d2 \<and> kv_names (s1\<lparr>kv_meta := m, kv_main := fs\<rparr>) = names"
    using KV_openLevels_correct [OF l] by simp
qed

text \<open>Writing the metadata slots or the log leaves the levels alone.\<close>

lemma kv_live_after_meta:
  assumes live: "kv_live s d"
    and fr: "\<And>g. g \<noteq> mi_FileName (slot0 (kv_meta s)) \<Longrightarrow> g \<noteq> mi_FileName (slot1 (kv_meta s)) \<Longrightarrow> kept d d' g"
  shows "kv_live s d'"
proof (rule kv_live_frame [OF live])
  have dir: "kv_dir s \<noteq> []" and sl: "mi_FileName (slot0 (kv_meta s)) = filepath_Join (kv_dir s) ''meta0''"
    "mi_FileName (slot1 (kv_meta s)) = filepath_Join (kv_dir s) ''meta1''"
    using live by (simp_all add: kv_live_def)
  show "files d' (filepath_Join (kv_dir s) (sstable_name v)) = files d (filepath_Join (kv_dir s) (sstable_name v))" for v
    using Join_neq [OF dir] by (intro kept_files fr) (simp_all add: sl)
qed

lemma kv_live_after_log:
  assumes live: "kv_live s d" and fr: "\<And>g. g \<noteq> FileName lg \<Longrightarrow> kept d d' g" and lg: "FileName lg = FileName (kv_log s)"
  shows "kv_live s d'"
proof (rule kv_live_frame [OF live])
  have dir: "kv_dir s \<noteq> []" and fn: "FileName (kv_log s) = filepath_Join (kv_dir s) logFileName"
    using live by (simp_all add: kv_live_def)
  show "files d' (filepath_Join (kv_dir s) (sstable_name v)) = files d (filepath_Join (kv_dir s) (sstable_name v))" for v
    using Join_neq [OF dir] by (intro kept_files fr) (simp add: lg fn)
qed

section \<open>Flushing the MemTable\<close>

lemma mem_cursor:
  assumes "arr_wf a"
  shows "\<exists>it. SortedKV_Iter (MemKV a) = Some (Inr it) \<and> level_inv it \<and> level_rep it = arr_entries a \<and> level_pos it = 0"
  using SortedKV_open(1) [of "MemKV a"] assms by (auto simp: skv_wf_def skv_entries_def)

lemma levels_room_Cons: "levels_room (es # ess) \<Longrightarrow>
    sst_room (length es) es \<and> levels_room ess \<and> 8 + weight es + sum_list (map weight ess) < 2 ^ 63"
  by (auto simp: levels_room_def weight_eq sst_room_def rec_off_def)

lemma visible_levels_shadow: "visible (levels_map ([] # es # ess)) = visible (levels_map (es # ess))"
  by simp

text \<open>The new level of a compaction and the list of levels it is published in.\<close>

definition next_name :: "kv \<Rightarrow> string" where
  "next_name s = sstable_name (kv_version s + 1)"

definition created :: "kv \<Rightarrow> disk \<Rightarrow> disk \<Rightarrow> SortedFile \<Rightarrow> Entry list \<Rightarrow> bool" where
  "created s d d1 f es \<longleftrightarrow>
     (\<forall>g. g \<noteq> filepath_Join (kv_dir s) (next_name s) \<longrightarrow> kept d d1 g) \<and>
     settled d1 (filepath_Join (kv_dir s) (next_name s)) \<and>
     level_on_disk (kv_dir s) d1 (next_name s) f \<and> sf_entries f = es"

definition next_meta :: "kv \<Rightarrow> string list \<Rightarrow> KVMetaData" where
  "next_meta s names = \<lparr>md_Version = kv_version s + 1, md_SSTables = names\<rparr>"

lemma created_live:
  assumes "kv_live s d" "unat (kv_version s) + 1 < 2 ^ 64" "created s d d1 f es"
  shows "kv_live (bumped s) d1" "next_name s \<notin> set (kv_names s)" "next_name s \<in> used_names (kv_version (bumped s))"
  using kv_live_bumped [OF assms(1,2), of d1] assms used_names_new [OF assms(2)]
  by (auto simp: created_def next_name_def kv_live_def)

text \<open>The three ways \<^verbatim>\<open>compactLog\<close> goes.\<close>

lemma KV_compactLog_cases:
  assumes live: "kv_live s d" and room: "kv_room s" and v: "unat (kv_version s) + 1 < 2 ^ 64"
  obtains (create_failed) e d1 where "KV_compactLog s d = Some (Inl e, bumped s, d1)"
      "\<And>g. g \<noteq> filepath_Join (kv_dir s) (next_name s) \<Longrightarrow> kept d d1 g" "\<not> fault_free d"
  | (meta_failed) e d1 f d2 where "KV_compactLog s d = Some (Inl e, bumped s, d2)"
      "created s d d1 f (arr_entries (kv_mem s))"
      "KVMetaStore_Set (kv_meta s) (next_meta s (next_name s # kv_names s)) d1 = (Inl e, kv_meta s, d2)"
      "fault_free d \<Longrightarrow> fault_free d1"
  | (published) r d1 f m d2 lg d3 where
      "KV_compactLog s d = Some (r, (bumped s)\<lparr>kv_meta := m, kv_main := f # kv_main s,
         kv_mem := SortedArray_Clear (kv_mem s), kv_log := lg\<rparr>, d3)"
      "created s d d1 f (arr_entries (kv_mem s))"
      "KVMetaStore_Set (kv_meta s) (next_meta s (next_name s # kv_names s)) d1 = (Inr (), m, d2)"
      "kv_live ((bumped s)\<lparr>kv_meta := m, kv_main := f # kv_main s\<rparr>) d2"
      "Log_Truncate (kv_log s) d2 = (r, lg, d3)" "fault_free d \<Longrightarrow> fault_free d1"
proof -
  let ?dir = "kv_dir s" and ?es = "arr_entries (kv_mem s)" and ?s1 = "bumped s"
  let ?f = "new_file (filepath_Join ?dir (next_name s))"
  have wf: "arr_wf (kv_mem s)" using live by (simp add: kv_live_def)
  obtain it where it: "SortedKV_Iter (MemKV (kv_mem s)) = Some (Inr it)" "level_inv it" "level_rep it = ?es" "level_pos it = 0"
    using mem_cursor [OF wf] by blast
  have est: "SortedArray_EstimatedSize (kv_mem s) = length ?es"
    using wf by (simp add: SortedArray_EstimatedSize_def arr_wf_lengths)
  obtain r1 f1 d1 where cr: "SortedFile_CreateFromSorted level_ops (length ?es) (SortedKV_Iter (MemKV (kv_mem s))) ?f d = Some (r1, f1, d1)"
    and fr: "\<And>g. g \<noteq> filepath_Join ?dir (next_name s) \<Longrightarrow> kept d d1 g"
    and sy: "r1 = Inr () \<Longrightarrow> settled d1 (filepath_Join ?dir (next_name s))"
    and ok: "r1 = Inr () \<Longrightarrow> \<exists>c. files d1 (filepath_Join ?dir (next_name s)) = Some c \<and> sst_contents c (length ?es) ?es"
    and ff: "fault_free d \<Longrightarrow> r1 = Inr () \<and> fault_free d1"
    using levels.CreateFromSorted_correct [OF it(1,2,4), of "length ?es" ?f d] it(3) by (auto simp: new_file_def)
  note unf = KV_compactLog_def [of s d, unfolded Let_def kv_dir_def [symmetric] bumped_def [symmetric]
      bumped_simps est cr [unfolded next_name_def] kv_names_def [symmetric] next_name_def [symmetric] next_meta_def [symmetric]
      option.case prod.case]
  show thesis
  proof (cases r1)
    case (Inl e)
    then have "\<not> fault_free d" using ff by auto
    with Inl show thesis using cr fr by (intro create_failed [of e d1]) (simp_all add: unf next_name_def)
  next
    case (Inr u)
    with ok obtain c where c: "files d1 (filepath_Join ?dir (next_name s)) = Some c" "sst_contents c (length ?es) ?es" by auto
    have rm: "sst_room (length ?es) ?es" using levels_room_Cons room by (simp add: kv_room_def level_entries_simp)
    obtain f where "level_on_disk ?dir d1 (next_name s) f" "sf_entries f = ?es"
      using level_on_disk_new [OF c rm] wf by (auto simp: arr_wf_def)
    then have cf: "created s d d1 f ?es" using fr sy Inr by (simp add: created_def)
    note l1 = created_live [OF live v cf]
    have new: "list_all2 (level_on_disk (kv_dir ?s1) d1) (next_name s # kv_names s) (f # kv_main s)"
      "distinct (next_name s # kv_names s)" "set (next_name s # kv_names s) \<subseteq> used_names (kv_version ?s1)"
      using l1 cf by (simp_all add: kv_live_def created_def)
    obtain r2 m d2 where st: "KVMetaStore_Set (kv_meta s) (next_meta s (next_name s # kv_names s)) d1 = (r2, m, d2)"
      by (metis prod_cases3)
    note pub = kv_live_publish [OF l1(1) new, unfolded bumped_simps, OF st [unfolded next_meta_def]]
    show thesis
    proof (cases r2)
      case (Inl e)
      then show thesis using Inr st pub(1) [OF Inl] cr cf ff by (intro meta_failed [of e d2 d1 f]) (simp_all add: unf next_name_def)
    next
      case r2: (Inr w)
      obtain r3 lg d3 where tr: "Log_Truncate (kv_log s) d2 = (r3, lg, d3)" by (metis prod_cases3)
      then show thesis using Inr r2 st pub(2) [OF r2] cr cf ff
        by (intro published [of r3 lg f m d3 d1 d2]) (simp_all add: unf next_name_def)
    qed
  qed
qed

text \<open>\<^verbatim>\<open>compactLog\<close> returns; in memory it keeps the map whatever happens, and empties the MemTable once
  the new level is published.\<close>

lemma KV_compactLog_correct:
  assumes live: "kv_live s d" and room: "kv_room s" and v: "unat (kv_version s) + 1 < 2 ^ 64"
  shows "\<exists>r s' d'. KV_compactLog s d = Some (r, s', d') \<and> kv_live s' d' \<and> kv_view s' = kv_view s \<and> kv_room s' \<and>
    kv_Options s' = kv_Options s \<and> kv_version s' = kv_version s + 1 \<and> length (kv_main s') \<le> Suc (length (kv_main s)) \<and>
    (r = Inr () \<longrightarrow> arr_keys (kv_mem s') = [])"
  using live room v
proof (cases rule: KV_compactLog_cases)
  case (create_failed e d1)
  then show ?thesis using kv_live_bumped [OF live v, of d1] room by (simp add: next_name_def)
next
  case (meta_failed e d1 f d2)
  have "kv_live (bumped s) d2"
    using KVMetaStore_Set_memory(5) [OF meta_failed(3)]
    by (intro kv_live_after_meta [OF created_live(1) [OF live v meta_failed(2)]]) simp
  then show ?thesis using meta_failed(1) room by simp
next
  case (published r d1 f m d2 lg d3)
  let ?s3 = "(bumped s)\<lparr>kv_meta := m, kv_main := f # kv_main s\<rparr>"
  let ?s4 = "?s3\<lparr>kv_mem := SortedArray_Clear (kv_mem s), kv_log := lg\<rparr>"
  note tr = Log_Truncate_frame [OF published(5)]
  have "kv_live ?s3 d3" using published(4) tr(2) by (rule kv_live_after_log) simp_all
  then have "kv_live ?s4 d3" using tr(1) by (auto intro!: kv_live_updates(2) kv_live_updates(1))
  moreover have le: "level_entries ?s4 = [] # level_entries s"
    using published(2) by (simp add: level_entries_simp created_def)
  then have "kv_view ?s4 = kv_view s" by (simp add: kv_view_def)
  moreover have "kv_room ?s4" using room unfolding kv_room_def le by (simp add: levels_room_def weight_def)
  moreover have "kv_Options ?s4 = kv_Options s" "kv_version ?s4 = kv_version s + 1"
    "length (kv_main ?s4) \<le> Suc (length (kv_main s))" "arr_keys (kv_mem ?s4) = []" by (simp_all add: SortedArray_Clear_def)
  ultimately show ?thesis using published(1) by fastforce
qed

section \<open>Merging two levels\<close>

definition merged_level :: "bool \<Rightarrow> SortedFile \<Rightarrow> SortedFile \<Rightarrow> Entry list" where
  "merged_level final fa fb =
     (let m = merge_entries [sf_entries fa, sf_entries fb] in if final then live_entries m else m)"

lemma merged_level_sorted [simp]: "sorted_entries (merged_level final fa fb)"
  by (simp add: merged_level_def Let_def sorted_entries_live)

lemma merged_level_subset: "set (merged_level final fa fb) \<subseteq> set (sf_entries fa) \<union> set (sf_entries fb)"
  using merge_entries_subset [of "[sf_entries fa, sf_entries fb]"]
  by (auto simp: merged_level_def Let_def live_entries_def)

lemma merge_create:
  assumes wf: "sf_wf fa" "sf_wf fb"
  defines "m \<equiv> [FileKV fa, FileKV fb]" and "est \<equiv> length (sf_entries fa) + length (sf_entries fb)"
  shows "nat (MergedSortedKV_EstimatedSize m) = est"
    and "\<exists>r f' d'. (if final then SortedFile_CreateFromSorted store_ops est
             (NoDeletedSortedKV_Iter (Merged_ops level_ops) (MergedSortedKV_Iter m)) f d
           else SortedFile_CreateFromSorted (Merged_ops level_ops) est (MergedSortedKV_Iter m) f d) = Some (r, f', d') \<and>
      (\<forall>g. g \<noteq> sf_FileName f \<longrightarrow> kept d d' g) \<and>
      (r = Inr () \<longrightarrow> settled d' (sf_FileName f) \<and>
         (\<exists>c. files d' (sf_FileName f) = Some c \<and> sst_contents c est (merged_level final fa fb))) \<and>
      (fault_free d \<longrightarrow> r = Inr () \<and> fault_free d')"
proof -
  show "nat (MergedSortedKV_EstimatedSize m) = est"
    using wf by (simp add: m_def est_def MergedSortedKV_EstimatedSize_def SortedKV_EstimatedSize_def
        SortedFile_EstimatedSize_def sf_wf_def nat_add_distrib)
  let ?M = "merge_entries [sf_entries fa, sf_entries fb]"
  have len: "length ?M \<le> est" "length (live_entries ?M) \<le> est"
    using length_le_levels [OF merged_level_sorted merged_level_subset, of False fa fb]
      length_le_levels [OF merged_level_sorted merged_level_subset, of True fa fb]
    by (simp_all add: est_def merged_level_def Let_def)
  have "\<forall>x\<in>set m. skv_wf x" using wf by (simp add: m_def skv_wf_def)
  from MergedSortedKV_Iter_at [OF this] obtain it where it: "MergedSortedKV_Iter m = Some (Inr it)"
    "db_merge_inv it" "db_merge_rep it = ?M" "db_merge_pos it = 0"
    by (auto simp: m_def skv_entries_def)
  from db_merge.filterDeleted_at [OF it(2)] it(4) obtain nit where nit:
    "filterDeleted (Merged_ops level_ops) it = Some (Inr nit)" "db_merge.nodel_inv nit"
    "db_merge.nodel_rep nit = live_entries ?M" "db_merge.nodel_pos nit = 0" using it(3) by auto
  have ni: "NoDeletedSortedKV_Iter (Merged_ops level_ops) (MergedSortedKV_Iter m) = Some (Inr nit)"
    using it(1) nit(1) by (simp add: NoDeletedSortedKV_Iter_def)
  show "\<exists>r f' d'. (if final then SortedFile_CreateFromSorted store_ops est
             (NoDeletedSortedKV_Iter (Merged_ops level_ops) (MergedSortedKV_Iter m)) f d
           else SortedFile_CreateFromSorted (Merged_ops level_ops) est (MergedSortedKV_Iter m) f d) = Some (r, f', d') \<and>
      (\<forall>g. g \<noteq> sf_FileName f \<longrightarrow> kept d d' g) \<and>
      (r = Inr () \<longrightarrow> settled d' (sf_FileName f) \<and>
         (\<exists>c. files d' (sf_FileName f) = Some c \<and> sst_contents c est (merged_level final fa fb))) \<and>
      (fault_free d \<longrightarrow> r = Inr () \<and> fault_free d')"
  proof (cases final)
    case True
    with store.CreateFromSorted_correct [OF ni nit(2,4), of est f d] len(2) nit(3) show ?thesis
      by (auto simp: merged_level_def Let_def)
  next
    case False
    with db_merge.CreateFromSorted_correct [OF it(1,2,4), of est f d] len(1) it(3) show ?thesis
      by (auto simp: merged_level_def Let_def)
  qed
qed

text \<open>A tombstone in the last level shadows nothing.\<close>

lemma visible_append_cong:
  "visible (levels_map b) = visible (levels_map c) \<Longrightarrow> visible (levels_map (a @ b)) = visible (levels_map (a @ c))"
  by (rule ext, drule_tac x = x in fun_cong)
     (auto simp: levels_map_append visible_def map_add_def split: option.splits)

lemma visible_merged_level:
  assumes "final \<longrightarrow> rest = []"
  shows "visible (levels_map (pre @ merged_level final fa fb # rest)) =
    visible (levels_map (pre @ sf_entries fa # sf_entries fb # rest))"
proof (rule visible_append_cong)
  let ?M = "merge_entries [sf_entries fa, sf_entries fb]"
  have M: "levels_map (?M # rest) = levels_map (sf_entries fa # sf_entries fb # rest)"
    using levels_map_merge [of "[sf_entries fa, sf_entries fb]" rest] by simp
  show "visible (levels_map (merged_level final fa fb # rest)) =
    visible (levels_map (sf_entries fa # sf_entries fb # rest))"
  proof (cases final)
    case True
    then have "visible (levels_map (merged_level final fa fb # rest)) = visible (levels_map (?M # rest))"
      using assms visible_live [OF sorted_merge_entries, of "[sf_entries fa, sf_entries fb]"]
      by (simp add: merged_level_def Let_def)
    then show ?thesis unfolding M .
  next
    case False
    then have "merged_level final fa fb = ?M" by (simp add: merged_level_def Let_def)
    then show ?thesis using M by metis
  qed
qed

lemma list_split2: "i + 1 < length xs \<Longrightarrow> xs = take i xs @ xs ! i # xs ! (i + 1) # drop (i + 2) xs"
  by (metis Cons_nth_drop_Suc Suc_eq_plus1 Suc_lessD add_2_eq_Suc' append_take_drop_id)

lemma list_all2_splice:
  assumes "list_all2 P xs ys" "P x y"
  shows "list_all2 P (take i xs @ x # drop j xs) (take i ys @ y # drop j ys)"
  using assms by (simp add: list_all2_appendI list_all2_takeI list_all2_dropI)

lemma distinct_splice: "distinct xs \<Longrightarrow> x \<notin> set xs \<Longrightarrow> i \<le> j \<Longrightarrow> distinct (take i xs @ x # drop j xs)"
  by (auto simp: distinct_append set_take_disj_set_drop_if_distinct dest: in_set_takeD in_set_dropD)

text \<open>\<^verbatim>\<open>os.Remove\<close> touches the one file.\<close>

lemma remove_ignoring_kept: "g \<noteq> filepath_Join dir n \<Longrightarrow> kept d (remove_ignoring dir n d) g"
  unfolding remove_ignoring_def by (metis os_Remove_kept prod.collapse)

lemma remove_ignoring_other: "g \<noteq> filepath_Join dir n \<Longrightarrow> files (remove_ignoring dir n d) g = files d g"
  using kept_files remove_ignoring_kept by blast

text \<open>Where the two levels stand in the list of levels.\<close>

definition spliced :: "nat \<Rightarrow> 'a \<Rightarrow> 'a list \<Rightarrow> 'a list" where
  "spliced i x xs = take i xs @ x # drop (i + 2) xs"

definition merge_result :: "kv \<Rightarrow> nat \<Rightarrow> Entry list" where
  "merge_result s i = merged_level (i + 2 = length (kv_main s)) (kv_main s ! i) (kv_main s ! (i + 1))"

lemma set_spliced: "set (spliced i x xs) \<subseteq> insert x (set xs)"
  by (auto simp: spliced_def dest: in_set_takeD in_set_dropD)

lemma spliced_drops:
  assumes "distinct xs" "x \<notin> set xs" "i + 1 < length xs"
  shows "distinct (spliced i x xs)" "xs ! i \<notin> set (spliced i x xs)" "xs ! (i + 1) \<notin> set (spliced i x xs)"
proof -
  show "distinct (spliced i x xs)" unfolding spliced_def by (rule distinct_splice [OF assms(1,2)]) simp
  have "distinct (take i xs @ xs ! i # xs ! (i + 1) # drop (i + 2) xs)"
    using list_split2 [OF assms(3)] assms(1) by metis
  moreover have "x \<noteq> xs ! i" "x \<noteq> xs ! (i + 1)" using assms(2,3) by (metis Suc_eq_plus1 Suc_lessD nth_mem)+
  ultimately show "xs ! i \<notin> set (spliced i x xs)" "xs ! (i + 1) \<notin> set (spliced i x xs)"
    by (auto simp: spliced_def)
qed

lemma level_entries_split:
  "i + 1 < length (kv_main s) \<Longrightarrow> level_entries s =
     (arr_entries (kv_mem s) # take i (map sf_entries (kv_main s))) @
     sf_entries (kv_main s ! i) # sf_entries (kv_main s ! (i + 1)) # drop (i + 2) (map sf_entries (kv_main s))"
  using list_split2 [of i "map sf_entries (kv_main s)"] by (simp add: level_entries_simp)

lemma merge_result_room:
  assumes room: "kv_room s" and i: "i + 1 < length (kv_main s)"
  defines "A \<equiv> sf_entries (kv_main s ! i)" and "B \<equiv> sf_entries (kv_main s ! (i + 1))"
  shows "sst_room (length A + length B) (merge_result s i)" "weight (merge_result s i) \<le> weight A + weight B"
    "\<forall>e\<in>set (merge_result s i). entry_fits e"
proof -
  have "weight A + weight B \<le> sum_list (map weight (level_entries s))" "{A, B} \<subseteq> set (level_entries s)"
    unfolding level_entries_split [OF i] by (simp_all add: A_def B_def)
  note rm = merge_room [OF room [unfolded kv_room_def] this merged_level_sorted
      merged_level_subset [of _ "kv_main s ! i" "kv_main s ! (i + 1)", folded A_def B_def], of "i + 2 = length (kv_main s)"]
  show "sst_room (length A + length B) (merge_result s i)" "weight (merge_result s i) \<le> weight A + weight B"
    "\<forall>e\<in>set (merge_result s i). entry_fits e" using rm(1,3,4) by (simp_all add: merge_result_def)
qed

text \<open>The map and the room after a merge is published.\<close>

lemma spliced_view:
  assumes room: "kv_room s" and i: "i + 1 < length (kv_main s)" and f: "sf_entries f = merge_result s i"
    and s': "kv_mem s' = kv_mem s" "kv_main s' = spliced i f (kv_main s)"
  shows "kv_view s' = kv_view s" "kv_room s'" "Suc (length (kv_main s')) = length (kv_main s)"
proof -
  have le: "level_entries s' = (arr_entries (kv_mem s) # take i (map sf_entries (kv_main s))) @
      merge_result s i # drop (i + 2) (map sf_entries (kv_main s))"
    by (simp add: level_entries_simp s' spliced_def f take_map drop_map)
  show "kv_view s' = kv_view s"
    unfolding kv_view_def le level_entries_split [OF i] merge_result_def by (rule visible_merged_level) simp
  show "kv_room s'"
    using room merge_result_room(2,3) [OF room i] unfolding kv_room_def le level_entries_split [OF i] levels_room_def by simp
  show "Suc (length (kv_main s')) = length (kv_main s)" using i by (simp add: s' spliced_def)
qed

text \<open>The three ways \<^verbatim>\<open>compactSSTable\<close> goes.\<close>

lemma KV_compactSSTable_cases:
  assumes live: "kv_live s d" and room: "kv_room s" and v: "unat (kv_version s) + 1 < 2 ^ 64"
    and i: "i + 1 < length (kv_main s)"
  obtains (create_failed) e d1 where "KV_compactSSTable s i d = Some (Inl e, bumped s, d1)"
      "\<And>g. g \<noteq> filepath_Join (kv_dir s) (next_name s) \<Longrightarrow> kept d d1 g" "\<not> fault_free d"
  | (meta_failed) e d1 f d2 where "KV_compactSSTable s i d = Some (Inl e, bumped s, d2)"
      "created s d d1 f (merge_result s i)"
      "KVMetaStore_Set (kv_meta s) (next_meta s (spliced i (next_name s) (kv_names s))) d1 = (Inl e, kv_meta s, d2)"
      "fault_free d \<Longrightarrow> fault_free d1"
  | (published) d1 f m d2 where
      "KV_compactSSTable s i d = Some (Inr (), (bumped s)\<lparr>kv_meta := m, kv_main := spliced i f (kv_main s)\<rparr>,
         remove_ignoring (kv_dir s) (kv_names s ! (i + 1)) (remove_ignoring (kv_dir s) (kv_names s ! i) d2))"
      "created s d d1 f (merge_result s i)"
      "KVMetaStore_Set (kv_meta s) (next_meta s (spliced i (next_name s) (kv_names s))) d1 = (Inr (), m, d2)"
      "kv_live ((bumped s)\<lparr>kv_meta := m, kv_main := spliced i f (kv_main s)\<rparr>) d2"
      "kv_names ((bumped s)\<lparr>kv_meta := m, kv_main := spliced i f (kv_main s)\<rparr>) = spliced i (next_name s) (kv_names s)"
      "fault_free d \<Longrightarrow> fault_free d1"
proof -
  let ?fa = "kv_main s ! i" and ?fb = "kv_main s ! (i + 1)" and ?s1 = "bumped s"
  let ?f = "new_file (filepath_Join (kv_dir s) (next_name s))" and ?final = "i + 2 = length (kv_main s)"
  let ?est = "length (sf_entries ?fa) + length (sf_entries ?fb)"
  have l2: "list_all2 (level_on_disk (kv_dir s) d) (kv_names s) (kv_main s)" and dist: "distinct (kv_names s)"
    using live by (simp_all add: kv_live_def)
  have wf: "sf_wf ?fa" "sf_wf ?fb" using kv_live_ok [OF live] i by (simp_all add: kv_ok_def)
  have fn: "sf_FileName ?f = filepath_Join (kv_dir s) (next_name s)" by (simp add: new_file_def)
  obtain r1 f1 d1 where cr: "(if ?final then SortedFile_CreateFromSorted store_ops ?est
        (NoDeletedSortedKV_Iter (Merged_ops level_ops) (MergedSortedKV_Iter [FileKV ?fa, FileKV ?fb])) ?f d
      else SortedFile_CreateFromSorted (Merged_ops level_ops) ?est (MergedSortedKV_Iter [FileKV ?fa, FileKV ?fb]) ?f d) = Some (r1, f1, d1)"
    and fr: "\<And>g. g \<noteq> filepath_Join (kv_dir s) (next_name s) \<Longrightarrow> kept d d1 g"
    and sy: "r1 = Inr () \<Longrightarrow> settled d1 (filepath_Join (kv_dir s) (next_name s))"
    and ok: "r1 = Inr () \<Longrightarrow> \<exists>c. files d1 (filepath_Join (kv_dir s) (next_name s)) = Some c \<and> sst_contents c ?est (merge_result s i)"
    and ff: "fault_free d \<Longrightarrow> r1 = Inr () \<and> fault_free d1"
    using merge_create(2) [OF wf, of ?final ?f d] unfolding fn merge_result_def by blast
  note unf = KV_compactSSTable_def [of s i d, unfolded Let_def kv_dir_def [symmetric] bumped_def [symmetric]
      bumped_simps merge_create(1) [OF wf] kv_names_def [symmetric] next_name_def [symmetric]
      next_meta_def [symmetric] spliced_def [symmetric], unfolded cr option.case prod.case]
  have enough: "\<not> length (kv_names s) < i + 2" using list_all2_lengthD [OF l2] i by simp
  show thesis
  proof (cases r1)
    case (Inl e)
    then have "\<not> fault_free d" using ff by auto
    with Inl show thesis using fr by (intro create_failed [of e d1]) (simp_all add: unf)
  next
    case (Inr u)
    with ok obtain c where c: "files d1 (filepath_Join (kv_dir s) (next_name s)) = Some c" "sst_contents c ?est (merge_result s i)" by auto
    obtain f where "level_on_disk (kv_dir s) d1 (next_name s) f" "sf_entries f = merge_result s i"
      using level_on_disk_new [OF c merge_result_room(1) [OF room i]] by (auto simp: merge_result_def)
    then have cf: "created s d d1 f (merge_result s i)" using fr sy Inr by (simp add: created_def)
    note l1 = created_live [OF live v cf]
    have new: "list_all2 (level_on_disk (kv_dir ?s1) d1) (spliced i (next_name s) (kv_names s)) (spliced i f (kv_main s))"
      unfolding spliced_def using l1(1) cf by (intro list_all2_splice) (simp_all add: kv_live_def created_def)
    have nm: "distinct (spliced i (next_name s) (kv_names s))"
      "set (spliced i (next_name s) (kv_names s)) \<subseteq> used_names (kv_version ?s1)"
      using spliced_drops(1) [OF dist l1(2)] enough set_spliced [of i "next_name s" "kv_names s"] l1 by (auto simp: kv_live_def)
    obtain r2 m d2 where st: "KVMetaStore_Set (kv_meta s) (next_meta s (spliced i (next_name s) (kv_names s))) d1 = (r2, m, d2)"
      by (metis prod_cases3)
    note pub = kv_live_publish [OF l1(1) new nm, unfolded bumped_simps, OF st [unfolded next_meta_def]]
    show thesis
    proof (cases r2)
      case (Inl e)
      then show thesis using Inr st pub(1) [OF Inl] cf enough ff by (intro meta_failed [of e d2 d1 f]) (simp_all add: unf)
    next
      case r2: (Inr w)
      then show thesis using Inr st pub(2) [OF r2] cf enough ff
        by (intro published [of f m d2 d1]) (simp_all add: unf)
    qed
  qed
qed

text \<open>\<^verbatim>\<open>compactSSTable\<close> returns, and the map is what it was; on success there is one level less.\<close>

lemma removed_live:
  assumes live: "kv_live s d" and ab: "simple_name a" "simple_name b" "a \<notin> set (kv_names s)" "b \<notin> set (kv_names s)"
  shows "kv_live s (remove_ignoring (kv_dir s) b (remove_ignoring (kv_dir s) a d))"
proof (rule kv_live_frame_names [OF live])
  fix n assume n: "n \<in> set (kv_names s)"
  then have "simple_name n" "n \<noteq> a" "n \<noteq> b" using live ab used_simple by (auto simp: kv_live_def)
  moreover have "kv_dir s \<noteq> []" using live by (simp add: kv_live_def)
  ultimately show "files (remove_ignoring (kv_dir s) b (remove_ignoring (kv_dir s) a d)) (filepath_Join (kv_dir s) n) =
      files d (filepath_Join (kv_dir s) n)"
    using Join_neq ab by (simp add: remove_ignoring_other)
qed

lemma KV_compactSSTable_correct:
  assumes live: "kv_live s d" and room: "kv_room s" and v: "unat (kv_version s) + 1 < 2 ^ 64"
    and i: "i + 1 < length (kv_main s)"
  shows "\<exists>r s' d'. KV_compactSSTable s i d = Some (r, s', d') \<and> kv_live s' d' \<and> kv_view s' = kv_view s \<and> kv_room s' \<and>
    kv_Options s' = kv_Options s \<and> kv_version s' = kv_version s + 1 \<and> kv_mem s' = kv_mem s \<and> kv_log s' = kv_log s \<and>
    (r = Inr () \<longrightarrow> Suc (length (kv_main s')) = length (kv_main s))"
  using live room v i
proof (cases rule: KV_compactSSTable_cases)
  case (create_failed e d1)
  then show ?thesis using kv_live_bumped [OF live v, of d1] room by (simp add: next_name_def)
next
  case (meta_failed e d1 f d2)
  have "kv_live (bumped s) d2"
    using KVMetaStore_Set_memory(5) [OF meta_failed(3)]
    by (intro kv_live_after_meta [OF created_live(1) [OF live v meta_failed(2)]]) simp
  then show ?thesis using meta_failed(1) room by simp
next
  case (published d1 f m d2)
  let ?s3 = "(bumped s)\<lparr>kv_meta := m, kv_main := spliced i f (kv_main s)\<rparr>"
  have nms: "distinct (kv_names s)" "set (kv_names s) \<subseteq> used_names (kv_version s)"
    "length (kv_names s) = length (kv_main s)"
    using live by (auto simp: kv_live_def list_all2_lengthD)
  have len: "i + 1 < length (kv_names s)" using i nms(3) by simp
  then have "kv_names s ! i \<in> set (kv_names s)" "kv_names s ! (i + 1) \<in> set (kv_names s)" by simp_all
  then have "simple_name (kv_names s ! i)" "simple_name (kv_names s ! (i + 1))" using nms(2) used_simple by blast+
  then have "kv_live ?s3 (remove_ignoring (kv_dir ?s3) (kv_names s ! (i + 1)) (remove_ignoring (kv_dir ?s3) (kv_names s ! i) d2))"
    using spliced_drops(2,3) [OF nms(1) created_live(2) [OF live v published(2)] len]
    unfolding published(5) [symmetric] by (intro removed_live [OF published(4)])
  moreover have "kv_dir ?s3 = kv_dir s" by (simp add: kv_dir_def)
  moreover have "sf_entries f = merge_result s i" using published(2) by (simp add: created_def)
  note spliced_view [OF room i this, of ?s3]
  ultimately show ?thesis using published(1) by simp
qed

section \<open>Compaction as a whole\<close>

text \<open>The merge loop ends: a merge removes a level, a step without one moves on.\<close>

lemma Compact_loop_correct:
  assumes "kv_live s d" "kv_room s" "unat (kv_version s) + length (kv_main s) < 2 ^ 64" "i \<le> length (kv_main s)"
  shows "\<exists>r s' d'. Compact_loop s i d = Some (r, s', d') \<and> kv_live s' d' \<and> kv_view s' = kv_view s \<and> kv_room s' \<and>
    kv_Options s' = kv_Options s \<and> kv_mem s' = kv_mem s \<and> kv_log s' = kv_log s"
  using assms
proof (induction "2 * length (kv_main s) - i" arbitrary: s i d rule: less_induct)
  case less
  note live = less.prems(1) and room = less.prems(2) and v = less.prems(3)
  show ?case
  proof (cases "i + 1 < length (kv_main s)")
    case False
    then show ?thesis using live room by (subst Compact_loop.simps) simp
  next
    case i: True
    show ?thesis
    proof (cases "KV_shouldMerge s i")
      case False
      have "\<exists>r s' d'. Compact_loop s (i + 1) d = Some (r, s', d') \<and> kv_live s' d' \<and> kv_view s' = kv_view s \<and> kv_room s' \<and>
          kv_Options s' = kv_Options s \<and> kv_mem s' = kv_mem s \<and> kv_log s' = kv_log s"
        using less.prems i by (intro less.hyps) simp_all
      then show ?thesis using i False by (subst Compact_loop.simps) simp
    next
      case merge: True
      have v1: "unat (kv_version s) + 1 < 2 ^ 64" using v i by linarith
      obtain r1 s1 d1 where c: "KV_compactSSTable s i d = Some (r1, s1, d1)" "kv_live s1 d1" "kv_view s1 = kv_view s"
        "kv_room s1" "kv_Options s1 = kv_Options s" "kv_version s1 = kv_version s + 1" "kv_mem s1 = kv_mem s"
        "kv_log s1 = kv_log s" "r1 = Inr () \<longrightarrow> Suc (length (kv_main s1)) = length (kv_main s)"
        using KV_compactSSTable_correct [OF live room v1 i] by blast
      show ?thesis
      proof (cases r1)
        case (Inl e)
        then show ?thesis using c i merge by (subst Compact_loop.simps) simp
      next
        case (Inr u)
        then have l: "Suc (length (kv_main s1)) = length (kv_main s)" using c(9) by simp
        have "unat (kv_version s1) = unat (kv_version s) + 1" using v1 c(6) by (simp add: unat_word_ariths)
        then have "\<exists>r s' d'. Compact_loop s1 i d1 = Some (r, s', d') \<and> kv_live s' d' \<and> kv_view s' = kv_view s1 \<and> kv_room s' \<and>
            kv_Options s' = kv_Options s1 \<and> kv_mem s' = kv_mem s1 \<and> kv_log s' = kv_log s1"
          using c l v i by (intro less.hyps) simp_all
        then show ?thesis using c(1,3,5,7,8) Inr i merge by (subst Compact_loop.simps) simp
      qed
    qed
  qed
qed

lemma KV_Compact_correct:
  assumes live: "kv_live s d" and room: "kv_room s" and v: "unat (kv_version s) + length (kv_main s) + 2 < 2 ^ 64"
  shows "\<exists>r s' d'. KV_Compact s d = Some (r, s', d') \<and> kv_live s' d' \<and> kv_view s' = kv_view s \<and> kv_room s' \<and>
    kv_Options s' = kv_Options s"
proof (cases "SortedArray_Size (kv_mem s) > 0 \<and> int (SortedArray_Size (kv_mem s)) \<ge> LogShreshold (kv_Options s)")
  case False
  then have "KV_Compact s d = Compact_loop s 0 d" unfolding KV_Compact_def by (simp only: if_False)
  then show ?thesis using Compact_loop_correct [OF live room, of 0] v by auto
next
  case True
  have v1: "unat (kv_version s) + 1 < 2 ^ 64" using v by linarith
  obtain r1 s1 d1 where c: "KV_compactLog s d = Some (r1, s1, d1)" "kv_live s1 d1" "kv_view s1 = kv_view s" "kv_room s1"
    "kv_Options s1 = kv_Options s" "kv_version s1 = kv_version s + 1" "length (kv_main s1) \<le> Suc (length (kv_main s))"
    using KV_compactLog_correct [OF live room v1] by blast
  have "unat (kv_version s1) = unat (kv_version s) + 1" using v1 c(6) by (simp add: unat_word_ariths)
  then have "\<exists>r s' d'. Compact_loop s1 0 d1 = Some (r, s', d') \<and> kv_live s' d' \<and> kv_view s' = kv_view s1 \<and> kv_room s' \<and>
      kv_Options s' = kv_Options s1 \<and> kv_mem s' = kv_mem s1 \<and> kv_log s' = kv_log s1"
    using c(7) v by (intro Compact_loop_correct [OF c(2,4)]) simp_all
  moreover have "KV_Compact s d = (case r1 of Inl e \<Rightarrow> Some (Inl e, s1, d1) | Inr _ \<Rightarrow> Compact_loop s1 0 d1)"
    using c(1) unfolding KV_Compact_def if_P [OF True] by (simp split: sum.splits)
  ultimately show ?thesis using c by (cases r1) auto
qed

end
