(* ===== verification/Recovery.thy ===== *)
theory Recovery
  imports Compaction
begin

text \<open>
  What a restart finds.  \<open>on_disk\<close> describes a database directory: a log of whole records with at
  most a torn tail, two slots, and the SSTables the newer valid slot names; \<open>recovered\<close> is the map it
  holds, stated on its records without the replay.  \<open>KV_Open\<close> rebuilds the store from it: the MemTable
  it replays looks up \<open>last_record\<close> (\<open>replay_last_record\<close>, \<open>recovered_replayed\<close>), and a settled directory stays settled.
\<close>

definition torn_tail :: "bytes \<Rightarrow> bool" where
  "torn_tail p \<longleftrightarrow> (\<exists>e r. Entry_Decode p = Some (Inl e, r) \<and> e \<in> {EOF, ErrUnexpectedEOF, ErrBadSum})"

definition log_on_disk :: "disk \<Rightarrow> string \<Rightarrow> Entry list \<Rightarrow> bool" where
  "log_on_disk d f es \<longleftrightarrow> list_all entry_fits es \<and> (\<exists>p. file_bytes d f = log_bytes es @ p \<and> torn_tail p)"

definition empty_array :: SortedArray where
  "empty_array = \<lparr>arr_keys = [], arr_vals = [], arr_deleted = []\<rparr>"

definition replayed :: "Entry list \<Rightarrow> SortedArray" where
  "replayed es = fold replay_entry es empty_array"

definition disk_meta :: "string \<Rightarrow> disk \<Rightarrow> KVMetaData" where
  "disk_meta dir d = meta_on_disk d (filepath_Join dir ''meta0'') (filepath_Join dir ''meta1'')"

definition on_disk :: "string \<Rightarrow> disk \<Rightarrow> Entry list \<Rightarrow> SortedFile list \<Rightarrow> bool" where
  "on_disk dir d es fs \<longleftrightarrow>
     dir \<noteq> [] \<and> log_on_disk d (filepath_Join dir logFileName) es \<and>
     list_all2 (level_on_disk dir d) (md_SSTables (disk_meta dir d)) fs \<and>
     distinct (md_SSTables (disk_meta dir d)) \<and>
     set (md_SSTables (disk_meta dir d)) \<subseteq> used_names (md_Version (disk_meta dir d))"

text \<open>The map a directory holds: the last record of a key in the log decides; a key without one is
  looked up in the SSTables, newest first.\<close>

definition last_record :: "Entry list \<Rightarrow> bytes \<Rightarrow> Entry option" where
  "last_record es k = find (\<lambda>e. e_key e = k) (rev es)"

definition recovered :: "Entry list \<Rightarrow> SortedFile list \<Rightarrow> bytes \<Rightarrow> bytes option" where
  "recovered es fs k =
     (case last_record es k of
        Some e \<Rightarrow> if e_deleted e then None else Some (e_val e)
      | None \<Rightarrow> visible (levels_map (map sf_entries fs)) k)"

text \<open>The zero \<^verbatim>\<open>KV\<close> with its options set, as a program starts it.\<close>

definition new_kv :: "KVOptions \<Rightarrow> kv" where
  "new_kv opts = \<lparr>kv_Options = opts, kv_meta = fresh_store '''' '''', kv_log = \<lparr>FileName = '''', log_fp = None\<rparr>,
     kv_mem = empty_array, kv_main = [], kv_version = 0\<rparr>"

section \<open>Replay\<close>

lemma empty_array_wf [simp]: "arr_wf empty_array"
  by (simp add: empty_array_def arr_wf_def arr_entries_def)

lemma Clear_empty [simp]: "SortedArray_Clear a = empty_array"
  by (simp add: SortedArray_Clear_def empty_array_def)

lemma replay_entry_correct:
  assumes "arr_wf a"
  shows "arr_wf (replay_entry e a)"
    and "es_map (arr_entries (replay_entry e a)) =
      (es_map (arr_entries a))(e_key e \<mapsto> if e_deleted e then \<lparr>e_key = e_key e, e_val = [], e_deleted = True\<rparr> else e)"
proof -
  have s: "sorted_entries (arr_entries a)" using assms by (simp add: arr_wf_def)
  show "arr_wf (replay_entry e a)" using SortedArray_update(1,3) [OF assms] by (simp add: replay_entry_def)
  show "es_map (arr_entries (replay_entry e a)) =
      (es_map (arr_entries a))(e_key e \<mapsto> if e_deleted e then \<lparr>e_key = e_key e, e_val = [], e_deleted = True\<rparr> else e)"
    using SortedArray_update(2,4) [OF assms] put_entry_correct(2) [OF s]
    by (cases e) (simp add: replay_entry_def)
qed

lemma replay_wf: "arr_wf a \<Longrightarrow> arr_wf (fold replay_entry es a)"
  by (induction es arbitrary: a) (simp_all add: replay_entry_correct(1))

text \<open>Replaying the log gives each key its last record.\<close>

lemma last_record_snoc: "last_record (es @ [e]) k = (if e_key e = k then Some e else last_record es k)"
  by (simp add: last_record_def)

lemma last_record_Nil [simp]: "last_record [] k = None"
  by (simp add: last_record_def)

lemma replay_last_record:
  assumes "arr_wf a"
  shows "es_map (arr_entries (fold replay_entry es a)) k =
    (case last_record es k of
       Some e \<Rightarrow> Some (if e_deleted e then \<lparr>e_key = e_key e, e_val = [], e_deleted = True\<rparr> else e)
     | None \<Rightarrow> es_map (arr_entries a) k)"
  by (induction es rule: rev_induct) (simp_all add: last_record_snoc replay_entry_correct(2) [OF replay_wf [OF assms]])

lemma recovered_replayed: "recovered es fs = visible (levels_map (arr_entries (replayed es) # map sf_entries fs))"
proof
  fix k
  have "es_map (arr_entries empty_array) k = None" by (simp add: empty_array_def arr_entries_def)
  then show "recovered es fs k = visible (levels_map (arr_entries (replayed es) # map sf_entries fs)) k"
    using replay_last_record [OF empty_array_wf, of es k]
    by (auto simp: recovered_def replayed_def visible_def map_add_def split: option.split)
qed

lemma KV_replay_correct:
  assumes "files d (FileName (kv_log s)) = Some (log_bytes done @ log_bytes es @ p)"
    and "log_fp (kv_log s) = Some (length (log_bytes done))" "list_all entry_fits es" "torn_tail p"
  shows "\<exists>lg. KV_replay d s = Some (Inr (), s\<lparr>kv_log := lg, kv_mem := fold replay_entry es (kv_mem s)\<rparr>) \<and>
    FileName lg = FileName (kv_log s) \<and> (p = [] \<longrightarrow> log_fp lg = Some (length (log_bytes done @ log_bytes es)))"
  using assms
proof (induction es arbitrary: s "done")
  case Nil
  obtain e r where e: "Entry_Decode p = Some (Inl e, r)" "e \<in> {EOF, ErrUnexpectedEOF, ErrBadSum}"
    using Nil.prems(4) by (auto simp: torn_tail_def)
  obtain lg where lg: "Log_Read d (kv_log s) = Some (Inr None, lg)"
    using Log_Read_eof [OF _ Nil.prems(2) e] Nil.prems(1) by auto
  moreover have "FileName lg = FileName (kv_log s)"
    using lg by (auto simp: Log_Read_def Let_def split: option.splits prod.splits sum.splits if_splits)
  moreover have "p = [] \<longrightarrow> log_fp lg = Some (length (log_bytes done @ log_bytes []))"
    using lg Nil.prems(1,2) by (auto simp: Log_Read_def Let_def)
  ultimately show ?case by (subst KV_replay.simps) auto
next
  case (Cons e es)
  let ?lg = "(kv_log s)\<lparr>log_fp := Some (length (log_bytes done @ Entry_Encode e))\<rparr>"
  let ?s = "s\<lparr>kv_log := ?lg, kv_mem := replay_entry e (kv_mem s)\<rparr>"
  have rd: "Log_Read d (kv_log s) = Some (Inr (Some e), ?lg)"
    using Log_Read_entry [of d "kv_log s" "log_bytes done" e "log_bytes es @ p"] Cons.prems by simp
  have "\<exists>lg. KV_replay d ?s = Some (Inr (), ?s\<lparr>kv_log := lg, kv_mem := fold replay_entry es (kv_mem ?s)\<rparr>) \<and>
      FileName lg = FileName (kv_log ?s) \<and> (p = [] \<longrightarrow> log_fp lg = Some (length (log_bytes (done @ [e]) @ log_bytes es)))"
    using Cons.prems by (intro Cons.IH [of _ "done @ [e]"]) simp_all
  with rd show ?case by (subst KV_replay.simps) auto
qed

section \<open>Opening\<close>

lemma Log_Open_ok:
  assumes "fault_free d"
  shows "\<exists>d'. Log_Open lg d = (Inr (), lg\<lparr>log_fp := Some 0\<rparr>, d') \<and> fault_free d' \<and>
    files d' (FileName lg) = Some (file_bytes d (FileName lg)) \<and>
    (\<forall>g. g \<noteq> FileName lg \<longrightarrow> files d' g = files d g) \<and> (\<forall>g. settled d g \<longrightarrow> settled d' g)"
proof -
  obtain d' where c: "createFileSync (FileName lg) d = (Inr (), d')" "fault_free d'"
    using createFileSync_fault_free [OF assms] by blast
  note createFileSync_ok [OF c(1)] createFileSync_settled [OF c(1)]
  with c show ?thesis by (simp add: Log_Open_def file_bytes_def)
qed

lemma log_on_disk_frame:
  "log_on_disk d f es \<Longrightarrow> files d' f = files d f \<Longrightarrow> log_on_disk d' f es"
  by (simp add: log_on_disk_def file_bytes_def)

text \<open>Opening a new store on a directory recovers it.\<close>

lemma KV_Open_correct:
  assumes disk: "on_disk dir d es fs" and ff: "fault_free d" and opts: "Dirpath opts = dir"
  shows "\<exists>s d'. KV_Open (new_kv opts) d = Some (Inr (), s, d') \<and> kv_live s d' \<and> fault_free d' \<and>
    kv_mem s = replayed es \<and> kv_main s = fs \<and> kv_view s = recovered es fs \<and> kv_Options s = opts \<and>
    kv_version s = md_Version (disk_meta dir d) \<and> meta_inv (kv_meta s) d' \<and>
    KVMetaStore_Get (kv_meta s) = disk_meta dir d \<and>
    files d' (filepath_Join dir logFileName) = Some (file_bytes d (filepath_Join dir logFileName)) \<and>
    (file_bytes d (filepath_Join dir logFileName) = log_bytes es \<longrightarrow> log_fp (kv_log s) = Some (length (log_bytes es))) \<and>
    (\<forall>g. settled d g \<longrightarrow> settled d' g)"
proof -
  let ?f0 = "filepath_Join dir ''meta0''" and ?f1 = "filepath_Join dir ''meta1''" and ?fl = "filepath_Join dir logFileName"
  let ?md = "disk_meta dir d"
  have dir: "dir \<noteq> []" and lod: "log_on_disk d ?fl es" and l2: "list_all2 (level_on_disk dir d) (md_SSTables ?md) fs"
    and dist: "distinct (md_SSTables ?md)" and nms: "set (md_SSTables ?md) \<subseteq> used_names (md_Version ?md)"
    using disk by (simp_all add: on_disk_def)
  have neq: "?f0 \<noteq> ?f1" "?fl \<noteq> ?f0" "?fl \<noteq> ?f1"
    using dir by (simp_all add: filepath_Join_inj) (simp_all add: logFileName_def)
  have sneq: "filepath_Join dir (sstable_name v) \<notin> {?f0, ?f1, ?fl}" for v
    using dir by (simp add: filepath_Join_inj)
  have mk: "os_MkdirAll d = (Inr (), d)" using ff by (simp add: os_MkdirAll_def)
  have paths: "KV_paths (new_kv opts) = (new_kv opts)\<lparr>kv_log := \<lparr>FileName = ?fl, log_fp = None\<rparr>, kv_meta := fresh_store ?f0 ?f1\<rparr>"
    by (simp add: KV_paths_def new_kv_def fresh_store_def fresh_item_def opts Let_def)
  obtain m d1 where m: "KVMetaStore_Open (fresh_store ?f0 ?f1) d = (Inr (), m, d1)" "KVMetaStore_Get m = ?md"
    "meta_inv m d1" "mi_FileName (slot0 m) = ?f0" "mi_FileName (slot1 m) = ?f1" "fault_free d1"
    and md: "\<And>f. f \<noteq> ?f0 \<Longrightarrow> f \<noteq> ?f1 \<Longrightarrow> files d1 f = files d f" and ms: "\<And>g. settled d g \<Longrightarrow> settled d1 g"
    using KVMetaStore_Open_fresh [OF ff neq(1)] by (auto simp: disk_meta_def)
  obtain d2 where lo: "Log_Open \<lparr>FileName = ?fl, log_fp = None\<rparr> d1 = (Inr (), \<lparr>FileName = ?fl, log_fp = Some 0\<rparr>, d2)"
    "fault_free d2" "files d2 ?fl = Some (file_bytes d1 ?fl)" and ld: "\<And>g. g \<noteq> ?fl \<Longrightarrow> files d2 g = files d1 g" "\<And>g. settled d1 g \<Longrightarrow> settled d2 g"
    using Log_Open_ok [OF m(6), of "\<lparr>FileName = ?fl, log_fp = None\<rparr>"] by auto
  obtain p where p: "file_bytes d ?fl = log_bytes es @ p" "torn_tail p" "list_all entry_fits es"
    using lod by (auto simp: log_on_disk_def)
  have fl: "files d2 ?fl = Some (log_bytes [] @ log_bytes es @ p)"
    using lo(3) p(1) md [of ?fl] neq by (simp add: file_bytes_def)
  let ?s = "(new_kv opts)\<lparr>kv_log := \<lparr>FileName = ?fl, log_fp = Some 0\<rparr>, kv_meta := m, kv_version := md_Version ?md, kv_mem := empty_array\<rparr>"
  obtain lg where rp: "KV_replay d2 ?s = Some (Inr (), ?s\<lparr>kv_log := lg, kv_mem := replayed es\<rparr>)" "FileName lg = ?fl"
    "p = [] \<longrightarrow> log_fp lg = Some (length (log_bytes es))"
    using KV_replay_correct [of d2 ?s "[]" es p] fl p by (auto simp: replayed_def)
  let ?s' = "?s\<lparr>kv_log := lg, kv_mem := replayed es\<rparr>"
  have "list_all2 (level_on_disk dir d2) (md_SSTables ?md) fs"
  proof (rule levels_frame [OF l2])
    fix n assume "n \<in> set (md_SSTables ?md)"
    then obtain v where "n = sstable_name v" using nms by (auto simp: used_names_def)
    then show "files d2 (filepath_Join dir n) = files d (filepath_Join dir n)" using sneq [of v] md ld(1) by simp
  qed
  then have lv: "list_all2 (level_on_disk (kv_dir ?s') d2) (kv_names ?s') fs"
    by (simp add: kv_dir_def kv_names_def new_kv_def opts m(2))
  note ol = KV_openLevels_correct [OF lv]
  have run: "KV_Open (new_kv opts) d = Some (Inr (), ?s'\<lparr>kv_main := fs\<rparr>, d2)"
    using dir opts mk paths m(1,2) lo(1) rp(1) ol
    by (simp add: KV_Open_def Let_def new_kv_def)
  have wf: "arr_wf (replayed es)" by (simp add: replayed_def replay_wf)
  have "kv_live (?s'\<lparr>kv_main := fs\<rparr>) d2"
    using dir wf rp(2) m(2,4,5) lv dist nms opts by (simp add: kv_live_def kv_dir_def kv_names_def new_kv_def)
  moreover have "meta_inv m d2" using m(3,4,5) ld(1) neq by (simp add: meta_inv_def file_bytes_def)
  moreover have "kv_view (?s'\<lparr>kv_main := fs\<rparr>) = recovered es fs"
    by (simp add: kv_view_def level_entries_simp recovered_replayed)
  moreover have "files d2 ?fl = Some (file_bytes d ?fl)" using lo(3) md [of ?fl] neq by (simp add: file_bytes_def)
  moreover have "file_bytes d ?fl = log_bytes es \<longrightarrow> log_fp lg = Some (length (log_bytes es))" using p(1) rp(3) by simp
  ultimately show ?thesis using run lo(2) m(2) ms ld(2) by (simp add: new_kv_def)
qed

end
