(* ===== verification/Durability.thy ===== *)
theory Durability
  imports Recovery
begin

text \<open>
  What a crash loses.  \<open>kv_durable s d es\<close> is the state of a store between two operations that
  succeeded: the log holds exactly the records \<open>es\<close>, the MemTable is their replay, the slots
  agree with memory, and of none of the store's files a power cut would take anything (\<open>settled\<close>).
  From such a state every operation, under every script of disk faults, leaves a
  directory from which \<^verbatim>\<open>Open\<close> recovers the map before the operation or the map after it, whatever
  a power cut then makes of it (\<open>crash_leaves\<close>).
\<close>

text \<open>The files that \<^verbatim>\<open>Open\<close> reads.\<close>

definition kv_files :: "kv \<Rightarrow> string set" where
  "kv_files s = {logFileName, ''meta0'', ''meta1''} \<union> set (kv_names s)"

definition kv_durable :: "kv \<Rightarrow> disk \<Rightarrow> Entry list \<Rightarrow> bool" where
  "kv_durable s d es \<longleftrightarrow>
     kv_live s d \<and> meta_inv (kv_meta s) d \<and>
     set (kv_names s) \<subseteq> used_names (md_Version (KVMetaStore_Get (kv_meta s))) \<and>
     list_all entry_fits es \<and> files d (FileName (kv_log s)) = Some (log_bytes es) \<and>
     log_fp (kv_log s) = Some (length (log_bytes es)) \<and> kv_mem s = replayed es \<and>
     (\<forall>g\<in>kv_files s. settled d (filepath_Join (kv_dir s) g)) \<and>
     md_Version (KVMetaStore_Get (kv_meta s)) \<le> kv_version s"

definition recovers :: "string \<Rightarrow> disk \<Rightarrow> (bytes \<Rightarrow> bytes option) \<Rightarrow> bool" where
  "recovers dir d m \<longleftrightarrow> (\<exists>es fs. on_disk dir d es fs \<and> recovered es fs = m)"

text \<open>The log of a directory ends with a whole record.\<close>

definition whole_log :: "string \<Rightarrow> disk \<Rightarrow> bool" where
  "whole_log dir d \<longleftrightarrow> (\<exists>es fs. on_disk dir d es fs \<and> file_bytes d (filepath_Join dir logFileName) = log_bytes es)"

definition recovers_whole :: "string \<Rightarrow> disk \<Rightarrow> (bytes \<Rightarrow> bytes option) \<Rightarrow> bool" where
  "recovers_whole dir d m \<longleftrightarrow> recovers dir d m \<and> whole_log dir d"

lemma recovers_wholeI:
  "on_disk dir d es fs \<Longrightarrow> file_bytes d (filepath_Join dir logFileName) = log_bytes es \<Longrightarrow> recovered es fs = m \<Longrightarrow>
   recovers_whole dir d m"
  by (auto simp: recovers_whole_def recovers_def whole_log_def)

text \<open>\<open>crash_recovers dir d M\<close>: whatever a crash leaves of \<open>d\<close>, it recovers to a map of \<open>M\<close>.\<close>

definition crash_recovers :: "string \<Rightarrow> disk \<Rightarrow> (bytes \<Rightarrow> bytes option) set \<Rightarrow> bool" where
  "crash_recovers dir d M \<longleftrightarrow> (\<forall>c. crash_leaves d c \<longrightarrow> (\<exists>m\<in>M. recovers dir c m))"

lemma crash_recoversI: "(\<And>c. crash_leaves d c \<Longrightarrow> \<exists>m\<in>M. recovers dir c m) \<Longrightarrow> crash_recovers dir d M"
  by (simp add: crash_recovers_def)

text \<open>\<open>survives dir d m\<close>: it is \<open>m\<close> itself, and the log has no torn tail.\<close>

definition survives :: "string \<Rightarrow> disk \<Rightarrow> (bytes \<Rightarrow> bytes option) \<Rightarrow> bool" where
  "survives dir d m \<longleftrightarrow> (\<forall>c. crash_leaves d c \<longrightarrow> recovers_whole dir c m)"

lemma survives_recovers: "survives dir d m \<Longrightarrow> crash_leaves d c \<Longrightarrow> recovers dir c m"
  by (simp add: survives_def recovers_whole_def)

lemma survives_crash: "survives dir d m \<Longrightarrow> crash_recovers dir d {m}"
  by (simp add: crash_recovers_def survives_recovers)

lemma crash_recovers_mono: "crash_recovers dir d M \<Longrightarrow> M \<subseteq> N \<Longrightarrow> crash_recovers dir d N"
  unfolding crash_recovers_def by blast

text \<open>Only the contents of the files matter.\<close>

lemma on_disk_files:
  assumes "files d' = files d"
  shows "on_disk dir d' = on_disk dir d" "recovers dir d' = recovers dir d" "whole_log dir d' = whole_log dir d"
    "recovers_whole dir d' = recovers_whole dir d"
proof -
  have fb: "file_bytes d' = file_bytes d" using assms by (simp add: file_bytes_def fun_eq_iff)
  have "level_on_disk dir d' = level_on_disk dir d" using assms by (intro ext) (simp add: level_on_disk_def)
  then show o: "on_disk dir d' = on_disk dir d"
    using fb by (intro ext) (simp add: on_disk_def log_on_disk_def disk_meta_def meta_on_disk_def)
  show "recovers dir d' = recovers dir d" "whole_log dir d' = whole_log dir d" "recovers_whole dir d' = recovers_whole dir d"
    by (simp_all add: fun_eq_iff recovers_whole_def recovers_def whole_log_def o fb)
qed

lemma disk_meta_inv:
  "meta_inv m d \<Longrightarrow> mi_FileName (slot0 m) = filepath_Join dir ''meta0'' \<Longrightarrow>
   mi_FileName (slot1 m) = filepath_Join dir ''meta1'' \<Longrightarrow> disk_meta dir d = KVMetaStore_Get m"
  by (simp add: disk_meta_def meta_on_disk_def meta_inv_def KVMetaStore_Get_pick)

lemma disk_meta_frame:
  "files d' (filepath_Join dir ''meta0'') = files d (filepath_Join dir ''meta0'') \<Longrightarrow>
   files d' (filepath_Join dir ''meta1'') = files d (filepath_Join dir ''meta1'') \<Longrightarrow>
   disk_meta dir d' = disk_meta dir d"
  by (simp add: disk_meta_def meta_on_disk_def file_bytes_def)

lemma meta_inv_frame:
  "meta_inv m d \<Longrightarrow> files d' (mi_FileName (slot0 m)) = files d (mi_FileName (slot0 m)) \<Longrightarrow>
   files d' (mi_FileName (slot1 m)) = files d (mi_FileName (slot1 m)) \<Longrightarrow> meta_inv m d'"
  by (simp add: meta_inv_def file_bytes_def)

lemma torn_tail_Nil [simp]: "torn_tail []"
  by (simp add: torn_tail_def)

lemma torn_tail_take:
  assumes "entry_fits e" "n < length (Entry_Encode e)"
  shows "torn_tail (take n (Entry_Encode e))"
proof -
  have "Entry_Encode e = take n (Entry_Encode e) @ drop n (Entry_Encode e)" by simp
  from Entry_Decode_torn [OF assms(1) this] assms(2) show ?thesis
    by (cases "n = 0") (simp_all add: torn_tail_def)
qed

lemma recovered_view: "kv_mem s = replayed es \<Longrightarrow> recovered es (kv_main s) = kv_view s"
  by (simp add: recovered_replayed kv_view_def level_entries_simp)

lemma durable_paths:
  assumes "kv_durable s d es"
  shows "kv_dir s \<noteq> []" "FileName (kv_log s) = filepath_Join (kv_dir s) logFileName"
    "disk_meta (kv_dir s) d = KVMetaStore_Get (kv_meta s)"
    "md_SSTables (disk_meta (kv_dir s) d) = kv_names s"
proof -
  have live: "kv_live s d" and inv: "meta_inv (kv_meta s) d" using assms by (simp_all add: kv_durable_def)
  show "kv_dir s \<noteq> []" "FileName (kv_log s) = filepath_Join (kv_dir s) logFileName" using live by (simp_all add: kv_live_def)
  show m: "disk_meta (kv_dir s) d = KVMetaStore_Get (kv_meta s)"
    using live by (intro disk_meta_inv [OF inv]) (simp_all add: kv_live_def)
  show "md_SSTables (disk_meta (kv_dir s) d) = kv_names s" by (simp add: m kv_names_def)
qed

text \<open>A directory whose SSTables and slots are those of a durable store, with any log.\<close>

lemma on_disk_log:
  assumes dur: "kv_durable s d es" and log: "log_on_disk d' (FileName (kv_log s)) es'"
    and fr: "\<And>g. g \<in> kv_files s \<Longrightarrow> g \<noteq> logFileName \<Longrightarrow>
      files d' (filepath_Join (kv_dir s) g) = files d (filepath_Join (kv_dir s) g)"
  shows "on_disk (kv_dir s) d' es' (kv_main s)"
proof -
  have live: "kv_live s d" using dur by (simp add: kv_durable_def)
  note paths = durable_paths [OF dur]
  have m: "disk_meta (kv_dir s) d' = disk_meta (kv_dir s) d"
    by (intro disk_meta_frame fr) (simp_all add: kv_files_def)
  have "list_all2 (level_on_disk (kv_dir s) d') (kv_names s) (kv_main s)"
  proof (rule levels_frame)
    show "list_all2 (level_on_disk (kv_dir s) d) (kv_names s) (kv_main s)" using live by (simp add: kv_live_def)
  next
    fix n assume n: "n \<in> set (kv_names s)"
    then obtain v where "n = sstable_name v" using live by (auto simp: kv_live_def used_names_def)
    then have "n \<noteq> logFileName" by simp
    then show "files d' (filepath_Join (kv_dir s) n) = files d (filepath_Join (kv_dir s) n)" using n by (intro fr) (simp_all add: kv_files_def)
  qed
  then show ?thesis using dur live log paths by (simp add: on_disk_def m kv_durable_def kv_live_def)
qed

text \<open>The store's files after a crash, when nothing has touched them since they were settled.\<close>

lemma durable_crash_files:
  assumes "kv_durable s d es" "crash_leaves d' c" "g \<in> kv_files s" "kept d d' (filepath_Join (kv_dir s) g)"
  shows "files c (filepath_Join (kv_dir s) g) = files d (filepath_Join (kv_dir s) g)"
  using crash_leaves_kept [OF assms(2,4)] assms(1,3) by (simp add: kv_durable_def)

text \<open>A durable store survives every crash.\<close>

lemma kv_durable_recovers:
  assumes dur: "kv_durable s d es"
  shows "recovered es (kv_main s) = kv_view s" and "crash_leaves d c \<Longrightarrow> on_disk (kv_dir s) c es (kv_main s)"
    and "crash_leaves d c \<Longrightarrow> recovers_whole (kv_dir s) c (kv_view s)"
proof -
  show b: "recovered es (kv_main s) = kv_view s" using dur by (intro recovered_view) (simp add: kv_durable_def)
  note paths = durable_paths [OF dur]
  assume c: "crash_leaves d c"
  have "logFileName \<in> kv_files s" by (simp add: kv_files_def)
  from durable_crash_files [OF dur c this kept_refl] have "files c (FileName (kv_log s)) = Some (log_bytes es)"
    using dur by (simp add: paths(2) kv_durable_def)
  moreover have "list_all entry_fits es" using dur by (simp add: kv_durable_def)
  ultimately have l: "log_on_disk c (FileName (kv_log s)) es" "file_bytes c (FileName (kv_log s)) = log_bytes es"
    by (auto simp: log_on_disk_def file_bytes_def intro: exI [of _ "[]"])
  show a: "on_disk (kv_dir s) c es (kv_main s)"
    by (rule on_disk_log [OF dur l(1)]) (rule durable_crash_files [OF dur c _ kept_refl])
  show "recovers_whole (kv_dir s) c (kv_view s)" using recovers_wholeI [OF a _ b] l(2) by (simp add: paths(2))
qed

lemma kv_durable_survives: "kv_durable s d es \<Longrightarrow> survives (kv_dir s) d (kv_view s)"
  using kv_durable_recovers(3) by (simp add: survives_def)

lemma kv_durable_crash: "kv_durable s d es \<Longrightarrow> crash_recovers (kv_dir s) d {kv_view s}"
  by (rule survives_crash [OF kv_durable_survives])

lemma kv_durable_frame:
  assumes dur: "kv_durable s d es" and fr: "\<And>g. g \<in> kv_files s \<Longrightarrow> kept d d' (filepath_Join (kv_dir s) g)"
  shows "kv_durable s d' es"
proof -
  have live: "kv_live s d" and inv: "meta_inv (kv_meta s) d" using dur by (simp_all add: kv_durable_def)
  have sl: "mi_FileName (slot0 (kv_meta s)) = filepath_Join (kv_dir s) ''meta0''"
    "mi_FileName (slot1 (kv_meta s)) = filepath_Join (kv_dir s) ''meta1''"
    "FileName (kv_log s) = filepath_Join (kv_dir s) logFileName"
    using live by (simp_all add: kv_live_def)
  have fl: "files d' (filepath_Join (kv_dir s) g) = files d (filepath_Join (kv_dir s) g)" if "g \<in> kv_files s" for g
    using kept_files [OF fr [OF that]] .
  have "kv_live s d'" by (rule kv_live_frame_names [OF live]) (simp add: fl kv_files_def)
  moreover have "meta_inv (kv_meta s) d'" by (rule meta_inv_frame [OF inv]) (simp_all add: sl fl kv_files_def)
  moreover have "files d' (FileName (kv_log s)) = files d (FileName (kv_log s))" by (simp add: sl fl kv_files_def)
  moreover have "\<forall>g\<in>kv_files s. settled d' (filepath_Join (kv_dir s) g)"
    using fr kept_settled dur unfolding kv_durable_def by blast
  ultimately show ?thesis using dur by (simp add: kv_durable_def)
qed

lemma kv_file_neq_log:
  assumes "kv_live s d" "g \<in> kv_files s" "g \<noteq> logFileName"
  shows "filepath_Join (kv_dir s) g \<noteq> FileName (kv_log s)"
proof -
  have "simple_name g" using assms(1,2) used_simple by (auto simp: kv_files_def kv_live_def)
  then show ?thesis using assms(1,3) by (simp add: kv_live_def filepath_Join_inj)
qed

lemma kv_durable_append:
  assumes dur: "kv_durable s d es" and fits: "entry_fits e"
    and w: "Log_Write (kv_log s) e d = (r, lg, d')"
  shows "r = Inr () \<Longrightarrow> kv_durable (s\<lparr>kv_log := lg, kv_mem := replay_entry e (kv_mem s)\<rparr>) d' (es @ [e])"
    and "crash_leaves d' c \<Longrightarrow> \<exists>es'\<in>{es, es @ [e]}. on_disk (kv_dir s) c es' (kv_main s)"
proof -
  let ?f = "FileName (kv_log s)"
  have f: "files d ?f = Some (log_bytes es)" and p: "log_fp (kv_log s) = Some (length (log_bytes es))"
    and live: "kv_live s d" and es: "list_all entry_fits es" and inv: "meta_inv (kv_meta s) d"
    and set: "\<forall>g\<in>kv_files s. settled d (filepath_Join (kv_dir s) g)"
    using dur by (simp_all add: kv_durable_def)
  have lf: "?f = filepath_Join (kv_dir s) logFileName" "logFileName \<in> kv_files s" using live by (simp_all add: kv_live_def kv_files_def)
  then have sf: "settled d ?f" using set by simp
  have fr: "\<And>g. g \<noteq> ?f \<Longrightarrow> kept d d' g" by (rule Log_Write_kept [OF w])
  have lives: "kv_live s d'" using kv_live_after_log [OF live, of "kv_log s" d'] fr by simp
  have "?f \<noteq> mi_FileName (slot0 (kv_meta s))" "?f \<noteq> mi_FileName (slot1 (kv_meta s))"
    using live by (simp_all add: kv_live_def filepath_Join_inj not_sym [OF sstable_name_other(4)] not_sym [OF sstable_name_other(5)])
  then have inv': "meta_inv (kv_meta s) d'" by (intro meta_inv_frame [OF inv] kept_files fr) simp_all
  show "kv_durable (s\<lparr>kv_log := lg, kv_mem := replay_entry e (kv_mem s)\<rparr>) d' (es @ [e])" if "r = Inr ()"
  proof -
    note ok = Log_Write_ok [OF f p, of e "()" lg d'] w that
    have lg: "lg = (kv_log s)\<lparr>log_fp := Some (length (log_bytes es @ Entry_Encode e))\<rparr>"
      and fl: "files d' ?f = Some (log_bytes es @ Entry_Encode e)" and sd: "settled d' ?f"
      using ok settled_listed [OF sf] by simp_all
    have "kv_live (s\<lparr>kv_log := lg, kv_mem := replay_entry e (kv_mem s)\<rparr>) d'"
      using kv_live_updates(1) [OF kv_live_updates(2) [OF lives, of lg], of "replay_entry e (kv_mem s)"] live
      by (simp add: lg replay_entry_correct(1) kv_live_def)
    moreover have "settled d' (filepath_Join (kv_dir s) g)" if g: "g \<in> kv_files s" for g
    proof (cases "g = logFileName")
      case False
      from kept_settled [OF fr [OF kv_file_neq_log [OF live g False]]] set g show ?thesis by blast
    qed (use sd lf in simp)
    ultimately show ?thesis using dur fits es inv' fl
      by (simp add: kv_durable_def lg replayed_def kv_names_def kv_dir_def kv_files_def)
  qed
  show "\<exists>es'\<in>{es, es @ [e]}. on_disk (kv_dir s) c es' (kv_main s)" if c: "crash_leaves d' c"
  proof -
    have "files c ?f \<in> set (after_cut d' ?f)" using c by (simp add: crash_leaves_def)
    then have "files c ?f = Some (log_bytes es) \<or> (\<exists>n. files c ?f = Some (log_bytes es @ take n (Entry_Encode e)))"
      using after_cut_Log_Write [OF f p w] after_cut_settled [OF sf] f by auto
    then obtain n where n: "files c ?f = Some (log_bytes es @ take n (Entry_Encode e))" by (metis append_Nil2 take0)
    have oth: "files c (filepath_Join (kv_dir s) g) = files d (filepath_Join (kv_dir s) g)"
      if "g \<in> kv_files s" "g \<noteq> logFileName" for g
      using that kv_file_neq_log [OF live that] by (intro durable_crash_files [OF dur c] fr)
    show ?thesis
    proof (cases "n < length (Entry_Encode e)")
      case True
      then have "log_on_disk c ?f es"
        using n es torn_tail_take [OF fits True] by (auto simp: log_on_disk_def file_bytes_def)
      then show ?thesis using on_disk_log [OF dur _ oth] by blast
    next
      case False
      then have "log_on_disk c ?f (es @ [e])"
        using n es fits by (auto simp: log_on_disk_def file_bytes_def)
      then show ?thesis using on_disk_log [OF dur _ oth] by blast
    qed
  qed
qed

section \<open>Writes\<close>

lemma recovered_append:
  assumes "kv_durable s d es"
  shows "recovered (es @ [e]) (kv_main s) =
    (kv_view s)(e_key e := if e_deleted e then None else Some (e_val e))"
proof -
  have wf: "arr_wf (kv_mem s)" and mem: "kv_mem s = replayed es"
    using assms unfolding kv_durable_def kv_live_def by blast+
  have "recovered (es @ [e]) (kv_main s) = visible (levels_map (arr_entries (replay_entry e (kv_mem s)) # map sf_entries (kv_main s)))"
    by (simp add: recovered_replayed replayed_def mem)
  also have "\<dots> = (kv_view s)(e_key e := if e_deleted e then None else Some (e_val e))"
    by (rule ext) (simp add: kv_view_def level_entries_simp replay_entry_correct(2) [OF wf] visible_def)
  finally show ?thesis .
qed

lemma KV_commit_durable:
  assumes dur: "kv_durable s d es" and fits: "entry_fits e" and upd: "upd (kv_mem s) = replay_entry e (kv_mem s)"
    and c: "KV_commit s e upd d = Some (r, s', d')"
  shows "r = Inr b \<Longrightarrow> b \<and> kv_durable s' d' (es @ [e])"
    and "crash_recovers (kv_dir s) d' {kv_view s, (kv_view s)(e_key e := if e_deleted e then None else Some (e_val e))}"
proof -
  obtain rw lg dw where w: "Log_Write (kv_log s) e d = (rw, lg, dw)" by (metis prod_cases3)
  note app = kv_durable_append [OF dur fits w]
  have d': "d' = dw" using c w by (auto simp: KV_commit_def split: sum.splits)
  show "b \<and> kv_durable s' d' (es @ [e])" if "r = Inr b"
    using c w that app(1) upd by (auto simp: KV_commit_def split: sum.splits)
  show "crash_recovers (kv_dir s) d' {kv_view s, (kv_view s)(e_key e := if e_deleted e then None else Some (e_val e))}"
  proof (rule crash_recoversI)
    fix c assume "crash_leaves d' c"
    then obtain es' where es': "es' = es \<or> es' = es @ [e]" "on_disk (kv_dir s) c es' (kv_main s)"
      using app(2) d' by blast
    then have "recovers (kv_dir s) c (recovered es' (kv_main s))" by (auto simp: recovers_def)
    then show "\<exists>m\<in>{kv_view s, (kv_view s)(e_key e := if e_deleted e then None else Some (e_val e))}. recovers (kv_dir s) c m"
      using es'(1) recovered_append [OF dur, of e] kv_durable_recovers(1) [OF dur] by auto
  qed
qed

text \<open>\<^verbatim>\<open>SetEx\<close> and \<^verbatim>\<open>Del\<close> under any disk faults: an answer leaves a durable store, an error a
  directory that recovers to the map before the call or after it.\<close>

lemma KV_SetEx_durable:
  assumes dur: "kv_durable s d es" and fits: "entry_fits \<lparr>e_key = k, e_val = v, e_deleted = False\<rparr>"
    and run: "KV_SetEx s k v mode d = Some (r, s', d')"
  shows "r = Inr b \<Longrightarrow> \<exists>es'. kv_durable s' d' es'"
    and "crash_recovers (kv_dir s) d' {kv_view s, (kv_view s)(k \<mapsto> v)}"
proof -
  let ?e = "\<lparr>e_key = k, e_val = v, e_deleted = False\<rparr>" and ?upd = "\<lambda>a. snd (SortedArray_Set a k v)"
  have "kv_live s d" using dur by (simp add: kv_durable_def)
  then have "kv_ok s" by (rule kv_live_ok)
  note get = KV_Get_view [OF this, of k]
  have "(r, s', d') = (Inr False, s, d) \<or> KV_commit s ?e ?upd d = Some (r, s', d')"
    using run unfolding KV_SetEx_def get by (simp add: Let_def split: if_splits)
  then consider (same) "r = Inr False" "s' = s" "d' = d" | (commit) "KV_commit s ?e ?upd d = Some (r, s', d')"
    by blast
  then have "(r = Inr b \<longrightarrow> (\<exists>es'. kv_durable s' d' es')) \<and>
      crash_recovers (kv_dir s) d' {kv_view s, (kv_view s)(k \<mapsto> v)}"
  proof cases
    case same
    then show ?thesis using dur crash_recovers_mono [OF kv_durable_crash [OF dur]] by blast
  next
    case commit
    have "?upd (kv_mem s) = replay_entry ?e (kv_mem s)" by (simp add: replay_entry_def)
    note c = KV_commit_durable [OF dur fits this commit]
    have "r = Inr b \<longrightarrow> (\<exists>es'. kv_durable s' d' es')" using c(1) by blast
    moreover have "crash_recovers (kv_dir s) d' {kv_view s, (kv_view s)(k \<mapsto> v)}" using c(2) by simp
    ultimately show ?thesis by blast
  qed
  then show "r = Inr b \<Longrightarrow> \<exists>es'. kv_durable s' d' es'"
    and "crash_recovers (kv_dir s) d' {kv_view s, (kv_view s)(k \<mapsto> v)}" by blast+
qed

lemma KV_Del_durable:
  assumes dur: "kv_durable s d es" and fits: "length k < 2 ^ 32"
    and run: "KV_Del s k d = Some (r, s', d')"
  shows "r = Inr b \<Longrightarrow> \<exists>es'. kv_durable s' d' es'"
    and "crash_recovers (kv_dir s) d' {kv_view s, (kv_view s)(k := None)}"
proof -
  let ?e = "\<lparr>e_key = k, e_val = [], e_deleted = True\<rparr>" and ?upd = "\<lambda>a. SortedArray_Del a k"
  have "kv_live s d" using dur by (simp add: kv_durable_def)
  then have "kv_ok s" by (rule kv_live_ok)
  note get = KV_Get_view [OF this, of k]
  have "(r, s', d') = (Inr False, s, d) \<or> KV_commit s ?e ?upd d = Some (r, s', d')"
    using run unfolding KV_Del_def get by (simp add: Let_def split: option.splits)
  then consider (same) "r = Inr False" "s' = s" "d' = d" | (commit) "KV_commit s ?e ?upd d = Some (r, s', d')"
    by blast
  then have "(r = Inr b \<longrightarrow> (\<exists>es'. kv_durable s' d' es')) \<and>
      crash_recovers (kv_dir s) d' {kv_view s, (kv_view s)(k := None)}"
  proof cases
    case same
    then show ?thesis using dur crash_recovers_mono [OF kv_durable_crash [OF dur]] by blast
  next
    case commit
    have "?upd (kv_mem s) = replay_entry ?e (kv_mem s)" "entry_fits ?e"
      using fits by (simp_all add: replay_entry_def entry_fits_def)
    note c = KV_commit_durable [OF dur this(2,1) commit]
    have "r = Inr b \<longrightarrow> (\<exists>es'. kv_durable s' d' es')" using c(1) by blast
    moreover have "crash_recovers (kv_dir s) d' {kv_view s, (kv_view s)(k := None)}" using c(2) by simp
    ultimately show ?thesis by blast
  qed
  then show "r = Inr b \<Longrightarrow> \<exists>es'. kv_durable s' d' es'"
    and "crash_recovers (kv_dir s) d' {kv_view s, (kv_view s)(k := None)}" by blast+
qed

section \<open>Compaction\<close>

lemma kv_file_neq_new:
  assumes "kv_live s d" "unat (kv_version s) + 1 < 2 ^ 64" "g \<in> kv_files s"
  shows "filepath_Join (kv_dir s) g \<noteq> filepath_Join (kv_dir s) (next_name s)"
proof -
  have "simple_name g" "g \<noteq> next_name s"
    using assms used_simple used_names_new(1) [OF assms(2)]
    by (auto simp: kv_files_def kv_live_def next_name_def not_sym [OF sstable_name_other(1)] not_sym [OF sstable_name_other(2)]
        not_sym [OF sstable_name_other(3)])
  moreover have "simple_name (next_name s)" by (simp add: next_name_def)
  ultimately show ?thesis using assms(1) by (simp add: kv_live_def filepath_Join_inj)
qed

lemma kv_durable_bumped:
  assumes dur: "kv_durable s d es" and v: "unat (kv_version s) + 1 < 2 ^ 64"
    and fr: "\<And>g. g \<noteq> filepath_Join (kv_dir s) (next_name s) \<Longrightarrow> kept d d' g"
  shows "kv_durable (bumped s) d' es"
proof -
  have live: "kv_live s d" using dur by (simp add: kv_durable_def)
  have "kv_live (bumped s) d" by (intro kv_live_bumped [OF live v]) simp
  moreover have "kv_version s \<le> kv_version s + 1" by (rule used_names_new(3) [OF v])
  moreover have "kv_files (bumped s) = kv_files s" by (simp add: kv_files_def)
  ultimately have dur': "kv_durable (bumped s) d es"
    using dur unfolding kv_durable_def bumped_simps by (metis order_trans)
  show ?thesis
    by (rule kv_durable_frame [OF dur']) (use fr kv_file_neq_new [OF live v] in \<open>simp add: kv_files_def\<close>)
qed

text \<open>Publishing a list of levels: whatever the disk does, every crash leaves one of the two lists.\<close>

lemma published_recovers:
  assumes dur: "kv_durable s1 d1 es"
    and new: "list_all2 (level_on_disk (kv_dir s1) d1) names fs" "distinct names" "set names \<subseteq> used_names (kv_version s1)"
    and sn: "\<And>n. n \<in> set names \<Longrightarrow> settled d1 (filepath_Join (kv_dir s1) n)"
    and view: "visible (levels_map (arr_entries (kv_mem s1) # map sf_entries fs)) = kv_view s1"
    and set: "KVMetaStore_Set (kv_meta s1) \<lparr>md_Version = kv_version s1, md_SSTables = names\<rparr> d1 = (r, m, d2)"
  shows "survives (kv_dir s1) d2 (kv_view s1)"
    and "r = Inr () \<Longrightarrow> kv_durable (s1\<lparr>kv_meta := m, kv_main := fs\<rparr>) d2 es"
proof -
  let ?data = "\<lparr>md_Version = kv_version s1, md_SSTables = names\<rparr>"
  have live: "kv_live s1 d1" and inv: "meta_inv (kv_meta s1) d1" and mem: "kv_mem s1 = replayed es"
    and nm: "set (kv_names s1) \<subseteq> used_names (md_Version (KVMetaStore_Get (kv_meta s1)))"
    and st: "\<forall>g\<in>kv_files s1. settled d1 (filepath_Join (kv_dir s1) g)"
    and es: "list_all entry_fits es" "files d1 (FileName (kv_log s1)) = Some (log_bytes es)"
    using dur unfolding kv_durable_def by blast+
  have sl: "mi_FileName (slot0 (kv_meta s1)) = filepath_Join (kv_dir s1) ''meta0''"
    "mi_FileName (slot1 (kv_meta s1)) = filepath_Join (kv_dir s1) ''meta1''" and dir: "kv_dir s1 \<noteq> []"
    and lf: "FileName (kv_log s1) = filepath_Join (kv_dir s1) logFileName"
    and l2: "list_all2 (level_on_disk (kv_dir s1) d1) (kv_names s1) (kv_main s1)" "distinct (kv_names s1)"
    using live by (simp_all add: kv_live_def)
  have pl: "plain_meta ?data" using new(3) by (auto simp: plain_meta_def list_all_iff used_names_def)
  have slots: "settled d1 (mi_FileName (slot0 (kv_meta s1)))" "settled d1 (mi_FileName (slot1 (kv_meta s1)))"
    using st by (simp_all add: sl kv_files_def)
  note sc = KVMetaStore_Set_correct [OF inv pl set] and cr = KVMetaStore_Set_crash [OF inv pl set slots]
  note pub = kv_live_publish [OF live new set]
  have fr: "kept d1 d2 (filepath_Join (kv_dir s1) n)" if "simple_name n" "n \<noteq> ''meta0''" "n \<noteq> ''meta1''" for n
    using sc(4) that dir by (simp add: sl filepath_Join_inj)
  have used: "kept d1 d2 (filepath_Join (kv_dir s1) n)" if "n \<in> used_names v" for n v
    using that fr by (auto simp: used_names_def)
  have lg: "kept d1 d2 (filepath_Join (kv_dir s1) logFileName)"
    by (intro fr) (simp_all add: not_sym [OF sstable_name_other(4)] not_sym [OF sstable_name_other(5)])
  have slg: "settled d1 (filepath_Join (kv_dir s1) logFileName)" using st by (simp add: kv_files_def)
  show "survives (kv_dir s1) d2 (kv_view s1)"
    unfolding survives_def
  proof (intro allI impI)
    fix c assume c: "crash_leaves d2 c"
    have fc: "file_bytes c (filepath_Join (kv_dir s1) logFileName) = log_bytes es"
      using crash_leaves_kept [OF c lg slg] es(2) by (simp add: file_bytes_def lf)
    then have lod: "log_on_disk c (filepath_Join (kv_dir s1) logFileName) es"
      using es(1) by (auto simp: log_on_disk_def intro: exI [of _ "[]"])
    have lev: "list_all2 (level_on_disk (kv_dir s1) c) ns gs"
      if "list_all2 (level_on_disk (kv_dir s1) d1) ns gs" "set ns \<subseteq> used_names v"
        "\<And>n. n \<in> set ns \<Longrightarrow> settled d1 (filepath_Join (kv_dir s1) n)" for ns gs v
      using that(2,3) used crash_leaves_kept [OF c] by (intro levels_frame [OF that(1)]) blast
    have "disk_meta (kv_dir s1) c \<in> {KVMetaStore_Get (kv_meta s1), ?data}"
      using cr(1) [OF c] by (simp add: disk_meta_def sl)
    then consider (old) "disk_meta (kv_dir s1) c = KVMetaStore_Get (kv_meta s1)" | (new) "disk_meta (kv_dir s1) c = ?data"
      by blast
    then show "recovers_whole (kv_dir s1) c (kv_view s1)"
    proof cases
      case old
      have "on_disk (kv_dir s1) c es (kv_main s1)"
        using dir lod l2(2) nm lev [OF l2(1) nm] st by (simp add: on_disk_def old kv_names_def kv_files_def)
      then show ?thesis using fc recovered_view [OF mem] by (rule recovers_wholeI)
    next
      case n: new
      have "on_disk (kv_dir s1) c es fs" using dir lod new(2,3) lev [OF new(1,3) sn] by (simp add: on_disk_def n)
      moreover have "recovered es fs = kv_view s1" using view by (simp add: recovered_replayed mem)
      ultimately show ?thesis using fc by (blast intro: recovers_wholeI)
    qed
  qed
  show "kv_durable (s1\<lparr>kv_meta := m, kv_main := fs\<rparr>) d2 es" if r: "r = Inr ()"
  proof -
    let ?s = "s1\<lparr>kv_meta := m, kv_main := fs\<rparr>"
    have "kv_live ?s d2" using pub(2) [OF r] by blast
    moreover have g: "meta_inv m d2" "KVMetaStore_Get m = ?data" using sc(1) [OF r] by blast+
    moreover have "files d2 (FileName (kv_log s1)) = Some (log_bytes es)" "log_fp (kv_log s1) = Some (length (log_bytes es))"
      using dur kept_files [OF lg] by (simp_all add: kv_durable_def lf)
    moreover have "settled d2 (filepath_Join (kv_dir s1) n)" if n: "n \<in> kv_files ?s" for n
    proof -
      have "n \<in> {logFileName, ''meta0'', ''meta1''} \<union> set names" using n g by (simp add: kv_files_def kv_names_def)
      then show ?thesis
        using cr(2) [OF r] kept_settled [OF lg slg] kept_settled [OF used sn] new(3) by (auto simp: sl)
    qed
    ultimately show ?thesis using new(3) mem es(1) by (simp add: kv_durable_def kv_names_def kv_dir_def)
  qed
qed

lemma arr_entries_empty [simp]: "arr_entries empty_array = []"
  by (simp add: empty_array_def arr_entries_def)

lemma levels_map_dup: "levels_map (es # es # ess) = levels_map (es # ess)"
  by (simp add: fun_eq_iff map_add_def split: option.split)

lemma recovered_flushed:
  "sf_entries f = arr_entries (replayed es) \<Longrightarrow> recovered [] (f # fs) = recovered es fs"
  "sf_entries f = arr_entries (replayed es) \<Longrightarrow> recovered es (f # fs) = recovered es fs"
  using levels_map_dup [of "arr_entries (replayed es)"]
  by (simp_all only: recovered_replayed list.map) (simp add: replayed_def)

lemma KV_compactLog_recovers:
  assumes dur: "kv_durable s d es" and room: "kv_room s" and v: "unat (kv_version s) + 1 < 2 ^ 64"
    and run: "KV_compactLog s d = Some (r, s', d')"
  shows "survives (kv_dir s) d' (kv_view s) \<and> (r = Inr () \<longrightarrow> kv_durable s' d' [])"
proof -
  have live: "kv_live s d" and mem: "kv_mem s = replayed es" using dur unfolding kv_durable_def by blast+
  have flushed: "survives (kv_dir s) d2 (kv_view s)" "r2 = Inr () \<Longrightarrow> kv_durable ((bumped s)\<lparr>kv_meta := m, kv_main := f # kv_main s\<rparr>) d2 es"
    if cf: "created s d d1 f (arr_entries (kv_mem s))"
      and st: "KVMetaStore_Set (kv_meta s) (next_meta s (next_name s # kv_names s)) d1 = (r2, m, d2)" for d1 f r2 m d2
  proof -
    note l1 = created_live [OF live v cf]
    have dur1: "kv_durable (bumped s) d1 es" using cf by (intro kv_durable_bumped [OF dur v]) (simp add: created_def)
    have new: "list_all2 (level_on_disk (kv_dir (bumped s)) d1) (next_name s # kv_names s) (f # kv_main s)"
      "distinct (next_name s # kv_names s)" "set (next_name s # kv_names s) \<subseteq> used_names (kv_version (bumped s))"
      using l1 cf by (simp_all add: kv_live_def created_def)
    have sn: "settled d1 (filepath_Join (kv_dir (bumped s)) n)" if "n \<in> set (next_name s # kv_names s)" for n
      using that cf dur1 by (auto simp: created_def kv_durable_def kv_files_def)
    have view: "visible (levels_map (arr_entries (kv_mem (bumped s)) # map sf_entries (f # kv_main s))) = kv_view (bumped s)"
      using cf by (simp only: created_def kv_view_def level_entries_simp list.map levels_map_dup bumped_simps)
    have st': "KVMetaStore_Set (kv_meta (bumped s)) \<lparr>md_Version = kv_version (bumped s), md_SSTables = next_name s # kv_names s\<rparr> d1 = (r2, m, d2)"
      using st by (simp add: next_meta_def)
    note pr = published_recovers [OF dur1 new sn view st']
    show "survives (kv_dir s) d2 (kv_view s)" using pr(1) by simp
    show "kv_durable ((bumped s)\<lparr>kv_meta := m, kv_main := f # kv_main s\<rparr>) d2 es" if "r2 = Inr ()" using pr(2) that by simp
  qed
  show ?thesis
    using live room v
  proof (cases rule: KV_compactLog_cases)
    case (create_failed e d1)
    have "kv_durable (bumped s) d1 es" using create_failed(2) by (intro kv_durable_bumped [OF dur v])
    then show ?thesis using kv_durable_survives [of "bumped s" d1 es] create_failed(1) run by simp
  next
    case (meta_failed e d1 f d2)
    then show ?thesis using flushed(1) [OF meta_failed(2,3)] run by simp
  next
    case (published r3 d1 f m d2 lg d3)
    let ?s3 = "(bumped s)\<lparr>kv_meta := m, kv_main := f # kv_main s\<rparr>"
    note dur3 = flushed(2) [OF published(2,3) refl]
    have out: "r = r3" "s' = ?s3\<lparr>kv_mem := SortedArray_Clear (kv_mem s), kv_log := lg\<rparr>" "d' = d3"
      using published(1) run by simp_all
    have sf': "sf_entries f = arr_entries (replayed es)" using published(2) by (simp add: created_def mem)
    have dir: "kv_dir ?s3 = kv_dir s" by (simp add: kv_dir_def bumped_def)
    let ?f = "FileName (kv_log s)"
    have live3: "kv_live ?s3 d2" and lf: "files d2 ?f = Some (log_bytes es)" "log_fp (kv_log s) = Some (length (log_bytes es))"
      "list_all entry_fits es" and st: "\<forall>g\<in>kv_files ?s3. settled d2 (filepath_Join (kv_dir s) g)"
      using dur3 by (simp_all add: kv_durable_def dir)
    have fn: "?f = filepath_Join (kv_dir s) logFileName" using live by (simp add: kv_live_def)
    have sf: "settled d2 ?f" using st by (simp add: fn kv_files_def)
    note tr = Log_Truncate_result [OF lf(1,2) published(5)] Log_Truncate_frame [OF published(5)]
    have oth: "kept d2 d3 (filepath_Join (kv_dir s) g)" if "g \<in> kv_files ?s3" "g \<noteq> logFileName" for g
      using kv_file_neq_log [OF live3 that] by (intro tr(4)) (simp add: dir)
    have "survives (kv_dir s) d' (kv_view s)"
      unfolding survives_def
    proof (intro allI impI)
      fix c assume "crash_leaves d' c"
      then have c: "crash_leaves d3 c" by (simp add: out)
      then have "files c ?f \<in> set (after_cut d3 ?f)" by (simp add: crash_leaves_def)
      then have "files c ?f = Some (log_bytes es) \<or> files c ?f = Some (log_bytes [])"
        using tr(1) after_cut_settled [OF sf] lf(1) by auto
      then obtain es' where es': "es' = es \<or> es' = []" "files c ?f = Some (log_bytes es')" by blast
      then have l: "log_on_disk c (FileName (kv_log ?s3)) es'" "file_bytes c (filepath_Join (kv_dir s) logFileName) = log_bytes es'"
        using lf(3) by (auto simp: log_on_disk_def file_bytes_def fn intro: exI [of _ "[]"])
      have "on_disk (kv_dir ?s3) c es' (kv_main ?s3)"
        using oth by (intro on_disk_log [OF dur3 l(1)] durable_crash_files [OF dur3 c]) (simp_all add: dir)
      moreover have "recovered es' (kv_main ?s3) = kv_view s"
        using es'(1) recovered_flushed [OF sf'] recovered_view [OF mem] by auto
      ultimately show "recovers_whole (kv_dir s) c (kv_view s)" using l(2) unfolding dir by (intro recovers_wholeI)
    qed
    moreover have "kv_durable s' d' []" if r: "r = Inr ()"
    proof -
      have lg: "files d3 ?f = Some []" "lg = (kv_log s)\<lparr>log_fp := Some 0\<rparr>" "settled d3 ?f"
        using tr(2) r out(1) settled_listed [OF sf] by blast+
      have "kv_live s' d'" using KV_compactLog_correct [OF live room v] run by auto
      moreover have "meta_inv m d3"
      proof (rule meta_inv_frame)
        show "meta_inv m d2" using dur3 by (simp add: kv_durable_def)
        have "?f \<noteq> mi_FileName (slot0 m)" "?f \<noteq> mi_FileName (slot1 m)"
          using published(4) by (simp_all add: kv_live_def filepath_Join_inj not_sym [OF sstable_name_other(4)] not_sym [OF sstable_name_other(5)])
        then show "files d3 (mi_FileName (slot0 m)) = files d2 (mi_FileName (slot0 m))"
          "files d3 (mi_FileName (slot1 m)) = files d2 (mi_FileName (slot1 m))" by (intro kept_files tr(4); simp)+
      qed
      moreover have "settled d3 (filepath_Join (kv_dir s) g)" if g: "g \<in> kv_files ?s3" for g
      proof (cases "g = logFileName")
        case False
        then show ?thesis using kept_settled [OF oth [OF g]] st g by blast
      qed (use lg(3) fn in simp)
      ultimately show ?thesis using dur3 lg unfolding out
        by (simp add: kv_durable_def kv_names_def kv_files_def replayed_def kv_dir_def bumped_def)
    qed
    ultimately show ?thesis by blast
  qed
qed

lemma KV_compactSSTable_recovers:
  assumes dur: "kv_durable s d es" and room: "kv_room s" and v: "unat (kv_version s) + 1 < 2 ^ 64"
    and i: "i + 1 < length (kv_main s)" and run: "KV_compactSSTable s i d = Some (r, s', d')"
  shows "survives (kv_dir s) d' (kv_view s) \<and> (r = Inr () \<longrightarrow> kv_durable s' d' es)"
proof -
  have live: "kv_live s d" using dur unfolding kv_durable_def by blast
  have nms: "distinct (kv_names s)" "set (kv_names s) \<subseteq> used_names (kv_version s)"
    "length (kv_names s) = length (kv_main s)"
    using live by (auto simp: kv_live_def list_all2_lengthD)
  have len: "i + 1 < length (kv_names s)" using i nms(3) by simp
  let ?names = "spliced i (next_name s) (kv_names s)" and ?fs = "\<lambda>f. spliced i f (kv_main s)"
  have merged: "survives (kv_dir s) d2 (kv_view s)" "r2 = Inr () \<Longrightarrow> kv_durable ((bumped s)\<lparr>kv_meta := m, kv_main := ?fs f\<rparr>) d2 es"
    if cf: "created s d d1 f (merge_result s i)"
      and st: "KVMetaStore_Set (kv_meta s) (next_meta s ?names) d1 = (r2, m, d2)" for d1 f r2 m d2
  proof -
    note l1 = created_live [OF live v cf]
    have dur1: "kv_durable (bumped s) d1 es" using cf by (intro kv_durable_bumped [OF dur v]) (simp add: created_def)
    have new: "list_all2 (level_on_disk (kv_dir (bumped s)) d1) ?names (?fs f)"
      unfolding spliced_def using l1(1) cf by (intro list_all2_splice) (simp_all add: kv_live_def created_def)
    have nm: "distinct ?names" "set ?names \<subseteq> used_names (kv_version (bumped s))"
      using spliced_drops(1) [OF nms(1) l1(2) len] set_spliced [of i "next_name s" "kv_names s"] l1 by (auto simp: kv_live_def)
    have sn: "settled d1 (filepath_Join (kv_dir (bumped s)) n)" if "n \<in> set ?names" for n
      using subsetD [OF set_spliced that] cf dur1 by (auto simp: created_def kv_durable_def kv_files_def)
    have "kv_view ((bumped s)\<lparr>kv_main := ?fs f\<rparr>) = kv_view s"
      using cf by (intro spliced_view(1) [OF room i, of f]) (simp_all add: created_def)
    then have view: "visible (levels_map (arr_entries (kv_mem (bumped s)) # map sf_entries (?fs f))) = kv_view (bumped s)"
      unfolding bumped_simps by (simp add: kv_view_def level_entries_simp)
    have st': "KVMetaStore_Set (kv_meta (bumped s)) \<lparr>md_Version = kv_version (bumped s), md_SSTables = ?names\<rparr> d1 = (r2, m, d2)"
      using st by (simp add: next_meta_def)
    note pr = published_recovers [OF dur1 new nm sn view st']
    show "survives (kv_dir s) d2 (kv_view s)" using pr(1) by simp
    show "kv_durable ((bumped s)\<lparr>kv_meta := m, kv_main := ?fs f\<rparr>) d2 es" if "r2 = Inr ()" using pr(2) that by simp
  qed
  show ?thesis
    using live room v i
  proof (cases rule: KV_compactSSTable_cases)
    case (create_failed e d1)
    have "kv_durable (bumped s) d1 es" using create_failed(2) by (intro kv_durable_bumped [OF dur v])
    then show ?thesis using kv_durable_survives [of "bumped s" d1 es] create_failed(1) run by simp
  next
    case (meta_failed e d1 f d2)
    then show ?thesis using merged(1) [OF meta_failed(2,3)] run by simp
  next
    case (published d1 f m d2)
    let ?s3 = "(bumped s)\<lparr>kv_meta := m, kv_main := ?fs f\<rparr>"
    let ?d3 = "remove_ignoring (kv_dir s) (kv_names s ! (i + 1)) (remove_ignoring (kv_dir s) (kv_names s ! i) d2)"
    note dur3 = merged(2) [OF published(2,3) refl]
    have dir: "kv_dir ?s3 = kv_dir s" "kv_dir s \<noteq> []" using live by (simp_all add: kv_dir_def bumped_def kv_live_def)
    have out: "s' = ?s3" "d' = ?d3" using published(1) run by simp_all
    have nth: "kv_names s ! i \<in> used_names (kv_version s)" "kv_names s ! (i + 1) \<in> used_names (kv_version s)"
      using nms(2) len by (meson Suc_lessD add_lessD1 nth_mem subsetD)+
    have "kv_durable s' d' es" unfolding out
    proof (rule kv_durable_frame [OF dur3])
      fix g assume g: "g \<in> kv_files ?s3"
      have old: "kv_names s ! i \<notin> set ?names" "kv_names s ! (i + 1) \<notin> set ?names"
        using spliced_drops(2,3) [OF nms(1) created_live(2) [OF live v published(2)] len] by blast+
      have "g \<in> {logFileName, ''meta0'', ''meta1''} \<union> set ?names" using g published(5) by (simp add: kv_files_def)
      then have ne: "g \<noteq> kv_names s ! i" "g \<noteq> kv_names s ! (i + 1)"
        using nth old by (auto simp: used_names_def not_sym [OF sstable_name_other(1)] not_sym [OF sstable_name_other(2)]
            not_sym [OF sstable_name_other(3)])
      have sg: "simple_name g" using g used_simple dur3 by (auto simp: kv_files_def kv_durable_def kv_live_def)
      have "kept d2 ?d3 (filepath_Join (kv_dir s) g)"
        using ne sg nth used_simple dir(2)
        by (intro kept_trans [OF remove_ignoring_kept remove_ignoring_kept]) (simp_all add: filepath_Join_inj)
      then show "kept d2 ?d3 (filepath_Join (kv_dir ?s3) g)" by (simp only: dir(1))
    qed
    moreover have "kv_view s' = kv_view s" "kv_dir s' = kv_dir s"
      using published(2) dir unfolding out by (auto intro!: spliced_view(1) [OF room i, of f] simp: created_def)
    ultimately show ?thesis using kv_durable_survives [of s' d' es] by simp
  qed
qed

lemma kv_dir_Options: "kv_Options s' = kv_Options s \<Longrightarrow> kv_dir s' = kv_dir s"
  by (simp add: kv_dir_def)

lemma Compact_loop_recovers:
  assumes "kv_durable s d es" "kv_room s" "unat (kv_version s) + length (kv_main s) < 2 ^ 64" "i \<le> length (kv_main s)"
    and "Compact_loop s i d = Some (r, s', d')"
  shows "survives (kv_dir s) d' (kv_view s) \<and> (r = Inr () \<longrightarrow> kv_durable s' d' es)"
  using assms
proof (induction "2 * length (kv_main s) - i" arbitrary: s i d rule: less_induct)
  case less
  note dur = less.prems(1) and room = less.prems(2) and v = less.prems(3) and run = less.prems(5)
  have live: "kv_live s d" using dur by (simp add: kv_durable_def)
  show ?case
  proof (cases "i + 1 < length (kv_main s)")
    case False
    then have "r = Inr ()" "s' = s" "d' = d" using run by (simp_all add: Compact_loop.simps [of s i d])
    then show ?thesis using dur kv_durable_survives [OF dur] by simp
  next
    case i: True
    show ?thesis
    proof (cases "KV_shouldMerge s i")
      case False
      then have "Compact_loop s (i + 1) d = Some (r, s', d')" using run i by (simp add: Compact_loop.simps [of s i d])
      then show ?thesis using less.prems i by (intro less.hyps) simp_all
    next
      case merge: True
      have v1: "unat (kv_version s) + 1 < 2 ^ 64" using v i by linarith
      obtain r1 s1 d1 where c: "KV_compactSSTable s i d = Some (r1, s1, d1)" "kv_view s1 = kv_view s"
        "kv_room s1" "kv_Options s1 = kv_Options s" "kv_version s1 = kv_version s + 1"
        "r1 = Inr () \<longrightarrow> Suc (length (kv_main s1)) = length (kv_main s)"
        using KV_compactSSTable_correct [OF live room v1 i] by blast
      note rec = KV_compactSSTable_recovers [OF dur room v1 i c(1)]
      show ?thesis
      proof (cases r1)
        case (Inl e)
        then have "r = Inl e" "d' = d1" using run i merge c(1) by (simp_all add: Compact_loop.simps [of s i d])
        then show ?thesis using rec by simp
      next
        case (Inr u)
        then have l: "Suc (length (kv_main s1)) = length (kv_main s)" using c(6) by simp
        have "Compact_loop s1 i d1 = Some (r, s', d')" using run i merge c(1) Inr by (simp add: Compact_loop.simps [of s i d])
        moreover have "unat (kv_version s1) = unat (kv_version s) + 1" using v1 c(5) by (simp add: unat_word_ariths)
        ultimately have "survives (kv_dir s1) d' (kv_view s1) \<and> (r = Inr () \<longrightarrow> kv_durable s' d' es)"
          using c(3) rec Inr l v i by (intro less.hyps) simp_all
        then show ?thesis using c(2) kv_dir_Options [OF c(4)] by simp
      qed
    qed
  qed
qed

text \<open>\<^verbatim>\<open>Compact\<close> never loses data: however it ends, the directory recovers to the same map, and a
  \<^verbatim>\<open>Compact\<close> that succeeds leaves a durable store.\<close>

lemma KV_Compact_recovers:
  assumes dur: "kv_durable s d es" and room: "kv_room s" and v: "unat (kv_version s) + length (kv_main s) + 2 < 2 ^ 64"
    and run: "KV_Compact s d = Some (r, s', d')"
  shows "survives (kv_dir s) d' (kv_view s) \<and> (r = Inr () \<longrightarrow> (\<exists>es'. kv_durable s' d' es'))"
proof (cases "SortedArray_Size (kv_mem s) > 0 \<and> int (SortedArray_Size (kv_mem s)) \<ge> LogShreshold (kv_Options s)")
  case False
  then have "Compact_loop s 0 d = Some (r, s', d')" using run unfolding KV_Compact_def by (simp only: if_False)
  then show ?thesis using Compact_loop_recovers [OF dur room, of 0] v by auto
next
  case True
  have live: "kv_live s d" using dur by (simp add: kv_durable_def)
  have v1: "unat (kv_version s) + 1 < 2 ^ 64" using v by linarith
  obtain r1 s1 d1 where c: "KV_compactLog s d = Some (r1, s1, d1)" "kv_view s1 = kv_view s" "kv_room s1"
    "kv_Options s1 = kv_Options s" "kv_version s1 = kv_version s + 1" "length (kv_main s1) \<le> Suc (length (kv_main s))"
    using KV_compactLog_correct [OF live room v1] by blast
  note rec = KV_compactLog_recovers [OF dur room v1 c(1)]
  have split: "KV_Compact s d = (case r1 of Inl e \<Rightarrow> Some (Inl e, s1, d1) | Inr _ \<Rightarrow> Compact_loop s1 0 d1)"
    using c(1) unfolding KV_Compact_def if_P [OF True] by (simp split: sum.splits)
  show ?thesis
  proof (cases r1)
    case (Inl e)
    then have "r = Inl e" "d' = d1" using run split by simp_all
    then show ?thesis using rec by simp
  next
    case (Inr u)
    then have dur1: "kv_durable s1 d1 []" using rec by simp
    have "unat (kv_version s1) = unat (kv_version s) + 1" using v1 c(5) by (simp add: unat_word_ariths)
    then have "survives (kv_dir s1) d' (kv_view s1) \<and> (r = Inr () \<longrightarrow> kv_durable s' d' [])"
      using c(6) v run split Inr by (intro Compact_loop_recovers [OF dur1 c(3)]) simp_all
    then show ?thesis using c(2) kv_dir_Options [OF c(4)] by auto
  qed
qed

text \<open>Without disk faults nothing fails: the new metadata is of a later version than any before.\<close>

lemma next_meta_fault_free:
  assumes dur: "kv_durable s d es" and v: "unat (kv_version s) + 1 < 2 ^ 64" and cf: "created s d d1 f es'"
    and d1: "fault_free d1"
    and st: "KVMetaStore_Set (kv_meta s) (next_meta s names) d1 = (r, m, d2)"
  shows "r = Inr () \<and> fault_free d2"
proof -
  have "kv_durable (bumped s) d1 es" using cf by (intro kv_durable_bumped [OF dur v]) (simp add: created_def)
  then have inv: "meta_inv (kv_meta s) d1" by (simp add: kv_durable_def)
  have "kv_version s < kv_version s + 1" using v by (simp add: word_less_nat_alt unat_word_ariths)
  moreover have "md_Version (KVMetaStore_Get (kv_meta s)) \<le> kv_version s" using dur by (simp add: kv_durable_def)
  ultimately have "md_Version (KVMetaStore_Get (kv_meta s)) < md_Version (next_meta s names)"
    by (simp add: next_meta_def)
  from KVMetaStore_Set_fault_free [OF inv d1 this] st show ?thesis by auto
qed

lemma KV_compactLog_fault_free:
  assumes dur: "kv_durable s d es" and room: "kv_room s" and v: "unat (kv_version s) + 1 < 2 ^ 64"
    and d: "fault_free d" and run: "KV_compactLog s d = Some (r, s', d')"
  shows "r = Inr () \<and> fault_free d'"
proof -
  have live: "kv_live s d" using dur by (simp add: kv_durable_def)
  show ?thesis
    using live room v
  proof (cases rule: KV_compactLog_cases)
    case (meta_failed e d1 f d2)
    then show ?thesis using next_meta_fault_free [OF dur v meta_failed(2) _ meta_failed(3)] d by simp
  next
    case (published r3 d1 f m d2 lg d3)
    have d2: "fault_free d2" using next_meta_fault_free [OF dur v published(2) _ published(3)] published(6) d by simp
    have "kv_durable (bumped s) d1 es" using published(2) by (intro kv_durable_bumped [OF dur v]) (simp add: created_def)
    moreover have "FileName (kv_log s) \<noteq> mi_FileName (slot0 (kv_meta s))" "FileName (kv_log s) \<noteq> mi_FileName (slot1 (kv_meta s))"
      using live by (simp_all add: kv_live_def filepath_Join_inj not_sym [OF sstable_name_other(4)] not_sym [OF sstable_name_other(5)])
    ultimately have "files d2 (FileName (kv_log s)) = Some (log_bytes es)" "log_fp (kv_log s) = Some (length (log_bytes es))"
      using kept_files [OF KVMetaStore_Set_memory(5) [OF published(3)]] by (simp_all add: kv_durable_def)
    from Log_Truncate_fault_free [OF this d2] published(1,5) run show ?thesis by auto
  qed (use d in blast)
qed

lemma remove_ignoring_fault_free: "fault_free d \<Longrightarrow> fault_free (remove_ignoring dir n d)"
  by (simp add: remove_ignoring_def os_Remove_def split: option.split)

lemma KV_compactSSTable_fault_free:
  assumes dur: "kv_durable s d es" and room: "kv_room s" and v: "unat (kv_version s) + 1 < 2 ^ 64"
    and i: "i + 1 < length (kv_main s)" and d: "fault_free d" and run: "KV_compactSSTable s i d = Some (r, s', d')"
  shows "r = Inr () \<and> fault_free d'"
proof -
  have live: "kv_live s d" using dur by (simp add: kv_durable_def)
  show ?thesis
    using live room v i
  proof (cases rule: KV_compactSSTable_cases)
    case (meta_failed e d1 f d2)
    then show ?thesis using next_meta_fault_free [OF dur v meta_failed(2) _ meta_failed(3)] d by simp
  next
    case (published d1 f m d2)
    have "fault_free d2" using next_meta_fault_free [OF dur v published(2) _ published(3)] published(6) d by simp
    then show ?thesis using published(1) run remove_ignoring_fault_free by auto
  qed (use d in blast)
qed

lemma Compact_loop_fault_free:
  assumes "kv_durable s d es" "kv_room s" "unat (kv_version s) + length (kv_main s) < 2 ^ 64" "i \<le> length (kv_main s)"
    and "fault_free d" "Compact_loop s i d = Some (r, s', d')"
  shows "r = Inr () \<and> fault_free d'"
  using assms
proof (induction "2 * length (kv_main s) - i" arbitrary: s i d rule: less_induct)
  case less
  note dur = less.prems(1) and room = less.prems(2) and v = less.prems(3) and run = less.prems(6)
  have live: "kv_live s d" using dur by (simp add: kv_durable_def)
  show ?case
  proof (cases "i + 1 < length (kv_main s)")
    case False
    then show ?thesis using run less.prems(5) by (simp add: Compact_loop.simps [of s i d])
  next
    case i: True
    show ?thesis
    proof (cases "KV_shouldMerge s i")
      case False
      then have "Compact_loop s (i + 1) d = Some (r, s', d')" using run i by (simp add: Compact_loop.simps [of s i d])
      then show ?thesis using less.prems i by (intro less.hyps [of s "i + 1" d]) simp_all
    next
      case merge: True
      have v1: "unat (kv_version s) + 1 < 2 ^ 64" using v i by linarith
      obtain r1 s1 d1 where c: "KV_compactSSTable s i d = Some (r1, s1, d1)" "kv_room s1" "kv_version s1 = kv_version s + 1"
        "r1 = Inr () \<longrightarrow> Suc (length (kv_main s1)) = length (kv_main s)"
        using KV_compactSSTable_correct [OF live room v1 i] by blast
      have r1: "r1 = Inr ()" "fault_free d1" using KV_compactSSTable_fault_free [OF dur room v1 i less.prems(5) c(1)] by simp_all
      have "kv_durable s1 d1 es" using KV_compactSSTable_recovers [OF dur room v1 i c(1)] r1 by simp
      moreover have "Compact_loop s1 i d1 = Some (r, s', d')" using run i merge c(1) r1 by (simp add: Compact_loop.simps [of s i d])
      moreover have "unat (kv_version s1) = unat (kv_version s) + 1" using v1 c(3) by (simp add: unat_word_ariths)
      ultimately show ?thesis using c(2,4) r1 v i by (intro less.hyps [of s1 i d1]) simp_all
    qed
  qed
qed

text \<open>\<^verbatim>\<open>Compact\<close> on a disk without faults succeeds, and flushes a MemTable that has reached the threshold.\<close>

lemma KV_Compact_fault_free:
  assumes dur: "kv_durable s d es" and room: "kv_room s" and v: "unat (kv_version s) + length (kv_main s) + 2 < 2 ^ 64"
    and d: "fault_free d" and run: "KV_Compact s d = Some (r, s', d')"
  shows "r = Inr () \<and> fault_free d'"
proof (cases "SortedArray_Size (kv_mem s) > 0 \<and> int (SortedArray_Size (kv_mem s)) \<ge> LogShreshold (kv_Options s)")
  case False
  then have "Compact_loop s 0 d = Some (r, s', d')" using run unfolding KV_Compact_def by (simp only: if_False)
  then show ?thesis using Compact_loop_fault_free [OF dur room _ _ d, of 0] v by auto
next
  case True
  have live: "kv_live s d" using dur by (simp add: kv_durable_def)
  have v1: "unat (kv_version s) + 1 < 2 ^ 64" using v by linarith
  obtain r1 s1 d1 where c: "KV_compactLog s d = Some (r1, s1, d1)" "kv_room s1" "kv_version s1 = kv_version s + 1"
    "length (kv_main s1) \<le> Suc (length (kv_main s))"
    using KV_compactLog_correct [OF live room v1] by blast
  have r1: "r1 = Inr ()" "fault_free d1" using KV_compactLog_fault_free [OF dur room v1 d c(1)] by simp_all
  have "kv_durable s1 d1 []" using KV_compactLog_recovers [OF dur room v1 c(1)] r1 by simp
  moreover have "Compact_loop s1 0 d1 = Some (r, s', d')"
    using run c(1) r1 unfolding KV_Compact_def if_P [OF True] by simp
  moreover have "unat (kv_version s1) = unat (kv_version s) + 1" using v1 c(3) by (simp add: unat_word_ariths)
  ultimately show ?thesis using c(2,4) v r1(2) by (intro Compact_loop_fault_free [of s1 d1 "[]" 0]) simp_all
qed

lemma KV_Compact_flushes:
  assumes live: "kv_live s d" and room: "kv_room s" and v: "unat (kv_version s) + length (kv_main s) + 2 < 2 ^ 64"
    and full: "SortedArray_Size (kv_mem s) > 0" "int (SortedArray_Size (kv_mem s)) \<ge> LogShreshold (kv_Options s)"
    and run: "KV_Compact s d = Some (Inr (), s', d')"
  shows "SortedArray_Size (kv_mem s') = 0"
proof -
  have v1: "unat (kv_version s) + 1 < 2 ^ 64" using v by linarith
  obtain r1 s1 d1 where c: "KV_compactLog s d = Some (r1, s1, d1)" "kv_live s1 d1" "kv_room s1"
    "kv_version s1 = kv_version s + 1" "length (kv_main s1) \<le> Suc (length (kv_main s))" "r1 = Inr () \<longrightarrow> arr_keys (kv_mem s1) = []"
    using KV_compactLog_correct [OF live room v1] by blast
  have r1: "r1 = Inr ()" and loop: "Compact_loop s1 0 d1 = Some (Inr (), s', d')"
    using run c(1) full unfolding KV_Compact_def by (auto split: sum.splits)
  have "unat (kv_version s1) = unat (kv_version s) + 1" using v1 c(4) by (simp add: unat_word_ariths)
  then have "kv_mem s' = kv_mem s1" using Compact_loop_correct [OF c(2,3), of 0] c(5) v loop by auto
  then show ?thesis using c(6) r1 by (simp add: SortedArray_Size_def)
qed

section \<open>Opening again\<close>

lemma recovers_open:
  assumes "recovers dir d m" "fault_free d" "Dirpath opts = dir"
  shows "\<exists>s d'. KV_Open (new_kv opts) d = Some (Inr (), s, d') \<and> kv_live s d' \<and> kv_view s = m"
  using assms KV_Open_correct by (fastforce simp: recovers_def)

text \<open>With no torn tail, and nothing that a power cut could still take, the store that \<^verbatim>\<open>Open\<close> returns
  is durable again.\<close>

lemma KV_Open_durable:
  assumes disk: "on_disk dir d es fs" and ff: "fault_free d" and opts: "Dirpath opts = dir"
    and clean: "file_bytes d (filepath_Join dir logFileName) = log_bytes es" and st: "\<forall>g. settled d g"
  shows "\<exists>s d'. KV_Open (new_kv opts) d = Some (Inr (), s, d') \<and> kv_durable s d' es \<and> kv_view s = recovered es fs"
proof -
  obtain s d' where o: "KV_Open (new_kv opts) d = Some (Inr (), s, d')" "kv_live s d'" "kv_mem s = replayed es"
    "kv_view s = recovered es fs" "kv_Options s = opts" "meta_inv (kv_meta s) d'" "KVMetaStore_Get (kv_meta s) = disk_meta dir d"
    "files d' (filepath_Join dir logFileName) = Some (log_bytes es)" "log_fp (kv_log s) = Some (length (log_bytes es))"
    "kv_version s = md_Version (disk_meta dir d)" "\<forall>g. settled d' g"
    using KV_Open_correct [OF disk ff opts] clean st by auto
  have "kv_dir s = dir" using o(5) opts by (simp add: kv_dir_def)
  then have "FileName (kv_log s) = filepath_Join dir logFileName" using o(2) by (simp add: kv_live_def)
  then have "kv_durable s d' es"
    using o(2,3,6-11) disk by (simp add: kv_durable_def kv_names_def on_disk_def log_on_disk_def)
  then show ?thesis using o(1,4) by blast
qed

lemma on_disk_empty:
  assumes "dir \<noteq> []" "\<And>g. g \<in> {logFileName, ''meta0'', ''meta1''} \<Longrightarrow> files d (filepath_Join dir g) = None"
  shows "on_disk dir d [] []" "file_bytes d (filepath_Join dir logFileName) = log_bytes []"
  using assms by (simp_all add: on_disk_def log_on_disk_def file_bytes_def disk_meta_def meta_on_disk_def
      meta_pick_def zero_meta_def)

lemma recovered_Nil [simp]: "recovered [] [] = Map.empty"
  by (simp add: recovered_def visible_def fun_eq_iff)

section \<open>Errors of a durable store\<close>

text \<open>A write keeps the options, so the directory.\<close>

lemma KV_commit_Options: "KV_commit s e upd d = Some (r, s', d') \<Longrightarrow> kv_Options s' = kv_Options s"
  by (auto simp: KV_commit_def split: prod.splits sum.splits)

lemma KV_write_Options:
  "KV_SetEx s k v mode d = Some (r, s', d') \<Longrightarrow> kv_Options s' = kv_Options s"
  "KV_Del s k d = Some (r, s', d') \<Longrightarrow> kv_Options s' = kv_Options s"
  by (auto simp: KV_SetEx_def KV_Del_def Let_def dest: KV_commit_Options split: option.splits sum.splits if_splits)

lemma KV_write_dir:
  "KV_SetEx s k v mode d = Some (r, s', d') \<Longrightarrow> kv_dir s' = kv_dir s"
  "KV_Del s k d = Some (r, s', d') \<Longrightarrow> kv_dir s' = kv_dir s"
  using KV_write_Options kv_dir_Options by blast+

lemma kv_durable_ok: "kv_durable s d es \<Longrightarrow> kv_ok s"
  using kv_live_ok unfolding kv_durable_def by blast

lemma KV_write_disk_error:
  assumes "kv_durable s d es"
  shows "KV_SetEx s k v mode d = Some (Inl err, s', d') \<Longrightarrow> err = IOErr \<and> \<not> fault_free d"
    and "KV_Del s k d = Some (Inl err, s', d') \<Longrightarrow> err = IOErr \<and> \<not> fault_free d"
  using log_error_disk [of d s] KV_write_error [OF kv_durable_ok [OF assms]] assms
  unfolding kv_durable_def by blast+

lemma KV_write_fault_free:
  assumes "kv_durable s d es" "fault_free d"
  shows "KV_SetEx s k v mode d = Some (r, s', d') \<Longrightarrow> fault_free d'"
    and "KV_Del s k d = Some (r, s', d') \<Longrightarrow> fault_free d'"
proof -
  have log: "files d (FileName (kv_log s)) = Some (log_bytes es)" "log_fp (kv_log s) = Some (length (log_bytes es))"
    using assms(1) by (simp_all add: kv_durable_def)
  have commit: "KV_commit s ent upd d = Some (r, s', d') \<Longrightarrow> fault_free d'" for ent upd
    using Log_Write_fault_free [OF log assms(2), of ent] by (auto simp: KV_commit_def)
  note get = KV_Get_view [OF kv_durable_ok [OF assms(1)], of k]
  show "KV_SetEx s k v mode d = Some (r, s', d') \<Longrightarrow> fault_free d'"
    using get commit assms(2) by (auto simp: KV_SetEx_def Let_def split: if_splits)
  show "KV_Del s k d = Some (r, s', d') \<Longrightarrow> fault_free d'"
    using get commit assms(2) by (auto simp: KV_Del_def split: option.splits)
qed

section \<open>A write after a failed one\<close>

text \<open>Bytes after a torn record are taken for the rest of it, as long as they do not complete it.\<close>

lemma torn_tail_hides:
  assumes "entry_fits e" "13 \<le> n" "n + length r < length (Entry_Encode e)"
  shows "torn_tail (take n (Entry_Encode e) @ r)"
proof -
  have "Entry_Decode (take n (Entry_Encode e) @ r) = Some (Inl ErrUnexpectedEOF, [])"
    using assms(2,3) by (intro Entry_Decode_short [OF assms(1)]) (simp_all add: min_def)
  then show ?thesis by (simp add: torn_tail_def)
qed

text \<open>\<^verbatim>\<open>Log.Write\<close> cut short after \<open>n\<close> bytes, and without a fault.\<close>

lemma Log_Write_cut:
  assumes "files d (FileName lg) = Some c" "log_fp lg = Some (length c)" "faults d = [Some n]" "0 < n" "n \<le> length (Entry_Encode e)"
  shows "\<exists>d'. Log_Write lg e d = (Inl IOErr, lg\<lparr>log_fp := Some (length c + n)\<rparr>, d') \<and> fault_free d' \<and>
    files d' = (files d)(FileName lg := Some (c @ take n (Entry_Encode e)))"
proof -
  have ne: "take n (Entry_Encode e) \<noteq> []" "Entry_Encode e \<noteq> []" using assms(4,5) by auto
  show ?thesis using assms ne
    by (simp add: Log_Write_def os_WriteAt_def pop_fault_def Let_def set_file_def write_bytes_def fault_free_def)
qed

lemma Log_Write_append:
  assumes "files d (FileName lg) = Some c" "log_fp lg = Some (length c)" "fault_free d"
  shows "\<exists>d'. Log_Write lg e d = (Inr (), lg\<lparr>log_fp := Some (length (c @ Entry_Encode e))\<rparr>, d') \<and>
    files d' = (files d)(FileName lg := Some (c @ Entry_Encode e))"
  using Log_Write_fault_free [OF assms, of e] Log_Write_ok [OF assms(1,2), of e] by fastforce

lemma KV_SetEx_upsert:
  assumes "kv_ok s"
  shows "KV_SetEx s k v ModeUpsert d = KV_commit s \<lparr>e_key = k, e_val = v, e_deleted = False\<rparr> (\<lambda>a. snd (SortedArray_Set a k v)) d"
  using KV_Get_view [OF assms, of k] by (simp add: KV_SetEx_def Let_def)

text \<open>What the log of a store holds after a failed write and a later one.\<close>

lemma upsert_after_torn:
  fixes k v k2 v2 :: bytes
  defines "e \<equiv> \<lparr>e_key = k, e_val = v, e_deleted = False\<rparr>" and "e2 \<equiv> \<lparr>e_key = k2, e_val = v2, e_deleted = False\<rparr>"
  assumes dur: "kv_durable s d es" and faults: "faults d = [Some n]" and n: "13 \<le> n" "n \<le> length (Entry_Encode e)"
  shows "\<exists>s1 d1 s2 d2. KV_SetEx s k v ModeUpsert d = Some (Inl IOErr, s1, d1) \<and>
    KV_SetEx s1 k2 v2 ModeUpsert d1 = Some (Inr True, s2, d2) \<and> kv_view s2 = (kv_view s)(k2 \<mapsto> v2) \<and>
    files d2 = (files d)(FileName (kv_log s) := Some (log_bytes es @ take n (Entry_Encode e) @ Entry_Encode e2))"
proof -
  have ok: "kv_ok s" and f: "files d (FileName (kv_log s)) = Some (log_bytes es)" "log_fp (kv_log s) = Some (length (log_bytes es))"
    using dur kv_live_ok unfolding kv_durable_def by blast+
  obtain d1 where w1: "Log_Write (kv_log s) e d = (Inl IOErr, (kv_log s)\<lparr>log_fp := Some (length (log_bytes es) + n)\<rparr>, d1)"
    "fault_free d1" "files d1 = (files d)(FileName (kv_log s) := Some (log_bytes es @ take n (Entry_Encode e)))"
    using Log_Write_cut [OF f faults _ n(2)] n(1) by auto
  let ?lg = "(kv_log s)\<lparr>log_fp := Some (length (log_bytes es) + n)\<rparr>"
  let ?s1 = "s\<lparr>kv_log := ?lg\<rparr>" and ?c = "log_bytes es @ take n (Entry_Encode e)"
  have s1: "KV_SetEx s k v ModeUpsert d = Some (Inl IOErr, ?s1, d1)"
    using KV_SetEx_upsert [OF ok] w1(1) by (simp add: KV_commit_def e_def)
  have ok1: "kv_ok ?s1" "kv_view ?s1 = kv_view s" using ok by (simp_all add: kv_ok_def kv_view_def level_entries_simp)
  have "files d1 (FileName ?lg) = Some ?c" "log_fp ?lg = Some (length ?c)" using w1(3) n(2) by (simp_all add: min_def)
  from Log_Write_append [OF this w1(2), of e2] obtain d2 lg2 where w2: "Log_Write ?lg e2 d1 = (Inr (), lg2, d2)"
    "files d2 = (files d)(FileName (kv_log s) := Some (?c @ Entry_Encode e2))" using w1(3) by auto
  let ?s2 = "?s1\<lparr>kv_log := lg2, kv_mem := snd (SortedArray_Set (kv_mem s) k2 v2)\<rparr>"
  have s2: "KV_SetEx ?s1 k2 v2 ModeUpsert d1 = Some (Inr True, ?s2, d2)"
    using KV_SetEx_upsert [OF ok1(1)] w2(1) by (simp add: KV_commit_def e2_def)
  have "kv_view ?s2 = (kv_view s)(k2 \<mapsto> v2)"
    using kvc.setex_law [OF ok1(1), of k2 v2 ModeUpsert d1] s2 ok1(2) by (auto simp: map_SetEx_def)
  then show ?thesis using s1 s2 w2(2) by auto
qed

end
