(* ===== verification/Storage_Properties.thy ===== *)
theory Storage_Properties
  imports Durability
begin

text \<open>
  The properties of the storage engine, each a short consequence of the component lemmas, with the
  concrete inputs at which their hypotheses hold.
\<close>

section \<open>Inputs\<close>

definition sample_log :: "Entry list" where
  "sample_log = [\<lparr>e_key = [1], e_val = [10], e_deleted = False\<rparr>, \<lparr>e_key = [2], e_val = [], e_deleted = True\<rparr>]"

definition sample_mem :: SortedArray where
  "sample_mem = \<lparr>arr_keys = [[1], [2]], arr_vals = [[10], []], arr_deleted = [False, True]\<rparr>"

definition sample_path :: "string \<Rightarrow> string" where
  "sample_path f = filepath_Join ''d'' f"

definition sample_meta :: KVMetaStore where
  "sample_meta = \<lparr>slot0 = (fresh_item (sample_path ''meta0''))\<lparr>mi_fp := True\<rparr>,
     slot1 = (fresh_item (sample_path ''meta1''))\<lparr>mi_fp := True\<rparr>\<rparr>"

definition sample_kv :: kv where
  "sample_kv = \<lparr>kv_Options = \<lparr>Dirpath = ''d'', LogShreshold = 1, GrowthFactor = 2\<rparr>,
     kv_meta = sample_meta,
     kv_log = \<lparr>FileName = sample_path logFileName, log_fp = Some (length (log_bytes sample_log))\<rparr>,
     kv_mem = sample_mem, kv_main = [], kv_version = 0\<rparr>"

text \<open>Two records in the log, empty slots, and a disk whose next but one operation fails after three
  bytes.\<close>

definition sample_disk :: disk where
  "sample_disk = \<lparr>files = [sample_path logFileName \<mapsto> log_bytes sample_log,
     sample_path ''meta0'' \<mapsto> [], sample_path ''meta1'' \<mapsto> []], 
     unsynced = \<lambda>_. [], unlisted = \<lambda>_. [], faults = [None, Some 3]\<rparr>"

definition empty_disk :: disk where
  "empty_disk = \<lparr>files = Map.empty, unsynced = \<lambda>_. [], unlisted = \<lambda>_. [], faults = []\<rparr>"

lemma sample_replayed: "replayed sample_log = sample_mem"
  by code_simp

lemma sample_mem_wf: "arr_wf sample_mem"
  by (simp add: sample_mem_def arr_wf_def arr_entries_def sorted_entries_def)

lemma sample_kv_ok: "kv_ok sample_kv"
  by (simp add: kv_ok_def sample_kv_def sample_mem_wf)

lemma sample_paths [simp]:
  "sample_path f = sample_path g \<longleftrightarrow> filepath_Join ''d'' f = filepath_Join ''d'' g"
  by (simp add: sample_path_def)

lemma sample_meta_inv: "meta_inv sample_meta sample_disk"
  by (simp add: meta_inv_def sample_meta_def sample_disk_def fresh_item_def filepath_Join_inj file_bytes_def slot_view_def
      not_sym [OF sstable_name_other(4)] not_sym [OF sstable_name_other(5)])

lemma sample_get: "KVMetaStore_Get sample_meta = zero_meta"
  by (simp add: sample_meta_def KVMetaStore_Get_def KVMetaStore_current_def fresh_item_def Let_def)

lemma sample_names: "kv_names sample_kv = []"
  using sample_get by (simp add: kv_names_def sample_kv_def zero_meta_def)

lemma sample_settled [simp]: "settled sample_disk f" "settled empty_disk f"
  by (simp_all add: settled_def sample_disk_def empty_disk_def)

lemma sample_live: "kv_live sample_kv sample_disk"
  unfolding kv_live_def sample_names
  by (simp add: sample_kv_def kv_dir_def sample_mem_wf sample_path_def sample_meta_def fresh_item_def)

lemma sample_durable: "kv_durable sample_kv sample_disk sample_log"
  unfolding kv_durable_def sample_names sample_replayed
  using sample_live sample_meta_inv sample_get
  by (simp add: zero_meta_def sample_kv_def sample_disk_def sample_log_def entry_fits_def filepath_Join_inj settled_def
      not_sym [OF sstable_name_other(4)] not_sym [OF sstable_name_other(5)])

lemma sample_room: "kv_room sample_kv"
  by (simp add: kv_room_def level_entries_simp sample_kv_def sample_mem_def arr_entries_def levels_room_def weight_def
      entry_weight_def entry_fits_def)

lemma sample_nonempty_keys: "kv_no_empty_key sample_kv"
  by (simp add: kv_no_empty_key_def level_keys_def level_entries_simp sample_kv_def sample_mem_def arr_entries_def)

section \<open>The store as a map\<close>

text \<open>C1: Writes are those of a map: \<^verbatim>\<open>SetEx\<close> returns in every mode and for every script of
  disk faults; when it returns a flag, flag and new map are what INSERT, UPDATE and UPSERT mean on
  the map of live keys; it returns an error only when the log record could not be written, and then
  the map is unchanged; \<^verbatim>\<open>Get\<close> reads that map.\<close>

theorem setex_refines_map:
  assumes "kv_ok s"
  shows "\<exists>r s' d'. KV_SetEx s k v mode d = Some (r, s', d') \<and> kv_ok s' \<and> KV_Get s' j = Some (Inr (kv_view s' j)) \<and>
    (case r of Inr b \<Rightarrow> (b, kv_view s') = map_SetEx (kv_view s) k v mode
     | Inl e \<Rightarrow> kv_view s' = kv_view s \<and> log_error s d e)"
proof -
  obtain r s' d' where w: "KV_SetEx s k v mode d = Some (r, s', d')" "kv_ok s'"
    "case r of Inr b \<Rightarrow> (b, kv_view s') = map_SetEx (kv_view s) k v mode | Inl e \<Rightarrow> kv_view s' = kv_view s"
    using kvc.setex_law [OF assms, of k v mode d] by blast
  then show ?thesis using kvc.get_law KV_write_error(1) [OF assms] by (cases r) auto
qed

theorem setex_refines_map_witness:
  "\<exists>r s' d'. KV_SetEx sample_kv [2] [5] ModeInsert empty_disk = Some (r, s', d') \<and> kv_ok s' \<and>
    KV_Get s' [1] = Some (Inr (kv_view s' [1])) \<and>
    (case r of Inr b \<Rightarrow> (b, kv_view s') = map_SetEx (kv_view sample_kv) [2] [5] ModeInsert
     | Inl e \<Rightarrow> kv_view s' = kv_view sample_kv \<and> log_error sample_kv empty_disk e)"
  by (rule setex_refines_map [OF sample_kv_ok])

text \<open>C2: Deletes are those of a map: \<^verbatim>\<open>Del\<close> returns for every script of disk faults, reports
  whether the key was live, and removes exactly that key; its only error is that of the log, which leaves the map as it was.\<close>

theorem del_refines_map:
  assumes "kv_ok s"
  shows "\<exists>r s' d'. KV_Del s k d = Some (r, s', d') \<and> kv_ok s' \<and> KV_Get s' j = Some (Inr (kv_view s' j)) \<and>
    (case r of Inr b \<Rightarrow> (b, kv_view s') = map_Del (kv_view s) k
     | Inl e \<Rightarrow> kv_view s' = kv_view s \<and> log_error s d e)"
proof -
  obtain r s' d' where w: "KV_Del s k d = Some (r, s', d')" "kv_ok s'"
    "case r of Inr b \<Rightarrow> (b, kv_view s') = map_Del (kv_view s) k | Inl e \<Rightarrow> kv_view s' = kv_view s"
    using kvc.del_law [OF assms, of k d] by blast
  then show ?thesis using kvc.get_law KV_write_error(2) [OF assms] by (cases r) auto
qed

theorem del_refines_map_witness:
  "\<exists>r s' d'. KV_Del sample_kv [1] empty_disk = Some (r, s', d') \<and> kv_ok s' \<and> KV_Get s' [2] = Some (Inr (kv_view s' [2])) \<and>
    (case r of Inr b \<Rightarrow> (b, kv_view s') = map_Del (kv_view sample_kv) [1]
     | Inl e \<Rightarrow> kv_view s' = kv_view sample_kv \<and> log_error sample_kv empty_disk e)"
  by (rule del_refines_map [OF sample_kv_ok])

section \<open>Crashes\<close>

text \<open>C3: A write is atomic and durable.  From a durable store \<^verbatim>\<open>SetEx\<close> returns whatever the disk
  does.  With an answer the store is durable again, and whatever a crash leaves of the directory, a power
  cut included that takes all that has not been synced, recovers to the map of the answer.  With an error,
  which is always the disk's, a crash leaves a directory that recovers to the map before the write or to
  the map after it, never to a third one.\<close>

theorem setex_crash_atomic:
  assumes "kv_durable s d es" "length k + length v < 2 ^ 32"
  shows "\<exists>r s' d'. KV_SetEx s k v mode d = Some (r, s', d') \<and>
    (case r of
       Inr b \<Rightarrow> (b, kv_view s') = map_SetEx (kv_view s) k v mode \<and> (\<exists>es'. kv_durable s' d' es') \<and>
         crash_recovers (kv_dir s) d' {kv_view s'}
     | Inl e \<Rightarrow> e = IOErr \<and> \<not> fault_free d \<and> crash_recovers (kv_dir s) d' {kv_view s, (kv_view s)(k \<mapsto> v)})"
proof -
  have ok: "kv_ok s" using assms(1) kv_live_ok unfolding kv_durable_def by blast
  have fits: "entry_fits \<lparr>e_key = k, e_val = v, e_deleted = False\<rparr>" using assms(2) by (simp add: entry_fits_def)
  obtain r s' d' where run: "KV_SetEx s k v mode d = Some (r, s', d')"
    "case r of Inr b \<Rightarrow> (b, kv_view s') = map_SetEx (kv_view s) k v mode | Inl e \<Rightarrow> kv_view s' = kv_view s"
    using kvc.setex_law [OF ok, of k v mode d] by blast
  note dur = KV_SetEx_durable [OF assms(1) fits run(1)]
  show ?thesis
  proof (cases r)
    case (Inl e)
    then show ?thesis using run(1) dur(2) KV_write_disk_error [OF assms(1)] by auto
  next
    case (Inr b)
    then obtain es' where "kv_durable s' d' es'" using dur(1) by blast
    moreover from kv_durable_crash [OF this] have "crash_recovers (kv_dir s) d' {kv_view s'}"
      by (simp add: KV_write_dir(1) [OF run(1)])
    ultimately show ?thesis using run Inr by auto
  qed
qed

theorem setex_crash_atomic_witness:
  "\<exists>r s' d'. KV_SetEx sample_kv [1] [7, 8] ModeUpsert sample_disk = Some (r, s', d') \<and>
    (case r of
       Inr b \<Rightarrow> (b, kv_view s') = map_SetEx (kv_view sample_kv) [1] [7, 8] ModeUpsert \<and> (\<exists>es'. kv_durable s' d' es') \<and>
         crash_recovers (kv_dir sample_kv) d' {kv_view s'}
     | Inl e \<Rightarrow> e = IOErr \<and> \<not> fault_free sample_disk \<and>
         crash_recovers (kv_dir sample_kv) d' {kv_view sample_kv, (kv_view sample_kv)([1] \<mapsto> [7, 8])})"
  by (rule setex_crash_atomic [OF sample_durable]) simp

text \<open>A delete is atomic over a crash, in the same sense.\<close>

theorem del_crash_atomic:
  assumes "kv_durable s d es" "length k < 2 ^ 32"
  shows "\<exists>r s' d'. KV_Del s k d = Some (r, s', d') \<and>
    (case r of
       Inr b \<Rightarrow> (b, kv_view s') = map_Del (kv_view s) k \<and> (\<exists>es'. kv_durable s' d' es') \<and>
         crash_recovers (kv_dir s) d' {kv_view s'}
     | Inl e \<Rightarrow> e = IOErr \<and> \<not> fault_free d \<and> crash_recovers (kv_dir s) d' {kv_view s, (kv_view s)(k := None)})"
proof -
  have ok: "kv_ok s" using assms(1) kv_live_ok unfolding kv_durable_def by blast
  obtain r s' d' where run: "KV_Del s k d = Some (r, s', d')"
    "case r of Inr b \<Rightarrow> (b, kv_view s') = map_Del (kv_view s) k | Inl e \<Rightarrow> kv_view s' = kv_view s"
    using kvc.del_law [OF ok, of k d] by blast
  note dur = KV_Del_durable [OF assms run(1)]
  show ?thesis
  proof (cases r)
    case (Inl e)
    then show ?thesis using run(1) dur(2) KV_write_disk_error [OF assms(1)] by auto
  next
    case (Inr b)
    then obtain es' where "kv_durable s' d' es'" using dur(1) by blast
    moreover from kv_durable_crash [OF this] have "crash_recovers (kv_dir s) d' {kv_view s'}"
      by (simp add: KV_write_dir(2) [OF run(1)])
    ultimately show ?thesis using run Inr by auto
  qed
qed

theorem del_crash_atomic_witness:
  "\<exists>r s' d'. KV_Del sample_kv [1] sample_disk = Some (r, s', d') \<and>
    (case r of
       Inr b \<Rightarrow> (b, kv_view s') = map_Del (kv_view sample_kv) [1] \<and> (\<exists>es'. kv_durable s' d' es') \<and>
         crash_recovers (kv_dir sample_kv) d' {kv_view s'}
     | Inl e \<Rightarrow> e = IOErr \<and> \<not> fault_free sample_disk \<and>
         crash_recovers (kv_dir sample_kv) d' {kv_view sample_kv, (kv_view sample_kv)([1] := None)})"
  by (rule del_crash_atomic [OF sample_durable]) simp

text \<open>C5: Compaction ends and loses nothing: whatever merges the size policy asks for and wherever
  the disk fails, \<^verbatim>\<open>Compact\<close> returns, the map in memory is unchanged and the directory recovers to
  it, whatever a crash leaves; a \<^verbatim>\<open>Compact\<close> that succeeds leaves a durable store and an empty MemTable if that had reached the
  threshold, and on a disk without faults it succeeds.\<close>

theorem compact_preserves_map:
  assumes "kv_durable s d es" "kv_room s" "unat (kv_version s) + length (kv_main s) + 2 < 2 ^ 64"
  shows "\<exists>r s' d'. KV_Compact s d = Some (r, s', d') \<and> kv_view s' = kv_view s \<and> survives (kv_dir s) d' (kv_view s) \<and>
    (r = Inr () \<longrightarrow> (\<exists>es'. kv_durable s' d' es') \<and>
       (0 < SortedArray_Size (kv_mem s) \<and> LogShreshold (kv_Options s) \<le> int (SortedArray_Size (kv_mem s)) \<longrightarrow>
          SortedArray_Size (kv_mem s') = 0)) \<and>
    (fault_free d \<longrightarrow> r = Inr () \<and> fault_free d')"
proof -
  have live: "kv_live s d" using assms(1) by (simp add: kv_durable_def)
  obtain r s' d' where run: "KV_Compact s d = Some (r, s', d')" "kv_view s' = kv_view s"
    using KV_Compact_correct [OF live assms(2,3)] by blast
  then show ?thesis
    using KV_Compact_recovers [OF assms run(1)] KV_Compact_fault_free [OF assms _ run(1)] KV_Compact_flushes [OF live assms(2,3)]
    by blast
qed

theorem compact_preserves_map_witness:
  "\<exists>r s' d'. KV_Compact sample_kv sample_disk = Some (r, s', d') \<and> kv_view s' = kv_view sample_kv \<and>
    survives (kv_dir sample_kv) d' (kv_view sample_kv) \<and>
    (r = Inr () \<longrightarrow> (\<exists>es'. kv_durable s' d' es') \<and>
       (0 < SortedArray_Size (kv_mem sample_kv) \<and> LogShreshold (kv_Options sample_kv) \<le> int (SortedArray_Size (kv_mem sample_kv)) \<longrightarrow>
          SortedArray_Size (kv_mem s') = 0)) \<and>
    (fault_free sample_disk \<longrightarrow> r = Inr () \<and> fault_free d')"
  by (rule compact_preserves_map [OF sample_durable sample_room]) (simp add: sample_kv_def)

text \<open>C6: Opening a directory that recovers to a map yields a store that shows that map, torn log
  tail, torn metadata slot and unreferenced SSTables notwithstanding.  The map a directory holds is
  stated without the replay (\<open>recovered\<close>): the last record of a key in the log decides, and hides the
  key when it is a tombstone; any other key is looked up in the SSTables that the newer valid slot
  names, newest first.  \<^verbatim>\<open>Open\<close> meets no disk error.\<close>

theorem open_recovers:
  assumes "recovers dir d m" "fault_free d" "Dirpath opts = dir"
  shows "\<exists>s d'. KV_Open (new_kv opts) d = Some (Inr (), s, d') \<and> kv_ok s \<and> kv_view s = m"
  using recovers_open [OF assms] kv_live_ok by blast

theorem open_recovers_witness:
  "\<exists>s d'. KV_Open (new_kv \<lparr>Dirpath = ''d'', LogShreshold = 1, GrowthFactor = 2\<rparr>) (sample_disk\<lparr>faults := []\<rparr>) =
     Some (Inr (), s, d') \<and> kv_ok s \<and> kv_view s = kv_view sample_kv"
proof (rule open_recovers)
  have "kv_durable sample_kv (sample_disk\<lparr>faults := []\<rparr>) sample_log"
    by (rule kv_durable_frame [OF sample_durable]) simp
  from survives_recovers [OF kv_durable_survives [OF this] crash_leaves_refl] show "recovers ''d'' (sample_disk\<lparr>faults := []\<rparr>) (kv_view sample_kv)"
    by (simp add: sample_kv_def kv_dir_def)
qed (simp_all add: fault_free_def)

text \<open>Opening a directory whose log has no torn tail, and of which no power cut can take anything any
  more, yields a durable store, so that the guarantees above hold again from there on.\<close>

theorem open_clean_durable:
  assumes "on_disk dir d es fs" "fault_free d" "Dirpath opts = dir"
    and "file_bytes d (filepath_Join dir logFileName) = log_bytes es" "\<forall>g. settled d g"
  shows "\<exists>s d'. KV_Open (new_kv opts) d = Some (Inr (), s, d') \<and> kv_durable s d' es \<and> kv_view s = recovered es fs"
  using assms by (rule KV_Open_durable)

theorem open_clean_durable_witness:
  "\<exists>s d'. KV_Open (new_kv \<lparr>Dirpath = ''d'', LogShreshold = 1, GrowthFactor = 2\<rparr>) empty_disk = Some (Inr (), s, d') \<and>
     kv_durable s d' [] \<and> kv_view s = recovered [] []"
  by (rule open_clean_durable [where dir = "''d''"])
    (simp_all add: on_disk_empty empty_disk_def fault_free_def settled_def)

section \<open>Reading in key order\<close>

abbreviation read_range :: "nat \<Rightarrow> level_iter MergedSortedKVIter RangedKVIter \<Rightarrow> (bytes \<times> bytes) list go" where
  "read_range \<equiv> read_entries (Ranged_Valid store_ops) (Ranged_Key store_ops) (Ranged_Val store_ops) (Ranged_Next store_ops)"

lemma range_entries_pairs:
  "map (\<lambda>e. (e_key e, e_val e)) (range_entries start stop False (store_entries s)) =
     filter (\<lambda>(k, _). start \<le> k \<and> k \<le> stop) (pairs_of (kv_view s))"
  "map (\<lambda>e. (e_key e, e_val e)) (range_entries start stop True (store_entries s)) =
     rev (filter (\<lambda>(k, _). stop \<le> k \<and> k \<le> start) (pairs_of (kv_view s)))"
  by (simp_all add: range_entries_def flip: store_entries_pairs)
    (simp_all add: filter_map comp_def rev_map [symmetric])

text \<open>C8: An ascending \<^verbatim>\<open>Range\<close> yields the live pairs whose key lies between start and stop, both
  included, in key order and none twice; reading \<^verbatim>\<open>n\<close> of them yields the first \<^verbatim>\<open>n\<close>.\<close>

theorem range_ascending:
  assumes "kv_ok s"
  shows "\<exists>r. KV_Range s start stop False = Some (Inr r) \<and>
    (\<forall>n. read_range n r = Some (Inr (take n (filter (\<lambda>(k, _). start \<le> k \<and> k \<le> stop) (pairs_of (kv_view s))))))"
proof -
  obtain r where r: "KV_Range s start stop False = Some (Inr r)" "store_range_ok r"
    "store_range_todo r = range_entries start stop False (store_entries s)"
    using KV_Range_asc [OF assms, of start stop] by blast
  have "read_range n r = Some (Inr (take n (map (\<lambda>e. (e_key e, e_val e)) (store_range_todo r))))" for n
    by (rule store_range.read_all [OF r(2)])
  then show ?thesis using r(1) unfolding r(3) range_entries_pairs(1) by blast
qed

theorem range_ascending_witness:
  "\<exists>r. KV_Range sample_kv [0] [3] False = Some (Inr r) \<and>
    (\<forall>n. read_range n r = Some (Inr (take n (filter (\<lambda>(k, _). [0] \<le> k \<and> k \<le> [3]) (pairs_of (kv_view sample_kv))))))"
  by (rule range_ascending [OF sample_kv_ok])

text \<open>C9: A descending \<^verbatim>\<open>Range\<close> that starts at or below some live key yields the live pairs between
  stop and start in descending order.\<close>

theorem range_descending:
  assumes "kv_ok s" "kv_no_empty_key s" "\<exists>k\<in>dom (kv_view s). start \<le> k"
  shows "\<exists>r. KV_Range s start stop True = Some (Inr r) \<and>
    (\<forall>n. read_range n r = Some (Inr (take n (rev (filter (\<lambda>(k, _). stop \<le> k \<and> k \<le> start) (pairs_of (kv_view s)))))))"
proof -
  obtain r where r: "KV_Range s start stop True = Some (Inr r)" "store_range_ok r"
    "store_range_todo r = range_entries start stop True (store_entries s)"
    using KV_Range_desc [OF assms, of stop] by blast
  have "read_range n r = Some (Inr (take n (map (\<lambda>e. (e_key e, e_val e)) (store_range_todo r))))" for n
    by (rule store_range.read_all [OF r(2)])
  then show ?thesis using r(1) unfolding r(3) range_entries_pairs(2) by blast
qed

lemma sample_view: "kv_view sample_kv = [[1] \<mapsto> [10]]"
  by (simp add: kv_view_def level_entries_simp sample_kv_def sample_mem_def arr_entries_def visible_def fun_eq_iff)

theorem range_descending_witness:
  "\<exists>r. KV_Range sample_kv [1] [0] True = Some (Inr r) \<and>
    (\<forall>n. read_range n r = Some (Inr (take n (rev (filter (\<lambda>(k, _). [0] \<le> k \<and> k \<le> [1]) (pairs_of (kv_view sample_kv)))))))"
  by (rule range_descending [OF sample_kv_ok sample_nonempty_keys]) (simp add: sample_view)

text \<open>C10: A descending \<^verbatim>\<open>Range\<close> that starts beyond the last live key yields nothing, whatever lies
  below: the exhausted merge has no key to step back from.\<close>

theorem range_descending_past_end:
  assumes "kv_ok s" "\<forall>k\<in>dom (kv_view s). k < start"
  shows "\<exists>r. KV_Range s start stop True = Some (Inr r) \<and> read_range n r = Some (Inr [])"
  using KV_Range_desc_past_end [OF assms, of stop] by (cases n) auto

theorem range_descending_past_end_witness:
  "\<exists>r. KV_Range sample_kv [5] [0] True = Some (Inr r) \<and> read_range 3 r = Some (Inr [])"
  by (rule range_descending_past_end [OF sample_kv_ok]) (simp add: sample_view)

text \<open>C11: \<^verbatim>\<open>Seek\<close> lands on the first live key that is not below its argument, and is invalid when
  there is none.\<close>

theorem seek_lower_bound:
  assumes "kv_ok s"
  shows "\<exists>it. KV_Seek s k = Some (Inr it) \<and>
    (if \<exists>j\<in>dom (kv_view s). k \<le> j
     then it_Valid store_ops it \<and>
       (\<exists>j v. it_Key store_ops it = Some j \<and> it_Val store_ops it = Some v \<and> kv_view s j = Some v \<and> k \<le> j \<and>
          (\<forall>i\<in>dom (kv_view s). k \<le> i \<longrightarrow> j \<le> i))
     else \<not> it_Valid store_ops it)"
proof -
  let ?es = "store_entries s" and ?n = "cutp (\<lambda>x. x < k) (store_entries s)"
  obtain it where it: "KV_Seek s k = Some (Inr it)" "db_merge.nodel_inv it" "db_merge.nodel_rep it = ?es"
    "db_merge.nodel_pos it = int ?n"
    using KV_Seek_at [OF assms, of k] by blast
  have v: "it_Valid store_ops it \<longleftrightarrow> ?n < length ?es" using store.valid [OF it(2)] it(3,4) by simp
  have dom: "dom (kv_view s) = e_key ` set ?es" by (simp add: store_entries_dom)
  show ?thesis
  proof (cases "?n < length ?es")
    case True
    note valid = v [THEN iffD2, OF True]
    have kv: "it_Key store_ops it = Some (e_key (?es ! ?n))" "it_Val store_ops it = Some (e_val (?es ! ?n))"
      using store.key [OF it(2) valid] store.val [OF it(2) valid] it(3,4) by simp_all
    have ge: "k \<le> e_key (?es ! ?n)" using less_cut_iff [OF store_entries_sorted down_closed_simps(1) True, of k] by simp
    moreover have "kv_view s (e_key (?es ! ?n)) = Some (e_val (?es ! ?n))"
      using store_entries_map es_map_nth [OF store_entries_sorted True] by blast
    moreover have "e_key (?es ! ?n) \<le> i" if i: "i \<in> dom (kv_view s)" "k \<le> i" for i
    proof -
      obtain m where m: "m < length ?es" "i = e_key (?es ! m)" using i(1) by (auto simp: dom in_set_conv_nth)
      then have "\<not> m < ?n" using less_cut_iff [OF store_entries_sorted down_closed_simps(1) m(1), of k] i(2) by simp
      then show ?thesis using sorted_entries_nth_less_iff [OF store_entries_sorted m(1) True] m(2) by (simp add: not_less [symmetric])
    qed
    moreover have "e_key (?es ! ?n) \<in> dom (kv_view s)" using True by (auto simp: dom)
    ultimately show ?thesis using it(1) valid kv by auto
  next
    case False
    then have all: "?n = length ?es" using cut_le_length [of "\<lambda>x. x < k" ?es] by linarith
    have "\<not> k \<le> j" if j: "j \<in> dom (kv_view s)" for j
    proof -
      obtain m where m: "m < length ?es" "j = e_key (?es ! m)" using j by (auto simp: dom in_set_conv_nth)
      then show ?thesis using less_cut_iff [OF store_entries_sorted down_closed_simps(1) m(1), of k] all by simp
    qed
    then have "\<not> (\<exists>j\<in>dom (kv_view s). k \<le> j)" by blast
    then show ?thesis using it(1) v False by (simp only: if_False) blast
  qed
qed

theorem seek_lower_bound_witness:
  "\<exists>it. KV_Seek sample_kv [0, 1] = Some (Inr it) \<and>
    (if \<exists>j\<in>dom (kv_view sample_kv). [0, 1] \<le> j
     then it_Valid store_ops it \<and>
       (\<exists>j v. it_Key store_ops it = Some j \<and> it_Val store_ops it = Some v \<and> kv_view sample_kv j = Some v \<and> [0, 1] \<le> j \<and>
          (\<forall>i\<in>dom (kv_view sample_kv). [0, 1] \<le> i \<longrightarrow> j \<le> i))
     else \<not> it_Valid store_ops it)"
  by (rule seek_lower_bound [OF sample_kv_ok])



section \<open>The log, the MemTable, the SSTables and the metadata\<close>

text \<open>C13: A log record reads back: decoding what \<^verbatim>\<open>Entry.Encode\<close> wrote returns the entry and leaves
  exactly the bytes that follow it, for every key, value and tombstone flag that fit the 32-bit
  lengths.\<close>

theorem entry_round_trip:
  assumes "entry_fits e"
  shows "Entry_Decode (Entry_Encode e @ rest) = Some (Inr e, rest)"
  using assms by (rule Entry_Decode_Encode)

theorem entry_round_trip_witness:
  "Entry_Decode (Entry_Encode \<lparr>e_key = [1, 2], e_val = [3], e_deleted = False\<rparr> @ [7]) =
     Some (Inr \<lparr>e_key = [1, 2], e_val = [3], e_deleted = False\<rparr>, [7])"
  by (rule entry_round_trip) (simp add: entry_fits_def)

text \<open>A torn record is recognised: every proper prefix of a record decodes to the clean end of the
  log when nothing was written and to \<^verbatim>\<open>io.ErrUnexpectedEOF\<close> otherwise, never to an entry.\<close>

theorem torn_record_rejected:
  assumes "entry_fits e" "n < length (Entry_Encode e)"
  shows "Entry_Decode (take n (Entry_Encode e)) = Some (Inl (if n = 0 then EOF else ErrUnexpectedEOF), [])"
proof -
  have "Entry_Encode e = take n (Entry_Encode e) @ drop n (Entry_Encode e)" by simp
  from Entry_Decode_torn [OF assms(1) this] assms(2) show ?thesis by (cases "n = 0") simp_all
qed

theorem torn_record_rejected_witness:
  "Entry_Decode (take 5 (Entry_Encode \<lparr>e_key = [1], e_val = [2], e_deleted = True\<rparr>)) = Some (Inl ErrUnexpectedEOF, [])"
  using torn_record_rejected [of "\<lparr>e_key = [1], e_val = [2], e_deleted = True\<rparr>" 5]
  by (simp add: entry_fits_def length_Entry_Encode)

text \<open>C14: The store does not survive its own failed write: when a log record is cut short by a disk
  error the partial record stays, a later \<^verbatim>\<open>SetEx\<close> that fits into its missing bytes succeeds, answers
  and can be read, and a restart recovers the map without it.\<close>

theorem acknowledged_write_lost:
  assumes "kv_durable s d es" "length k + length v < 2 ^ 32" "faults d = [Some n]" "13 \<le> n"
    and "n + length k2 + length v2 < length k + length v"
  shows "\<exists>s1 d1 s2 d2. KV_SetEx s k v ModeUpsert d = Some (Inl IOErr, s1, d1) \<and>
    KV_SetEx s1 k2 v2 ModeUpsert d1 = Some (Inr True, s2, d2) \<and> kv_view s2 = (kv_view s)(k2 \<mapsto> v2) \<and>
    recovers (kv_dir s) d2 (kv_view s)"
proof -
  let ?e = "\<lparr>e_key = k, e_val = v, e_deleted = False\<rparr>" and ?e2 = "\<lparr>e_key = k2, e_val = v2, e_deleted = False\<rparr>"
  have fits: "entry_fits ?e" "n \<le> length (Entry_Encode ?e)" "n + length (Entry_Encode ?e2) < length (Entry_Encode ?e)"
    using assms(2,5) by (simp_all add: entry_fits_def length_Entry_Encode)
  obtain s1 d1 s2 d2 where run: "KV_SetEx s k v ModeUpsert d = Some (Inl IOErr, s1, d1)"
    "KV_SetEx s1 k2 v2 ModeUpsert d1 = Some (Inr True, s2, d2)" "kv_view s2 = (kv_view s)(k2 \<mapsto> v2)"
    "files d2 = (files d)(FileName (kv_log s) := Some (log_bytes es @ take n (Entry_Encode ?e) @ Entry_Encode ?e2))"
    using upsert_after_torn [OF assms(1,3,4) fits(2), of k2 v2] by blast
  have "list_all entry_fits es" using assms(1) by (simp add: kv_durable_def)
  then have "log_on_disk d2 (FileName (kv_log s)) es"
    using torn_tail_hides [OF fits(1) assms(4) fits(3)] run(4) by (auto simp: log_on_disk_def file_bytes_def)
  moreover have "kv_live s d" using assms(1) by (simp add: kv_durable_def)
  ultimately have "on_disk (kv_dir s) d2 es (kv_main s)"
    by (intro on_disk_log [OF assms(1)]) (simp_all add: run(4) kv_file_neq_log)
  then have "recovers (kv_dir s) d2 (kv_view s)"
    using kv_durable_recovers(1) [OF assms(1)] by (auto simp: recovers_def)
  then show ?thesis using run by blast
qed

theorem acknowledged_write_lost_witness:
  "\<exists>s1 d1 s2 d2. KV_SetEx sample_kv [5] (replicate 40 7) ModeUpsert (sample_disk\<lparr>faults := [Some 20]\<rparr>) = Some (Inl IOErr, s1, d1) \<and>
    KV_SetEx s1 [6] [8] ModeUpsert d1 = Some (Inr True, s2, d2) \<and> kv_view s2 = (kv_view sample_kv)([6] \<mapsto> [8]) \<and>
    recovers (kv_dir sample_kv) d2 (kv_view sample_kv)"
proof (rule acknowledged_write_lost [where n = 20])
  show "kv_durable sample_kv (sample_disk\<lparr>faults := [Some 20]\<rparr>) sample_log"
    by (rule kv_durable_frame [OF sample_durable]) simp
qed simp_all

text \<open>C15: The MemTable is a sorted map: its binary search, insertion and tombstones keep the keys
  strictly increasing; \<^verbatim>\<open>Set\<close> and \<^verbatim>\<open>Del\<close> change the state of their own key only, and \<^verbatim>\<open>Set\<close>
  reports whether the key was live.\<close>

lemma memtable_state:
  assumes "arr_wf a"
  shows "SortedArray_state (snd (SortedArray_Set a k v)) j = (if j = k then (entryPresent, v) else SortedArray_state a j)"
    and "SortedArray_state (SortedArray_Del a k) j = (if j = k then (entryTombstone, []) else SortedArray_state a j)"
proof -
  have s: "sorted_entries (arr_entries a)" using assms by (simp add: arr_wf_def)
  note u = SortedArray_update [OF assms]
  show "SortedArray_state (snd (SortedArray_Set a k v)) j = (if j = k then (entryPresent, v) else SortedArray_state a j)"
    by (simp add: SortedArray_state_correct [OF u(1)] SortedArray_state_correct [OF assms] u(2) put_entry_correct(2) [OF s])
  show "SortedArray_state (SortedArray_Del a k) j = (if j = k then (entryTombstone, []) else SortedArray_state a j)"
    by (simp add: SortedArray_state_correct [OF u(3)] SortedArray_state_correct [OF assms] u(4) put_entry_correct(2) [OF s])
qed

lemma SortedArray_Set_flag: "fst (SortedArray_Set a k v) = (fst (SortedArray_state a k) = entryPresent)"
  by (simp add: SortedArray_Set_def SortedArray_state_def split: prod.split)

theorem memtable_map:
  assumes "arr_wf a"
  shows "arr_wf (snd (SortedArray_Set a k v)) \<and> arr_wf (SortedArray_Del a k) \<and>
    fst (SortedArray_Set a k v) = snd (SortedArray_Get a k) \<and>
    SortedArray_state (snd (SortedArray_Set a k v)) j = (if j = k then (entryPresent, v) else SortedArray_state a j) \<and>
    SortedArray_state (SortedArray_Del a k) j = (if j = k then (entryTombstone, []) else SortedArray_state a j)"
  using SortedArray_update(1,3) [OF assms] memtable_state [OF assms]
  by (simp add: SortedArray_Set_flag SortedArray_Get_def split: prod.split)

theorem memtable_map_witness:
  "arr_wf (snd (SortedArray_Set sample_mem [1, 0] [4])) \<and> arr_wf (SortedArray_Del sample_mem [1, 0]) \<and>
    fst (SortedArray_Set sample_mem [1, 0] [4]) = snd (SortedArray_Get sample_mem [1, 0]) \<and>
    SortedArray_state (snd (SortedArray_Set sample_mem [1, 0] [4])) [1] =
      (if [1 :: byte] = [1, 0] then (entryPresent, [4]) else SortedArray_state sample_mem [1]) \<and>
    SortedArray_state (SortedArray_Del sample_mem [1, 0]) [1] =
      (if [1 :: byte] = [1, 0] then (entryTombstone, []) else SortedArray_state sample_mem [1])"
  by (rule memtable_map [OF sample_mem_wf])

text \<open>C16: An SSTable reads back: a MemTable that \<^verbatim>\<open>CreateFromSorted\<close> wrote without an error opens
  again, and for every key the binary search over the file finds the entry the MemTable held, its
  tombstones included; without disk faults the file is written.\<close>

definition found_at :: "SortedFileIter \<Rightarrow> bytes \<Rightarrow> Entry option" where
  "found_at it k =
     (if SortedFileIter_Valid it \<and> fi_key it = k
      then Some \<lparr>e_key = k, e_val = fi_val it, e_deleted = fi_deleted it\<rparr> else None)"

lemma sstable_open_seek:
  assumes "files d n = Some c" "sst_contents c est es" "sst_room est es" "sorted_entries es"
  shows "\<exists>f. SortedFile_Open (new_file n) d = (Inr (), f) \<and>
    (\<forall>k. \<exists>it. SortedFile_Seek f k = Some (Inr it) \<and>
       found_at it k = es_map es k)"
proof -
  let ?f = "\<lparr>sf_FileName = n, sf_fp = Some c, sf_nkeys = int (length es)\<rparr>"
  have "length (concat (map enc es)) \<ge> length es" by (induction es) (simp_all add: length_enc)
  then have "length es < 2 ^ 63" using assms(3) by (simp add: sst_room_def rec_off_def)
  then have o: "SortedFile_Open (new_file n) d = (Inr (), ?f)"
    using SortedFile_Open_correct [of d "new_file n" c est es] assms by (simp add: new_file_def)
  have wf: "sf_wf ?f" "sf_entries ?f = es" using sf_open_wf [OF _ _ assms(2-4), of ?f] by simp_all
  have "\<exists>it. SortedFile_Seek ?f k = Some (Inr it) \<and>
      found_at it k = es_map es k" for k
    using SortedFile_Seek_correct [OF wf(1), of k] Seek_hit [OF wf(1), of k] wf(2) unfolding found_at_def by metis
  then show ?thesis using o by blast
qed

theorem sstable_round_trip:
  assumes "arr_wf a" "sst_room (SortedArray_EstimatedSize a) (arr_entries a)"
  shows "\<exists>r f' d'. SortedFile_CreateFromSorted level_ops (SortedArray_EstimatedSize a) (SortedKV_Iter (MemKV a)) (new_file n) d =
      Some (r, f', d') \<and> (fault_free d \<longrightarrow> r = Inr ()) \<and>
    (r = Inr () \<longrightarrow> (\<exists>f. SortedFile_Open (new_file n) d' = (Inr (), f) \<and>
      (\<forall>k. \<exists>it. SortedFile_Seek f k = Some (Inr it) \<and>
         found_at it k = es_map (arr_entries a) k)))"
proof -
  let ?es = "arr_entries a"
  have est: "SortedArray_EstimatedSize a = length ?es"
    using assms(1) by (simp add: SortedArray_EstimatedSize_def arr_wf_lengths)
  obtain it where it: "SortedKV_Iter (MemKV a) = Some (Inr it)" "level_inv it" "level_rep it = ?es" "level_pos it = 0"
    using mem_cursor [OF assms(1)] by blast
  obtain r f' d' where cr: "SortedFile_CreateFromSorted level_ops (length ?es) (SortedKV_Iter (MemKV a)) (new_file n) d = Some (r, f', d')"
    and ok: "r = Inr () \<longrightarrow> (\<exists>c. files d' n = Some c \<and> sst_contents c (length ?es) ?es)"
    and ff: "fault_free d \<longrightarrow> r = Inr ()"
    using levels.CreateFromSorted_correct [OF it(1,2,4), of "length ?es" "new_file n" d] it(3) by (auto simp: new_file_def)
  have es: "sorted_entries ?es" "sst_room (length ?es) ?es" using assms est by (simp_all add: arr_wf_def)
  have "\<exists>f. SortedFile_Open (new_file n) d' = (Inr (), f) \<and>
      (\<forall>k. \<exists>it. SortedFile_Seek f k = Some (Inr it) \<and> found_at it k = es_map ?es k)" if "r = Inr ()"
    using ok that sstable_open_seek [OF _ _ es(2,1)] by blast
  then show ?thesis using cr ff unfolding est by blast
qed

theorem sstable_round_trip_witness:
  "\<exists>r f' d'. SortedFile_CreateFromSorted level_ops (SortedArray_EstimatedSize sample_mem) (SortedKV_Iter (MemKV sample_mem))
      (new_file ''t'') empty_disk = Some (r, f', d') \<and> (fault_free empty_disk \<longrightarrow> r = Inr ()) \<and>
    (r = Inr () \<longrightarrow> (\<exists>f. SortedFile_Open (new_file ''t'') d' = (Inr (), f) \<and>
      (\<forall>k. \<exists>it. SortedFile_Seek f k = Some (Inr it) \<and>
         found_at it k = es_map (arr_entries sample_mem) k)))"
  by (rule sstable_round_trip [OF sample_mem_wf])
    (simp add: sample_mem_def SortedArray_EstimatedSize_def arr_entries_def sst_room_def rec_off_def length_enc entry_fits_def)



text \<open>A metadata slot whose write was cut short is never taken for a value: every proper prefix of
  a slot fails its length or checksum test, and the whole slot decodes to what was written.\<close>

theorem meta_slot_torn:
  assumes "plain_meta data"
  shows "slot_decode (take n (slot_bytes data)) = (if n < length (slot_bytes data) then None else Some data)"
  using slot_decode_torn [OF assms, of n] slot_decode_bytes [OF assms] by simp

theorem meta_slot_torn_witness:
  "slot_decode (take 20 (slot_bytes \<lparr>md_Version = 3, md_SSTables = [sstable_name 2]\<rparr>)) =
     (if 20 < length (slot_bytes \<lparr>md_Version = 3, md_SSTables = [sstable_name 2]\<rparr>) then None
      else Some \<lparr>md_Version = 3, md_SSTables = [sstable_name 2]\<rparr>)"
  by (rule meta_slot_torn) (simp add: plain_meta_def)

end
