(* ===== verification/Cell.thy ===== *)
theory Cell
  imports Sorted_Entries SortedArray
begin

text \<open>
  \<^verbatim>\<open>table/cell.go\<close>: typed cells and their two encodings.  A \<^verbatim>\<open>Cell\<close> is a record with the three
  fields of the struct; its type is a byte, so that the zero cell (type 0) exists and reaches the
  \<^verbatim>\<open>default\<close> branches.  Encoders append to the buffer they are given and are \<open>None\<close> where the code
  panics.  The lemmas show that both encodings read back and that the key encoding is
  order-preserving and prefix-free; the last two facts are the contract \<open>order_code\<close>, proved once for
  any such code and interpreted for integers, strings, tagged cells and tuples of cells.
\<close>

section \<open>Cells\<close>

type_synonym CellType = "8 word"

abbreviation TypeI64 :: CellType where "TypeI64 \<equiv> 1"
abbreviation TypeStr :: CellType where "TypeStr \<equiv> 2"

record Cell =
  c_Type :: CellType
  c_I64 :: "64 word"
  c_Str :: bytes

definition zero_cell :: Cell where
  "zero_cell = \<lparr>c_Type = 0, c_I64 = 0, c_Str = []\<rparr>"

section \<open>Values\<close>

definition Cell_EncodeVal :: "Cell \<Rightarrow> bytes \<Rightarrow> bytes option" where
  "Cell_EncodeVal cell toAppend =
     (if c_Type cell = TypeI64 then Some (toAppend @ le_bytes 8 (c_I64 cell))
      else if c_Type cell = TypeStr
        then Some (toAppend @ le_bytes 4 (len32 (c_Str cell)) @ c_Str cell)
      else None)"

text \<open>The result is the rest of the data and the cell as it was filled in.\<close>

definition Cell_DecodeVal :: "Cell \<Rightarrow> bytes \<Rightarrow> (bytes \<times> Cell) res" where
  "Cell_DecodeVal cell data =
     (if c_Type cell = TypeI64
      then (if length data < 8 then Inl ErrShortCell
            else Inr (drop 8 data, cell\<lparr>c_I64 := le_word (take 8 data)\<rparr>))
      else if c_Type cell = TypeStr
      then (if length data < 4 then Inl ErrShortCell
            else let n = le_word (take 4 data) :: u32; data1 = drop 4 data in
              if len32 data1 < n then Inl ErrShortCell
              else Inr (drop (unat n) data1, cell\<lparr>c_Str := take (unat n) data1\<rparr>))
      else Inl (ErrMsg ''cell: unknown type''))"

section \<open>Keys\<close>

definition key_escape :: "byte \<Rightarrow> bytes" where
  "key_escape ch = (if ch = 0 \<or> ch = 1 then [1, ch + 1] else [ch])"

definition encodeStrKey :: "bytes \<Rightarrow> bytes \<Rightarrow> bytes" where
  "encodeStrKey out input = out @ concat (map key_escape input) @ [0]"

fun decodeStrKey_loop :: "bytes \<Rightarrow> bytes \<Rightarrow> (bytes \<times> bytes) res" where
  "decodeStrKey_loop s [] = Inl ErrShortCell"
| "decodeStrKey_loop s (b # bs) =
     (if b = 0 then Inr (bs, s)
      else if b = 1 then
        (case bs of
           [] \<Rightarrow> Inl (ErrMsg ''cell: bad key escape'')
         | c # cs \<Rightarrow>
             if c \<noteq> 1 \<and> c \<noteq> 2 then Inl (ErrMsg ''cell: bad key escape'')
             else decodeStrKey_loop (s @ [c - 1]) cs)
      else decodeStrKey_loop (s @ [b]) bs)"

definition decodeStrKey :: "Cell \<Rightarrow> bytes \<Rightarrow> (bytes \<times> Cell) res" where
  "decodeStrKey cell data =
     (case decodeStrKey_loop [] data of Inl e \<Rightarrow> Inl e | Inr (rest, s) \<Rightarrow> Inr (rest, cell\<lparr>c_Str := s\<rparr>))"

definition sign_flip :: "64 word \<Rightarrow> 64 word" where
  "sign_flip w = w XOR push_bit 63 1"

definition Cell_EncodeKey :: "Cell \<Rightarrow> bytes \<Rightarrow> bytes option" where
  "Cell_EncodeKey cell out =
     (if c_Type cell = TypeI64 then Some (out @ be_bytes 8 (sign_flip (c_I64 cell)))
      else if c_Type cell = TypeStr then Some (encodeStrKey out (c_Str cell))
      else None)"

definition Cell_DecodeKey :: "Cell \<Rightarrow> bytes \<Rightarrow> (bytes \<times> Cell) res" where
  "Cell_DecodeKey cell data =
     (if c_Type cell = TypeI64
      then (if length data < 8 then Inl ErrShortCell
            else Inr (drop 8 data, cell\<lparr>c_I64 := sign_flip (be_word (take 8 data))\<rparr>))
      else if c_Type cell = TypeStr then decodeStrKey cell data
      else Inl (ErrMsg ''cell: unknown type''))"

section \<open>Reading back\<close>

definition cell_typed :: "Cell \<Rightarrow> bool" where
  "cell_typed c \<longleftrightarrow> c_Type c = TypeI64 \<or> c_Type c = TypeStr"

definition cell_fits :: "Cell \<Rightarrow> bool" where
  "cell_fits c \<longleftrightarrow> cell_typed c \<and> (c_Type c = TypeStr \<longrightarrow> length (c_Str c) < 2 ^ 32)"

text \<open>What decoding puts into a cell: the field its type selects.\<close>

definition cell_filled :: "Cell \<Rightarrow> Cell \<Rightarrow> Cell" where
  "cell_filled c0 c = (if c_Type c = TypeI64 then c0\<lparr>c_I64 := c_I64 c\<rparr> else c0\<lparr>c_Str := c_Str c\<rparr>)"

lemma sign_flip_flip [simp]: "sign_flip (sign_flip w) = w"
  by (simp add: sign_flip_def xor.assoc)

definition cell_val_bytes :: "Cell \<Rightarrow> bytes" where
  "cell_val_bytes c = the (Cell_EncodeVal c [])"

definition cell_key_bytes :: "Cell \<Rightarrow> bytes" where
  "cell_key_bytes c = the (Cell_EncodeKey c [])"

lemma Cell_Encode_append:
  "cell_typed c \<Longrightarrow> Cell_EncodeVal c out = Some (out @ cell_val_bytes c)"
  "cell_typed c \<Longrightarrow> Cell_EncodeKey c out = Some (out @ cell_key_bytes c)"
  by (auto simp: cell_typed_def cell_val_bytes_def cell_key_bytes_def Cell_EncodeVal_def Cell_EncodeKey_def encodeStrKey_def)

lemma Cell_Encode_panic:
  "\<not> cell_typed c \<Longrightarrow> Cell_EncodeVal c out = None" "\<not> cell_typed c \<Longrightarrow> Cell_EncodeKey c out = None"
  by (simp_all add: cell_typed_def Cell_EncodeVal_def Cell_EncodeKey_def)

text \<open>The length test of \<^verbatim>\<open>DecodeVal\<close> is taken modulo \<open>2 ^ 32\<close>, so the data that follow count.\<close>

lemma Cell_DecodeVal_bytes:
  assumes "cell_typed c" "c_Type c0 = c_Type c" "length (cell_val_bytes c @ rest) < 2 ^ 32"
  shows "Cell_DecodeVal c0 (cell_val_bytes c @ rest) = Inr (rest, cell_filled c0 c)"
proof (cases "c_Type c = TypeI64")
  case True
  then show ?thesis using assms
    by (simp add: cell_val_bytes_def Cell_EncodeVal_def Cell_DecodeVal_def cell_filled_def codec_simps)
next
  case False
  then have s: "c_Type c = TypeStr" using assms(1) by (simp add: cell_typed_def)
  let ?n = "len32 (c_Str c)"
  have v: "cell_val_bytes c = le_bytes 4 ?n @ c_Str c" using s by (simp add: cell_val_bytes_def Cell_EncodeVal_def)
  have l: "length (c_Str c @ rest) < 2 ^ 32" using assms(3) v by simp
  then have n: "unat ?n = length (c_Str c)" "unat (len32 (c_Str c @ rest)) = length (c_Str c @ rest)"
    by (intro unat_len32; simp)+
  then have "\<not> len32 (c_Str c @ rest) < ?n" by (simp add: word_less_nat_alt)
  then show ?thesis using assms(2) s n(1)
    by (simp add: v Cell_DecodeVal_def codec_simps Let_def cell_filled_def)
qed

lemma escape_bytes: "concat (map key_escape (c # s)) = key_escape c @ concat (map key_escape s)"
  by simp

lemma decodeStrKey_loop_encode:
  "decodeStrKey_loop acc (concat (map key_escape s) @ 0 # rest) = Inr (rest, acc @ s)"
proof (induction s arbitrary: acc)
  case (Cons c s)
  have "c = 0 \<or> c = 1 \<or> (c \<noteq> 0 \<and> c \<noteq> 1)" by blast
  then show ?case using Cons by (auto simp: key_escape_def)
qed simp

lemma Cell_DecodeKey_bytes:
  assumes "cell_typed c" "c_Type c0 = c_Type c"
  shows "Cell_DecodeKey c0 (cell_key_bytes c @ rest) = Inr (rest, cell_filled c0 c)"
proof (cases "c_Type c = TypeI64")
  case True
  then show ?thesis using assms
    by (simp add: cell_key_bytes_def Cell_EncodeKey_def Cell_DecodeKey_def cell_filled_def codec_simps)
next
  case False
  then have s: "c_Type c = TypeStr" using assms(1) by (simp add: cell_typed_def)
  then show ?thesis using assms(2) decodeStrKey_loop_encode [of "[]" "c_Str c" rest]
    by (simp add: cell_key_bytes_def Cell_EncodeKey_def encodeStrKey_def Cell_DecodeKey_def decodeStrKey_def cell_filled_def)
qed

section \<open>Order\<close>

text \<open>The value of a cell, ordered as the database orders cells: integers by value, strings
  byte-wise; the tag orders the two types.\<close>

datatype KeyVal = KInt int | KStr bytes

instantiation KeyVal :: linorder
begin

definition less_KeyVal :: "KeyVal \<Rightarrow> KeyVal \<Rightarrow> bool" where
  "a < b \<longleftrightarrow> (case (a, b) of
     (KInt x, KInt y) \<Rightarrow> x < y | (KStr x, KStr y) \<Rightarrow> x < y | (KInt _, KStr _) \<Rightarrow> True | (KStr _, KInt _) \<Rightarrow> False)"

definition less_eq_KeyVal :: "KeyVal \<Rightarrow> KeyVal \<Rightarrow> bool" where
  "a \<le> b \<longleftrightarrow> a = b \<or> a < (b :: KeyVal)"

instance
  by standard (auto simp: less_KeyVal_def less_eq_KeyVal_def split: KeyVal.splits)

end

definition cell_val :: "Cell \<Rightarrow> KeyVal" where
  "cell_val c = (if c_Type c = TypeI64 then KInt (sint (c_I64 c)) else KStr (c_Str c))"

text \<open>A code whose byte order is the order of the values it codes, whatever follows it.\<close>

locale order_code =
  fixes ok :: "'a \<Rightarrow> bool"
    and code :: "'a \<Rightarrow> bytes"
    and val :: "'a \<Rightarrow> 'v::linorder"
  assumes code_less: "ok a \<Longrightarrow> ok b \<Longrightarrow>
      code a @ x < code b @ y \<longleftrightarrow> val a < val b \<or> val a = val b \<and> x < y"
begin

lemma code_eq: "ok a \<Longrightarrow> ok b \<Longrightarrow> code a @ x = code b @ y \<longleftrightarrow> val a = val b \<and> x = y"
  using code_less [of a b x y] code_less [of b a y x] by (metis less_linear not_less_iff_gr_or_eq)

lemma code_le: "ok a \<Longrightarrow> ok b \<Longrightarrow> code a @ x \<le> code b @ y \<longleftrightarrow> val a < val b \<or> val a = val b \<and> x \<le> y"
  using code_less [of a b x y] code_eq [of a b x y] by (auto simp: order_le_less)

lemma prefix_free: "ok a \<Longrightarrow> ok b \<Longrightarrow> code a @ x = code b \<Longrightarrow> val a = val b \<and> x = []"
  using code_eq [of a b x "[]"] by simp

text \<open>Concatenated codes order tuples.\<close>

lemma codes_less:
  assumes "list_all ok as" "list_all ok bs" "length as = length bs"
  shows "concat (map code as) @ x < concat (map code bs) @ y \<longleftrightarrow>
    map val as < map val bs \<or> map val as = map val bs \<and> x < y"
  using assms(3,1,2)
  by (induction as bs rule: list_induct2) (auto simp: code_less)

lemma tuple_code: "order_code (\<lambda>as. list_all ok as \<and> length as = n) (\<lambda>as. concat (map code as)) (map val)"
  by unfold_locales (simp add: codes_less)

end

subsection \<open>Integers\<close>

lemma less_append_same_length:
  fixes xs ys u v :: bytes
  shows "length xs = length ys \<Longrightarrow> xs @ u < ys @ v \<longleftrightarrow> xs < ys \<or> xs = ys \<and> u < v"
  by (induction xs ys rule: list_induct2) auto

lemma be_bytes_Suc: "be_bytes (Suc n) w = be_bytes n (drop_bit 8 w) @ [ucast w]"
  by (simp add: be_bytes_def)

lemma be_bytes_mod:
  fixes v w :: "'a::len word"
  shows "(be_bytes n v < be_bytes n w \<longleftrightarrow> unat v mod 256 ^ n < unat w mod 256 ^ n) \<and>
    (be_bytes n v = be_bytes n w \<longleftrightarrow> unat v mod 256 ^ n = unat w mod 256 ^ n)"
proof (induction n arbitrary: v w)
  case 0
  then show ?case by (simp add: be_bytes_def)
next
  case (Suc n)
  have d: "unat (drop_bit 8 u) = unat u div 256" for u :: "'a word"
    unfolding unat_drop_bit_eq by (simp add: drop_bit_eq_div)
  have m: "unat u mod 256 ^ Suc n = 256 * (unat u div 256 mod 256 ^ n) + unat u mod 256" for u :: "'a word"
    by (simp add: mod_mult2_eq)
  have b: "unat (ucast u :: byte) = unat u mod 256" for u :: "'a word"
    by (simp add: unsigned_ucast_eq take_bit_eq_mod)
  have lex: "256 * a + p < 256 * b + q \<longleftrightarrow> a < b \<or> a = b \<and> p < q" "256 * a + p = 256 * b + q \<longleftrightarrow> a = b \<and> p = q"
    if "p < 256" "q < 256" for a b p q :: nat
  proof -
    consider "Suc a \<le> b" | "a = b" | "Suc b \<le> a" by linarith
    then show "256 * a + p < 256 * b + q \<longleftrightarrow> a < b \<or> a = b \<and> p < q" "256 * a + p = 256 * b + q \<longleftrightarrow> a = b \<and> p = q"
      using that by (cases; linarith)+
  qed
  have less: "(ucast v :: byte) < ucast w \<longleftrightarrow> unat v mod 256 < unat w mod 256"
    by (simp add: word_less_nat_alt b)
  have eq: "(ucast v :: byte) = ucast w \<longleftrightarrow> unat v mod 256 = unat w mod 256"
    by (metis b word_unat_eq_iff)
  show ?case
    unfolding be_bytes_Suc m lex(1) [OF mod_less_divisor mod_less_divisor, simplified] lex(2) [OF mod_less_divisor mod_less_divisor, simplified]
    using Suc [of "drop_bit 8 v" "drop_bit 8 w"] less eq by (simp add: less_append_same_length d)
qed

lemma be_bytes_less: "be_bytes 8 (v :: 64 word) < be_bytes 8 w \<longleftrightarrow> v < w"
proof -
  have "unat u mod 256 ^ 8 = unat u" for u :: "64 word"
    using unsigned_less [of u, where 'a = nat] by simp
  then show ?thesis using be_bytes_mod [of 8 v w] by (simp add: word_less_nat_alt)
qed

lemma be_bytes_eq [simp]: "be_bytes 8 (v :: 64 word) = be_bytes 8 w \<longleftrightarrow> v = w"
  using be_bytes_less [of v w] be_bytes_less [of w v] by (cases v w rule: linorder_cases) auto

text \<open>Flipping the sign bit maps the signed order onto the unsigned one.\<close>

lemma sign_flip_add: "sign_flip w = w + push_bit 63 1"
proof -
  define m :: "64 word" where "m = push_bit 63 1"
  have m: "bit m n \<longleftrightarrow> n = 63" for n
    unfolding m_def bit_push_bit_iff by (auto simp: bit_1_iff)
  have mm: "m + m = 0" by (simp add: m_def)
  have "w XOR m = w + m"
  proof (cases "bit w 63")
    case False
    then have "w AND m = 0" by (intro bit_word_eqI) (auto simp: bit_and_iff m)
    then show ?thesis by (simp add: disjunctive_add_eq_xor)
  next
    case True
    then have "(w XOR m) AND m = 0" by (intro bit_word_eqI) (auto simp: bit_and_iff bit_xor_iff m)
    then have "(w XOR m) + m = w" by (simp add: disjunctive_add_eq_xor xor.assoc)
    then have "w + m = (w XOR m) + (m + m)" by (simp only: add.assoc [symmetric])
    then show ?thesis by (simp only: mm add_0_right)
  qed
  then show ?thesis by (simp only: sign_flip_def m_def)
qed

lemma sint_sign_flip: "sint w = uint (sign_flip w) - 2 ^ 63"
  by (simp add: sint_uint signed_take_bit_eq_take_bit_shift sign_flip_add uint_word_ariths take_bit_eq_mod)

lemma sign_flip_order: "sint v < sint w \<longleftrightarrow> sign_flip v < sign_flip w"
  by (simp add: sint_sign_flip word_less_def)

interpretation i64_key: order_code "\<lambda>_. True" "\<lambda>w. be_bytes 8 (sign_flip w)" "sint :: 64 word \<Rightarrow> int"
proof
  fix a b :: "64 word" and x y :: bytes
  have "sint a = sint b \<longleftrightarrow> sign_flip a = sign_flip b"
    by (metis sign_flip_flip signed_word_eqI)
  then show "be_bytes 8 (sign_flip a) @ x < be_bytes 8 (sign_flip b) @ y \<longleftrightarrow>
      sint a < sint b \<or> sint a = sint b \<and> x < y"
    by (simp add: less_append_same_length be_bytes_less sign_flip_order)
qed

subsection \<open>Strings\<close>

definition str_key_bytes :: "bytes \<Rightarrow> bytes" where
  "str_key_bytes s = encodeStrKey [] s"

lemma str_key_bytes_simps [simp]:
  "str_key_bytes [] = [0]" "str_key_bytes (c # s) = key_escape c @ str_key_bytes s"
  by (simp_all add: str_key_bytes_def encodeStrKey_def)

lemma byte_cases:
  obtains "c = (0 :: byte)" | "c = 1" | "1 < c" "0 < c" "c \<noteq> 0" "c \<noteq> 1"
proof -
  consider "unat c = 0" | "unat c = 1" | "1 < unat c" by arith
  then show thesis
  proof cases
    case 1
    then have "c = 0" by (simp add: unat_eq_0)
    then show thesis by (rule that(1))
  next
    case 2
    then have "c = 1" by (simp add: word_unat_eq_iff)
    then show thesis by (rule that(2))
  next
    case 3
    then show thesis by (intro that(3)) (auto simp: word_less_nat_alt)
  qed
qed

lemma key_escape_less:
  "key_escape a @ x < key_escape b @ y \<longleftrightarrow> a < b \<or> a = b \<and> x < y"
  by (cases a rule: byte_cases; cases b rule: byte_cases) (auto simp: key_escape_def)

lemma key_escape_terminator: "0 # x < key_escape b @ y" "\<not> key_escape b @ y < 0 # x"
  by (cases b rule: byte_cases; simp add: key_escape_def)+

interpretation str_key: order_code "\<lambda>_. True" str_key_bytes "\<lambda>s. s"
proof
  show "str_key_bytes a @ x < str_key_bytes b @ y \<longleftrightarrow> a < b \<or> a = b \<and> x < y" for a b x y :: bytes
  proof (induction a arbitrary: b)
    case Nil
    then show ?case by (cases b) (simp_all add: key_escape_terminator)
  next
    case (Cons c s)
    then show ?case by (cases b) (auto simp: key_escape_terminator key_escape_less)
  qed
qed

subsection \<open>Cells\<close>

definition tagged_key :: "Cell \<Rightarrow> bytes" where
  "tagged_key c = c_Type c # cell_key_bytes c"

interpretation cell_key: order_code cell_typed tagged_key cell_val
proof
  fix a b x y assume ab: "cell_typed a" "cell_typed b"
  have kb: "cell_key_bytes c = (if c_Type c = TypeI64 then be_bytes 8 (sign_flip (c_I64 c)) else str_key_bytes (c_Str c))"
    if "cell_typed c" for c
    using that by (auto simp: cell_typed_def cell_key_bytes_def Cell_EncodeKey_def str_key_bytes_def)
  show "tagged_key a @ x < tagged_key b @ y \<longleftrightarrow> cell_val a < cell_val b \<or> cell_val a = cell_val b \<and> x < y"
    using ab i64_key.code_less [of "c_I64 a" x "c_I64 b" y] str_key.code_less [of "c_Str a" x "c_Str b" y]
    by (auto simp: tagged_key_def kb cell_typed_def cell_val_def less_KeyVal_def)
qed

text \<open>Two cells of one type, as bare key columns.\<close>

lemma cell_key_same_type:
  assumes "cell_typed a" "c_Type b = c_Type a"
  shows "cell_key_bytes a @ x < cell_key_bytes b @ y \<longleftrightarrow> cell_val a < cell_val b \<or> cell_val a = cell_val b \<and> x < y"
  using cell_key.code_less [of a b x y] assms by (simp add: tagged_key_def cell_typed_def)

abbreviation "tuple_key cs \<equiv> concat (map tagged_key cs)"

interpretation tuple_key: order_code "\<lambda>cs. list_all cell_typed cs \<and> length cs = n" "\<lambda>cs. tuple_key cs" "map cell_val" for n
  by (rule cell_key.tuple_code)

end
