(* ===== verification/Schema.thy ===== *)
theory Schema
  imports Cell
begin

text \<open>
  \<^verbatim>\<open>table/schema.go\<close>: tables, rows and their KV pairs.  Column numbers are integers and an index out
  of range is a panic (\<open>None\<close>), as in the code.  Decoding fills a row in place, so it is a state
  transformer that returns the row also when it fails half way.  The lemmas show that a row reads
  back from its KV pair, that byte order on keys is tuple order on primary keys, that the padded
  prefixes of \<^verbatim>\<open>EncodeKeyPrefix\<close> bound exactly the rows they should, and that tables do not overlap.
\<close>

record Column =
  col_Name :: string
  col_Type :: CellType

record Schema =
  sc_Table :: string
  sc_Cols :: "Column list"
  sc_PKey :: "int list"

type_synonym Row = "Cell list"

primrec ColIndex_loop :: "string \<Rightarrow> int \<Rightarrow> Column list \<Rightarrow> int" where
  "ColIndex_loop name i [] = -1"
| "ColIndex_loop name i (c # cs) = (if col_Name c = name then i else ColIndex_loop name (i + 1) cs)"

definition Schema_ColIndex :: "Schema \<Rightarrow> string \<Rightarrow> int" where
  "Schema_ColIndex sc name = ColIndex_loop name 0 (sc_Cols sc)"

definition Schema_IsPKey :: "Schema \<Rightarrow> int \<Rightarrow> bool" where
  "Schema_IsPKey sc i \<longleftrightarrow> i \<in> set (sc_PKey sc)"

definition Schema_NewRow :: "Schema \<Rightarrow> Row" where
  "Schema_NewRow sc = replicate (length (sc_Cols sc)) zero_cell"

section \<open>Encoding\<close>

definition table_prefix :: "Schema \<Rightarrow> bytes" where
  "table_prefix sc = bytes_of (sc_Table sc) @ [0]"

primrec EncodeKey_cols :: "Row \<Rightarrow> int list \<Rightarrow> bytes \<Rightarrow> bytes option" where
  "EncodeKey_cols row [] key = Some key"
| "EncodeKey_cols row (idx # ids) key =
     (case slice_at row idx of
        None \<Rightarrow> None
      | Some c \<Rightarrow>
          (case Cell_EncodeKey c (key @ [c_Type c]) of
             None \<Rightarrow> None
           | Some key' \<Rightarrow> EncodeKey_cols row ids key'))"

definition Row_EncodeKey :: "Schema \<Rightarrow> Row \<Rightarrow> bytes option" where
  "Row_EncodeKey sc row = map_option (\<lambda>key. key @ [0]) (EncodeKey_cols row (sc_PKey sc) (table_prefix sc))"

primrec EncodeKeyPrefix_cells :: "Cell list \<Rightarrow> bytes \<Rightarrow> bytes option" where
  "EncodeKeyPrefix_cells [] key = Some key"
| "EncodeKeyPrefix_cells (c # cs) key =
     (case Cell_EncodeKey c (key @ [c_Type c]) of
        None \<Rightarrow> None
      | Some key' \<Rightarrow> EncodeKeyPrefix_cells cs key')"

definition EncodeKeyPrefix :: "Schema \<Rightarrow> Cell list \<Rightarrow> bool \<Rightarrow> bytes option" where
  "EncodeKeyPrefix sc pfx positive =
     map_option (\<lambda>key. if positive then key @ [255] else key) (EncodeKeyPrefix_cells pfx (table_prefix sc))"

primrec EncodeVal_cols :: "Schema \<Rightarrow> Row \<Rightarrow> int list \<Rightarrow> bytes \<Rightarrow> bytes option" where
  "EncodeVal_cols sc row [] v = Some v"
| "EncodeVal_cols sc row (i # is) v =
     (if Schema_IsPKey sc i then EncodeVal_cols sc row is v
      else case slice_at row i of
        None \<Rightarrow> None
      | Some c \<Rightarrow> (case Cell_EncodeVal c v of None \<Rightarrow> None | Some v' \<Rightarrow> EncodeVal_cols sc row is v'))"

definition col_indices :: "Schema \<Rightarrow> int list" where
  "col_indices sc = map int [0..<length (sc_Cols sc)]"

definition Row_EncodeVal :: "Schema \<Rightarrow> Row \<Rightarrow> bytes option" where
  "Row_EncodeVal sc row = EncodeVal_cols sc row (col_indices sc) []"

section \<open>Decoding\<close>

primrec DecodeKey_cols :: "Schema \<Rightarrow> int list \<Rightarrow> bytes \<Rightarrow> (Row, unit) st" where
  "DecodeKey_cols sc [] rest row = Some (Inr (), row)"
| "DecodeKey_cols sc (idx # ids) rest row =
     (if length rest < 1 then Some (Inl ErrShortCell, row)
      else (case (slice_at row idx, slice_at (sc_Cols sc) idx) of
          (Some c, Some col) \<Rightarrow>
            let c1 = c\<lparr>c_Type := col_Type col\<rparr> in
            (case Cell_DecodeKey c1 (drop 1 rest) of
               Inl e \<Rightarrow> Some (Inl e, row[nat idx := c1])
             | Inr (rest', c2) \<Rightarrow> DecodeKey_cols sc ids rest' (row[nat idx := c2]))
        | _ \<Rightarrow> None))"

definition Row_DecodeKey :: "Schema \<Rightarrow> bytes \<Rightarrow> (Row, unit) st" where
  "Row_DecodeKey sc key row =
     (let pfx = table_prefix sc in
      if length key < length pfx \<or> take (length pfx) key \<noteq> pfx then Some (Inl ErrOutOfRange, row)
      else DecodeKey_cols sc (sc_PKey sc) (drop (length pfx) key) row)"

primrec DecodeVal_cols :: "Schema \<Rightarrow> int list \<Rightarrow> bytes \<Rightarrow> (Row, unit) st" where
  "DecodeVal_cols sc [] rest row = Some (Inr (), row)"
| "DecodeVal_cols sc (i # is) rest row =
     (if Schema_IsPKey sc i then DecodeVal_cols sc is rest row
      else (case (slice_at row i, slice_at (sc_Cols sc) i) of
          (Some c, Some col) \<Rightarrow>
            let c1 = c\<lparr>c_Type := col_Type col\<rparr> in
            (case Cell_DecodeVal c1 rest of
               Inl e \<Rightarrow> Some (Inl e, row[nat i := c1])
             | Inr (rest', c2) \<Rightarrow> DecodeVal_cols sc is rest' (row[nat i := c2]))
        | _ \<Rightarrow> None))"

definition Row_DecodeVal :: "Schema \<Rightarrow> bytes \<Rightarrow> (Row, unit) st" where
  "Row_DecodeVal sc val row = DecodeVal_cols sc (col_indices sc) val row"

section \<open>Well-formed schemas and rows\<close>

definition schema_ok :: "Schema \<Rightarrow> bool" where
  "schema_ok sc \<longleftrightarrow>
     0 \<notin> set (bytes_of (sc_Table sc)) \<and>
     (\<forall>col\<in>set (sc_Cols sc). col_Type col = TypeI64 \<or> col_Type col = TypeStr) \<and>
     (\<forall>i\<in>set (sc_PKey sc). 0 \<le> i \<and> i < int (length (sc_Cols sc)))"

definition row_ok :: "Schema \<Rightarrow> Row \<Rightarrow> bool" where
  "row_ok sc row \<longleftrightarrow> map c_Type row = map col_Type (sc_Cols sc)"

text \<open>A cell that holds nothing beside the field its type selects.\<close>

definition cell_plain :: "Cell \<Rightarrow> bool" where
  "cell_plain c \<longleftrightarrow> (if c_Type c = TypeI64 then c_Str c = [] else c_I64 c = 0)"

definition pkey_cells :: "Schema \<Rightarrow> Row \<Rightarrow> Cell list" where
  "pkey_cells sc row = map (\<lambda>i. row ! nat i) (sc_PKey sc)"

abbreviation pkey_vals :: "Schema \<Rightarrow> Row \<Rightarrow> KeyVal list" where
  "pkey_vals sc row \<equiv> map cell_val (pkey_cells sc row)"

lemma row_ok_length: "row_ok sc row \<Longrightarrow> length row = length (sc_Cols sc)"
  unfolding row_ok_def by (metis length_map)

lemma row_ok_nth:
  assumes "row_ok sc row" "i < length (sc_Cols sc)"
  shows "c_Type (row ! i) = col_Type (sc_Cols sc ! i)"
  using assms row_ok_length [OF assms(1)] unfolding row_ok_def by (metis nth_map)

lemma row_ok_typed:
  assumes "schema_ok sc" "row_ok sc row" "i < length (sc_Cols sc)"
  shows "cell_typed (row ! i)"
  using assms row_ok_nth [OF assms(2,3)] by (auto simp: schema_ok_def cell_typed_def)

text \<open>A row whose primary-key cells have their types, which is all the key needs.\<close>

definition row_key_ok :: "Schema \<Rightarrow> Row \<Rightarrow> bool" where
  "row_key_ok sc row \<longleftrightarrow> length row = length (sc_Cols sc) \<and>
     (\<forall>i\<in>set (sc_PKey sc). c_Type (row ! nat i) = col_Type (sc_Cols sc ! nat i))"

lemma row_ok_key: "schema_ok sc \<Longrightarrow> row_ok sc row \<Longrightarrow> row_key_ok sc row"
  using row_ok_nth [of sc row] row_ok_length [of sc row] by (auto simp: row_key_ok_def schema_ok_def nat_less_iff)

lemma pkey_cells_typed:
  assumes "schema_ok sc" "row_key_ok sc row"
  shows "list_all cell_typed (pkey_cells sc row)" "length (pkey_cells sc row) = length (sc_PKey sc)"
proof -
  have "cell_typed (row ! nat i)" if "i \<in> set (sc_PKey sc)" for i
    using assms that nth_mem [of "nat i" "sc_Cols sc"] by (auto simp: row_key_ok_def schema_ok_def cell_typed_def nat_less_iff)
  then show "list_all cell_typed (pkey_cells sc row)" "length (pkey_cells sc row) = length (sc_PKey sc)"
    by (simp_all add: pkey_cells_def list_all_iff)
qed

lemma slice_at_in [simp]: "0 \<le> i \<Longrightarrow> i < int (length xs) \<Longrightarrow> slice_at xs i = Some (xs ! nat i)"
  by (simp add: slice_at_def)

section \<open>Keys\<close>

lemma EncodeKey_cols_correct:
  "list_all cell_typed (map (\<lambda>i. row ! nat i) ids) \<Longrightarrow> \<forall>i\<in>set ids. 0 \<le> i \<and> i < int (length row) \<Longrightarrow>
   EncodeKey_cols row ids key = Some (key @ tuple_key (map (\<lambda>i. row ! nat i) ids))"
  by (induction ids arbitrary: key) (simp_all add: Cell_Encode_append tagged_key_def)

lemma Row_EncodeKey_correct:
  assumes "schema_ok sc" "row_key_ok sc row"
  shows "Row_EncodeKey sc row = Some (table_prefix sc @ tuple_key (pkey_cells sc row) @ [0])"
  using EncodeKey_cols_correct [of row "sc_PKey sc"] pkey_cells_typed(1) [OF assms] assms
  by (simp add: Row_EncodeKey_def pkey_cells_def schema_ok_def row_key_ok_def)

lemma EncodeKeyPrefix_cells_correct:
  "list_all cell_typed cs \<Longrightarrow> EncodeKeyPrefix_cells cs key = Some (key @ tuple_key cs)"
  by (induction cs arbitrary: key) (simp_all add: Cell_Encode_append tagged_key_def)

lemma EncodeKeyPrefix_correct:
  "list_all cell_typed cs \<Longrightarrow>
   EncodeKeyPrefix sc cs positive = Some (table_prefix sc @ tuple_key cs @ (if positive then [255] else []))"
  by (simp add: EncodeKeyPrefix_def EncodeKeyPrefix_cells_correct)

text \<open>Byte order on keys is tuple order on primary keys.\<close>

lemma append_less_same: "(u @ x < u @ y) = (x < (y :: bytes))" "(u @ x \<le> u @ y) = (x \<le> (y :: bytes))"
  by (induction u) auto

lemma key_tuple_order:
  assumes "schema_ok sc" "row_key_ok sc r" "row_key_ok sc s" "Row_EncodeKey sc r = Some k" "Row_EncodeKey sc s = Some l"
  shows "k < l \<longleftrightarrow> pkey_vals sc r < pkey_vals sc s" and "k = l \<longleftrightarrow> pkey_vals sc r = pkey_vals sc s"
proof -
  have kl: "k = table_prefix sc @ tuple_key (pkey_cells sc r) @ [0]" "l = table_prefix sc @ tuple_key (pkey_cells sc s) @ [0]"
    using assms(4,5) Row_EncodeKey_correct [OF assms(1,2)] Row_EncodeKey_correct [OF assms(1,3)] by simp_all
  note t = pkey_cells_typed [OF assms(1,2)] pkey_cells_typed [OF assms(1,3)]
  show "k < l \<longleftrightarrow> pkey_vals sc r < pkey_vals sc s"
    unfolding kl append_less_same
    using t by (subst tuple_key.code_less [where n = "length (sc_PKey sc)"]) simp_all
  show "k = l \<longleftrightarrow> pkey_vals sc r = pkey_vals sc s"
    unfolding kl same_append_eq
    using t by (subst tuple_key.code_eq [where n = "length (sc_PKey sc)"]) simp_all
qed

text \<open>A padded prefix bounds the rows whose primary key compares with it.\<close>

lemma key_prefix_bounds:
  assumes sc: "schema_ok sc" "row_key_ok sc r" and k: "Row_EncodeKey sc r = Some k"
    and p: "list_all cell_typed p" "length p \<le> length (sc_PKey sc)" and b: "EncodeKeyPrefix sc p positive = Some b"
  defines "pk \<equiv> take (length p) (pkey_vals sc r)" and "pv \<equiv> map cell_val p"
  shows "b \<le> k \<longleftrightarrow> (if positive then pv < pk else pv \<le> pk)"
    and "k \<le> b \<longleftrightarrow> (if positive then pk \<le> pv else pk < pv)"
proof -
  let ?n = "length p" and ?cs = "pkey_cells sc r" and ?q = "if positive then [255] else [] :: bytes"
  let ?x = "tuple_key (drop ?n ?cs) @ [0]"
  have "tuple_key (take ?n ?cs) @ tuple_key (drop ?n ?cs) = tuple_key ?cs"
    by (simp flip: concat_append map_append)
  then have kb: "k = table_prefix sc @ tuple_key (take ?n ?cs) @ ?x" "b = table_prefix sc @ tuple_key p @ ?q"
    using Row_EncodeKey_correct [OF sc] k EncodeKeyPrefix_correct [OF p(1), of sc positive] b by simp_all
  note typed = pkey_cells_typed [OF sc]
  have t: "list_all cell_typed (take ?n ?cs) \<and> length (take ?n ?cs) = ?n"
    using typed p(2) by (auto simp: list_all_iff dest: in_set_takeD)
  have tp: "list_all cell_typed p \<and> length p = ?n" using p(1) by simp
  have pk: "map cell_val (take ?n ?cs) = pk" by (simp add: pk_def take_map)
  have small: "hd ?x < 255 \<and> ?x \<noteq> []"
  proof (cases "drop ?n ?cs")
    case (Cons c cs)
    then have "c \<in> set ?cs" by (metis in_set_dropD list.set_intros(1))
    then have "cell_typed c" using typed(1) by (simp add: list_all_iff)
    then show ?thesis using Cons by (auto simp: tagged_key_def cell_typed_def)
  qed simp
  then obtain y ys where x: "?x = y # ys" "y < 255" by (cases ?x) auto
  have q: "?q \<le> ?x \<longleftrightarrow> \<not> positive" "?x \<le> ?q \<longleftrightarrow> positive" using x by (auto simp: not_le [symmetric])
  show "b \<le> k \<longleftrightarrow> (if positive then pv < pk else pv \<le> pk)"
    unfolding kb append_less_same
    using tuple_key.code_le [OF tp t, of ?q ?x] q by (auto simp: pk pv_def [symmetric])
  show "k \<le> b \<longleftrightarrow> (if positive then pk \<le> pv else pk < pv)"
    unfolding kb append_less_same
    using tuple_key.code_le [OF t tp, of ?x ?q] q by (auto simp: pk pv_def [symmetric])
qed

text \<open>Tables do not share keys: the name ends at the first NUL.\<close>

lemma nul_free_prefix:
  assumes "0 \<notin> set a" "0 \<notin> set b" "a @ 0 # x = b @ 0 # (y :: bytes)"
  shows "a = b \<and> x = y"
  using assms by (induction a arbitrary: b) (auto simp: Cons_eq_append_conv append_eq_Cons_conv)

lemma table_keys_disjoint:
  assumes "schema_ok sc" "schema_ok sc'" "sc_Table sc \<noteq> sc_Table sc'"
  shows "Row_DecodeKey sc (table_prefix sc' @ x) row = Some (Inl ErrOutOfRange, row)"
proof -
  have "table_prefix sc' @ x \<noteq> table_prefix sc @ y" for y
    using nul_free_prefix [of "bytes_of (sc_Table sc')" "bytes_of (sc_Table sc)" x y] assms
    by (auto simp: table_prefix_def schema_ok_def)
  then have "take (length (table_prefix sc)) (table_prefix sc' @ x) \<noteq> table_prefix sc"
    by (metis append_take_drop_id)
  then show ?thesis by (simp add: Row_DecodeKey_def Let_def)
qed

section \<open>Reading rows back\<close>

text \<open>\<open>fillable c c0\<close>: filling \<open>c0\<close> with the type and the field of \<open>c\<close> yields \<open>c\<close>.\<close>

definition fillable :: "Cell \<Rightarrow> Cell \<Rightarrow> bool" where
  "fillable c c0 \<longleftrightarrow> cell_filled (c0\<lparr>c_Type := c_Type c\<rparr>) c = c"

lemma fillable_same [simp]: "fillable c c"
  by (simp add: fillable_def cell_filled_def)

lemma fillable_zero: "cell_typed c \<Longrightarrow> cell_plain c \<Longrightarrow> fillable c zero_cell"
  by (cases c) (auto simp: fillable_def cell_filled_def zero_cell_def cell_typed_def cell_plain_def)

text \<open>The row with the columns of \<open>A\<close> taken from \<open>row\<close>.\<close>

definition overlay :: "Row \<Rightarrow> int set \<Rightarrow> Row \<Rightarrow> Row" where
  "overlay row A row0 = map (\<lambda>i. if int i \<in> A then row ! i else row0 ! i) [0..<length row0]"

lemma overlay_simps [simp]:
  "length (overlay row A row0) = length row0" "overlay row {} row0 = row0"
  "i < length row0 \<Longrightarrow> overlay row A row0 ! i = (if int i \<in> A then row ! i else row0 ! i)"
  by (simp_all add: overlay_def map_nth)

lemma overlay_update:
  "0 \<le> i \<Longrightarrow> nat i < length row0 \<Longrightarrow> overlay row A (row0[nat i := row ! nat i]) = overlay row (insert i A) row0"
  by (auto simp: list_eq_iff_nth_eq nth_list_update)

lemma overlay_all: "length row0 = length row \<Longrightarrow> overlay row (int ` {..<length row}) row0 = row"
  by (auto simp: list_eq_iff_nth_eq)

lemma overlay_overlay: "length row0 = length row \<Longrightarrow> overlay row A (overlay row B row0) = overlay row (A \<union> B) row0"
  by (auto simp: list_eq_iff_nth_eq)

definition row_fillable :: "Schema \<Rightarrow> Row \<Rightarrow> Row \<Rightarrow> bool" where
  "row_fillable sc row row0 \<longleftrightarrow> length row0 = length (sc_Cols sc) \<and>
     (\<forall>i<length (sc_Cols sc). fillable (row ! i) (row0 ! i))"

lemma row_fillable_update:
  "row_fillable sc row row0 \<Longrightarrow> row_fillable sc row (row0[i := row ! i])"
  by (cases "i < length row0") (auto simp: row_fillable_def nth_list_update list_update_beyond)

lemma row_fillable_overlay: "row_fillable sc row row0 \<Longrightarrow> row_fillable sc row (overlay row A row0)"
  by (auto simp: row_fillable_def)

lemma DecodeKey_cols_correct:
  assumes "schema_ok sc" "row_ok sc row" "row_fillable sc row row0"
    and "\<forall>i\<in>set ids. 0 \<le> i \<and> i < int (length (sc_Cols sc))"
  shows "DecodeKey_cols sc ids (tuple_key (map (\<lambda>i. row ! nat i) ids) @ rest) row0 = Some (Inr (), overlay row (set ids) row0)"
  using assms(3,4)
proof (induction ids arbitrary: row0)
  case (Cons i ids)
  let ?c = "row ! nat i"
  have i: "0 \<le> i" "nat i < length (sc_Cols sc)" "i < int (length (sc_Cols sc))" and l: "length row0 = length (sc_Cols sc)"
    using Cons.prems by (auto simp: row_fillable_def)
  have ty: "cell_typed ?c" "c_Type ?c = col_Type (sc_Cols sc ! nat i)"
    using row_ok_typed [OF assms(1,2) i(2)] row_ok_nth [OF assms(2) i(2)] by simp_all
  have fill: "cell_filled ((row0 ! nat i)\<lparr>c_Type := c_Type ?c\<rparr>) ?c = ?c"
    using Cons.prems(1) i(2) by (simp add: row_fillable_def fillable_def)
  have "DecodeKey_cols sc ids (tuple_key (map (\<lambda>i. row ! nat i) ids) @ rest) (row0[nat i := ?c]) =
      Some (Inr (), overlay row (set ids) (row0[nat i := ?c]))"
    using Cons.prems by (intro Cons.IH row_fillable_update) simp_all
  moreover have "tagged_key ?c = c_Type ?c # cell_key_bytes ?c" by (simp add: tagged_key_def)
  ultimately show ?case
    using Cell_DecodeKey_bytes [OF ty(1), of "(row0 ! nat i)\<lparr>c_Type := c_Type ?c\<rparr>"] i l fill
    by (simp add: slice_at_def ty(2) [symmetric] overlay_update)
qed simp

lemma Row_DecodeKey_correct:
  assumes "schema_ok sc" "row_ok sc row" "row_fillable sc row row0" "Row_EncodeKey sc row = Some key"
  shows "Row_DecodeKey sc key row0 = Some (Inr (), overlay row (set (sc_PKey sc)) row0)"
  using DecodeKey_cols_correct [OF assms(1-3), of "sc_PKey sc" "[0]"] assms(1,4) Row_EncodeKey_correct [OF assms(1) row_ok_key [OF assms(1,2)]]
  by (auto simp: Row_DecodeKey_def Let_def pkey_cells_def schema_ok_def)

text \<open>The cells of the value, in column order.\<close>

definition val_cells :: "Schema \<Rightarrow> Row \<Rightarrow> int list \<Rightarrow> bytes" where
  "val_cells sc row is = concat (map (\<lambda>i. cell_val_bytes (row ! nat i)) (filter (\<lambda>i. \<not> Schema_IsPKey sc i) is))"

lemma col_indices_range: "i \<in> set (col_indices sc) \<longleftrightarrow> 0 \<le> i \<and> i < int (length (sc_Cols sc))"
  by (auto simp: col_indices_def image_iff) (metis atLeastLessThan_iff nat_less_iff int_nat_eq le0)

lemma EncodeVal_cols_correct:
  assumes "schema_ok sc" "row_ok sc row"
  shows "\<forall>i\<in>set is. 0 \<le> i \<and> i < int (length (sc_Cols sc)) \<Longrightarrow>
    EncodeVal_cols sc row is v = Some (v @ val_cells sc row is)"
proof (induction "is" arbitrary: v)
  case (Cons i "is")
  then have "cell_typed (row ! nat i)" using row_ok_typed [OF assms, of "nat i"] by (simp add: nat_less_iff)
  then show ?case using Cons row_ok_length [OF assms(2)]
    by (simp add: val_cells_def Cell_Encode_append)
qed (simp add: val_cells_def)

lemma Row_EncodeVal_correct:
  assumes "schema_ok sc" "row_ok sc row"
  shows "Row_EncodeVal sc row = Some (val_cells sc row (col_indices sc))"
  using EncodeVal_cols_correct [OF assms, of "col_indices sc" "[]"] by (simp add: Row_EncodeVal_def col_indices_range)

lemma DecodeVal_cols_correct:
  assumes "schema_ok sc" "row_ok sc row" "row_fillable sc row row0"
    and "\<forall>i\<in>set is. 0 \<le> i \<and> i < int (length (sc_Cols sc))" "length (val_cells sc row is) < 2 ^ 32"
  shows "DecodeVal_cols sc is (val_cells sc row is) row0 =
    Some (Inr (), overlay row {i \<in> set is. \<not> Schema_IsPKey sc i} row0)"
  using assms(3-5)
proof (induction "is" arbitrary: row0)
  case (Cons i "is")
  let ?c = "row ! nat i"
  have i: "0 \<le> i" "nat i < length (sc_Cols sc)" "i < int (length (sc_Cols sc))" and l: "length row0 = length (sc_Cols sc)"
    using Cons.prems by (auto simp: row_fillable_def)
  show ?case
  proof (cases "Schema_IsPKey sc i")
    case True
    then have "{j \<in> set (i # is). \<not> Schema_IsPKey sc j} = {j \<in> set is. \<not> Schema_IsPKey sc j}" by auto
    then show ?thesis using True Cons by (simp add: val_cells_def)
  next
    case False
    then have v: "val_cells sc row (i # is) = cell_val_bytes ?c @ val_cells sc row is"
      and s: "{j \<in> set (i # is). \<not> Schema_IsPKey sc j} = insert i {j \<in> set is. \<not> Schema_IsPKey sc j}"
      by (auto simp: val_cells_def)
    have ty: "cell_typed ?c" "c_Type ?c = col_Type (sc_Cols sc ! nat i)"
      using row_ok_typed [OF assms(1,2) i(2)] row_ok_nth [OF assms(2) i(2)] by simp_all
    have fill: "cell_filled ((row0 ! nat i)\<lparr>c_Type := c_Type ?c\<rparr>) ?c = ?c"
      using Cons.prems(1) i(2) by (simp add: row_fillable_def fillable_def)
    have "DecodeVal_cols sc is (val_cells sc row is) (row0[nat i := ?c]) =
        Some (Inr (), overlay row {j \<in> set is. \<not> Schema_IsPKey sc j} (row0[nat i := ?c]))"
      using Cons.prems v by (intro Cons.IH row_fillable_update) simp_all
    then show ?thesis
      unfolding v s using Cell_DecodeVal_bytes [OF ty(1), of "(row0 ! nat i)\<lparr>c_Type := c_Type ?c\<rparr>" "val_cells sc row is"]
        i l fill False Cons.prems(3) v
      by (simp add: slice_at_def ty(2) [symmetric] overlay_update)
  qed
qed simp

lemma Row_DecodeVal_correct:
  assumes "schema_ok sc" "row_ok sc row" "row_fillable sc row row0" "Row_EncodeVal sc row = Some v" "length v < 2 ^ 32"
  shows "Row_DecodeVal sc v row0 = Some (Inr (), overlay row {i \<in> set (col_indices sc). \<not> Schema_IsPKey sc i} row0)"
  using DecodeVal_cols_correct [OF assms(1-3), of "col_indices sc"] assms(4,5) Row_EncodeVal_correct [OF assms(1,2)]
  by (simp add: Row_DecodeVal_def col_indices_range)

lemma NewRow_fillable:
  "schema_ok sc \<Longrightarrow> row_ok sc row \<Longrightarrow> list_all cell_plain row \<Longrightarrow> row_fillable sc row (Schema_NewRow sc)"
  using row_ok_typed row_ok_length [of sc row] by (auto simp: row_fillable_def Schema_NewRow_def list_all_length intro!: fillable_zero)

lemma overlay_key_val:
  assumes "schema_ok sc" "row_ok sc row" "length row0 = length row"
  shows "overlay row {i \<in> set (col_indices sc). \<not> Schema_IsPKey sc i} (overlay row (set (sc_PKey sc)) row0) = row"
proof -
  have cols: "int ` {..<length row} = set (col_indices sc)"
    using row_ok_length [OF assms(2)] by (auto simp: col_indices_def)
  have "set (sc_PKey sc) \<subseteq> set (col_indices sc)" using assms(1) by (auto simp: col_indices_range schema_ok_def)
  then have "{i \<in> set (col_indices sc). \<not> Schema_IsPKey sc i} \<union> set (sc_PKey sc) = int ` {..<length row}"
    unfolding cols by (auto simp: Schema_IsPKey_def)
  then show ?thesis by (simp add: overlay_overlay [OF assms(3)] overlay_all [OF assms(3)])
qed

text \<open>A row reads back from its pair.\<close>

lemma Row_decode_encode:
  assumes "schema_ok sc" "row_ok sc row" "row_fillable sc row row0"
    and "Row_EncodeKey sc row = Some k" "Row_EncodeVal sc row = Some v" "length v < 2 ^ 32"
  shows "\<exists>row1. Row_DecodeKey sc k row0 = Some (Inr (), row1) \<and> Row_DecodeVal sc v row1 = Some (Inr (), row)"
proof -
  have l: "length row0 = length row" using assms(3) row_ok_length [OF assms(2)] by (simp add: row_fillable_def)
  show ?thesis
    using Row_DecodeKey_correct [OF assms(1-4)] overlay_key_val [OF assms(1,2) l]
      Row_DecodeVal_correct [OF assms(1,2) row_fillable_overlay [OF assms(3)] assms(5,6), of "set (sc_PKey sc)"]
    by simp
qed

end
