(* ===== verification/DB.thy ===== *)
theory DB
  imports Schema Store
begin

text \<open>
  \<^verbatim>\<open>table/db.go\<close>: rows by primary key.  The \<^verbatim>\<open>DB\<close> is its \<^verbatim>\<open>KV\<close>.  \<open>stored\<close> says which pair a row is,
  \<open>table_rows\<close> is the set of rows a key-value map holds for a schema, and the lemmas show that the
  five operations act on that set as on a relation with a primary key, and that they leave every
  other table alone.
\<close>

definition DB_Open :: "kv \<Rightarrow> disk \<Rightarrow> (unit res \<times> kv \<times> disk) option" where
  "DB_Open db d = KV_Open db d"

definition DB_Close :: "kv \<Rightarrow> unit res" where
  "DB_Close db = KV_Close db"

text \<open>\<^verbatim>\<open>Select\<close> fills the caller's row.\<close>

definition DB_Select :: "kv \<Rightarrow> Schema \<Rightarrow> (Row, bool) st" where
  "DB_Select db sc row =
     (case Row_EncodeKey sc row of
        None \<Rightarrow> None
      | Some key \<Rightarrow>
          (case KV_Get db key of
             None \<Rightarrow> None
           | Some (Inl e) \<Rightarrow> Some (Inl e, row)
           | Some (Inr None) \<Rightarrow> Some (Inr False, row)
           | Some (Inr (Some val)) \<Rightarrow>
               (case Row_DecodeVal sc val row of
                  None \<Rightarrow> None
                | Some (Inl e, row') \<Rightarrow> Some (Inl e, row')
                | Some (Inr _, row') \<Rightarrow> Some (Inr True, row'))))"

definition DB_write :: "UpdateMode \<Rightarrow> kv \<Rightarrow> Schema \<Rightarrow> Row \<Rightarrow> disk \<Rightarrow> (bool res \<times> kv \<times> disk) option" where
  "DB_write mode db sc row d =
     (case (Row_EncodeKey sc row, Row_EncodeVal sc row) of
        (Some key, Some val) \<Rightarrow> KV_SetEx db key val mode d
      | _ \<Rightarrow> None)"

definition DB_Insert :: "kv \<Rightarrow> Schema \<Rightarrow> Row \<Rightarrow> disk \<Rightarrow> (bool res \<times> kv \<times> disk) option" where
  "DB_Insert = DB_write ModeInsert"

definition DB_Upsert :: "kv \<Rightarrow> Schema \<Rightarrow> Row \<Rightarrow> disk \<Rightarrow> (bool res \<times> kv \<times> disk) option" where
  "DB_Upsert = DB_write ModeUpsert"

definition DB_Update :: "kv \<Rightarrow> Schema \<Rightarrow> Row \<Rightarrow> disk \<Rightarrow> (bool res \<times> kv \<times> disk) option" where
  "DB_Update = DB_write ModeUpdate"

definition DB_Delete :: "kv \<Rightarrow> Schema \<Rightarrow> Row \<Rightarrow> disk \<Rightarrow> (bool res \<times> kv \<times> disk) option" where
  "DB_Delete db sc row d =
     (case Row_EncodeKey sc row of None \<Rightarrow> None | Some key \<Rightarrow> KV_Del db key d)"

section \<open>Tables as sets of rows\<close>

definition row_fits :: "Schema \<Rightarrow> Row \<Rightarrow> bool" where
  "row_fits sc row \<longleftrightarrow> row_ok sc row \<and> list_all cell_plain row \<and> length (the (Row_EncodeVal sc row)) < 2 ^ 32"

definition stored :: "Schema \<Rightarrow> Row \<Rightarrow> bytes \<Rightarrow> bytes \<Rightarrow> bool" where
  "stored sc row k v \<longleftrightarrow> row_fits sc row \<and> Row_EncodeKey sc row = Some k \<and> Row_EncodeVal sc row = Some v"

definition table_rows :: "Schema \<Rightarrow> (bytes \<Rightarrow> bytes option) \<Rightarrow> Row set" where
  "table_rows sc m = {row. \<exists>k v. m k = Some v \<and> stored sc row k v}"

definition in_table :: "Schema \<Rightarrow> bytes \<Rightarrow> bool" where
  "in_table sc k \<longleftrightarrow> (\<exists>x. k = table_prefix sc @ x)"

text \<open>Every pair under the table's prefix is a row of the table.\<close>

definition table_ok :: "Schema \<Rightarrow> (bytes \<Rightarrow> bytes option) \<Rightarrow> bool" where
  "table_ok sc m \<longleftrightarrow> (\<forall>k v. m k = Some v \<longrightarrow> in_table sc k \<longrightarrow> (\<exists>row. stored sc row k v))"

lemma row_fits_ok: "row_fits sc row \<Longrightarrow> row_ok sc row"
  by (simp add: row_fits_def)

lemma Row_EncodeKey_total:
  "schema_ok sc \<Longrightarrow> row_key_ok sc row \<Longrightarrow> \<exists>k. Row_EncodeKey sc row = Some k \<and> in_table sc k"
  using Row_EncodeKey_correct by (auto simp: in_table_def)

lemma row_fits_stored:
  assumes "schema_ok sc" "row_fits sc row"
  shows "\<exists>k v. Row_EncodeKey sc row = Some k \<and> Row_EncodeVal sc row = Some v \<and> in_table sc k \<and> stored sc row k v"
proof -
  have ok: "row_ok sc row" using assms(2) by (rule row_fits_ok)
  obtain k where "Row_EncodeKey sc row = Some k" "in_table sc k"
    using Row_EncodeKey_total [OF assms(1) row_ok_key [OF assms(1) ok]] by blast
  then show ?thesis using Row_EncodeVal_correct [OF assms(1) ok] assms(2) by (simp add: stored_def)
qed

lemma stored_row_key: "schema_ok sc \<Longrightarrow> stored sc row k v \<Longrightarrow> row_key_ok sc row"
  by (simp add: stored_def row_fits_def row_ok_key)

lemma stored_decode:
  assumes "schema_ok sc" "stored sc row k v" "row_fillable sc row row0"
  shows "\<exists>row1. Row_DecodeKey sc k row0 = Some (Inr (), row1) \<and> Row_DecodeVal sc v row1 = Some (Inr (), row)"
  using assms by (intro Row_decode_encode) (auto simp: stored_def row_fits_def)

lemma stored_fillable: "schema_ok sc \<Longrightarrow> stored sc row k v \<Longrightarrow> row_fillable sc row (Schema_NewRow sc)"
  by (simp add: stored_def row_fits_def NewRow_fillable)

lemma stored_unique:
  assumes "schema_ok sc" "stored sc r k v" "stored sc s k v"
  shows "r = s"
  using stored_decode [OF assms(1,2) stored_fillable [OF assms(1,2)]]
    stored_decode [OF assms(1,3) stored_fillable [OF assms(1,3)]] by auto

lemma stored_pkey:
  assumes "schema_ok sc" "stored sc r k v" "stored sc s l w"
  shows "k = l \<longleftrightarrow> pkey_vals sc r = pkey_vals sc s" "k < l \<longleftrightarrow> pkey_vals sc r < pkey_vals sc s"
  using key_tuple_order [OF assms(1) stored_row_key [OF assms(1,2)] stored_row_key [OF assms(1,3)], of k l] assms(2,3)
  by (simp_all add: stored_def)

lemma stored_in_table: "schema_ok sc \<Longrightarrow> stored sc r k v \<Longrightarrow> in_table sc k"
  using Row_EncodeKey_total [OF _ stored_row_key] by (fastforce simp: stored_def)

lemma table_rows_key_unique:
  assumes "schema_ok sc" "r \<in> table_rows sc m" "s \<in> table_rows sc m" "pkey_vals sc r = pkey_vals sc s"
  shows "r = s"
proof -
  obtain k v l w where r: "m k = Some v" "stored sc r k v" and s: "m l = Some w" "stored sc s l w"
    using assms(2,3) by (auto simp: table_rows_def)
  then have "k = l" using stored_pkey(1) [OF assms(1) r(2) s(2)] assms(4) by simp
  then show ?thesis using r s stored_unique [OF assms(1) r(2)] by simp
qed

text \<open>The row of a primary key is there iff the map has its key.\<close>

lemma table_rows_lookup:
  assumes "schema_ok sc" "table_ok sc m" "row_key_ok sc row" "Row_EncodeKey sc row = Some k"
  shows "(\<exists>r\<in>table_rows sc m. pkey_vals sc r = pkey_vals sc row) \<longleftrightarrow> m k \<noteq> None"
proof
  assume "\<exists>r\<in>table_rows sc m. pkey_vals sc r = pkey_vals sc row"
  then obtain r l v where r: "m l = Some v" "stored sc r l v" "pkey_vals sc r = pkey_vals sc row"
    by (auto simp: table_rows_def)
  then have "l = k" using key_tuple_order(2) [OF assms(1) stored_row_key [OF assms(1) r(2)] assms(3), of l k] assms(4)
    by (simp add: stored_def)
  then show "m k \<noteq> None" using r(1) by simp
next
  assume "m k \<noteq> None"
  then obtain v where v: "m k = Some v" by blast
  have "in_table sc k" using Row_EncodeKey_total [OF assms(1,3)] assms(4) by auto
  then obtain r where r: "stored sc r k v" using assms(2) v by (auto simp: table_ok_def)
  then have "pkey_vals sc r = pkey_vals sc row"
    using key_tuple_order(2) [OF assms(1) stored_row_key [OF assms(1) r] assms(3), of k k] assms(4) by (simp add: stored_def)
  then show "\<exists>r\<in>table_rows sc m. pkey_vals sc r = pkey_vals sc row" using v r by (auto simp: table_rows_def)
qed

lemma table_rows_put:
  assumes sc: "schema_ok sc" and st: "stored sc row k v"
  shows "table_rows sc (m(k \<mapsto> v)) = insert row {r \<in> table_rows sc m. pkey_vals sc r \<noteq> pkey_vals sc row}"
    and "table_rows sc (m(k := None)) = {r \<in> table_rows sc m. pkey_vals sc r \<noteq> pkey_vals sc row}"
proof -
  have keep: "r \<in> table_rows sc m \<and> pkey_vals sc r \<noteq> pkey_vals sc row \<longleftrightarrow> (\<exists>l w. m l = Some w \<and> stored sc r l w \<and> l \<noteq> k)" for r
    unfolding table_rows_def mem_Collect_eq using stored_pkey(1) [OF sc _ st] by blast
  have row: "stored sc r k v \<longleftrightarrow> r = row" for r
    using st stored_unique [OF sc _ st] by blast
  have "r \<in> table_rows sc (m(k \<mapsto> v)) \<longleftrightarrow> r = row \<or> (\<exists>l w. m l = Some w \<and> stored sc r l w \<and> l \<noteq> k)" for r
    unfolding table_rows_def mem_Collect_eq row [symmetric] fun_upd_apply by (metis option.inject)
  then show "table_rows sc (m(k \<mapsto> v)) = insert row {r \<in> table_rows sc m. pkey_vals sc r \<noteq> pkey_vals sc row}"
    using keep by blast
  have "r \<in> table_rows sc (m(k := None)) \<longleftrightarrow> (\<exists>l w. m l = Some w \<and> stored sc r l w \<and> l \<noteq> k)" for r
    unfolding table_rows_def mem_Collect_eq fun_upd_apply by (metis option.distinct(1))
  then show "table_rows sc (m(k := None)) = {r \<in> table_rows sc m. pkey_vals sc r \<noteq> pkey_vals sc row}"
    using keep by blast
qed

lemma table_ok_put:
  "table_ok sc m \<Longrightarrow> stored sc row k v \<Longrightarrow> table_ok sc (m(k \<mapsto> v))"
  "table_ok sc m \<Longrightarrow> table_ok sc (m(k := None))"
  by (auto simp: table_ok_def)

text \<open>Another table.\<close>

lemma in_table_other:
  assumes "schema_ok sc" "schema_ok sc'" "sc_Table sc \<noteq> sc_Table sc'" "in_table sc k"
  shows "\<not> in_table sc' k"
proof
  assume "in_table sc' k"
  then obtain x where x: "k = table_prefix sc' @ x" by (auto simp: in_table_def)
  obtain y where "k = table_prefix sc @ y" using assms(4) by (auto simp: in_table_def)
  then have "table_prefix sc @ y = table_prefix sc' @ x" using x by simp
  then show False
    using nul_free_prefix [of "bytes_of (sc_Table sc)" "bytes_of (sc_Table sc')" y x] assms
    by (auto simp: table_prefix_def schema_ok_def)
qed

section \<open>The operations on tables\<close>

text \<open>What a write means for a relation with a primary key.\<close>

definition rel_write :: "UpdateMode \<Rightarrow> Schema \<Rightarrow> Row set \<Rightarrow> Row \<Rightarrow> bool \<times> Row set" where
  "rel_write mode sc R row =
     (let existed = (\<exists>r\<in>R. pkey_vals sc r = pkey_vals sc row) in
      if existed \<and> mode = ModeInsert \<or> \<not> existed \<and> mode = ModeUpdate then (False, R)
      else (True, insert row {r \<in> R. pkey_vals sc r \<noteq> pkey_vals sc row}))"

text \<open>\<open>others_kept\<close>: no other table has changed.\<close>

definition others_kept :: "Schema \<Rightarrow> (bytes \<Rightarrow> bytes option) \<Rightarrow> (bytes \<Rightarrow> bytes option) \<Rightarrow> bool" where
  "others_kept sc m m' \<longleftrightarrow> (\<forall>k. \<not> in_table sc k \<longrightarrow> m' k = m k)"

lemma others_kept_table:
  assumes "schema_ok sc" "schema_ok sc'" "sc_Table sc \<noteq> sc_Table sc'" "others_kept sc m m'"
  shows "table_rows sc' m' = table_rows sc' m" "table_ok sc' m' = table_ok sc' m"
proof -
  have same: "in_table sc' l \<Longrightarrow> m' l = m l" for l
    using in_table_other [OF assms(2,1), of l] assms(3,4) by (auto simp: others_kept_def)
  show "table_rows sc' m' = table_rows sc' m"
    unfolding table_rows_def using same stored_in_table [OF assms(2)] by (metis (no_types, lifting))
  show "table_ok sc' m' = table_ok sc' m" using same by (auto simp: table_ok_def)
qed

lemma DB_write_correct:
  assumes ok: "kv_ok db" and sc: "schema_ok sc" and t: "table_ok sc (kv_view db)" and row: "row_fits sc row"
  shows "\<exists>r db' d'. DB_write mode db sc row d = Some (r, db', d') \<and> kv_ok db' \<and> table_ok sc (kv_view db') \<and>
    others_kept sc (kv_view db) (kv_view db') \<and>
    (case r of Inr b \<Rightarrow> (b, table_rows sc (kv_view db')) = rel_write mode sc (table_rows sc (kv_view db)) row
     | Inl e \<Rightarrow> kv_view db' = kv_view db)"
proof -
  obtain k v where kv: "Row_EncodeKey sc row = Some k" "Row_EncodeVal sc row = Some v" "in_table sc k" "stored sc row k v"
    using row_fits_stored [OF sc row] by blast
  obtain r db' d' where w: "KV_SetEx db k v mode d = Some (r, db', d')" "kv_ok db'"
    "case r of Inr b \<Rightarrow> (b, kv_view db') = map_SetEx (kv_view db) k v mode | Inl e \<Rightarrow> kv_view db' = kv_view db"
    using kvc.setex_law [OF ok, of k v mode d] by blast
  have run: "DB_write mode db sc row d = Some (r, db', d')" using kv w by (simp add: DB_write_def)
  note ex = table_rows_lookup [OF sc t stored_row_key [OF sc kv(4)] kv(1)]
  have v': "kv_view db' = kv_view db \<or> kv_view db' = (kv_view db)(k \<mapsto> v)"
    using w(3) by (auto simp: map_SetEx_def split: sum.splits if_splits)
  have "table_ok sc (kv_view db')" "others_kept sc (kv_view db) (kv_view db')"
    using v' t table_ok_put(1) [OF t kv(4)] kv(3) by (auto simp: others_kept_def)
  moreover have "case r of Inr b \<Rightarrow> (b, table_rows sc (kv_view db')) = rel_write mode sc (table_rows sc (kv_view db)) row
     | Inl e \<Rightarrow> kv_view db' = kv_view db"
    using w(3) ex table_rows_put(1) [OF sc kv(4), of "kv_view db"]
    by (auto simp: map_SetEx_def rel_write_def Let_def split: sum.splits if_splits)
  ultimately show ?thesis using run w(2) by blast
qed

lemma DB_write_error:
  assumes "kv_ok db"
  shows "DB_write mode db sc row d = Some (Inl err, db', d') \<Longrightarrow> log_error db d err"
    and "DB_Delete db sc row d = Some (Inl err, db', d') \<Longrightarrow> log_error db d err"
  using KV_write_error [OF assms] by (auto simp: DB_write_def DB_Delete_def split: option.splits)

lemma DB_Delete_correct:
  assumes ok: "kv_ok db" and sc: "schema_ok sc" and t: "table_ok sc (kv_view db)" and row: "row_key_ok sc row"
  shows "\<exists>r db' d'. DB_Delete db sc row d = Some (r, db', d') \<and> kv_ok db' \<and> table_ok sc (kv_view db') \<and>
    others_kept sc (kv_view db) (kv_view db') \<and>
    (case r of
       Inr b \<Rightarrow> b = (\<exists>r\<in>table_rows sc (kv_view db). pkey_vals sc r = pkey_vals sc row) \<and>
         table_rows sc (kv_view db') = {r \<in> table_rows sc (kv_view db). pkey_vals sc r \<noteq> pkey_vals sc row}
     | Inl e \<Rightarrow> kv_view db' = kv_view db)"
proof -
  obtain k where k: "Row_EncodeKey sc row = Some k" "in_table sc k" using Row_EncodeKey_total [OF sc row] by blast
  obtain r db' d' where w: "KV_Del db k d = Some (r, db', d')" "kv_ok db'"
    "case r of Inr b \<Rightarrow> (b, kv_view db') = map_Del (kv_view db) k | Inl e \<Rightarrow> kv_view db' = kv_view db"
    using kvc.del_law [OF ok, of k d] by blast
  have run: "DB_Delete db sc row d = Some (r, db', d')" using k w by (simp add: DB_Delete_def)
  note ex = table_rows_lookup [OF sc t row k(1)]
  have v': "kv_view db' = kv_view db \<or> kv_view db' = (kv_view db)(k := None)"
    using w(3) by (auto simp: map_Del_def split: sum.splits)
  have gone: "table_rows sc ((kv_view db)(k := None)) = {r \<in> table_rows sc (kv_view db). pkey_vals sc r \<noteq> pkey_vals sc row}"
  proof -
    have "r \<in> table_rows sc ((kv_view db)(k := None)) \<longleftrightarrow> (\<exists>l w. kv_view db l = Some w \<and> stored sc r l w \<and> l \<noteq> k)" for r
      unfolding table_rows_def mem_Collect_eq fun_upd_apply by (metis option.distinct(1))
    moreover have "l = k \<longleftrightarrow> pkey_vals sc r = pkey_vals sc row" if "stored sc r l w" for r l w
      using key_tuple_order(2) [OF sc stored_row_key [OF sc that] row, of l k] that k(1) by (simp add: stored_def)
    ultimately show ?thesis unfolding table_rows_def set_eq_iff mem_Collect_eq by blast
  qed
  have "table_ok sc (kv_view db')" "others_kept sc (kv_view db) (kv_view db')"
    using v' t table_ok_put(2) [OF t, of k] k(2) by (auto simp: others_kept_def)
  moreover have "case r of
       Inr b \<Rightarrow> b = (\<exists>r\<in>table_rows sc (kv_view db). pkey_vals sc r = pkey_vals sc row) \<and>
         table_rows sc (kv_view db') = {r \<in> table_rows sc (kv_view db). pkey_vals sc r \<noteq> pkey_vals sc row}
     | Inl e \<Rightarrow> kv_view db' = kv_view db"
    using w(3) ex gone by (auto simp: map_Del_def split: sum.splits)
  ultimately show ?thesis using run w(2) by blast
qed

text \<open>\<^verbatim>\<open>Select\<close> finds the row of a primary key and fills the caller's cells with it.\<close>

lemma DB_Select_correct:
  assumes ok: "kv_ok db" and sc: "schema_ok sc" and t: "table_ok sc (kv_view db)" and row: "row_key_ok sc row"
  shows "(\<forall>r\<in>table_rows sc (kv_view db). pkey_vals sc r \<noteq> pkey_vals sc row) \<Longrightarrow> DB_Select db sc row = Some (Inr False, row)"
    and "r \<in> table_rows sc (kv_view db) \<Longrightarrow> pkey_vals sc r = pkey_vals sc row \<Longrightarrow> row_fillable sc r row \<Longrightarrow>
      DB_Select db sc row = Some (Inr True, overlay r {i \<in> set (col_indices sc). \<not> Schema_IsPKey sc i} row)"
proof -
  obtain k where k: "Row_EncodeKey sc row = Some k" using Row_EncodeKey_total [OF sc row] by blast
  note get = KV_Get_view [OF ok, of k]
  show "DB_Select db sc row = Some (Inr False, row)"
    if "\<forall>r\<in>table_rows sc (kv_view db). pkey_vals sc r \<noteq> pkey_vals sc row"
  proof -
    have "kv_view db k = None" using table_rows_lookup [OF sc t row k] that by blast
    then show ?thesis using k get by (simp add: DB_Select_def)
  qed
  assume r: "r \<in> table_rows sc (kv_view db)" "pkey_vals sc r = pkey_vals sc row" "row_fillable sc r row"
  then obtain l v where st: "kv_view db l = Some v" "stored sc r l v" by (auto simp: table_rows_def)
  have "l = k" using key_tuple_order(2) [OF sc stored_row_key [OF sc st(2)] row, of l k] st(2) k r(2) by (simp add: stored_def)
  moreover have "Row_DecodeVal sc v row = Some (Inr (), overlay r {i \<in> set (col_indices sc). \<not> Schema_IsPKey sc i} row)"
    using st(2) r(3) by (intro Row_DecodeVal_correct [OF sc]) (auto simp: stored_def row_fits_def)
  ultimately show "DB_Select db sc row = Some (Inr True, overlay r {i \<in> set (col_indices sc). \<not> Schema_IsPKey sc i} row)"
    using st(1) k get by (simp add: DB_Select_def)
qed

lemma DB_Select_row:
  assumes ok: "kv_ok db" and sc: "schema_ok sc" and t: "table_ok sc (kv_view db)"
    and r: "r \<in> table_rows sc (kv_view db)"
  shows "DB_Select db sc (overlay r (set (sc_PKey sc)) (Schema_NewRow sc)) = Some (Inr True, r)"
proof -
  let ?row = "overlay r (set (sc_PKey sc)) (Schema_NewRow sc)"
  obtain k v where st: "stored sc r k v" using r by (auto simp: table_rows_def)
  have rok: "row_ok sc r" using st by (simp add: stored_def row_fits_def)
  have len: "length (Schema_NewRow sc) = length r" using row_ok_length [OF rok] by (simp add: Schema_NewRow_def)
  have pk: "?row ! nat i = r ! nat i" if "i \<in> set (sc_PKey sc)" for i
    using sc that len row_ok_length [OF rok] by (simp add: schema_ok_def nat_less_iff)
  then have "row_key_ok sc ?row" "pkey_vals sc r = pkey_vals sc ?row"
    using row_ok_key [OF sc rok] len by (simp_all add: row_key_ok_def pkey_cells_def)
  moreover have "row_fillable sc r ?row" by (rule row_fillable_overlay [OF stored_fillable [OF sc st]])
  ultimately show ?thesis using DB_Select_correct(2) [OF ok sc t _ r] overlay_key_val [OF sc rok len] by simp
qed

lemma plain_cell_eq:
  assumes "cell_typed a" "c_Type b = c_Type a" "cell_plain a" "cell_plain b" "cell_val a = cell_val b"
  shows "a = b"
  using assms by (cases a; cases b) (auto simp: cell_typed_def cell_plain_def cell_val_def signed_word_eqI split: if_splits)

definition key_row :: "Schema \<Rightarrow> Row \<Rightarrow> Row" where
  "key_row sc r = overlay r (set (sc_PKey sc)) (Schema_NewRow sc)"

lemma key_row_correct:
  assumes sc: "schema_ok sc" and r: "row_fits sc r"
  shows "row_key_ok sc (key_row sc r)" "pkey_vals sc (key_row sc r) = pkey_vals sc r"
proof -
  have rok: "row_ok sc r" using r by (rule row_fits_ok)
  have "key_row sc r ! nat i = r ! nat i" if "i \<in> set (sc_PKey sc)" for i
    using sc that row_ok_length [OF rok] by (simp add: schema_ok_def nat_less_iff key_row_def Schema_NewRow_def)
  then show "row_key_ok sc (key_row sc r)" "pkey_vals sc (key_row sc r) = pkey_vals sc r"
    using row_ok_key [OF sc rok] by (simp_all add: row_key_ok_def pkey_cells_def key_row_def Schema_NewRow_def)
qed

lemma key_row_cong:
  assumes sc: "schema_ok sc" and r: "row_fits sc r" "row_fits sc s" and pk: "pkey_vals sc r = pkey_vals sc s"
  shows "key_row sc r = key_row sc s"
proof -
  have rok: "row_ok sc r" "row_ok sc s" "list_all cell_plain r" "list_all cell_plain s" using r by (simp_all add: row_fits_def)
  note len = row_ok_length [OF rok(1)] row_ok_length [OF rok(2)]
  have "r ! nat i = s ! nat i" if i: "i \<in> set (sc_PKey sc)" for i
  proof (rule plain_cell_eq)
    have n: "nat i < length (sc_Cols sc)" using sc i by (simp add: schema_ok_def nat_less_iff)
    show "cell_typed (r ! nat i)" by (rule row_ok_typed [OF sc rok(1) n])
    show "c_Type (s ! nat i) = c_Type (r ! nat i)" using row_ok_nth [OF rok(1) n] row_ok_nth [OF rok(2) n] by simp
    show "cell_plain (r ! nat i)" "cell_plain (s ! nat i)" using rok(3,4) n len by (simp_all add: list_all_length)
    show "cell_val (r ! nat i) = cell_val (s ! nat i)" using pk i by (simp add: pkey_cells_def)
  qed
  then show ?thesis by (auto simp: key_row_def overlay_def nat_int [symmetric] simp del: nat_int) (metis nat_int)
qed

text \<open>\<^verbatim>\<open>Select\<close> from the key cells of any row: the stored row with that key, or a miss.\<close>

lemma DB_Select_key_row:
  assumes ok: "kv_ok db" and sc: "schema_ok sc" and t: "table_ok sc (kv_view db)" and r: "row_fits sc r"
  shows "\<exists>b row'. DB_Select db sc (key_row sc r) = Some (Inr b, row') \<and>
    (if b then row' \<in> table_rows sc (kv_view db) \<and> pkey_vals sc row' = pkey_vals sc r
     else row' = key_row sc r \<and> \<not> (\<exists>s\<in>table_rows sc (kv_view db). pkey_vals sc s = pkey_vals sc r))"
proof (cases "\<exists>s\<in>table_rows sc (kv_view db). pkey_vals sc s = pkey_vals sc r")
  case True
  then obtain s where s: "s \<in> table_rows sc (kv_view db)" "pkey_vals sc s = pkey_vals sc r" by blast
  then have "row_fits sc s" by (auto simp: table_rows_def stored_def)
  then have "key_row sc r = key_row sc s" using s(2) by (intro key_row_cong [OF sc r]) simp_all
  then show ?thesis using DB_Select_row [OF ok sc t s(1)] s by (auto simp: key_row_def [of sc s])
next
  case False
  then have "DB_Select db sc (key_row sc r) = Some (Inr False, key_row sc r)"
    using key_row_correct [OF sc r] by (intro DB_Select_correct(1) [OF ok sc t]) auto
  then show ?thesis using False by auto
qed

end
