(* ===== verification/RowIter.thy ===== *)
theory RowIter
  imports DB Ranged
begin

text \<open>
  \<^verbatim>\<open>table/rowiter.go\<close>: a KV cursor read as rows.  \<open>kv_src\<close> is the part of the \<^verbatim>\<open>SortedKVIter\<close>
  interface a \<^verbatim>\<open>RowIterator\<close> calls; it has two implementations, the filtered merge of a plain seek and
  the bounded \<^verbatim>\<open>RangedKVIter\<close>.  Over any cursor that streams entries (\<open>entry_stream\<close>), the iterator
  streams the rows of the entries up to the first one of another table.
\<close>

record 'r kv_src =
  rs_Valid :: "'r \<Rightarrow> bool option"
  rs_Key :: "'r \<Rightarrow> bytes option"
  rs_Val :: "'r \<Rightarrow> bytes option"
  rs_Next :: "('r, unit) st"
  rs_Prev :: "('r, unit) st"

definition cursor_src :: "'c iter_ops \<Rightarrow> 'c kv_src" where
  "cursor_src ops = \<lparr>rs_Valid = (\<lambda>c. Some (it_Valid ops c)), rs_Key = it_Key ops, rs_Val = it_Val ops,
     rs_Next = it_Next ops, rs_Prev = it_Prev ops\<rparr>"

definition range_src :: "'c iter_ops \<Rightarrow> 'c RangedKVIter kv_src" where
  "range_src ops = \<lparr>rs_Valid = Ranged_Valid ops, rs_Key = Ranged_Key ops, rs_Val = Ranged_Val ops,
     rs_Next = Ranged_Next ops, rs_Prev = Ranged_Prev ops\<rparr>"

record 'r RowIterator =
  ri_schema :: Schema
  ri_iter :: 'r
  ri_valid :: bool
  ri_row :: Row

definition RowIterator_decode :: "'r kv_src \<Rightarrow> ('r RowIterator, unit) st" where
  "RowIterator_decode src it =
     (let it1 = it\<lparr>ri_valid := False\<rparr>; sc = ri_schema it in
      case rs_Valid src (ri_iter it) of
        None \<Rightarrow> None
      | Some False \<Rightarrow> Some (Inr (), it1)
      | Some True \<Rightarrow>
          (case rs_Key src (ri_iter it) of
             None \<Rightarrow> None
           | Some k \<Rightarrow>
               (case Row_DecodeKey sc k (Schema_NewRow sc) of
                  None \<Rightarrow> None
                | Some (Inl e, _) \<Rightarrow> if e = ErrOutOfRange then Some (Inr (), it1) else Some (Inl e, it1)
                | Some (Inr _, row) \<Rightarrow>
                    (case rs_Val src (ri_iter it) of
                       None \<Rightarrow> None
                     | Some v \<Rightarrow>
                         (case Row_DecodeVal sc v row of
                            None \<Rightarrow> None
                          | Some (Inl e, _) \<Rightarrow> Some (Inl e, it1)
                          | Some (Inr _, row') \<Rightarrow> Some (Inr (), it1\<lparr>ri_row := row', ri_valid := True\<rparr>))))))"

definition NewRowIterator :: "'r kv_src \<Rightarrow> Schema \<Rightarrow> 'r \<Rightarrow> 'r RowIterator go" where
  "NewRowIterator src sc cur =
     (case RowIterator_decode src \<lparr>ri_schema = sc, ri_iter = cur, ri_valid = False, ri_row = []\<rparr> of
        None \<Rightarrow> None
      | Some (Inl e, _) \<Rightarrow> Some (Inl e)
      | Some (Inr _, it) \<Rightarrow> Some (Inr it))"

definition RowIterator_Valid :: "'r RowIterator \<Rightarrow> bool" where
  "RowIterator_Valid it = ri_valid it"

definition RowIterator_Row :: "'r RowIterator \<Rightarrow> Row" where
  "RowIterator_Row it = ri_row it"

definition RowIterator_move :: "('r, unit) st \<Rightarrow> 'r kv_src \<Rightarrow> ('r RowIterator, unit) st" where
  "RowIterator_move f src it =
     (case f (ri_iter it) of
        None \<Rightarrow> None
      | Some (Inl e, c) \<Rightarrow> Some (Inl e, it\<lparr>ri_iter := c\<rparr>)
      | Some (Inr _, c) \<Rightarrow> RowIterator_decode src (it\<lparr>ri_iter := c\<rparr>))"

definition RowIterator_Next :: "'r kv_src \<Rightarrow> ('r RowIterator, unit) st" where
  "RowIterator_Next src = RowIterator_move (rs_Next src) src"

definition RowIterator_Prev :: "'r kv_src \<Rightarrow> ('r RowIterator, unit) st" where
  "RowIterator_Prev src = RowIterator_move (rs_Prev src) src"

definition TableStartKey :: "Schema \<Rightarrow> bytes" where
  "TableStartKey sc = bytes_of (sc_Table sc) @ [0]"

definition DB_Seek :: "kv \<Rightarrow> Schema \<Rightarrow> bytes \<Rightarrow> level_iter MergedSortedKVIter RowIterator go" where
  "DB_Seek db sc key = go_bind (KV_Seek db key) (NewRowIterator (cursor_src store_ops) sc)"

definition DB_Scan :: "kv \<Rightarrow> Schema \<Rightarrow> level_iter MergedSortedKVIter RowIterator go" where
  "DB_Scan db sc = DB_Seek db sc (TableStartKey sc)"

text \<open>The client's loop: read the row, step, until the iterator is invalid or \<open>n\<close> rows are read.\<close>

fun read_rows :: "'r kv_src \<Rightarrow> nat \<Rightarrow> 'r RowIterator \<Rightarrow> Row list go" where
  "read_rows src 0 it = Some (Inr [])"
| "read_rows src (Suc n) it =
     (if \<not> RowIterator_Valid it then Some (Inr [])
      else (case RowIterator_Next src it of
          None \<Rightarrow> None
        | Some (Inl e, _) \<Rightarrow> Some (Inl e)
        | Some (Inr _, it') \<Rightarrow> go_bind (read_rows src n it') (\<lambda>rs. Some (Inr (RowIterator_Row it # rs)))))"

section \<open>Streams of rows\<close>

text \<open>The entries of a stream begin with the pairs of \<open>rows\<close> and go on, if at all, with another table.\<close>

definition rows_at :: "Schema \<Rightarrow> Row list \<Rightarrow> Entry list \<Rightarrow> bool" where
  "rows_at sc rows es \<longleftrightarrow> (\<exists>mine others. es = mine @ others \<and>
     list_all2 (\<lambda>row e. stored sc row (e_key e) (e_val e)) rows mine \<and>
     (case others of [] \<Rightarrow> True | e # _ \<Rightarrow> \<not> in_table sc (e_key e)))"

lemma rows_atI:
  assumes "list_all2 (\<lambda>row e. stored sc row (e_key e) (e_val e)) rows mine"
    and "\<And>e. e \<in> set others \<Longrightarrow> \<not> in_table sc (e_key e)"
  shows "rows_at sc rows (mine @ others)"
proof -
  have "case others of [] \<Rightarrow> True | e # _ \<Rightarrow> \<not> in_table sc (e_key e)"
    using assms(2) by (cases others) simp_all
  then show ?thesis using assms(1) unfolding rows_at_def by blast
qed

lemma rows_at_Cons:
  assumes "rows_at sc (row # rows) es"
  obtains e es' where "es = e # es'" "stored sc row (e_key e) (e_val e)" "rows_at sc rows es'"
proof -
  obtain mine others where "es = mine @ others"
    "list_all2 (\<lambda>row e. stored sc row (e_key e) (e_val e)) (row # rows) mine"
    and o: "case others of [] \<Rightarrow> True | e # _ \<Rightarrow> \<not> in_table sc (e_key e)"
    using assms unfolding rows_at_def by blast
  then obtain e mine' where "es = e # mine' @ others" "stored sc row (e_key e) (e_val e)"
    "list_all2 (\<lambda>row e. stored sc row (e_key e) (e_val e)) rows mine'"
    by (auto simp: list_all2_Cons1)
  then show thesis using o by (intro that) (auto simp: rows_at_def)
qed

lemma foreign_key: "\<not> in_table sc k \<Longrightarrow> Row_DecodeKey sc k row = Some (Inl ErrOutOfRange, row)"
  unfolding in_table_def Row_DecodeKey_def Let_def by (metis append_take_drop_id)

locale row_stream = entry_stream "rs_Valid src" "rs_Key src" "rs_Val src" "rs_Next src" ok todo
  for src :: "'r kv_src" and ok :: "'r \<Rightarrow> bool" and todo :: "'r \<Rightarrow> Entry list"
begin

definition rows_ok :: "Schema \<Rightarrow> 'r RowIterator \<Rightarrow> Row list \<Rightarrow> bool" where
  "rows_ok sc it rows \<longleftrightarrow> ri_schema it = sc \<and> ok (ri_iter it) \<and> rows_at sc rows (todo (ri_iter it)) \<and>
     (case rows of [] \<Rightarrow> \<not> ri_valid it | row # _ \<Rightarrow> ri_valid it \<and> ri_row it = row)"

lemma decode_rows:
  assumes sc: "schema_ok sc" and it: "ri_schema it = sc" "ok (ri_iter it)" "rows_at sc rows (todo (ri_iter it))"
  shows "\<exists>it'. RowIterator_decode src it = Some (Inr (), it') \<and> rows_ok sc it' rows"
proof -
  obtain mine others where es: "todo (ri_iter it) = mine @ others"
    "list_all2 (\<lambda>row e. stored sc row (e_key e) (e_val e)) rows mine"
    "case others of [] \<Rightarrow> True | e # _ \<Rightarrow> \<not> in_table sc (e_key e)"
    using it(3) by (auto simp: rows_at_def)
  show ?thesis
  proof (cases rows)
    case rows: Nil
    then have "mine = []" using es(2) by simp
    then consider (stop) "todo (ri_iter it) = []" | (foreign) e more where "todo (ri_iter it) = e # more" "\<not> in_table sc (e_key e)"
      using es(1,3) by (cases others) auto
    then have "RowIterator_decode src it = Some (Inr (), it\<lparr>ri_valid := False\<rparr>)"
    proof cases
      case stop
      then show ?thesis using at_end [OF it(2)] by (simp add: RowIterator_decode_def)
    next
      case foreign
      then show ?thesis using at_entry [OF it(2) foreign(1)] foreign_key [OF foreign(2)]
        by (simp add: RowIterator_decode_def it(1))
    qed
    then show ?thesis using it rows by (simp add: rows_ok_def)
  next
    case (Cons row more)
    then obtain e mine' where m: "mine = e # mine'" "stored sc row (e_key e) (e_val e)"
      using es(2) by (auto simp: list_all2_Cons1)
    obtain row1 where "Row_DecodeKey sc (e_key e) (Schema_NewRow sc) = Some (Inr (), row1)"
      "Row_DecodeVal sc (e_val e) row1 = Some (Inr (), row)"
      using stored_decode [OF sc m(2) stored_fillable [OF sc m(2)]] by blast
    then have "RowIterator_decode src it = Some (Inr (), it\<lparr>ri_valid := False, ri_row := row, ri_valid := True\<rparr>)"
      using at_entry [OF it(2), of e] es(1) m(1) by (simp add: RowIterator_decode_def it(1))
    then show ?thesis using it Cons by (simp add: rows_ok_def)
  qed
qed

lemma open_rows:
  assumes "schema_ok sc" "ok c" "rows_at sc rows (todo c)"
  shows "\<exists>it. NewRowIterator src sc c = Some (Inr it) \<and> rows_ok sc it rows"
  using decode_rows [OF assms(1), of "\<lparr>ri_schema = sc, ri_iter = c, ri_valid = False, ri_row = []\<rparr>" rows] assms(2,3)
  by (auto simp: NewRowIterator_def)

lemma next_row:
  assumes sc: "schema_ok sc" and it: "rows_ok sc it (row # rows)"
  shows "RowIterator_Valid it" "RowIterator_Row it = row"
    "\<exists>it'. RowIterator_Next src it = Some (Inr (), it') \<and> rows_ok sc it' rows"
proof -
  show "RowIterator_Valid it" "RowIterator_Row it = row"
    using it by (simp_all add: rows_ok_def RowIterator_Valid_def RowIterator_Row_def)
  have ok: "ok (ri_iter it)" "ri_schema it = sc" using it by (simp_all add: rows_ok_def)
  obtain e es where es: "todo (ri_iter it) = e # es" "rows_at sc rows es"
    using it unfolding rows_ok_def by (blast elim: rows_at_Cons)
  obtain c where c: "rs_Next src (ri_iter it) = Some (Inr (), c)" "ok c" "todo c = es"
    using advances [OF ok(1) es(1)] by blast
  then show "\<exists>it'. RowIterator_Next src it = Some (Inr (), it') \<and> rows_ok sc it' rows"
    using decode_rows [OF sc, of "it\<lparr>ri_iter := c\<rparr>" rows] ok(2) es(2)
    by (simp add: RowIterator_Next_def RowIterator_move_def)
qed

lemma read_rows_all:
  "schema_ok sc \<Longrightarrow> rows_ok sc it rows \<Longrightarrow> read_rows src n it = Some (Inr (take n rows))"
proof (induction n arbitrary: it rows)
  case (Suc n)
  show ?case
  proof (cases rows)
    case Nil
    then show ?thesis using Suc.prems(2) by (simp add: rows_ok_def RowIterator_Valid_def)
  next
    case (Cons row more)
    then show ?thesis using next_row [OF Suc.prems(1), of it row more] Suc by auto
  qed
qed simp

end

section \<open>The two cursors\<close>

context scan_cursor
begin

lemma scan_stream:
  "entry_stream (\<lambda>c. Some (it_Valid ops c)) (it_Key ops) (it_Val ops) (it_Next ops) (\<lambda>c. inv c \<and> 0 \<le> pos c) rest"
proof
  fix c assume c: "inv c \<and> 0 \<le> pos c"
  show "Some (it_Valid ops c) = Some False" if "rest c = []"
    using c that rest_valid [of c] by auto
  fix e es assume todo: "rest c = e # es"
  have v: "it_Valid ops c" using c todo not_valid_rest [of c] by auto
  show "Some (it_Valid ops c) = Some True \<and> it_Key ops c = Some (e_key e) \<and> it_Val ops c = Some (e_val e)"
    using v c key [of c] val [of c] rest_valid [of c] todo by (simp add: entry_at_def)
  show "\<exists>c'. it_Next ops c = Some (Inr (), c') \<and> (inv c' \<and> 0 \<le> pos c') \<and> rest c' = es"
    using v c todo step_next_rest [of c] by (metis add_nonneg_nonneg list.inject zero_le_one)
qed

end

interpretation seek_rows: row_stream "cursor_src store_ops"
  "\<lambda>c. db_merge.nodel_inv c \<and> 0 \<le> db_merge.nodel_pos c" store.rest
  unfolding row_stream_def using store.scan_stream by (simp add: cursor_src_def)

interpretation range_rows: row_stream "range_src store_ops" store_range_ok store_range_todo
  unfolding row_stream_def using store_range.entry_stream_axioms by (simp add: range_src_def)

section \<open>Scanning a table\<close>

text \<open>The keys under a prefix are an interval.\<close>

lemma prefix_interval:
  fixes p :: bytes
  shows "p @ x \<le> k \<Longrightarrow> k \<le> p @ y \<Longrightarrow> \<exists>z. k = p @ z"
proof (induction p arbitrary: k)
  case (Cons a p)
  then show ?case by (cases k) auto
qed simp

lemma prefix_above:
  fixes p :: bytes
  shows "p \<le> k \<Longrightarrow> \<nexists>z. k = p @ z \<Longrightarrow> p @ x < k"
  using prefix_interval [of p "[]" k x] by (metis append_Nil2 not_le)

definition row_of :: "Schema \<Rightarrow> Entry \<Rightarrow> Row" where
  "row_of sc e = (THE row. stored sc row (e_key e) (e_val e))"

lemma row_of_stored:
  assumes "schema_ok sc" "stored sc row (e_key e) (e_val e)"
  shows "row_of sc e = row"
  unfolding row_of_def using assms stored_unique [OF assms(1)] by blast

text \<open>The rows of a sorted list of pairs: in primary-key order, each once.\<close>

lemma rows_of_entries:
  assumes sc: "schema_ok sc" and es: "sorted_entries es" and st: "\<forall>e\<in>set es. \<exists>row. stored sc row (e_key e) (e_val e)"
  defines "rows \<equiv> map (row_of sc) es"
  shows "list_all2 (\<lambda>row e. stored sc row (e_key e) (e_val e)) rows es"
    and "sorted_wrt (\<lambda>r s. pkey_vals sc r < pkey_vals sc s) rows"
    and "set rows = {row. \<exists>e\<in>set es. stored sc row (e_key e) (e_val e)}"
proof -
  have one: "stored sc (row_of sc e) (e_key e) (e_val e)" if "e \<in> set es" for e
    using st that row_of_stored [OF sc] by metis
  show "list_all2 (\<lambda>row e. stored sc row (e_key e) (e_val e)) rows es"
    using one by (simp add: rows_def list_all2_map1 list_all2_same)
  have "pkey_vals sc (row_of sc a) < pkey_vals sc (row_of sc b)" if "a \<in> set es" "b \<in> set es" "e_key a < e_key b" for a b
    using stored_pkey(2) [OF sc one [OF that(1)] one [OF that(2)]] that(3) by simp
  moreover have "sorted_wrt (\<lambda>a b. e_key a < e_key b) es" using es by (simp add: sorted_entries_def sorted_wrt_map)
  ultimately have "sorted_wrt (\<lambda>a b. pkey_vals sc (row_of sc a) < pkey_vals sc (row_of sc b)) es"
    by (rule sorted_wrt_mono_rel)
  then show "sorted_wrt (\<lambda>r s. pkey_vals sc r < pkey_vals sc s) rows" by (simp add: rows_def sorted_wrt_map)
  show "set rows = {row. \<exists>e\<in>set es. stored sc row (e_key e) (e_val e)}"
    using one row_of_stored [OF sc] by (auto simp: rows_def)
qed

text \<open>The live entries whose key satisfies \<open>P\<close> are the rows whose key does.\<close>

lemma store_rows:
  assumes sc: "schema_ok sc" and t: "table_ok sc (kv_view s)"
  shows "e \<in> set (store_entries s) \<Longrightarrow> in_table sc (e_key e) \<Longrightarrow> \<exists>row. stored sc row (e_key e) (e_val e)"
    and "{row. \<exists>e\<in>set (store_entries s). P (e_key e) \<and> stored sc row (e_key e) (e_val e)} =
      {row \<in> table_rows sc (kv_view s). \<exists>k. Row_EncodeKey sc row = Some k \<and> P k}"
proof -
  have live: "kv_view s (e_key e) = Some (e_val e)" if "e \<in> set (store_entries s)" for e
    using store_entries_map es_map_mem [OF store_entries_sorted that] by blast
  show "\<exists>row. stored sc row (e_key e) (e_val e)" if "e \<in> set (store_entries s)" "in_table sc (e_key e)"
    using t live [OF that(1)] that(2) by (auto simp: table_ok_def)
  have found: "\<exists>e\<in>set (store_entries s). e_key e = k \<and> e_val e = v" if "kv_view s k = Some v" for k v
  proof -
    have "k \<in> e_key ` set (store_entries s)" using that by (auto simp: store_entries_dom)
    then show ?thesis using live that by auto
  qed
  show "{row. \<exists>e\<in>set (store_entries s). P (e_key e) \<and> stored sc row (e_key e) (e_val e)} =
      {row \<in> table_rows sc (kv_view s). \<exists>k. Row_EncodeKey sc row = Some k \<and> P k}" (is "?L = ?R")
  proof (intro set_eqI iffI)
    fix row assume "row \<in> ?L"
    then obtain e where e: "e \<in> set (store_entries s)" "P (e_key e)" "stored sc row (e_key e) (e_val e)" by blast
    have "Row_EncodeKey sc row = Some (e_key e)" using e(3) by (simp add: stored_def)
    then show "row \<in> ?R" using e live [OF e(1)] by (auto simp: table_rows_def)
  next
    fix row assume "row \<in> ?R"
    then obtain k v l where kv: "kv_view s k = Some v" "stored sc row k v" "Row_EncodeKey sc row = Some l" "P l"
      by (auto simp: table_rows_def)
    obtain e where "e \<in> set (store_entries s)" "e_key e = k" "e_val e = v" using found [OF kv(1)] by blast
    then show "row \<in> ?L" using kv(2-4) by (auto simp: stored_def intro!: bexI [of _ e])
  qed
qed

abbreviation seek_src :: "level_iter MergedSortedKVIter kv_src" where
  "seek_src \<equiv> cursor_src store_ops"

lemma DB_Seek_correct:
  assumes ok: "kv_ok db" and sc: "schema_ok sc" and t: "table_ok sc (kv_view db)" and key: "TableStartKey sc \<le> key"
  shows "\<exists>it rows. DB_Seek db sc key = Some (Inr it) \<and> (\<forall>n. read_rows seek_src n it = Some (Inr (take n rows))) \<and>
    sorted_wrt (\<lambda>r s. pkey_vals sc r < pkey_vals sc s) rows \<and>
    set rows = {row \<in> table_rows sc (kv_view db). \<exists>k. Row_EncodeKey sc row = Some k \<and> key \<le> k}"
proof -
  obtain c where c: "KV_Seek db key = Some (Inr c)" "db_merge.nodel_inv c" "db_merge.nodel_rep c = store_entries db"
    "db_merge.nodel_pos c = int (cutp (\<lambda>x. x < key) (store_entries db))"
    using KV_Seek_at [OF ok, of key] by blast
  let ?es = "filter (\<lambda>e. key \<le> e_key e) (store_entries db)"
  have todo: "store.rest c = ?es"
    using c sorted_drop_cut [OF store_entries_sorted, of key db] by (simp add: store.rest_def)
  let ?mine = "takeWhile (\<lambda>e. in_table sc (e_key e)) ?es" and ?others = "dropWhile (\<lambda>e. in_table sc (e_key e)) ?es"
  have sorted: "sorted_entries ?es" by (simp add: sorted_entries_filter)
  have split: "sorted_entries ?mine" "sorted_entries ?others" "\<forall>x\<in>set ?mine. \<forall>y\<in>set ?others. e_key x < e_key y"
    using sorted sorted_entries_append [of ?mine ?others] by simp_all
  have above: "\<not> in_table sc (e_key e)" if e: "e \<in> set ?others" for e
  proof
    assume in_t: "in_table sc (e_key e)"
    obtain f more where f: "?others = f # more" using e by (cases ?others) auto
    then have nf: "\<not> in_table sc (e_key f)" using hd_dropWhile [of "\<lambda>e. in_table sc (e_key e)" ?es] by auto
    have "f \<in> set ?others" by (simp only: f list.set_intros)
    then have "f \<in> set ?es" by (rule set_dropWhileD)
    then have "table_prefix sc \<le> e_key f" using key by (auto simp: TableStartKey_def table_prefix_def)
    obtain z where "e_key e = table_prefix sc @ z" using in_t by (auto simp: in_table_def)
    then have "e_key e < e_key f"
      using prefix_above [OF \<open>table_prefix sc \<le> e_key f\<close>] nf by (auto simp: in_table_def)
    moreover have "e_key f \<le> e_key e" using split(2) e unfolding f by (auto simp: sorted_entries_Cons)
    ultimately show False by simp
  qed
  have st: "\<forall>e\<in>set ?mine. \<exists>row. stored sc row (e_key e) (e_val e)"
    using store_rows(1) [OF sc t] by (auto dest: set_takeWhileD)
  note rows = rows_of_entries [OF sc split(1) st]
  let ?rows = "map (row_of sc) ?mine"
  have "rows_at sc ?rows (?mine @ ?others)" by (rule rows_atI [OF rows(1)]) (rule above)
  then have "rows_at sc ?rows (store.rest c)" unfolding todo by (simp only: takeWhile_dropWhile_id)
  moreover have "db_merge.nodel_inv c \<and> 0 \<le> db_merge.nodel_pos c" using c(2,4) by simp
  ultimately obtain it where it: "NewRowIterator seek_src sc c = Some (Inr it)" "seek_rows.rows_ok sc it ?rows"
    using seek_rows.open_rows [OF sc] by blast
  have "set ?rows = {row. \<exists>e\<in>set ?mine. stored sc row (e_key e) (e_val e)}" by (rule rows(3))
  also have "\<dots> = {row. \<exists>e\<in>set (store_entries db). key \<le> e_key e \<and> stored sc row (e_key e) (e_val e)}"
  proof -
    have "e \<in> set ?mine" if "e \<in> set (store_entries db)" "key \<le> e_key e" "stored sc row (e_key e) (e_val e)" for row e
    proof -
      have "e \<in> set (?mine @ ?others)" using that(1,2) by simp
      then show ?thesis using above stored_in_table [OF sc that(3)] by (metis set_append Un_iff)
    qed
    moreover have "e \<in> set (store_entries db) \<and> key \<le> e_key e" if "e \<in> set ?mine" for e
      using set_takeWhileD [OF that] by simp
    ultimately show ?thesis by blast
  qed
  finally have "set ?rows = {row \<in> table_rows sc (kv_view db). \<exists>k. Row_EncodeKey sc row = Some k \<and> key \<le> k}"
    using store_rows(2) [OF sc t, of "\<lambda>k. key \<le> k"] by simp
  moreover have "read_rows seek_src n it = Some (Inr (take n ?rows))" for n by (rule seek_rows.read_rows_all [OF sc it(2)])
  moreover have "DB_Seek db sc key = Some (Inr it)" using c(1) it(1) by (simp add: DB_Seek_def)
  ultimately show ?thesis using rows(2) by blast
qed

text \<open>A full scan.\<close>

lemma in_table_start: "schema_ok sc \<Longrightarrow> in_table sc k \<Longrightarrow> TableStartKey sc \<le> k"
  using append_less_same(2) [of "table_prefix sc" "[]"] by (auto simp: in_table_def TableStartKey_def table_prefix_def)

lemma DB_Scan_correct:
  assumes ok: "kv_ok db" and sc: "schema_ok sc" and t: "table_ok sc (kv_view db)"
  shows "\<exists>it rows. DB_Scan db sc = Some (Inr it) \<and> (\<forall>n. read_rows seek_src n it = Some (Inr (take n rows))) \<and>
    sorted_wrt (\<lambda>r s. pkey_vals sc r < pkey_vals sc s) rows \<and> set rows = table_rows sc (kv_view db)"
proof -
  have "{row \<in> table_rows sc (kv_view db). \<exists>k. Row_EncodeKey sc row = Some k \<and> TableStartKey sc \<le> k} = table_rows sc (kv_view db)"
    using in_table_start [OF sc] stored_in_table [OF sc] by (auto simp: table_rows_def stored_def)
  with DB_Seek_correct [OF assms order_refl] show ?thesis by (simp add: DB_Scan_def)
qed

section \<open>Scanning a key range of a table\<close>

abbreviation table_range_src :: "level_iter MergedSortedKVIter RangedKVIter kv_src" where
  "table_range_src \<equiv> range_src store_ops"

lemma in_range_in_table:
  "in_table sc a \<Longrightarrow> in_table sc b \<Longrightarrow> a \<le> k \<Longrightarrow> k \<le> b \<Longrightarrow> in_table sc k"
  unfolding in_table_def using prefix_interval by blast

lemma table_range_correct:
  assumes ok: "kv_ok db" and sc: "schema_ok sc" and t: "table_ok sc (kv_view db)"
    and b: "in_table sc start" "in_table sc stop"
    and desc: "ds \<longrightarrow> kv_no_empty_key db \<and> (\<exists>k\<in>dom (kv_view db). start \<le> k)"
  shows "\<exists>r it rows. KV_Range db start stop ds = Some (Inr r) \<and> NewRowIterator table_range_src sc r = Some (Inr it) \<and>
    (\<forall>n. read_rows table_range_src n it = Some (Inr (take n rows))) \<and>
    sorted_wrt (\<lambda>r s. if ds then pkey_vals sc s < pkey_vals sc r else pkey_vals sc r < pkey_vals sc s) rows \<and>
    set rows = {row \<in> table_rows sc (kv_view db). \<exists>k. Row_EncodeKey sc row = Some k \<and>
      (if ds then stop \<le> k \<and> k \<le> start else start \<le> k \<and> k \<le> stop)}"
proof -
  let ?P = "\<lambda>k. if ds then stop \<le> k \<and> k \<le> start else start \<le> k \<and> k \<le> stop"
  let ?es = "filter (\<lambda>e. ?P (e_key e)) (store_entries db)"
  have "\<exists>r. KV_Range db start stop ds = Some (Inr r) \<and> store_range_ok r \<and>
      store_range_todo r = range_entries start stop ds (store_entries db)"
    using KV_Range_asc [OF ok, of start stop] KV_Range_desc [OF ok, of start stop] desc by (cases ds) simp_all
  then obtain r where r: "KV_Range db start stop ds = Some (Inr r)" "store_range_ok r"
    "store_range_todo r = range_entries start stop ds (store_entries db)" by blast
  have todo: "store_range_todo r = (if ds then rev ?es else ?es)" by (simp add: r(3) range_entries_def)
  have sorted: "sorted_entries ?es" by (rule sorted_entries_filter) simp
  have st: "\<forall>e\<in>set ?es. \<exists>row. stored sc row (e_key e) (e_val e)"
    using store_rows(1) [OF sc t] in_range_in_table [OF b] in_range_in_table [OF b(2,1)] by (auto split: if_splits)
  note rows = rows_of_entries [OF sc sorted st]
  let ?rows = "map (row_of sc) ?es"
  let ?out = "if ds then rev ?rows else ?rows"
  have "list_all2 (\<lambda>row e. stored sc row (e_key e) (e_val e)) ?out (store_range_todo r)"
    using rows(1) by (cases ds) (simp_all add: todo list_all2_rev)
  then have "rows_at sc ?out (store_range_todo r @ [])" by (rule rows_atI) simp
  then obtain it where it: "NewRowIterator table_range_src sc r = Some (Inr it)" "range_rows.rows_ok sc it ?out"
    using range_rows.open_rows [OF sc r(2), of ?out] by auto
  have "set ?out = set ?rows" by simp
  also have "\<dots> = {row. \<exists>e\<in>set ?es. stored sc row (e_key e) (e_val e)}" by (rule rows(3))
  also have "\<dots> = {row. \<exists>e\<in>set (store_entries db). ?P (e_key e) \<and> stored sc row (e_key e) (e_val e)}" by auto
  finally have "set ?out = {row \<in> table_rows sc (kv_view db). \<exists>k. Row_EncodeKey sc row = Some k \<and> ?P k}"
    unfolding store_rows(2) [OF sc t, of ?P] .
  moreover have "sorted_wrt (\<lambda>r s. if ds then pkey_vals sc s < pkey_vals sc r else pkey_vals sc r < pkey_vals sc s) ?out"
    using rows(2) by (cases ds) (simp_all add: sorted_wrt_rev)
  moreover have "read_rows table_range_src n it = Some (Inr (take n ?out))" for n
    by (rule range_rows.read_rows_all [OF sc it(2)])
  ultimately show ?thesis using r(1) it(1) by blast
qed

end
