(* ===== verification/Table_Properties.thy ===== *)
theory Table_Properties
  imports RowIter Durability
begin

text \<open>
  The properties of the table layer: the two cell encodings, keys and their order, rows, and the
  operations of \<^verbatim>\<open>DB\<close> as operations on a relation with a primary key.
\<close>

section \<open>Inputs\<close>

definition i64_cell :: "64 word \<Rightarrow> Cell" where
  "i64_cell i = \<lparr>c_Type = TypeI64, c_I64 = i, c_Str = []\<rparr>"

definition str_cell :: "bytes \<Rightarrow> Cell" where
  "str_cell s = \<lparr>c_Type = TypeStr, c_I64 = 0, c_Str = s\<rparr>"

text \<open>A table \<^verbatim>\<open>t\<close> with an integer and a string column as key and a string column beside it.\<close>

definition sample_schema :: Schema where
  "sample_schema = \<lparr>sc_Table = ''t'', sc_Cols = [\<lparr>col_Name = ''id'', col_Type = TypeI64\<rparr>,
     \<lparr>col_Name = ''v'', col_Type = TypeStr\<rparr>, \<lparr>col_Name = ''n'', col_Type = TypeStr\<rparr>], sc_PKey = [0, 2]\<rparr>"

definition sample_row :: "64 word \<Rightarrow> Row" where
  "sample_row i = [i64_cell i, str_cell [7, 0], str_cell [0, 1, 9]]"

definition sample_db :: kv where
  "sample_db = \<lparr>kv_Options = \<lparr>Dirpath = ''d'', LogShreshold = 1, GrowthFactor = 2\<rparr>,
     kv_meta = fresh_store '''' '''', kv_log = \<lparr>FileName = '''', log_fp = None\<rparr>,
     kv_mem = snd (SortedArray_Set empty_array (the (Row_EncodeKey sample_schema (sample_row 5)))
        (the (Row_EncodeVal sample_schema (sample_row 5)))), kv_main = [], kv_version = 0\<rparr>"

definition no_disk :: disk where
  "no_disk = \<lparr>files = Map.empty, unsynced = \<lambda>_. [], unlisted = \<lambda>_. [], faults = []\<rparr>"

lemma sample_schema_ok: "schema_ok sample_schema"
  by (simp add: schema_ok_def sample_schema_def bytes_of_def)

lemma sample_row_ok: "row_ok sample_schema (sample_row i)"
  by (simp add: row_ok_def sample_schema_def sample_row_def i64_cell_def str_cell_def)

lemma sample_row_fits: "row_fits sample_schema (sample_row i)"
proof -
  have "Row_EncodeVal sample_schema (sample_row i) = Some (le_bytes 4 (len32 [7, 0]) @ [7, 0])"
    by (simp add: Row_EncodeVal_def col_indices_def sample_schema_def sample_row_def Schema_IsPKey_def slice_at_def
        str_cell_def Cell_EncodeVal_def upt_rec)
  then show ?thesis
    using sample_row_ok [of i] by (simp add: row_fits_def cell_plain_def sample_row_def i64_cell_def str_cell_def)
qed

lemma sample_encodes:
  "Row_EncodeKey sample_schema (sample_row i) = Some (the (Row_EncodeKey sample_schema (sample_row i)))"
  "Row_EncodeVal sample_schema (sample_row i) = Some (the (Row_EncodeVal sample_schema (sample_row i)))"
  using row_fits_stored [OF sample_schema_ok sample_row_fits [of i]] by auto

lemma sample_db_facts: "kv_ok sample_db" "table_ok sample_schema (kv_view sample_db)"
  "kv_view sample_db = [the (Row_EncodeKey sample_schema (sample_row 5)) \<mapsto> the (Row_EncodeVal sample_schema (sample_row 5))]"
proof -
  let ?k = "the (Row_EncodeKey sample_schema (sample_row 5))" and ?v = "the (Row_EncodeVal sample_schema (sample_row 5))"
  note u = SortedArray_update(1,2) [OF empty_array_wf, of ?k ?v]
  show "kv_ok sample_db" using u(1) by (simp add: kv_ok_def sample_db_def)
  show v: "kv_view sample_db = [?k \<mapsto> ?v]"
    using u(2) by (simp add: kv_view_def level_entries_simp sample_db_def put_entry_def empty_array_def arr_entries_def
        Let_def cutp_def visible_def fun_eq_iff)
  have "stored sample_schema (sample_row 5) ?k ?v"
    using sample_encodes [of 5] sample_row_fits by (simp add: stored_def)
  then show "table_ok sample_schema (kv_view sample_db)" unfolding v by (auto simp: table_ok_def)
qed

section \<open>Cells\<close>

text \<open>C19: A cell reads back from its value encoding: \<^verbatim>\<open>DecodeVal\<close> into a cell of the same type
  returns the encoded field and the bytes after it, for every integer and string; the length test
  is taken modulo \<open>2 ^ 32\<close>, which bounds the data.\<close>

theorem cell_value_round_trip:
  assumes "cell_typed c" "c_Type c0 = c_Type c" "Cell_EncodeVal c out = Some (out @ e)" "length (e @ rest) < 2 ^ 32"
  shows "Cell_DecodeVal c0 (e @ rest) = Inr (rest, cell_filled c0 c)"
  using Cell_DecodeVal_bytes [of c c0 rest] Cell_Encode_append(1) [of c out] assms by simp

theorem cell_value_round_trip_witness:
  "Cell_DecodeVal (str_cell []) ((le_bytes 4 (len32 [7, 0]) @ [7, 0]) @ [1]) = Inr ([1], cell_filled (str_cell []) (str_cell [7, 0]))"
  by (rule cell_value_round_trip [where out = "[9]"])
    (simp_all add: cell_typed_def str_cell_def Cell_EncodeVal_def)

text \<open>C20: A cell reads back from its key encoding, whatever bytes follow: the sign flip and the
  string escapes are undone and exactly the encoded bytes are consumed.\<close>

theorem cell_key_round_trip:
  assumes "cell_typed c" "c_Type c0 = c_Type c" "Cell_EncodeKey c out = Some (out @ e)"
  shows "Cell_DecodeKey c0 (e @ rest) = Inr (rest, cell_filled c0 c)"
  using Cell_DecodeKey_bytes [of c c0 rest] Cell_Encode_append(2) [of c out] assms by simp

theorem cell_key_round_trip_witness:
  "Cell_DecodeKey (str_cell []) ([1, 1, 1, 2, 9, 0] @ [5]) = Inr ([5], cell_filled (str_cell []) (str_cell [0, 1, 9]))"
  by (rule cell_key_round_trip [where out = "[]"])
    (simp_all add: cell_typed_def str_cell_def Cell_EncodeKey_def encodeStrKey_def key_escape_def)

text \<open>C21: The key encoding is order-preserving and prefix-free: for two cells of one type the byte
  order of their encodings, with anything after them, is the signed order of integers and the
  lexicographic order of strings, and equal cells defer to what follows.\<close>

theorem cell_key_order:
  assumes "cell_typed a" "c_Type b = c_Type a" "Cell_EncodeKey a [] = Some ka" "Cell_EncodeKey b [] = Some kb"
  shows "ka @ x < kb @ y \<longleftrightarrow>
    (if c_Type a = TypeI64 then sint (c_I64 a) < sint (c_I64 b) \<or> c_I64 a = c_I64 b \<and> x < y
     else c_Str a < c_Str b \<or> c_Str a = c_Str b \<and> x < y)"
proof -
  have "ka = cell_key_bytes a" "kb = cell_key_bytes b"
    using assms by (simp_all add: cell_key_bytes_def)
  moreover have "sint (c_I64 a) = sint (c_I64 b) \<longleftrightarrow> c_I64 a = c_I64 b" by (metis signed_word_eqI)
  ultimately show ?thesis
    using cell_key_same_type [OF assms(1,2), of x y] assms(2) by (simp add: cell_val_def less_KeyVal_def)
qed

theorem cell_key_order_witness:
  "be_bytes 8 (sign_flip (- 1)) @ [9] < be_bytes 8 (sign_flip 1) @ [0 :: byte] \<longleftrightarrow>
    (if c_Type (i64_cell (- 1)) = TypeI64
     then sint (c_I64 (i64_cell (- 1))) < sint (c_I64 (i64_cell 1)) \<or> c_I64 (i64_cell (- 1)) = c_I64 (i64_cell 1) \<and> [9] < [0 :: byte]
     else c_Str (i64_cell (- 1)) < c_Str (i64_cell 1) \<or> c_Str (i64_cell (- 1)) = c_Str (i64_cell 1) \<and> [9] < [0 :: byte])"
  by (rule cell_key_order) (simp_all add: cell_typed_def i64_cell_def Cell_EncodeKey_def)

section \<open>Rows\<close>

text \<open>C22: Byte order on row keys is tuple order on primary keys: for two rows of a schema the KV keys
  compare as the lists of their primary-key values, and are equal exactly when those are.\<close>

theorem row_key_order:
  assumes "schema_ok sc" "row_ok sc r" "row_ok sc s" "Row_EncodeKey sc r = Some k" "Row_EncodeKey sc s = Some l"
  shows "(k < l \<longleftrightarrow> pkey_vals sc r < pkey_vals sc s) \<and> (k = l \<longleftrightarrow> pkey_vals sc r = pkey_vals sc s)"
  using key_tuple_order [OF assms(1) row_ok_key [OF assms(1,2)] row_ok_key [OF assms(1,3)] assms(4,5)] by blast

theorem row_key_order_witness:
  "(the (Row_EncodeKey sample_schema (sample_row 3)) < the (Row_EncodeKey sample_schema (sample_row (- 4))) \<longleftrightarrow>
      pkey_vals sample_schema (sample_row 3) < pkey_vals sample_schema (sample_row (- 4))) \<and>
   (the (Row_EncodeKey sample_schema (sample_row 3)) = the (Row_EncodeKey sample_schema (sample_row (- 4))) \<longleftrightarrow>
      pkey_vals sample_schema (sample_row 3) = pkey_vals sample_schema (sample_row (- 4)))"
  by (rule row_key_order [OF sample_schema_ok sample_row_ok sample_row_ok sample_encodes(1) sample_encodes(1)])

text \<open>C23: The padded prefixes of \<^verbatim>\<open>EncodeKeyPrefix\<close> are exact bounds: for values of the first key
  columns, a row's key is at or above the prefix padded low iff the row's tuple is at or above the
  values, above the prefix padded high iff it is strictly above; dually from the other side.\<close>

theorem prefix_bounds_exact:
  assumes "schema_ok sc" "row_ok sc r" "Row_EncodeKey sc r = Some k"
    and "list_all cell_typed p" "length p \<le> length (sc_PKey sc)" "EncodeKeyPrefix sc p positive = Some b"
  shows "(b \<le> k \<longleftrightarrow> (if positive then map cell_val p < take (length p) (pkey_vals sc r)
                    else map cell_val p \<le> take (length p) (pkey_vals sc r))) \<and>
    (k \<le> b \<longleftrightarrow> (if positive then take (length p) (pkey_vals sc r) \<le> map cell_val p
                else take (length p) (pkey_vals sc r) < map cell_val p))"
  using key_prefix_bounds [OF assms(1) row_ok_key [OF assms(1,2)] assms(3-6)] by blast

theorem prefix_bounds_exact_witness:
  "(the (EncodeKeyPrefix sample_schema [i64_cell 4] True) \<le> the (Row_EncodeKey sample_schema (sample_row 4)) \<longleftrightarrow>
      (if True then map cell_val [i64_cell 4] < take (length [i64_cell 4]) (pkey_vals sample_schema (sample_row 4))
       else map cell_val [i64_cell 4] \<le> take (length [i64_cell 4]) (pkey_vals sample_schema (sample_row 4)))) \<and>
   (the (Row_EncodeKey sample_schema (sample_row 4)) \<le> the (EncodeKeyPrefix sample_schema [i64_cell 4] True) \<longleftrightarrow>
      (if True then take (length [i64_cell 4]) (pkey_vals sample_schema (sample_row 4)) \<le> map cell_val [i64_cell 4]
       else take (length [i64_cell 4]) (pkey_vals sample_schema (sample_row 4)) < map cell_val [i64_cell 4]))"
  by (rule prefix_bounds_exact [OF sample_schema_ok sample_row_ok sample_encodes(1)])
    (simp_all add: cell_typed_def i64_cell_def sample_schema_def EncodeKeyPrefix_correct)

text \<open>C24: A row reads back from its KV pair: decoding key and value into a fresh row of the schema
  returns the row, for every schema, column order and choice of primary key.\<close>

theorem row_round_trip:
  assumes "schema_ok sc" "row_fits sc row" "Row_EncodeKey sc row = Some k" "Row_EncodeVal sc row = Some v"
  shows "\<exists>row1. Row_DecodeKey sc k (Schema_NewRow sc) = Some (Inr (), row1) \<and> Row_DecodeVal sc v row1 = Some (Inr (), row)"
proof -
  have st: "stored sc row k v" using assms by (simp add: stored_def)
  show ?thesis by (rule stored_decode [OF assms(1) st stored_fillable [OF assms(1) st]])
qed

theorem row_round_trip_witness:
  "\<exists>row1. Row_DecodeKey sample_schema (the (Row_EncodeKey sample_schema (sample_row 8))) (Schema_NewRow sample_schema) = Some (Inr (), row1) \<and>
    Row_DecodeVal sample_schema (the (Row_EncodeVal sample_schema (sample_row 8))) row1 = Some (Inr (), sample_row 8)"
  by (rule row_round_trip [OF sample_schema_ok sample_row_fits sample_encodes])

text \<open>Tables do not overlap: a key of one table decodes as \<^verbatim>\<open>ErrOutOfRange\<close> under the schema of
  a table of another name, be that a prefix of it, and the row is not touched.\<close>

theorem tables_disjoint:
  assumes "schema_ok sc" "schema_ok sc'" "sc_Table sc \<noteq> sc_Table sc'" "row_ok sc' r" "Row_EncodeKey sc' r = Some k"
  shows "Row_DecodeKey sc k row = Some (Inl ErrOutOfRange, row)"
proof -
  have "k = table_prefix sc' @ tuple_key (pkey_cells sc' r) @ [0]"
    using Row_EncodeKey_correct [OF assms(2) row_ok_key [OF assms(2,4)]] assms(5) by simp
  then show ?thesis using table_keys_disjoint [OF assms(1-3)] by simp
qed

theorem tables_disjoint_witness:
  "Row_DecodeKey (sample_schema\<lparr>sc_Table := ''tt''\<rparr>) (the (Row_EncodeKey sample_schema (sample_row 1))) [] = Some (Inl ErrOutOfRange, [])"
  by (rule tables_disjoint [OF _ sample_schema_ok _ sample_row_ok sample_encodes(1)])
    (simp_all add: schema_ok_def sample_schema_def bytes_of_def)

section \<open>Tables\<close>

text \<open>C26: \<^verbatim>\<open>Insert\<close>, \<^verbatim>\<open>Update\<close> and \<^verbatim>\<open>Upsert\<close> act on a table as on a relation with a primary key:
  they return for every script of disk faults; the flag and the new set of rows are those of the
  mode; the only error is that of the log, and it changes nothing; every other table keeps its rows.\<close>

theorem db_write_refines_relation:
  assumes "kv_ok db" "schema_ok sc" "table_ok sc (kv_view db)" "row_fits sc row"
    and "schema_ok sc'" "sc_Table sc \<noteq> sc_Table sc'"
  shows "\<exists>r db' d'. DB_write mode db sc row d = Some (r, db', d') \<and> kv_ok db' \<and> table_ok sc (kv_view db') \<and>
    table_rows sc' (kv_view db') = table_rows sc' (kv_view db) \<and>
    (case r of Inr b \<Rightarrow> (b, table_rows sc (kv_view db')) = rel_write mode sc (table_rows sc (kv_view db)) row
     | Inl e \<Rightarrow> kv_view db' = kv_view db \<and> log_error db d e)"
proof -
  obtain r db' d' where w: "DB_write mode db sc row d = Some (r, db', d')" "kv_ok db'" "table_ok sc (kv_view db')"
    "others_kept sc (kv_view db) (kv_view db')"
    "case r of Inr b \<Rightarrow> (b, table_rows sc (kv_view db')) = rel_write mode sc (table_rows sc (kv_view db)) row
     | Inl e \<Rightarrow> kv_view db' = kv_view db"
    using DB_write_correct [OF assms(1-4), of mode d] by blast
  have "r = Inl e \<longrightarrow> log_error db d e" for e using DB_write_error(1) [OF assms(1)] w(1) by blast
  then show ?thesis using w others_kept_table(1) [OF assms(2,5,6) w(4)] by (cases r) auto
qed

theorem db_write_refines_relation_witness:
  "\<exists>r db' d'. DB_write ModeUpdate sample_db sample_schema (sample_row 5) no_disk = Some (r, db', d') \<and> kv_ok db' \<and>
    table_ok sample_schema (kv_view db') \<and>
    table_rows (sample_schema\<lparr>sc_Table := ''u''\<rparr>) (kv_view db') = table_rows (sample_schema\<lparr>sc_Table := ''u''\<rparr>) (kv_view sample_db) \<and>
    (case r of Inr b \<Rightarrow> (b, table_rows sample_schema (kv_view db')) =
        rel_write ModeUpdate sample_schema (table_rows sample_schema (kv_view sample_db)) (sample_row 5)
     | Inl e \<Rightarrow> kv_view db' = kv_view sample_db \<and> log_error sample_db no_disk e)"
  by (rule db_write_refines_relation [OF sample_db_facts(1) sample_schema_ok sample_db_facts(2) sample_row_fits])
    (simp_all add: schema_ok_def sample_schema_def bytes_of_def)

text \<open>C27: \<^verbatim>\<open>Delete\<close> removes exactly the row of a primary key, of which it needs only the key cells,
  and reports whether there was one; the only error is that of the log, and it changes nothing.\<close>

theorem db_delete_refines_relation:
  assumes "kv_ok db" "schema_ok sc" "table_ok sc (kv_view db)" "row_key_ok sc row"
  shows "\<exists>r db' d'. DB_Delete db sc row d = Some (r, db', d') \<and> kv_ok db' \<and> table_ok sc (kv_view db') \<and>
    (case r of
       Inr b \<Rightarrow> b = (\<exists>r\<in>table_rows sc (kv_view db). pkey_vals sc r = pkey_vals sc row) \<and>
         table_rows sc (kv_view db') = {r \<in> table_rows sc (kv_view db). pkey_vals sc r \<noteq> pkey_vals sc row}
     | Inl e \<Rightarrow> kv_view db' = kv_view db \<and> log_error db d e)"
proof -
  obtain r db' d' where w: "DB_Delete db sc row d = Some (r, db', d')" "kv_ok db'" "table_ok sc (kv_view db')"
    "case r of
       Inr b \<Rightarrow> b = (\<exists>r\<in>table_rows sc (kv_view db). pkey_vals sc r = pkey_vals sc row) \<and>
         table_rows sc (kv_view db') = {r \<in> table_rows sc (kv_view db). pkey_vals sc r \<noteq> pkey_vals sc row}
     | Inl e \<Rightarrow> kv_view db' = kv_view db"
    using DB_Delete_correct [OF assms, of d] by blast
  have "r = Inl e \<longrightarrow> log_error db d e" for e using DB_write_error(2) [OF assms(1)] w(1) by blast
  then show ?thesis using w by (cases r) auto
qed

theorem db_delete_refines_relation_witness:
  "\<exists>r db' d'. DB_Delete sample_db sample_schema (sample_row 5) no_disk = Some (r, db', d') \<and> kv_ok db' \<and>
    table_ok sample_schema (kv_view db') \<and>
    (case r of
       Inr b \<Rightarrow> b = (\<exists>r\<in>table_rows sample_schema (kv_view sample_db). pkey_vals sample_schema r = pkey_vals sample_schema (sample_row 5)) \<and>
         table_rows sample_schema (kv_view db') =
           {r \<in> table_rows sample_schema (kv_view sample_db). pkey_vals sample_schema r \<noteq> pkey_vals sample_schema (sample_row 5)}
     | Inl e \<Rightarrow> kv_view db' = kv_view sample_db \<and> log_error sample_db no_disk e)"
  by (rule db_delete_refines_relation [OF sample_db_facts(1) sample_schema_ok sample_db_facts(2)
        row_ok_key [OF sample_schema_ok sample_row_ok]])

text \<open>C28: \<^verbatim>\<open>Scan\<close> reads a table whole: its rows, each once, in primary-key order, and it stops at the
  table's end though other tables follow.\<close>

theorem db_scan_complete:
  assumes "kv_ok db" "schema_ok sc" "table_ok sc (kv_view db)"
  shows "\<exists>it rows. DB_Scan db sc = Some (Inr it) \<and> (\<forall>n. read_rows seek_src n it = Some (Inr (take n rows))) \<and>
    sorted_wrt (\<lambda>r s. pkey_vals sc r < pkey_vals sc s) rows \<and> set rows = table_rows sc (kv_view db)"
  by (rule DB_Scan_correct [OF assms])

theorem db_scan_complete_witness:
  "\<exists>it rows. DB_Scan sample_db sample_schema = Some (Inr it) \<and> (\<forall>n. read_rows seek_src n it = Some (Inr (take n rows))) \<and>
    sorted_wrt (\<lambda>r s. pkey_vals sample_schema r < pkey_vals sample_schema s) rows \<and>
    set rows = table_rows sample_schema (kv_view sample_db)"
  by (rule db_scan_complete [OF sample_db_facts(1) sample_schema_ok sample_db_facts(2)])

text \<open>C29: A key range read as rows: between two keys of the table's key space a \<^verbatim>\<open>RowIterator\<close> over an
  ascending \<^verbatim>\<open>Range\<close> yields exactly the rows whose key lies between them, in primary-key order.  A
  descending one yields them in the reverse order provided that the store has a live key at or above the
  start, of this table or another, and no empty key; beyond the last live key it is empty, as C10 says.\<close>

theorem row_range_exact:
  assumes "kv_ok db" "schema_ok sc" "table_ok sc (kv_view db)" "in_table sc start" "in_table sc stop"
    and "ds \<longrightarrow> kv_no_empty_key db \<and> (\<exists>k\<in>dom (kv_view db). start \<le> k)"
  shows "\<exists>r it rows. KV_Range db start stop ds = Some (Inr r) \<and> NewRowIterator table_range_src sc r = Some (Inr it) \<and>
    (\<forall>n. read_rows table_range_src n it = Some (Inr (take n rows))) \<and>
    sorted_wrt (\<lambda>r s. if ds then pkey_vals sc s < pkey_vals sc r else pkey_vals sc r < pkey_vals sc s) rows \<and>
    set rows = {row \<in> table_rows sc (kv_view db). \<exists>k. Row_EncodeKey sc row = Some k \<and>
      (if ds then stop \<le> k \<and> k \<le> start else start \<le> k \<and> k \<le> stop)}"
  by (rule table_range_correct [OF assms])

theorem row_range_exact_witness:
  "\<exists>r it rows. KV_Range sample_db (the (Row_EncodeKey sample_schema (sample_row 5))) (table_prefix sample_schema) True = Some (Inr r) \<and>
    NewRowIterator table_range_src sample_schema r = Some (Inr it) \<and>
    (\<forall>n. read_rows table_range_src n it = Some (Inr (take n rows))) \<and>
    sorted_wrt (\<lambda>r s. if True then pkey_vals sample_schema s < pkey_vals sample_schema r
      else pkey_vals sample_schema r < pkey_vals sample_schema s) rows \<and>
    set rows = {row \<in> table_rows sample_schema (kv_view sample_db). \<exists>k. Row_EncodeKey sample_schema row = Some k \<and>
      (if True then table_prefix sample_schema \<le> k \<and> k \<le> the (Row_EncodeKey sample_schema (sample_row 5))
       else the (Row_EncodeKey sample_schema (sample_row 5)) \<le> k \<and> k \<le> table_prefix sample_schema)}"
proof (rule row_range_exact [OF sample_db_facts(1) sample_schema_ok sample_db_facts(2)])
  let ?k = "the (Row_EncodeKey sample_schema (sample_row 5))" and ?v = "the (Row_EncodeVal sample_schema (sample_row 5))"
  have it: "in_table sample_schema ?k"
    using Row_EncodeKey_total [OF sample_schema_ok row_ok_key [OF sample_schema_ok sample_row_ok], of 5] by auto
  then show "in_table sample_schema ?k" .
  show "in_table sample_schema (table_prefix sample_schema)" by (auto simp: in_table_def)
  have "?k \<noteq> []" using it by (auto simp: in_table_def table_prefix_def)
  moreover have "arr_entries (kv_mem sample_db) = [\<lparr>e_key = ?k, e_val = ?v, e_deleted = False\<rparr>]"
    using SortedArray_update(2) [OF empty_array_wf, of ?k ?v]
    by (simp add: sample_db_def put_entry_def cutp_def Let_def)
  ultimately show "True \<longrightarrow> kv_no_empty_key sample_db \<and> (\<exists>k\<in>dom (kv_view sample_db). ?k \<le> k)"
    unfolding sample_db_facts(3) by (simp add: kv_no_empty_key_def level_keys_def level_entries_simp) (simp add: sample_db_def)
qed

text \<open>C30: \<^verbatim>\<open>Select\<close> on the primary-key cells of any row completes the stored row with that key; when
  no row has it, it reports so and leaves the caller's cells alone.\<close>

theorem db_select_exact:
  assumes "kv_ok db" "schema_ok sc" "table_ok sc (kv_view db)" "row_fits sc r"
  shows "\<exists>b row'. DB_Select db sc (key_row sc r) = Some (Inr b, row') \<and>
    (if b then row' \<in> table_rows sc (kv_view db) \<and> pkey_vals sc row' = pkey_vals sc r
     else row' = key_row sc r \<and> \<not> (\<exists>s\<in>table_rows sc (kv_view db). pkey_vals sc s = pkey_vals sc r))"
  by (rule DB_Select_key_row [OF assms])

theorem db_select_exact_witness:
  "\<exists>b row'. DB_Select sample_db sample_schema (key_row sample_schema (sample_row 5)) = Some (Inr b, row') \<and>
    (if b then row' \<in> table_rows sample_schema (kv_view sample_db) \<and> pkey_vals sample_schema row' = pkey_vals sample_schema (sample_row 5)
     else row' = key_row sample_schema (sample_row 5) \<and>
       \<not> (\<exists>s\<in>table_rows sample_schema (kv_view sample_db). pkey_vals sample_schema s = pkey_vals sample_schema (sample_row 5)))"
  by (rule db_select_exact [OF sample_db_facts(1) sample_schema_ok sample_db_facts(2) sample_row_fits])

end
