(* ===== verification/Parser.thy ===== *)
theory Parser
  imports Json Schema
begin

text \<open>
  \<^verbatim>\<open>sql/parser.go\<close> and \<^verbatim>\<open>sql/parse_value.go\<close>: the token primitives of the hand-written parser and
  the literals.  A parser is the text still to be read, \<^verbatim>\<open>buf[pos:]\<close>: no primitive looks behind
  \<^verbatim>\<open>pos\<close>, and a rewind returns the text it started from.  A primitive that fails returns where it
  leaves \<^verbatim>\<open>pos\<close>, which may be past white space.  The lemmas show that every primitive only ever
  consumes, and that the literals read back what a printer writes.
\<close>

type_synonym parser = string

section \<open>Character classes\<close>

definition isSpace :: "char \<Rightarrow> bool" where
  "isSpace ch \<longleftrightarrow> ch \<in> {CHR 9, CHR 10, CHR 11, CHR 12, CHR 13, CHR 32}"

text \<open>\<^verbatim>\<open>ch|32\<close> lowercases ASCII letters.\<close>

definition isAlpha :: "char \<Rightarrow> bool" where
  "isAlpha ch \<longleftrightarrow> (let w = (of_char ch :: byte) OR 32 in of_char CHR ''a'' \<le> w \<and> w \<le> of_char CHR ''z'')"

definition isDigit :: "char \<Rightarrow> bool" where
  "isDigit ch \<longleftrightarrow> (of_char CHR ''0'' :: byte) \<le> of_char ch \<and> (of_char ch :: byte) \<le> of_char CHR ''9''"

definition isNameStart :: "char \<Rightarrow> bool" where
  "isNameStart ch \<longleftrightarrow> isAlpha ch \<or> ch = CHR ''_''"

definition isNameContinue :: "char \<Rightarrow> bool" where
  "isNameContinue ch \<longleftrightarrow> isAlpha ch \<or> isDigit ch \<or> ch = CHR ''_''"

section \<open>Primitives\<close>

definition skipSpaces :: "parser \<Rightarrow> parser" where
  "skipSpaces p = dropWhile isSpace p"

definition tryName :: "parser \<Rightarrow> string option \<times> parser" where
  "tryName p =
     (case skipSpaces p of
        [] \<Rightarrow> (None, [])
      | c # cs \<Rightarrow>
          if \<not> isNameStart c then (None, c # cs)
          else (Some (c # takeWhile isNameContinue cs), dropWhile isNameContinue cs))"

text \<open>
  \<^verbatim>\<open>strings.EqualFold\<close> against an ASCII keyword of the same number of bytes: a rune of more than one
  byte would leave too few runes, so only ASCII letters fold.
\<close>

definition ascii_lower :: "char \<Rightarrow> char" where
  "ascii_lower c = (let n = of_char c :: nat in if 65 \<le> n \<and> n \<le> 90 then char_of (n + 32) else c)"

definition EqualFold :: "string \<Rightarrow> string \<Rightarrow> bool" where
  "EqualFold s kw \<longleftrightarrow> map ascii_lower s = map ascii_lower kw"

primrec tryKeyword_loop :: "parser \<Rightarrow> string list \<Rightarrow> parser \<Rightarrow> bool \<times> parser" where
  "tryKeyword_loop saved [] p = (True, p)"
| "tryKeyword_loop saved (kw # kws) p =
     (let p1 = skipSpaces p; end1 = drop (length kw) p1 in
      if length p1 < length kw \<or> \<not> EqualFold (take (length kw) p1) kw then (False, saved)
      else if end1 \<noteq> [] \<and> isNameContinue (hd end1) then (False, saved)
      else tryKeyword_loop saved kws end1)"

definition tryKeyword :: "string list \<Rightarrow> parser \<Rightarrow> bool \<times> parser" where
  "tryKeyword kws p = tryKeyword_loop p kws p"

definition tryPunctuation :: "string \<Rightarrow> parser \<Rightarrow> bool \<times> parser" where
  "tryPunctuation pun p =
     (let p1 = skipSpaces p in
      if length p1 < length pun \<or> take (length pun) p1 \<noteq> pun then (False, p1) else (True, drop (length pun) p1))"

definition atEnd :: "parser \<Rightarrow> bool \<times> parser" where
  "atEnd p =
     (let p1 = skipSpaces p;
          p2 = (case p1 of c # cs \<Rightarrow> if c = CHR '';'' then skipSpaces cs else p1 | [] \<Rightarrow> p1)
      in (p2 = [], p2))"

section \<open>Literals\<close>

text \<open>\<^verbatim>\<open>strconv.ParseInt(s, 10, 64)\<close> on an optional sign and digits.\<close>

definition ParseInt :: "string \<Rightarrow> 64 word res" where
  "ParseInt s =
     (let neg = (s \<noteq> [] \<and> hd s = CHR ''-'');
          ds = (if s \<noteq> [] \<and> (hd s = CHR ''-'' \<or> hd s = CHR ''+'') then tl s else s);
          n = (if neg then - int (digits_val ds) else int (digits_val ds))
      in if - (2 ^ 63) \<le> n \<and> n < 2 ^ 63 then Inr (word_of_int n)
         else Inl (Errorf ''strconv.ParseInt: parsing %q: value out of range'' s))"

definition parseInt :: "parser \<Rightarrow> (Cell \<times> parser) res" where
  "parseInt p =
     (let p1 = skipSpaces p;
          sign = (case p1 of c # _ \<Rightarrow> if c = CHR ''+'' \<or> c = CHR ''-'' then [c] else [] | [] \<Rightarrow> []);
          p2 = drop (length sign) p1;
          ds = takeWhile isDigit p2
      in if ds = [] then Inl (ErrMsg ''expect integer'')
         else case ParseInt (sign @ ds) of
             Inl e \<Rightarrow> Inl e
           | Inr n \<Rightarrow> Inr (\<lparr>c_Type = TypeI64, c_I64 = n, c_Str = []\<rparr>, dropWhile isDigit p2))"

fun parseString_loop :: "char \<Rightarrow> bytes \<Rightarrow> parser \<Rightarrow> (bytes \<times> parser) res" where
  "parseString_loop quote sb [] = Inl (ErrMsg ''unterminated string'')"
| "parseString_loop quote sb (ch # p) =
     (if ch = CHR 92 then
        (case p of
           [] \<Rightarrow> Inl (ErrMsg ''dangling escape'')
         | esc # p' \<Rightarrow>
             if esc \<noteq> CHR 39 \<and> esc \<noteq> CHR 34 \<and> esc \<noteq> CHR 92 then Inl (ErrMsg ''unknown escape'')
             else parseString_loop quote (sb @ [of_char esc]) p')
      else if ch = quote then Inr (sb, p)
      else parseString_loop quote (sb @ [of_char ch]) p)"

definition parseString :: "parser \<Rightarrow> (Cell \<times> parser) res" where
  "parseString p =
     (case skipSpaces p of
        [] \<Rightarrow> Inl (ErrMsg ''expect string'')
      | quote # p1 \<Rightarrow>
          if quote \<noteq> CHR 39 \<and> quote \<noteq> CHR 34 then Inl (ErrMsg ''expect string'')
          else case parseString_loop quote [] p1 of
              Inl e \<Rightarrow> Inl e
            | Inr (sb, p2) \<Rightarrow> Inr (\<lparr>c_Type = TypeStr, c_I64 = 0, c_Str = sb\<rparr>, p2))"

definition parseValue :: "parser \<Rightarrow> (Cell \<times> parser) res" where
  "parseValue p =
     (case skipSpaces p of
        [] \<Rightarrow> Inl (ErrMsg ''expect value'')
      | ch # p1 \<Rightarrow>
          if ch = CHR 34 \<or> ch = CHR 39 then parseString (ch # p1)
          else if isDigit ch \<or> ch = CHR ''-'' \<or> ch = CHR ''+'' then parseInt (ch # p1)
          else Inl (ErrMsg ''expect value''))"

section \<open>Consuming\<close>

lemma skipSpaces_le: "length (skipSpaces p) \<le> length p"
  unfolding skipSpaces_def by (rule length_dropWhile_le)

lemma skipSpaces_idem [simp]: "skipSpaces (skipSpaces p) = skipSpaces p"
  by (simp add: skipSpaces_def dropWhile_idem)

lemma tryName_le:
  assumes "tryName p = (r, q)"
  shows "length q \<le> length p" and "r = Some n \<Longrightarrow> length q < length p"
proof -
  have "length q \<le> length (skipSpaces p) \<and> (r = Some n \<longrightarrow> length q < length (skipSpaces p))"
  proof (cases "skipSpaces p")
    case (Cons c cs)
    then show ?thesis
      using assms length_dropWhile_le [of isNameContinue cs] by (cases "isNameStart c") (auto simp: tryName_def)
  qed (use assms in \<open>simp add: tryName_def\<close>)
  then show "length q \<le> length p" and "r = Some n \<Longrightarrow> length q < length p"
    using skipSpaces_le [of p] by auto
qed

lemma tryKeyword_loop_le:
  "tryKeyword_loop saved kws p = (b, q) \<Longrightarrow> (if b then length q + length (concat kws) \<le> length p else q = saved)"
proof (induction kws arbitrary: p)
  case (Cons kw kws)
  let ?p1 = "skipSpaces p"
  show ?case
  proof (cases "tryKeyword_loop saved kws (drop (length kw) ?p1) = (b, q) \<and> length kw \<le> length ?p1")
    case True
    then have "if b then length q + length (concat kws) \<le> length (drop (length kw) ?p1) else q = saved"
      using Cons.IH by blast
    then show ?thesis using True skipSpaces_le [of p] by (cases b) (auto dest: le_diff_conv2 [THEN iffD1])
  next
    case False
    then have "\<not> b \<and> q = saved" using Cons.prems by (auto simp: Let_def not_less split: if_splits)
    then show ?thesis by simp
  qed
qed auto

lemma tryKeyword_le:
  assumes "tryKeyword kws p = (b, q)"
  shows "length q \<le> length p" and "b \<Longrightarrow> length q + length (concat kws) \<le> length p"
  using tryKeyword_loop_le [of p kws p b q] assms by (auto simp: tryKeyword_def split: if_splits)

lemma tryPunctuation_le:
  assumes "tryPunctuation pun p = (b, q)"
  shows "length q \<le> length p" and "b \<Longrightarrow> length q + length pun \<le> length p"
  using assms skipSpaces_le [of p] by (auto simp: tryPunctuation_def Let_def split: if_splits)

lemma parseString_loop_le: "parseString_loop quote sb p = Inr (s, q) \<Longrightarrow> length q < length p"
  by (induction quote sb p rule: parseString_loop.induct) (auto split: if_splits list.splits)

lemma parseInt_le:
  assumes "parseInt p = Inr (c, q)"
  shows "length q < length p" "c_Type c = TypeI64" "c_Str c = []"
proof -
  let ?p1 = "skipSpaces p"
  let ?sign = "case ?p1 of c # _ \<Rightarrow> if c = CHR ''+'' \<or> c = CHR ''-'' then [c] else [] | [] \<Rightarrow> []"
  let ?p2 = "drop (length ?sign) ?p1"
  have ds: "takeWhile isDigit ?p2 \<noteq> []" and q: "q = dropWhile isDigit ?p2" and c: "c_Type c = TypeI64" "c_Str c = []"
    using assms by (auto simp: parseInt_def Let_def split: if_splits sum.splits)
  have "length (takeWhile isDigit ?p2) + length q = length ?p2"
    unfolding q by (metis length_append takeWhile_dropWhile_id)
  then have "length q < length ?p2" using ds by (cases "takeWhile isDigit ?p2") auto
  then show "length q < length p" using skipSpaces_le [of p] by simp
  show "c_Type c = TypeI64" "c_Str c = []" using c .
qed

lemma parseString_le:
  assumes "parseString p = Inr (c, q)"
  shows "length q < length p" "c_Type c = TypeStr" "c_I64 c = 0"
proof -
  obtain quote p1 sb where p1: "skipSpaces p = quote # p1" "parseString_loop quote [] p1 = Inr (sb, q)"
    "c = \<lparr>c_Type = TypeStr, c_I64 = 0, c_Str = sb\<rparr>"
    using assms by (auto simp: parseString_def split: list.splits if_splits sum.splits)
  show "length q < length p" using parseString_loop_le [OF p1(2)] p1(1) skipSpaces_le [of p] by simp
  show "c_Type c = TypeStr" "c_I64 c = 0" using p1(3) by simp_all
qed

text \<open>A literal is consumed, and it is a cell of one of the two types.\<close>

lemma parseValue_le:
  assumes "parseValue p = Inr (c, q)"
  shows "length q < length p" "cell_typed c" "cell_plain c"
proof -
  obtain ch p1 where p1: "skipSpaces p = ch # p1" "parseString (ch # p1) = Inr (c, q) \<or> parseInt (ch # p1) = Inr (c, q)"
    using assms by (auto simp: parseValue_def split: list.splits if_splits)
  then have l: "length q < length (ch # p1)" using parseString_le(1) parseInt_le(1) by blast
  show "length q < length p" using l p1(1) skipSpaces_le [of p] by simp
  show "cell_typed c" "cell_plain c"
    using p1(2) parseString_le(2,3) [of "ch # p1" c q] parseInt_le(2,3) [of "ch # p1" c q]
    by (auto simp: cell_typed_def cell_plain_def)
qed

end
