(* ===== verification/Expr.thy ===== *)
theory Expr
  imports Parser
begin

text \<open>
  \<^verbatim>\<open>sql/expr.go\<close> and \<^verbatim>\<open>parseTuple\<close> of \<^verbatim>\<open>sql/planner.go\<close>: expression trees and the precedence
  ladder that reads them.  Each level of the ladder takes the parser of nested expressions as an
  argument; \<open>parseExpr_fuel n\<close> ties the knot \<open>n\<close> parentheses deep and \<open>parseExpr\<close> gives it the
  length of the text, which is enough: a nested expression starts after its parenthesis.  The lemmas
  show that the ladder always returns and consumes what it reads, that more fuel changes nothing,
  and so that \<open>parseExpr\<close> satisfies the recursion of the code.  \<open>None\<close> is a loop that never ends.
\<close>

section \<open>Expression trees\<close>

datatype ExprOp =
    OP_ADD | OP_SUB | OP_MUL | OP_DIV
  | OP_OR | OP_AND | OP_NOT | OP_NEG | OP_EQ | OP_NE
  | OP_LE | OP_GE | OP_LT | OP_GT

definition op_num :: "ExprOp \<Rightarrow> nat" where
  "op_num op =
     (case op of OP_ADD \<Rightarrow> 1 | OP_SUB \<Rightarrow> 2 | OP_MUL \<Rightarrow> 3 | OP_DIV \<Rightarrow> 4
      | OP_OR \<Rightarrow> 5 | OP_AND \<Rightarrow> 6 | OP_NOT \<Rightarrow> 7 | OP_NEG \<Rightarrow> 8 | OP_EQ \<Rightarrow> 9 | OP_NE \<Rightarrow> 10
      | OP_LE \<Rightarrow> 12 | OP_GE \<Rightarrow> 13 | OP_LT \<Rightarrow> 14 | OP_GT \<Rightarrow> 15)"

text \<open>The node kinds behind \<^verbatim>\<open>interface{}\<close>.\<close>

datatype expr =
    EName string
  | ECell Cell
  | EBinOp ExprOp expr expr
  | EUnOp ExprOp expr
  | ETuple "expr list"

section \<open>The ladder\<close>

text \<open>A parse that fails is abandoned by every caller, so an error carries no position.\<close>

type_synonym 'a parse = "parser \<Rightarrow> ('a \<times> parser) go"

record binToken =
  bt_kw :: string
  bt_pun :: string
  bt_op :: ExprOp

definition tryBinToken :: "binToken \<Rightarrow> parser \<Rightarrow> bool \<times> parser" where
  "tryBinToken t p = (if bt_kw t \<noteq> [] then tryKeyword [bt_kw t] p else tryPunctuation (bt_pun t) p)"

text \<open>The inner loop of \<^verbatim>\<open>parseBinop\<close>: the first token that matches.\<close>

primrec tryBinTokens :: "binToken list \<Rightarrow> parser \<Rightarrow> ExprOp option \<times> parser" where
  "tryBinTokens [] p = (None, p)"
| "tryBinTokens (t # ts) p =
     (case tryBinToken t p of (True, q) \<Rightarrow> (Some (bt_op t), q) | (False, q) \<Rightarrow> tryBinTokens ts q)"

partial_function (option) parseBinop_loop :: "binToken list \<Rightarrow> expr parse \<Rightarrow> expr \<Rightarrow> expr parse" where
  [code]: "parseBinop_loop toks inner left p =
     (case tryBinTokens toks p of
        (None, q) \<Rightarrow> Some (Inr (left, q))
      | (Some op, q) \<Rightarrow>
          (case inner q of
             None \<Rightarrow> None
           | Some (Inl e) \<Rightarrow> Some (Inl e)
           | Some (Inr (right, q')) \<Rightarrow> parseBinop_loop toks inner (EBinOp op left right) q'))"

definition parseBinop :: "binToken list \<Rightarrow> expr parse \<Rightarrow> expr parse" where
  "parseBinop toks inner p = go_bind (inner p) (\<lambda>(left, q). parseBinop_loop toks inner left q)"

text \<open>\<open>commaList\<close> passes what the closure has collected so far from item to item.\<close>

partial_function (option) commaList :: "('s \<Rightarrow> 's parse) \<Rightarrow> 's \<Rightarrow> 's parse" where
  [code]: "commaList item s p =
     (case item s p of
        None \<Rightarrow> None
      | Some (Inl e) \<Rightarrow> Some (Inl e)
      | Some (Inr (s', q)) \<Rightarrow>
          (case tryPunctuation '','' q of
             (comma, q') \<Rightarrow> if comma then commaList item s' q' else Some (Inr (s', q'))))"

definition tuple_item :: "expr parse \<Rightarrow> expr list \<Rightarrow> expr list parse" where
  "tuple_item pe kids p = go_bind (pe p) (\<lambda>(e, q). Some (Inr (kids @ [e], q)))"

definition parseTuple :: "expr parse \<Rightarrow> expr parse" where
  "parseTuple pe p =
     (case tryPunctuation ''('' p of
        (False, _) \<Rightarrow> Some (Inl (ErrMsg ''expect (''))
      | (True, q) \<Rightarrow>
          go_bind (commaList (tuple_item pe) [] q) (\<lambda>(kids, q1).
            (case tryPunctuation '')'' q1 of
               (False, _) \<Rightarrow> Some (Inl (ErrMsg ''expect )''))
             | (True, q2) \<Rightarrow> Some (Inr (if length kids = 1 then hd kids else ETuple kids, q2)))))"

definition parseAtom :: "expr parse \<Rightarrow> expr parse" where
  "parseAtom pe p =
     (let p1 = skipSpaces p in
      if p1 \<noteq> [] \<and> hd p1 = CHR ''('' then parseTuple pe p1
      else case tryName p1 of
          (Some name, q) \<Rightarrow> Some (Inr (EName name, q))
        | (None, q) \<Rightarrow>
            (case parseValue q of
               Inl _ \<Rightarrow> Some (Inl (ErrMsg ''expect column, value or (''))
             | Inr (c, q') \<Rightarrow> Some (Inr (ECell c, q'))))"

function parseNeg :: "expr parse \<Rightarrow> expr parse" where
  "parseNeg pe p =
     (case tryPunctuation ''-'' p of
        (True, q) \<Rightarrow> go_bind (parseNeg pe q) (\<lambda>(kid, q'). Some (Inr (EUnOp OP_NEG kid, q')))
      | (False, q) \<Rightarrow> parseAtom pe q)"
  by pat_completeness auto

termination by (relation "measure (length \<circ> snd)") (auto dest: tryPunctuation_le(2) [OF sym])

declare parseNeg.simps [simp del]

definition mul_toks :: "binToken list" where
  "mul_toks = [\<lparr>bt_kw = [], bt_pun = ''*'', bt_op = OP_MUL\<rparr>, \<lparr>bt_kw = [], bt_pun = ''/'', bt_op = OP_DIV\<rparr>]"

definition add_toks :: "binToken list" where
  "add_toks = [\<lparr>bt_kw = [], bt_pun = ''+'', bt_op = OP_ADD\<rparr>, \<lparr>bt_kw = [], bt_pun = ''-'', bt_op = OP_SUB\<rparr>]"

definition cmp_toks :: "binToken list" where
  "cmp_toks =
     [\<lparr>bt_kw = [], bt_pun = ''<='', bt_op = OP_LE\<rparr>, \<lparr>bt_kw = [], bt_pun = ''>='', bt_op = OP_GE\<rparr>,
      \<lparr>bt_kw = [], bt_pun = ''<>'', bt_op = OP_NE\<rparr>, \<lparr>bt_kw = [], bt_pun = ''!='', bt_op = OP_NE\<rparr>,
      \<lparr>bt_kw = [], bt_pun = ''='', bt_op = OP_EQ\<rparr>,
      \<lparr>bt_kw = [], bt_pun = ''<'', bt_op = OP_LT\<rparr>, \<lparr>bt_kw = [], bt_pun = ''>'', bt_op = OP_GT\<rparr>]"

definition and_toks :: "binToken list" where
  "and_toks = [\<lparr>bt_kw = ''AND'', bt_pun = [], bt_op = OP_AND\<rparr>]"

definition or_toks :: "binToken list" where
  "or_toks = [\<lparr>bt_kw = ''OR'', bt_pun = [], bt_op = OP_OR\<rparr>]"

definition parseMul :: "expr parse \<Rightarrow> expr parse" where
  "parseMul pe = parseBinop mul_toks (parseNeg pe)"

definition parseAdd :: "expr parse \<Rightarrow> expr parse" where
  "parseAdd pe = parseBinop add_toks (parseMul pe)"

definition parseCmp :: "expr parse \<Rightarrow> expr parse" where
  "parseCmp pe = parseBinop cmp_toks (parseAdd pe)"

function parseNot :: "expr parse \<Rightarrow> expr parse" where
  "parseNot pe p =
     (case tryKeyword [''NOT''] p of
        (True, q) \<Rightarrow> go_bind (parseNot pe q) (\<lambda>(kid, q'). Some (Inr (EUnOp OP_NOT kid, q')))
      | (False, q) \<Rightarrow> parseCmp pe q)"
  by pat_completeness auto

termination by (relation "measure (length \<circ> snd)") (auto dest: tryKeyword_le(2) [OF sym])

declare parseNot.simps [simp del]

definition parseAnd :: "expr parse \<Rightarrow> expr parse" where
  "parseAnd pe = parseBinop and_toks (parseNot pe)"

definition parseOr :: "expr parse \<Rightarrow> expr parse" where
  "parseOr pe = parseBinop or_toks (parseAnd pe)"

primrec parseExpr_fuel :: "nat \<Rightarrow> expr parse" where
  "parseExpr_fuel 0 p = None"
| "parseExpr_fuel (Suc n) p = parseOr (parseExpr_fuel n) p"

definition parseExpr :: "expr parse" where
  "parseExpr p = parseExpr_fuel (Suc (length p)) p"

section \<open>The parser returns\<close>

text \<open>\<open>reads k f\<close>: on texts shorter than \<open>k\<close> the parser \<open>f\<close> returns, and a success consumes.\<close>

definition reads :: "nat \<Rightarrow> 'a parse \<Rightarrow> bool" where
  "reads k f \<longleftrightarrow> (\<forall>p. length p < k \<longrightarrow>
     (\<exists>r. f p = Some r \<and> (\<forall>x q. r = Inr (x, q) \<longrightarrow> length q < length p)))"

text \<open>\<open>agree k f g\<close>: the two parsers are the same on texts shorter than \<open>k\<close>.\<close>

definition agree :: "nat \<Rightarrow> 'a parse \<Rightarrow> 'a parse \<Rightarrow> bool" where
  "agree k f g \<longleftrightarrow> (\<forall>p. length p < k \<longrightarrow> f p = g p)"

lemma readsD:
  assumes "reads k f" "length p < k"
  obtains (err) e where "f p = Some (Inl e)" | (ok) x q where "f p = Some (Inr (x, q))" "length q < length p"
proof -
  obtain r where r: "f p = Some r" "\<forall>x q. r = Inr (x, q) \<longrightarrow> length q < length p"
    using assms unfolding reads_def by blast
  show thesis
  proof (cases r)
    case (Inl e)
    then show ?thesis using r(1) err by simp
  next
    case (Inr xq)
    then show ?thesis using r ok by (cases xq) simp
  qed
qed

lemma readsI:
  "(\<And>p. length p < k \<Longrightarrow> (\<exists>e. f p = Some (Inl e)) \<or> (\<exists>x q. f p = Some (Inr (x, q)) \<and> length q < length p)) \<Longrightarrow> reads k f"
  unfolding reads_def by fastforce

lemma reads_consumes: "reads k f \<Longrightarrow> length p < k \<Longrightarrow> f p = Some (Inr (x, q)) \<Longrightarrow> length q < length p"
  by (auto simp: reads_def)

lemma agreeD: "agree k f g \<Longrightarrow> length p < k \<Longrightarrow> f p = g p"
  by (simp add: agree_def)

lemma tryBinToken_le: "tryBinToken t p = (b, q) \<Longrightarrow> length q \<le> length p"
  by (auto simp: tryBinToken_def split: if_splits dest: tryKeyword_le(1) tryPunctuation_le(1))

lemma tryBinTokens_le: "tryBinTokens ts p = (r, q) \<Longrightarrow> length q \<le> length p"
proof (induction ts arbitrary: p)
  case (Cons t ts)
  obtain b q1 where t: "tryBinToken t p = (b, q1)" by (cases "tryBinToken t p")
  then show ?case using Cons tryBinToken_le [OF t] by (cases b) (auto intro: le_trans)
qed simp

lemma parseBinop_loop_reads:
  assumes "reads k inner"
  shows "length p < k \<Longrightarrow> (\<exists>e. parseBinop_loop toks inner left p = Some (Inl e)) \<or>
    (\<exists>x q. parseBinop_loop toks inner left p = Some (Inr (x, q)) \<and> length q \<le> length p)"
proof (induction p arbitrary: left rule: measure_induct_rule [of length])
  case (less p)
  obtain m q where m: "tryBinTokens toks p = (m, q)" by (cases "tryBinTokens toks p")
  note q = tryBinTokens_le [OF m]
  show ?case
  proof (cases m)
    case None
    then show ?thesis using m q by (simp add: parseBinop_loop.simps)
  next
    case (Some op)
    have "length q < k" using q less.prems by simp
    from assms this show ?thesis
    proof (cases rule: readsD)
      case (err e)
      then show ?thesis using m Some by (simp add: parseBinop_loop.simps)
    next
      case (ok r q')
      then have "length q' < length p" using q by simp
      then show ?thesis using less.IH [of q' "EBinOp op left r"] less.prems ok m Some
        by (subst (1 2) parseBinop_loop.simps) (auto intro: less_imp_le order.trans)
    qed
  qed
qed

lemma parseBinop_reads:
  assumes "reads k inner"
  shows "reads k (parseBinop toks inner)"
proof (rule readsI)
  fix p :: parser
  assume p: "length p < k"
  from assms p show "(\<exists>e. parseBinop toks inner p = Some (Inl e)) \<or>
      (\<exists>x q. parseBinop toks inner p = Some (Inr (x, q)) \<and> length q < length p)"
  proof (cases rule: readsD)
    case (ok x q)
    then show ?thesis using parseBinop_loop_reads [OF assms, of q toks x] p by (auto simp: parseBinop_def)
  qed (simp add: parseBinop_def)
qed

lemma parseBinop_loop_agree:
  assumes "reads k f" "agree k f g"
  shows "length p < k \<Longrightarrow> parseBinop_loop toks f left p = parseBinop_loop toks g left p"
proof (induction p arbitrary: left rule: measure_induct_rule [of length])
  case (less p)
  obtain m q where m: "tryBinTokens toks p = (m, q)" by (cases "tryBinTokens toks p")
  then have q: "length q < k" "length q \<le> length p" using tryBinTokens_le [OF m] less.prems by simp_all
  note fg = agreeD [OF assms(2) q(1)]
  show ?case
  proof (cases "\<exists>x q'. f q = Some (Inr (x, q'))")
    case True
    then obtain x q' where x: "f q = Some (Inr (x, q'))" by blast
    then have "length q' < length p" using reads_consumes [OF assms(1) q(1)] q(2) by (metis less_le_trans)
    then have "parseBinop_loop toks f (EBinOp op left x) q' = parseBinop_loop toks g (EBinOp op left x) q'" for op
      using less.IH less.prems by simp
    then show ?thesis using m x fg by (subst (1 2) parseBinop_loop.simps) (simp split: option.split)
  next
    case False
    then show ?thesis using m fg by (subst (1 2) parseBinop_loop.simps) (auto split: option.split sum.split)
  qed
qed

lemma parseBinop_agree:
  assumes "reads k f" "agree k f g"
  shows "agree k (parseBinop toks f) (parseBinop toks g)"
  unfolding agree_def
proof (intro allI impI)
  fix p :: parser
  assume p: "length p < k"
  note fg = agreeD [OF assms(2) p]
  from assms(1) p show "parseBinop toks f p = parseBinop toks g p"
  proof (cases rule: readsD)
    case (ok x q)
    then show ?thesis using fg parseBinop_loop_agree [OF assms, of q] p by (simp add: parseBinop_def)
  qed (use fg in \<open>simp add: parseBinop_def\<close>)
qed

text \<open>Lists: an item that returns and consumes makes a list that does.\<close>

locale item_parser =
  fixes k :: nat
    and item :: "'s \<Rightarrow> 's parse"
  assumes item_reads: "reads k (item s)"
begin

lemma commaList_returns:
  "length p < k \<Longrightarrow> (\<exists>e. commaList item s p = Some (Inl e)) \<or>
    (\<exists>x q. commaList item s p = Some (Inr (x, q)) \<and> length q < length p)"
proof (induction p arbitrary: s rule: measure_induct_rule [of length])
  case (less p)
  from item_reads less.prems show ?case
  proof (cases rule: readsD [of k "item s" p])
    case (err e)
    then show ?thesis by (simp add: commaList.simps)
  next
    case (ok x q)
    obtain b q' where t: "tryPunctuation '','' q = (b, q')" by (cases "tryPunctuation '','' q")
    then have q': "length q' \<le> length q" using tryPunctuation_le(1) by blast
    show ?thesis
    proof (cases b)
      case True
      then show ?thesis using less.IH [of q' x] less.prems ok t q'
        by (subst (1 2) commaList.simps) (auto intro: less_trans)
    next
      case False
      then show ?thesis using ok t q' by (simp add: commaList.simps)
    qed
  qed
qed

lemma commaList_reads: "reads k (commaList item s)"
  using commaList_returns by (rule readsI)

lemma commaList_agree:
  assumes "\<And>s. agree k (item s) (other s)"
  shows "length p < k \<Longrightarrow> commaList item s p = commaList other s p"
proof (induction p arbitrary: s rule: measure_induct_rule [of length])
  case (less p)
  note eq = agreeD [OF assms less.prems]
  from item_reads less.prems show ?case
  proof (cases rule: readsD [of k "item s" p])
    case (err e)
    then show ?thesis using eq [of s] by (simp add: commaList.simps)
  next
    case (ok x q)
    obtain b q' where t: "tryPunctuation '','' q = (b, q')" by (cases "tryPunctuation '','' q")
    then have "length q' \<le> length q" using tryPunctuation_le(1) by blast
    then have "commaList item x q' = commaList other x q'" using less.IH [of q' x] less.prems ok by simp
    then show ?thesis using ok t eq [of s] by (subst (1 2) commaList.simps) simp
  qed
qed

end

text \<open>\<open>same k f g\<close>: both at once, so that one pass over the ladder gives termination and fuel.\<close>

definition same :: "nat \<Rightarrow> 'a parse \<Rightarrow> 'a parse \<Rightarrow> bool" where
  "same k f g \<longleftrightarrow> reads k f \<and> agree k f g"

lemma same_refl: "same k f f \<longleftrightarrow> reads k f"
  by (simp add: same_def agree_def)

lemma sameI:
  "(\<And>p. length p < k \<Longrightarrow> f p = g p \<and>
     ((\<exists>e. f p = Some (Inl e)) \<or> (\<exists>x q. f p = Some (Inr (x, q)) \<and> length q < length p))) \<Longrightarrow> same k f g"
  unfolding same_def agree_def by (meson readsI)

lemma sameD:
  assumes "same k f g" "length p < k"
  obtains (err) e where "f p = Some (Inl e)" "g p = Some (Inl e)"
    | (ok) x q where "f p = Some (Inr (x, q))" "g p = Some (Inr (x, q))" "length q < length p"
proof -
  have fg: "f p = g p" and r: "reads k f" using assms by (simp_all add: same_def agree_def)
  from r assms(2) show thesis
  proof (cases rule: readsD)
    case (err e)
    then show ?thesis using fg that(1) by simp
  next
    case (ok x q)
    then show ?thesis using fg that(2) by simp
  qed
qed

lemma same_mono: "same k f g \<Longrightarrow> j \<le> k \<Longrightarrow> same j f g"
  unfolding same_def reads_def agree_def by (meson less_le_trans)

lemma parseBinop_same: "same k f g \<Longrightarrow> same k (parseBinop toks f) (parseBinop toks g)"
  by (simp add: same_def parseBinop_reads parseBinop_agree)

lemma tuple_item_same: "same k f g \<Longrightarrow> same k (tuple_item f kids) (tuple_item g kids)"
  by (rule sameI, elim sameD [where k = k and f = f and g = g]) (auto simp: tuple_item_def)

lemma commaList_same:
  assumes "\<And>s. same k (f s) (g s)"
  shows "same k (commaList f s) (commaList g s)"
proof -
  have "item_parser k f" using assms by (simp add: item_parser_def same_def)
  then show ?thesis
    using item_parser.commaList_reads item_parser.commaList_agree assms unfolding same_def agree_def by metis
qed

lemma parseTuple_same:
  assumes "same k f g"
  shows "same (Suc k) (parseTuple f) (parseTuple g)"
proof (rule sameI)
  fix p :: parser
  assume p: "length p < Suc k"
  obtain b q where t: "tryPunctuation ''('' p = (b, q)" by (cases "tryPunctuation ''('' p")
  show "parseTuple f p = parseTuple g p \<and> ((\<exists>e. parseTuple f p = Some (Inl e)) \<or>
      (\<exists>x q. parseTuple f p = Some (Inr (x, q)) \<and> length q < length p))"
  proof (cases b)
    case True
    then have q: "length q < length p" "length q < k" using tryPunctuation_le(2) [OF t] p by simp_all
    have "same k (commaList (tuple_item f) []) (commaList (tuple_item g) [])"
      by (rule commaList_same) (rule tuple_item_same [OF assms])
    from this q(2) show ?thesis
    proof (cases rule: sameD)
      case (err e)
      then show ?thesis using t True by (simp add: parseTuple_def)
    next
      case (ok kids q1)
      obtain c q2 where t2: "tryPunctuation '')'' q1 = (c, q2)" by (cases "tryPunctuation '')'' q1")
      then have "length q2 < length p" using tryPunctuation_le(1) [OF t2] ok(3) q(1) by simp
      then show ?thesis using t True ok t2 by (cases c) (simp_all add: parseTuple_def)
    qed
  qed (use t in \<open>simp add: parseTuple_def\<close>)
qed

lemma parseAtom_same:
  assumes "same k f g"
  shows "same (Suc k) (parseAtom f) (parseAtom g)"
proof (rule sameI)
  fix p :: parser
  assume p: "length p < Suc k"
  let ?p1 = "skipSpaces p"
  have p1: "length ?p1 < Suc k" "length ?p1 \<le> length p" using p skipSpaces_le [of p] by simp_all
  show "parseAtom f p = parseAtom g p \<and> ((\<exists>e. parseAtom f p = Some (Inl e)) \<or>
      (\<exists>x q. parseAtom f p = Some (Inr (x, q)) \<and> length q < length p))"
  proof (cases "?p1 \<noteq> [] \<and> hd ?p1 = CHR ''(''")
    case True
    from parseTuple_same [OF assms] p1(1) show ?thesis
      by (rule sameD) (use True p1(2) in \<open>auto simp: parseAtom_def Let_def\<close>)
  next
    case False
    obtain n q where n: "tryName ?p1 = (n, q)" by (cases "tryName ?p1")
    have eq: "parseAtom h p = (case (n, q) of
          (Some name, q) \<Rightarrow> Some (Inr (EName name, q))
        | (None, q) \<Rightarrow> (case parseValue q of
               Inl _ \<Rightarrow> Some (Inl (ErrMsg ''expect column, value or (''))
             | Inr (c, q') \<Rightarrow> Some (Inr (ECell c, q'))))" for h
      unfolding parseAtom_def Let_def if_not_P [OF False] n ..
    have q: "length q \<le> length p" "n = Some name \<Longrightarrow> length q < length p" for name
      using tryName_le [OF n] p1(2) by auto
    show ?thesis
      unfolding eq using q parseValue_le(1) [of q]
      by (cases n; cases "parseValue q") (auto intro: less_le_trans)
  qed
qed

lemma parseNeg_same:
  assumes "same k f g"
  shows "same (Suc k) (parseNeg f) (parseNeg g)"
proof (rule sameI)
  fix p :: parser
  show "length p < Suc k \<Longrightarrow> parseNeg f p = parseNeg g p \<and> ((\<exists>e. parseNeg f p = Some (Inl e)) \<or>
      (\<exists>x q. parseNeg f p = Some (Inr (x, q)) \<and> length q < length p))"
  proof (induction p rule: measure_induct_rule [of length])
    case (less p)
    obtain b q where t: "tryPunctuation ''-'' p = (b, q)" by (cases "tryPunctuation ''-'' p")
    note le = tryPunctuation_le [OF t]
    show ?case
    proof (cases b)
      case True
      then have "length q < length p" using le by simp
      then have IH: "(\<exists>e. parseNeg f q = Some (Inl e) \<and> parseNeg g q = Some (Inl e)) \<or>
          (\<exists>x q'. parseNeg f q = Some (Inr (x, q')) \<and> parseNeg g q = Some (Inr (x, q')) \<and> length q' < length p)"
        using less.IH [of q] less.prems by (metis less_trans)
      have "parseNeg h p = go_bind (parseNeg h q) (\<lambda>(kid, q'). Some (Inr (EUnOp OP_NEG kid, q')))" for h
        by (subst parseNeg.simps) (simp add: t True)
      then show ?thesis using IH by auto
    next
      case False
      have q: "length q < Suc k" using le less.prems by simp
      from parseAtom_same [OF assms] q show ?thesis
        by (rule sameD) (use t False le in \<open>auto simp: parseNeg.simps\<close>)
    qed
  qed
qed

lemma parseCmp_same: "same k f g \<Longrightarrow> same (Suc k) (parseCmp f) (parseCmp g)"
  by (simp add: parseCmp_def parseAdd_def parseMul_def parseBinop_same parseNeg_same)

lemma parseNot_same:
  assumes "same k f g"
  shows "same (Suc k) (parseNot f) (parseNot g)"
proof (rule sameI)
  fix p :: parser
  show "length p < Suc k \<Longrightarrow> parseNot f p = parseNot g p \<and> ((\<exists>e. parseNot f p = Some (Inl e)) \<or>
      (\<exists>x q. parseNot f p = Some (Inr (x, q)) \<and> length q < length p))"
  proof (induction p rule: measure_induct_rule [of length])
    case (less p)
    obtain b q where t: "tryKeyword [''NOT''] p = (b, q)" by (cases "tryKeyword [''NOT''] p")
    note le = tryKeyword_le [OF t]
    show ?case
    proof (cases b)
      case True
      then have "length q < length p" using le by simp
      then have IH: "(\<exists>e. parseNot f q = Some (Inl e) \<and> parseNot g q = Some (Inl e)) \<or>
          (\<exists>x q'. parseNot f q = Some (Inr (x, q')) \<and> parseNot g q = Some (Inr (x, q')) \<and> length q' < length p)"
        using less.IH [of q] less.prems by (metis less_trans)
      have "parseNot h p = go_bind (parseNot h q) (\<lambda>(kid, q'). Some (Inr (EUnOp OP_NOT kid, q')))" for h
        by (subst parseNot.simps) (simp add: t True)
      then show ?thesis using IH by auto
    next
      case False
      have q: "length q < Suc k" using le less.prems by simp
      from parseCmp_same [OF assms] q show ?thesis
        by (rule sameD) (use t False le in \<open>auto simp: parseNot.simps\<close>)
    qed
  qed
qed

lemma parseOr_same: "same k f g \<Longrightarrow> same (Suc k) (parseOr f) (parseOr g)"
  by (simp add: parseOr_def parseAnd_def parseBinop_same parseNot_same)

lemma parseExpr_fuel_same: "n \<le> m \<Longrightarrow> same n (parseExpr_fuel n) (parseExpr_fuel m)"
proof (induction n arbitrary: m)
  case (Suc n)
  then obtain l where "m = Suc l" "n \<le> l" by (cases m) auto
  moreover have "parseExpr_fuel (Suc j) = parseOr (parseExpr_fuel j)" for j by (rule ext) simp
  ultimately show ?case using parseOr_same [OF Suc.IH [of l]] by simp
qed (simp add: same_def reads_def agree_def)

lemma parseExpr_fuel_enough: "length p < n \<Longrightarrow> parseExpr_fuel n p = parseExpr p"
  using parseExpr_fuel_same [of "Suc (length p)" n] by (simp add: parseExpr_def same_def agree_def)

lemma parseExpr_same: "same k parseExpr (parseExpr_fuel k)"
proof (rule sameI)
  fix p :: parser
  assume p: "length p < k"
  have eq: "parseExpr p = parseExpr_fuel k p" using parseExpr_fuel_enough [OF p] by simp
  have "reads k (parseExpr_fuel k)" using parseExpr_fuel_same [of k k] by (simp add: same_refl)
  from this p show "parseExpr p = parseExpr_fuel k p \<and> ((\<exists>e. parseExpr p = Some (Inl e)) \<or>
      (\<exists>x q. parseExpr p = Some (Inr (x, q)) \<and> length q < length p))"
    unfolding eq by (cases rule: readsD) auto
qed

lemma parseExpr_reads: "reads k parseExpr"
  using parseExpr_same by (simp add: same_def)

text \<open>The recursion of the code, without fuel.\<close>

lemma parseExpr_unfold: "parseExpr p = parseOr parseExpr p"
proof -
  have "same (Suc (length p)) (parseOr parseExpr) (parseOr (parseExpr_fuel (length p)))"
    by (rule parseOr_same [OF parseExpr_same])
  then show ?thesis by (simp add: parseExpr_def same_def agree_def)
qed

end
