(* ===== verification/Stmt.thy ===== *)
theory Stmt
  imports Expr
begin

text \<open>
  \<^verbatim>\<open>sql/stmt.go\<close> and \<^verbatim>\<open>sql/parse_stmt.go\<close>: the statements and their parsers.  A statement parser is
  a sequence of reads, \<open>parse_bind\<close>, and \<open>require\<close> is the code's
  \<^verbatim>\<open>if !p.try...() { return errors.New(...) }\<close>.  What a closure handed to \<^verbatim>\<open>commaList\<close> collects is
  passed from item to item.  The lemmas show that \<^verbatim>\<open>ParseStmt\<close> returns on every text.
\<close>

section \<open>Statements\<close>

record NamedCell =
  nc_column :: string
  nc_value :: Cell

record StmtSelect =
  sel_table :: string
  sel_cols :: "expr list"
  sel_cond :: "expr option"

record ExprAssign =
  asn_column :: string
  asn_expr :: expr

record StmtCreatTable =
  ct_table :: string
  ct_cols :: "Column list"
  ct_pkey :: "string list"

record StmtInsert =
  ins_table :: string
  ins_value :: "Cell list"

record StmtUpdate =
  upd_table :: string
  upd_cond :: "expr option"
  upd_value :: "ExprAssign list"

record StmtDelete =
  del_table :: string
  del_cond :: "expr option"

datatype stmt =
    Select StmtSelect
  | CreatTable StmtCreatTable
  | Insert StmtInsert
  | Update StmtUpdate
  | Delete StmtDelete

section \<open>Sequences of reads\<close>

definition parse_bind :: "'a parse \<Rightarrow> ('a \<Rightarrow> 'b parse) \<Rightarrow> 'b parse" where
  "parse_bind f g p = go_bind (f p) (\<lambda>(x, q). g x q)"

definition parse_ret :: "'a \<Rightarrow> 'a parse" where
  "parse_ret x p = Some (Inr (x, p))"

definition parse_fail :: "string \<Rightarrow> 'a parse" where
  "parse_fail msg p = Some (Inl (ErrMsg msg))"

definition parse_if :: "(parser \<Rightarrow> bool \<times> parser) \<Rightarrow> 'a parse \<Rightarrow> 'a parse \<Rightarrow> 'a parse" where
  "parse_if t f g p = (case t p of (True, q) \<Rightarrow> f q | (False, q) \<Rightarrow> g q)"

definition require :: "(parser \<Rightarrow> bool \<times> parser) \<Rightarrow> string \<Rightarrow> 'a parse \<Rightarrow> 'a parse" where
  "require t msg f = parse_if t f (parse_fail msg)"

definition require_name :: "string \<Rightarrow> (string \<Rightarrow> 'a parse) \<Rightarrow> 'a parse" where
  "require_name msg f p = (case tryName p of (Some name, q) \<Rightarrow> f name q | (None, q) \<Rightarrow> parse_fail msg q)"

section \<open>The parsers\<close>

definition tableName :: "string parse" where
  "tableName = require_name ''expect table name'' parse_ret"

definition parseWhere :: "expr option parse" where
  "parseWhere =
     parse_if (tryKeyword [''WHERE'']) (parse_bind parseExpr (\<lambda>e. parse_ret (Some e))) (parse_ret None)"

lemma parseExpr_le: "parseExpr p = Some (Inr (x, q)) \<Longrightarrow> length q < length p"
  using reads_consumes [OF parseExpr_reads [of "Suc (length p)"]] by simp

lemma select_comma_le:
  "(if cols \<noteq> [] then tryPunctuation '','' q else (True, q)) = (b, q1) \<Longrightarrow> length q1 \<le> length q"
  by (auto split: if_splits dest: tryPunctuation_le(1))

text \<open>The loop of \<^verbatim>\<open>parseSelect\<close>, up to \<^verbatim>\<open>FROM\<close>.\<close>

function parseSelect_cols :: "expr list \<Rightarrow> expr list parse" where
  "parseSelect_cols cols p =
     (case tryKeyword [''FROM''] p of
        (True, q) \<Rightarrow> Some (Inr (cols, q))
      | (False, q) \<Rightarrow>
          (case (if cols \<noteq> [] then tryPunctuation '','' q else (True, q)) of
             (False, _) \<Rightarrow> Some (Inl (ErrMsg ''expect comma''))
           | (True, q1) \<Rightarrow>
               (case parseExpr q1 of
                  None \<Rightarrow> None
                | Some (Inl e) \<Rightarrow> Some (Inl e)
                | Some (Inr (e, q2)) \<Rightarrow> parseSelect_cols (cols @ [e]) q2)))"
  by pat_completeness auto

termination
proof (relation "measure (length \<circ> snd)", goal_cases)
  case (2 cols p kw q b q1 r eq e q2)
  then have kw: "tryKeyword [''FROM''] p = (False, q)"
    and comma: "(if cols \<noteq> [] then tryPunctuation '','' q else (True, q)) = (True, q1)"
    and e: "parseExpr q1 = Some (Inr (e, q2))" by simp_all
  from parseExpr_le [OF e] select_comma_le [OF comma] tryKeyword_le(1) [OF kw] show ?case by simp
qed simp

declare parseSelect_cols.simps [simp del]

definition parseSelect :: "StmtSelect parse" where
  "parseSelect =
     parse_bind (parseSelect_cols []) (\<lambda>cols.
       if cols = [] then parse_fail ''expect column list''
       else parse_bind tableName (\<lambda>table.
         parse_bind parseWhere (\<lambda>cond.
           parse_ret \<lparr>sel_table = table, sel_cols = cols, sel_cond = cond\<rparr>)))"

text \<open>The columns and the primary key of \<^verbatim>\<open>CREATE TABLE\<close>, in one list.\<close>

definition pkey_item :: "string list \<Rightarrow> string list parse" where
  "pkey_item pkey = require_name ''expect pkey column'' (\<lambda>name. parse_ret (pkey @ [name]))"

definition create_item :: "Column list \<times> string list \<Rightarrow> (Column list \<times> string list) parse" where
  "create_item = (\<lambda>(cols, pkey).
     parse_if (tryKeyword [''PRIMARY'', ''KEY''])
       (require (tryPunctuation ''('') ''expect ( after primary key''
         (parse_bind (commaList pkey_item pkey) (\<lambda>pkey'.
           require (tryPunctuation '')'') ''expect ) after primary key list''
             (parse_ret (cols, pkey')))))
       (require_name ''expect column name'' (\<lambda>name.
         parse_if (tryKeyword [''int64'']) (parse_ret (cols @ [\<lparr>col_Name = name, col_Type = TypeI64\<rparr>], pkey))
           (parse_if (tryKeyword [''string'']) (parse_ret (cols @ [\<lparr>col_Name = name, col_Type = TypeStr\<rparr>], pkey))
             (parse_fail ''expect column type (int64 | string)'')))))"

definition parseCreateTable :: "StmtCreatTable parse" where
  "parseCreateTable =
     parse_bind tableName (\<lambda>table.
       require (tryPunctuation ''('') ''expect (''
         (parse_bind (commaList create_item ([], [])) (\<lambda>(cols, pkey).
           require (tryPunctuation '')'') ''expect )''
             (if cols = [] then parse_fail ''table has no columns''
              else if pkey = [] then parse_fail ''table has no primary key''
              else parse_ret \<lparr>ct_table = table, ct_cols = cols, ct_pkey = pkey\<rparr>))))"

definition value_item :: "Cell list \<Rightarrow> Cell list parse" where
  "value_item value p = Some (res_bind (parseValue p) (\<lambda>(c, q). Inr (value @ [c], q)))"

definition parseInsert :: "StmtInsert parse" where
  "parseInsert =
     parse_bind tableName (\<lambda>table.
       require (tryKeyword [''VALUES'']) ''expect VALUES''
         (require (tryPunctuation ''('') ''expect (''
           (parse_bind (commaList value_item []) (\<lambda>value.
             require (tryPunctuation '')'') ''expect )''
               (parse_ret \<lparr>ins_table = table, ins_value = value\<rparr>)))))"

definition assign_item :: "ExprAssign list \<Rightarrow> ExprAssign list parse" where
  "assign_item value =
     require_name ''expect column'' (\<lambda>name.
       require (tryPunctuation ''='') ''expect =''
         (parse_bind parseExpr (\<lambda>e. parse_ret (value @ [\<lparr>asn_column = name, asn_expr = e\<rparr>]))))"

definition parseUpdate :: "StmtUpdate parse" where
  "parseUpdate =
     parse_bind tableName (\<lambda>table.
       require (tryKeyword [''SET'']) ''expect SET''
         (parse_bind (commaList assign_item []) (\<lambda>value.
           parse_bind parseWhere (\<lambda>cond.
             parse_ret \<lparr>upd_table = table, upd_cond = cond, upd_value = value\<rparr>))))"

definition parseDelete :: "StmtDelete parse" where
  "parseDelete =
     parse_bind tableName (\<lambda>table.
       parse_bind parseWhere (\<lambda>cond.
         parse_ret \<lparr>del_table = table, del_cond = cond\<rparr>))"

definition stmt_body :: "stmt parse" where
  "stmt_body =
     parse_if (tryKeyword [''SELECT'']) (parse_bind parseSelect (parse_ret \<circ> Select))
      (parse_if (tryKeyword [''CREATE'', ''TABLE'']) (parse_bind parseCreateTable (parse_ret \<circ> CreatTable))
      (parse_if (tryKeyword [''INSERT'', ''INTO'']) (parse_bind parseInsert (parse_ret \<circ> Insert))
      (parse_if (tryKeyword [''UPDATE'']) (parse_bind parseUpdate (parse_ret \<circ> Update))
      (parse_if (tryKeyword [''DELETE'', ''FROM'']) (parse_bind parseDelete (parse_ret \<circ> Delete))
      (parse_fail ''unknown statement'')))))"

definition ParseStmt :: "parser \<Rightarrow> stmt go" where
  "ParseStmt p =
     go_bind (stmt_body p) (\<lambda>(s, q).
       if fst (atEnd q) then Some (Inr s) else Some (Inl (ErrMsg ''trailing tokens after statement'')))"

section \<open>Every parser returns\<close>

text \<open>\<open>steps k f\<close>: on texts shorter than \<open>k\<close> the parser \<open>f\<close> returns and does not move back.\<close>

named_theorems parse_steps

definition steps :: "nat \<Rightarrow> 'a parse \<Rightarrow> bool" where
  "steps k f \<longleftrightarrow> (\<forall>p. length p < k \<longrightarrow>
     (\<exists>r. f p = Some r \<and> (\<forall>x q. r = Inr (x, q) \<longrightarrow> length q \<le> length p)))"

lemma stepsD:
  assumes "steps k f" "length p < k"
  shows "(\<exists>e. f p = Some (Inl e)) \<or> (\<exists>x q. f p = Some (Inr (x, q)) \<and> length q \<le> length p)"
proof -
  obtain r where r: "f p = Some r" "\<forall>x q. r = Inr (x, q) \<longrightarrow> length q \<le> length p"
    using assms unfolding steps_def by blast
  then show ?thesis by (cases r) auto
qed

lemma stepsI:
  "(\<And>p. length p < k \<Longrightarrow> (\<exists>e. f p = Some (Inl e)) \<or> (\<exists>x q. f p = Some (Inr (x, q)) \<and> length q \<le> length p)) \<Longrightarrow> steps k f"
  unfolding steps_def by fastforce

lemma reads_steps: "reads k f \<Longrightarrow> steps k f"
  unfolding reads_def steps_def by (meson less_imp_le)

lemma steps_bind [parse_steps]:
  assumes "steps k f" "\<And>x. steps k (g x)"
  shows "steps k (parse_bind f g)"
proof (rule stepsI)
  fix p :: parser
  assume p: "length p < k"
  show "(\<exists>e. parse_bind f g p = Some (Inl e)) \<or> (\<exists>x q. parse_bind f g p = Some (Inr (x, q)) \<and> length q \<le> length p)"
    using stepsD [OF assms(1) p]
  proof (elim disjE exE conjE)
    fix x q assume x: "f p = Some (Inr (x, q))" "length q \<le> length p"
    then have "length q < k" using p by simp
    from stepsD [OF assms(2) this, of x] show ?thesis using x by (auto simp: parse_bind_def intro: le_trans)
  qed (simp add: parse_bind_def)
qed

lemma reads_bind:
  assumes "reads k f" "\<And>x. steps k (g x)"
  shows "reads k (parse_bind f g)"
proof (rule readsI)
  fix p :: parser
  assume p: "length p < k"
  from assms(1) p show "(\<exists>e. parse_bind f g p = Some (Inl e)) \<or>
      (\<exists>x q. parse_bind f g p = Some (Inr (x, q)) \<and> length q < length p)"
  proof (cases rule: readsD)
    case (ok x q)
    then have "length q < k" using p by simp
    from stepsD [OF assms(2) this, of x] show ?thesis using ok by (auto simp: parse_bind_def intro: le_less_trans)
  qed (simp add: parse_bind_def)
qed

lemma steps_ret [parse_steps]: "steps k (parse_ret x)" "steps k (parse_fail msg)"
  by (simp_all add: steps_def parse_ret_def parse_fail_def)

lemma reads_fail [parse_steps]: "reads k (parse_fail msg)"
  by (simp add: reads_def parse_fail_def)

text \<open>A test of the text: whatever its answer, it does not move back, and a token is consumed.\<close>

definition token :: "(parser \<Rightarrow> bool \<times> parser) \<Rightarrow> bool" where
  "token t \<longleftrightarrow> (\<forall>p q. t p = (True, q) \<longrightarrow> length q < length p) \<and> (\<forall>p b q. t p = (b, q) \<longrightarrow> length q \<le> length p)"

lemma token_try [parse_steps]:
  "pun \<noteq> [] \<Longrightarrow> token (tryPunctuation pun)" "concat kws \<noteq> [] \<Longrightarrow> token (tryKeyword kws)"
proof -
  have "length q < length p" if "tryPunctuation pun p = (True, q)" "pun \<noteq> []" for p q
    using tryPunctuation_le(2) [OF that(1)] that(2) by (cases pun) auto
  then show "pun \<noteq> [] \<Longrightarrow> token (tryPunctuation pun)"
    unfolding token_def using tryPunctuation_le(1) [of pun] by blast
  have "length q < length p" if "tryKeyword kws p = (True, q)" "concat kws \<noteq> []" for p q
    using tryKeyword_le(2) [OF that(1)] that(2) by (cases "concat kws") auto
  then show "concat kws \<noteq> [] \<Longrightarrow> token (tryKeyword kws)"
    unfolding token_def using tryKeyword_le(1) [of kws] by blast
qed

lemma steps_if [parse_steps]:
  assumes "token t" "steps k f" "steps k g"
  shows "steps k (parse_if t f g)"
proof (rule stepsI)
  fix p :: parser
  assume p: "length p < k"
  obtain b q where t: "t p = (b, q)" by (cases "t p")
  have q: "length q \<le> length p" using assms(1) t unfolding token_def by blast
  then have "length q < k" using p by simp
  from stepsD [OF assms(2) this] stepsD [OF assms(3) this] q t
  show "(\<exists>e. parse_if t f g p = Some (Inl e)) \<or> (\<exists>x q. parse_if t f g p = Some (Inr (x, q)) \<and> length q \<le> length p)"
    by (cases b) (auto simp: parse_if_def intro: le_trans)
qed

lemma reads_if [parse_steps]:
  assumes "token t" "steps k f" "reads k g"
  shows "reads k (parse_if t f g)"
proof (rule readsI)
  fix p :: parser
  assume p: "length p < k"
  obtain b q where t: "t p = (b, q)" by (cases "t p")
  have q: "length q \<le> length p" "b \<Longrightarrow> length q < length p" using assms(1) t unfolding token_def by (blast, simp)
  then have qk: "length q < k" using p by simp
  show "(\<exists>e. parse_if t f g p = Some (Inl e)) \<or> (\<exists>x q. parse_if t f g p = Some (Inr (x, q)) \<and> length q < length p)"
  proof (cases b)
    case True
    with stepsD [OF assms(2) qk] q t show ?thesis by (auto simp: parse_if_def intro: le_less_trans)
  next
    case False
    from assms(3) qk show ?thesis
      by (rule readsD) (use False q t in \<open>auto simp: parse_if_def intro: less_le_trans\<close>)
  qed
qed

lemma steps_require [parse_steps]: "token t \<Longrightarrow> steps k f \<Longrightarrow> steps k (require t msg f)"
  unfolding require_def by (intro parse_steps)

lemma reads_require_name [parse_steps]:
  assumes "\<And>x. steps k (f x)"
  shows "reads k (require_name msg f)"
proof (rule readsI)
  fix p :: parser
  assume p: "length p < k"
  obtain n q where n: "tryName p = (n, q)" by (cases "tryName p")
  show "(\<exists>e. require_name msg f p = Some (Inl e)) \<or> (\<exists>x q. require_name msg f p = Some (Inr (x, q)) \<and> length q < length p)"
  proof (cases n)
    case (Some name)
    then have q: "length q < length p" using tryName_le(2) [OF n] by simp
    then have "length q < k" using p by simp
    from stepsD [OF assms [of name] this] show ?thesis using n Some q by (auto simp: require_name_def intro: le_less_trans)
  qed (use n in \<open>simp add: require_name_def parse_fail_def\<close>)
qed

lemma steps_require_name [parse_steps]: "(\<And>x. steps k (f x)) \<Longrightarrow> steps k (require_name msg f)"
  by (rule reads_steps [OF reads_require_name])

lemma steps_parseExpr [parse_steps]: "steps k parseExpr"
  by (rule reads_steps [OF parseExpr_reads])

lemma steps_tableName [parse_steps]: "steps k tableName"
  unfolding tableName_def by (intro parse_steps)

lemma steps_parseWhere [parse_steps]: "steps k parseWhere"
  unfolding parseWhere_def by (intro parse_steps) simp

text \<open>The four lists.\<close>

interpretation pkey_list: item_parser k pkey_item for k
  by unfold_locales (unfold pkey_item_def, intro parse_steps)

interpretation create_list: item_parser k create_item for k
proof
  fix s :: "Column list \<times> string list"
  obtain cols pkey where s: "s = (cols, pkey)" by (cases s)
  show "reads k (create_item s)"
    unfolding s create_item_def prod.case by (intro parse_steps reads_steps [OF pkey_list.commaList_reads]) simp_all
qed

interpretation value_list: item_parser k value_item for k
proof
  fix s
  show "reads k (value_item s)"
  proof (rule readsI)
    fix p :: parser
    show "(\<exists>e. value_item s p = Some (Inl e)) \<or> (\<exists>x q. value_item s p = Some (Inr (x, q)) \<and> length q < length p)"
      using parseValue_le(1) [of p] by (cases "parseValue p") (auto simp: value_item_def)
  qed
qed

interpretation assign_list: item_parser k assign_item for k
  by unfold_locales (unfold assign_item_def, intro parse_steps, simp)

lemma steps_parseSelect_cols [parse_steps]: "steps k (parseSelect_cols cols)"
proof (rule stepsI)
  fix p
  show "(\<exists>e. parseSelect_cols cols p = Some (Inl e)) \<or>
      (\<exists>x q. parseSelect_cols cols p = Some (Inr (x, q)) \<and> length q \<le> length p)"
  proof (induction cols p rule: parseSelect_cols.induct)
    case (1 cols p)
    obtain b q where t: "tryKeyword [''FROM''] p = (b, q)" by (cases "tryKeyword [''FROM''] p")
    obtain c q1 where c: "(if cols \<noteq> [] then tryPunctuation '','' q else (True, q)) = (c, q1)" by fastforce
    have le: "length q \<le> length p" "length q1 \<le> length p"
      using tryKeyword_le(1) [OF t] select_comma_le [OF c] by simp_all
    show ?case
    proof (cases "b \<or> \<not> c")
      case True
      then show ?thesis using t c le by (cases b) (simp_all add: parseSelect_cols.simps)
    next
      case False
      then have bc: "\<not> b" "c" by simp_all
      from parseExpr_reads [of "Suc (length q1)"] show ?thesis
      proof (rule readsD [of _ _ q1])
        fix x q2 assume x: "parseExpr q1 = Some (Inr (x, q2))" "length q2 < length q1"
        have "parseSelect_cols cols p = parseSelect_cols (cols @ [x]) q2"
          using t c bc x by (subst parseSelect_cols.simps) simp
        moreover have "(\<exists>e. parseSelect_cols (cols @ [x]) q2 = Some (Inl e)) \<or>
            (\<exists>y q. parseSelect_cols (cols @ [x]) q2 = Some (Inr (y, q)) \<and> length q \<le> length q2)"
          using 1 t c bc x by simp
        ultimately show ?thesis using le x(2) by fastforce
      qed (use t c bc in \<open>simp_all add: parseSelect_cols.simps\<close>)
    qed
  qed
qed

lemma steps_if_bool [parse_steps]: "steps k f \<Longrightarrow> steps k g \<Longrightarrow> steps k (if b then f else g)"
  by simp

lemma steps_prod [parse_steps]: "(\<And>x y. steps k (f x y)) \<Longrightarrow> steps k (case z of (x, y) \<Rightarrow> f x y)"
  by (cases z) simp

lemma steps_stmt_body: "steps k stmt_body"
  unfolding stmt_body_def parseSelect_def parseCreateTable_def parseInsert_def parseUpdate_def parseDelete_def comp_def
  by (intro parse_steps reads_steps [OF create_list.commaList_reads] reads_steps [OF value_list.commaList_reads]
      reads_steps [OF assign_list.commaList_reads]) simp_all

lemma ParseStmt_returns: "\<exists>r. ParseStmt p = Some r"
  using stepsD [OF steps_stmt_body, of p "Suc (length p)"] by (auto simp: ParseStmt_def)

end
