(* ===== verification/Eval.thy ===== *)
theory Eval
  imports Stmt "HOL-Library.Signed_Division"
begin

text \<open>
  \<^verbatim>\<open>sql/eval.go\<close>: the evaluator of expressions on a row.  \<open>None\<close> is a panic, a column index beyond
  the row.  \<open>expr_type\<close> is the type discipline the evaluator enforces at run time; the lemmas show
  that a well-typed expression evaluates to a value of its type or divides by zero, and that an
  evaluation never panics on a row of the schema.
\<close>

definition boolCell :: "bool \<Rightarrow> Cell" where
  "boolCell b = \<lparr>c_Type = TypeI64, c_I64 = (if b then 1 else 0), c_Str = []\<rparr>"

definition i64Cell :: "64 word \<Rightarrow> Cell" where
  "i64Cell n = \<lparr>c_Type = TypeI64, c_I64 = n, c_Str = []\<rparr>"

definition truthy :: "Cell \<Rightarrow> bool" where
  "truthy c = (if c_Type c = TypeStr then 0 < length (c_Str c) else c_I64 c \<noteq> 0)"

definition cmp :: "Cell \<Rightarrow> Cell \<Rightarrow> int res" where
  "cmp a b =
     (if c_Type a \<noteq> c_Type b then Inl (ErrMsg ''cannot compare values of different types'')
      else if c_Type a = TypeStr then Inr (bytes_Compare (c_Str a) (c_Str b))
      else if sint (c_I64 a) < sint (c_I64 b) then Inr (-1)
      else if sint (c_I64 a) > sint (c_I64 b) then Inr 1
      else Inr 0)"

text \<open>Division of \<^verbatim>\<open>int64\<close> truncates, and the least value divided by \<open>-1\<close> wraps to itself.\<close>

definition int64_div :: "64 word \<Rightarrow> 64 word \<Rightarrow> 64 word" where
  "int64_div a b = word_of_int (sint a sdiv sint b)"

definition evalBinOp :: "ExprOp \<Rightarrow> Cell \<Rightarrow> Cell \<Rightarrow> Cell res" where
  "evalBinOp op left right =
     (if op \<in> {OP_ADD, OP_SUB, OP_MUL, OP_DIV} then
        (if c_Type left \<noteq> TypeI64 \<or> c_Type right \<noteq> TypeI64 then Inl (ErrMsg ''arithmetic requires integers'')
         else if op = OP_ADD then Inr (i64Cell (c_I64 left + c_I64 right))
         else if op = OP_SUB then Inr (i64Cell (c_I64 left - c_I64 right))
         else if op = OP_MUL then Inr (i64Cell (c_I64 left * c_I64 right))
         else if c_I64 right = 0 then Inl (ErrMsg ''division by zero'')
         else Inr (i64Cell (int64_div (c_I64 left) (c_I64 right))))
      else if op \<in> {OP_EQ, OP_NE} then
        res_bind (cmp left right) (\<lambda>r. Inr (boolCell ((op = OP_EQ) = (r = 0))))
      else if op \<in> {OP_LT, OP_LE, OP_GT, OP_GE} then
        res_bind (cmp left right) (\<lambda>r.
          Inr (boolCell (if op = OP_LT then r < 0 else if op = OP_LE then r \<le> 0 else if op = OP_GT then r > 0 else r \<ge> 0)))
      else if op = OP_AND then Inr (boolCell (truthy left \<and> truthy right))
      else if op = OP_OR then Inr (boolCell (truthy left \<or> truthy right))
      else Inl (Errorf ''unknown operator %d'' (decimal (op_num op))))"

primrec evalExpr :: "Schema \<Rightarrow> Row \<Rightarrow> expr \<Rightarrow> Cell go" where
  "evalExpr sc row (EName e) =
     (let i = Schema_ColIndex sc e in
      if i < 0 then Some (Inl (Errorf ''no such column %q'' e))
      else map_option Inr (slice_at row i))"
| "evalExpr sc row (ECell c) = Some (Inr c)"
| "evalExpr sc row (EBinOp op l r) =
     go_bind (evalExpr sc row l) (\<lambda>left.
       if op = OP_AND \<and> \<not> truthy left then Some (Inr (boolCell False))
       else if op = OP_OR \<and> truthy left then Some (Inr (boolCell True))
       else go_bind (evalExpr sc row r) (\<lambda>right. Some (evalBinOp op left right)))"
| "evalExpr sc row (EUnOp op e) =
     go_bind (evalExpr sc row e) (\<lambda>kid.
       if op = OP_NOT then Some (Inr (boolCell (\<not> truthy kid)))
       else if op = OP_NEG then
         (if c_Type kid \<noteq> TypeI64 then Some (Inl (ErrMsg ''unary minus requires an integer''))
          else Some (Inr (i64Cell (- c_I64 kid))))
       else Some (Inl (Errorf ''unknown unary operator %d'' (decimal (op_num op)))))"
| "evalExpr sc row (ETuple kids) = Some (Inl (Errorf ''cannot evaluate %T'' ''*sql.ExprTuple''))"

section \<open>Columns\<close>

lemma ColIndex_loop_bounds: "ColIndex_loop name i cs = -1 \<or> i \<le> ColIndex_loop name i cs \<and> ColIndex_loop name i cs < i + int (length cs)"
  by (induction cs arbitrary: i) fastforce+

lemma ColIndex_loop_name:
  assumes "0 \<le> i" "0 \<le> ColIndex_loop name i cs"
  shows "col_Name (cs ! nat (ColIndex_loop name i cs - i)) = name"
  using assms
proof (induction cs arbitrary: i)
  case (Cons c cs)
  show ?case
  proof (cases "col_Name c = name")
    case False
    then have l: "0 \<le> ColIndex_loop name (i + 1) cs" using Cons.prems by simp
    then have "i + 1 \<le> ColIndex_loop name (i + 1) cs" using ColIndex_loop_bounds [of name "i + 1" cs] by auto
    then have "nat (ColIndex_loop name (i + 1) cs - i) = Suc (nat (ColIndex_loop name (i + 1) cs - (i + 1)))" by simp
    then show ?thesis using False Cons.IH [of "i + 1"] Cons.prems l by simp
  qed simp
qed simp

lemma ColIndex_loop_miss: "0 \<le> i \<Longrightarrow> ColIndex_loop name i cs < 0 \<longleftrightarrow> name \<notin> col_Name ` set cs"
  by (induction cs arbitrary: i) auto

lemma Schema_ColIndex_range: "0 \<le> Schema_ColIndex sc name \<Longrightarrow> Schema_ColIndex sc name < int (length (sc_Cols sc))"
  using ColIndex_loop_bounds [of name 0 "sc_Cols sc"] by (auto simp: Schema_ColIndex_def)

lemma Schema_ColIndex_name: "0 \<le> Schema_ColIndex sc name \<Longrightarrow> col_Name (sc_Cols sc ! nat (Schema_ColIndex sc name)) = name"
  using ColIndex_loop_name [of 0 name "sc_Cols sc"] by (simp add: Schema_ColIndex_def)

lemma Schema_ColIndex_miss: "Schema_ColIndex sc name < 0 \<longleftrightarrow> name \<notin> col_Name ` set (sc_Cols sc)"
  by (simp add: Schema_ColIndex_def ColIndex_loop_miss)

text \<open>The column of a name, when names are distinct.\<close>

lemma Schema_ColIndex_distinct:
  assumes "distinct (map col_Name (sc_Cols sc))" "i < length (sc_Cols sc)"
  shows "Schema_ColIndex sc (col_Name (sc_Cols sc ! i)) = int i"
proof -
  let ?n = "Schema_ColIndex sc (col_Name (sc_Cols sc ! i))"
  have "\<not> ?n < 0" using assms(2) by (simp add: Schema_ColIndex_miss)
  then have n: "0 \<le> ?n" by simp
  have "nat ?n < length (sc_Cols sc)" using Schema_ColIndex_range [OF n] n by simp
  then have "nat ?n = i"
    using Schema_ColIndex_name [OF n] assms nth_eq_iff_index_eq [OF assms(1), of "nat ?n" i] by simp
  then show ?thesis using n by simp
qed

section \<open>Types\<close>

definition cmp_ops :: "ExprOp set" where
  "cmp_ops = {OP_EQ, OP_NE, OP_LT, OP_LE, OP_GT, OP_GE}"

definition arith_ops :: "ExprOp set" where
  "arith_ops = {OP_ADD, OP_SUB, OP_MUL, OP_DIV}"

definition col_type :: "Schema \<Rightarrow> string \<Rightarrow> CellType option" where
  "col_type sc name = (let i = Schema_ColIndex sc name in if i < 0 then None else Some (col_Type (sc_Cols sc ! nat i)))"

primrec expr_type :: "Schema \<Rightarrow> expr \<Rightarrow> CellType option" where
  "expr_type sc (EName e) = col_type sc e"
| "expr_type sc (ECell c) = (if cell_typed c then Some (c_Type c) else None)"
| "expr_type sc (EBinOp op l r) =
     (case (expr_type sc l, expr_type sc r) of
        (Some s, Some t) \<Rightarrow>
          if op \<in> arith_ops \<and> s = TypeI64 \<and> t = TypeI64 \<or> op \<in> cmp_ops \<and> s = t \<or> op \<in> {OP_AND, OP_OR}
          then Some TypeI64 else None
      | _ \<Rightarrow> None)"
| "expr_type sc (EUnOp op e) =
     (case expr_type sc e of
        None \<Rightarrow> None
      | Some t \<Rightarrow> if op = OP_NOT \<or> op = OP_NEG \<and> t = TypeI64 then Some TypeI64 else None)"
| "expr_type sc (ETuple kids) = None"

text \<open>The result of a well-typed expression.\<close>

definition sound_result :: "CellType \<Rightarrow> Cell go \<Rightarrow> bool" where
  "sound_result t r \<longleftrightarrow> r = Some (Inl (ErrMsg ''division by zero'')) \<or> (\<exists>c. r = Some (Inr c) \<and> c_Type c = t \<and> cell_typed c)"

lemma sound_bind:
  assumes "sound_result t m" "\<And>c. c_Type c = t \<Longrightarrow> cell_typed c \<Longrightarrow> sound_result s (f c)"
  shows "sound_result s (go_bind m f)"
  using assms(1) unfolding sound_result_def [of t]
proof (elim disjE exE conjE)
  fix c assume "m = Some (Inr c)" "c_Type c = t" "cell_typed c"
  then show "sound_result s (go_bind m f)" using assms(2) [of c] by simp
qed (simp add: sound_result_def)

lemma sound_cells: "sound_result TypeI64 (Some (Inr (boolCell b)))" "sound_result TypeI64 (Some (Inr (i64Cell n)))"
  by (simp_all add: sound_result_def boolCell_def i64Cell_def cell_typed_def)

lemma cmp_same_type: "c_Type a = c_Type b \<Longrightarrow> \<exists>r. cmp a b = Inr r"
  by (simp add: cmp_def)

lemma evalBinOp_sound:
  assumes "op \<in> arith_ops \<and> c_Type a = TypeI64 \<and> c_Type b = TypeI64 \<or> op \<in> cmp_ops \<and> c_Type a = c_Type b \<or> op \<in> {OP_AND, OP_OR}"
  shows "sound_result TypeI64 (Some (evalBinOp op a b))"
  using assms sound_cells cmp_same_type [of a b]
  by (auto simp: evalBinOp_def arith_ops_def cmp_ops_def sound_result_def)

lemma evalExpr_sound:
  assumes sc: "schema_ok sc" and row: "row_ok sc row"
  shows "expr_type sc e = Some t \<Longrightarrow> sound_result t (evalExpr sc row e)"
proof (induction e arbitrary: t)
  case (EName e)
  let ?i = "Schema_ColIndex sc e"
  have i: "0 \<le> ?i" "t = col_Type (sc_Cols sc ! nat ?i)"
    using EName by (auto simp: col_type_def Let_def split: if_splits)
  then have n: "nat ?i < length (sc_Cols sc)" using Schema_ColIndex_range [of sc e] by simp
  show ?case
    using i n row_ok_nth [OF row n] row_ok_typed [OF sc row n] row_ok_length [OF row]
    by (simp add: sound_result_def nat_less_iff)
next
  case (ECell c)
  then show ?case by (auto simp: sound_result_def split: if_splits)
next
  case (EBinOp op l r)
  obtain s u where su: "expr_type sc l = Some s" "expr_type sc r = Some u" "t = TypeI64"
    "op \<in> arith_ops \<and> s = TypeI64 \<and> u = TypeI64 \<or> op \<in> cmp_ops \<and> s = u \<or> op \<in> {OP_AND, OP_OR}"
    using EBinOp.prems by (auto split: option.splits if_splits)
  show ?case
    unfolding evalExpr.simps su(3)
  proof (rule sound_bind [OF EBinOp.IH(1) [OF su(1)]])
    fix a assume a: "c_Type a = s" "cell_typed a"
    have "sound_result TypeI64 (go_bind (evalExpr sc row r) (\<lambda>b. Some (evalBinOp op a b)))"
    proof (rule sound_bind [OF EBinOp.IH(2) [OF su(2)]])
      fix b assume "c_Type b = u" "cell_typed b"
      then show "sound_result TypeI64 (Some (evalBinOp op a b))" using su(4) a by (intro evalBinOp_sound) simp
    qed
    then show "sound_result TypeI64 (if op = OP_AND \<and> \<not> truthy a then Some (Inr (boolCell False))
       else if op = OP_OR \<and> truthy a then Some (Inr (boolCell True))
       else go_bind (evalExpr sc row r) (\<lambda>b. Some (evalBinOp op a b)))" using sound_cells by simp
  qed
next
  case (EUnOp op e)
  obtain s where s: "expr_type sc e = Some s" "t = TypeI64" "op = OP_NOT \<or> op = OP_NEG \<and> s = TypeI64"
    using EUnOp.prems by (auto split: option.splits if_splits)
  show ?case
    unfolding evalExpr.simps s(2)
    by (rule sound_bind [OF EUnOp.IH [OF s(1)]]) (use s(3) sound_cells in auto)
qed simp

section \<open>No panic\<close>

lemma go_bind_total: "\<exists>r. m = Some r \<Longrightarrow> (\<And>x. \<exists>r. f x = Some r) \<Longrightarrow> \<exists>r. go_bind m f = Some r"
  by (cases "the m") auto

lemma evalExpr_returns: "length row = length (sc_Cols sc) \<Longrightarrow> \<exists>r. evalExpr sc row e = Some r"
proof (induction e)
  case (EName e)
  then show ?case using Schema_ColIndex_range [of sc e] by (auto simp: Let_def slice_at_def)
next
  case (EBinOp op l r)
  then show ?case unfolding evalExpr.simps by (intro go_bind_total) (simp_all add: go_bind_total)
next
  case (EUnOp op e)
  then show ?case unfolding evalExpr.simps by (intro go_bind_total) simp_all
qed simp_all

text \<open>A value computed from plain cells is plain and has one of the two types.\<close>

fun expr_cells :: "expr \<Rightarrow> Cell set" where
  "expr_cells (EName e) = {}"
| "expr_cells (ECell c) = {c}"
| "expr_cells (EBinOp op l r) = expr_cells l \<union> expr_cells r"
| "expr_cells (EUnOp op e) = expr_cells e"
| "expr_cells (ETuple kids) = (\<Union>e\<in>set kids. expr_cells e)"

definition cell_ok :: "Cell \<Rightarrow> bool" where
  "cell_ok c \<longleftrightarrow> cell_typed c \<and> cell_plain c"

lemma cell_ok_made [simp]: "cell_ok (boolCell b)" "cell_ok (i64Cell n)"
  by (simp_all add: cell_ok_def boolCell_def i64Cell_def cell_typed_def cell_plain_def)

lemma evalBinOp_ok: "evalBinOp op a b = Inr c \<Longrightarrow> cell_ok c"
  by (auto simp: evalBinOp_def res_bind_def split: if_splits sum.splits)

lemma evalExpr_ok:
  assumes row: "list_all cell_ok row"
  shows "\<forall>c\<in>expr_cells e. cell_ok c \<Longrightarrow> evalExpr sc row e = Some (Inr v) \<Longrightarrow> cell_ok v"
proof (induction e arbitrary: v)
  case (EName e)
  then obtain i where "row ! i = v" "i < length row"
    by (auto simp: Let_def slice_at_def nat_less_iff split: if_splits)
  then show ?case using row by (auto simp: list_all_length)
next
  case (EBinOp op l r)
  then show ?case by (auto simp: go_bind_def split: option.splits sum.splits if_splits intro: evalBinOp_ok)
next
  case (EUnOp op e)
  then show ?case by (auto simp: go_bind_def split: option.splits sum.splits if_splits)
qed simp_all

text \<open>A successful evaluation of a typed expression has its type.\<close>

lemma evalExpr_type:
  assumes "schema_ok sc" "row_ok sc row" "expr_type sc e = Some t" "evalExpr sc row e = Some (Inr c)"
  shows "c_Type c = t"
  using evalExpr_sound [OF assms(1-3)] assms(4) by (simp add: sound_result_def)

section \<open>Comparisons as orders on values\<close>

lemma cmp_val:
  assumes "cell_typed a" "c_Type b = c_Type a"
  shows "\<exists>r. cmp a b = Inr r \<and> (r < 0 \<longleftrightarrow> cell_val a < cell_val b) \<and> (r = 0 \<longleftrightarrow> cell_val a = cell_val b) \<and>
    (r > 0 \<longleftrightarrow> cell_val b < cell_val a)"
  using assms by (auto simp: cmp_def cell_val_def cell_typed_def less_KeyVal_def)

fun cmp_holds :: "ExprOp \<Rightarrow> 'a::linorder \<Rightarrow> 'a \<Rightarrow> bool" where
  "cmp_holds OP_EQ a b = (a = b)"
| "cmp_holds OP_NE a b = (a \<noteq> b)"
| "cmp_holds OP_LT a b = (a < b)"
| "cmp_holds OP_LE a b = (a \<le> b)"
| "cmp_holds OP_GT a b = (a > b)"
| "cmp_holds OP_GE a b = (a \<ge> b)"
| "cmp_holds _ a b = False"

lemma evalBinOp_cmp:
  assumes "op \<in> cmp_ops" "cell_typed a" "c_Type b = c_Type a"
  shows "evalBinOp op a b = Inr (boolCell (cmp_holds op (cell_val a) (cell_val b)))"
proof -
  obtain r where r: "cmp a b = Inr r" "r < 0 \<longleftrightarrow> cell_val a < cell_val b" "r = 0 \<longleftrightarrow> cell_val a = cell_val b"
    "r > 0 \<longleftrightarrow> cell_val b < cell_val a"
    using cmp_val [OF assms(2,3)] by blast
  show ?thesis
    using assms(1) r by (auto simp: cmp_ops_def evalBinOp_def not_less [symmetric])
qed

end
