(* ===== verification/Planner.thy ===== *)
theory Planner
  imports Eval RowIter
begin

text \<open>
  \<^verbatim>\<open>sql/match.go\<close> and \<^verbatim>\<open>sql/planner.go\<close>: from a \<^verbatim>\<open>WHERE\<close> expression to a range of primary keys.
  A \<^verbatim>\<open>nil\<close> condition is \<open>None\<close>; in the planner's results the outer \<open>None\<close> is a panic (an index
  outside the schema) and an inner \<open>None\<close> the code's \<^verbatim>\<open>ok = false\<close>.  \<open>in_req\<close> reads a range request
  on the primary key of a row and \<open>cond_sem\<close> reads a condition on the row; the lemmas show that the
  byte bounds select the rows of the request, and that the request selects the rows of the condition.
\<close>

record RangeReq =
  rr_StartCmp :: ExprOp
  rr_StopCmp :: ExprOp
  rr_Start :: "Cell list"
  rr_Stop :: "Cell list"

definition isDescending :: "ExprOp \<Rightarrow> bool" where
  "isDescending op \<longleftrightarrow> op = OP_LE \<or> op = OP_LT"

definition suffixPositive :: "ExprOp \<Rightarrow> bool" where
  "suffixPositive op \<longleftrightarrow> op = OP_GT \<or> op = OP_LE"

type_synonym sql_rows = "level_iter MergedSortedKVIter RangedKVIter RowIterator"

definition sql_Range :: "kv \<Rightarrow> Schema \<Rightarrow> RangeReq \<Rightarrow> sql_rows go" where
  "sql_Range db sc req =
     (case (EncodeKeyPrefix sc (rr_Start req) (suffixPositive (rr_StartCmp req)),
            EncodeKeyPrefix sc (rr_Stop req) (suffixPositive (rr_StopCmp req))) of
        (Some start, Some stop) \<Rightarrow>
          go_bind (KV_Range db start stop (isDescending (rr_StartCmp req))) (NewRowIterator table_range_src sc)
      | _ \<Rightarrow> None)"

section \<open>Matching a condition\<close>

fun matchAllEq :: "expr \<Rightarrow> NamedCell list \<Rightarrow> NamedCell list option" where
  "matchAllEq (EBinOp op l r) out =
     (if op = OP_AND then
        (case matchAllEq l out of None \<Rightarrow> None | Some out' \<Rightarrow> matchAllEq r out')
      else if op = OP_EQ then
        (case (l, r) of (EName col, ECell val) \<Rightarrow> Some (out @ [\<lparr>nc_column = col, nc_value = val\<rparr>]) | _ \<Rightarrow> None)
      else None)"
| "matchAllEq _ out = None"

text \<open>The column \<^verbatim>\<open>schema.Cols[i]\<close>.\<close>

abbreviation schema_col :: "Schema \<Rightarrow> int \<Rightarrow> Column option" where
  "schema_col sc i \<equiv> slice_at (sc_Cols sc) i"

fun isPKeyPrefix_loop :: "Schema \<Rightarrow> string list \<Rightarrow> int list \<Rightarrow> bool option" where
  "isPKeyPrefix_loop sc (name # cols) (i # pkey) =
     (case schema_col sc i of
        None \<Rightarrow> None
      | Some c \<Rightarrow> if col_Name c \<noteq> name then Some False else isPKeyPrefix_loop sc cols pkey)"
| "isPKeyPrefix_loop sc _ _ = Some True"

definition isPKeyPrefix :: "Schema \<Rightarrow> string list \<Rightarrow> bool option" where
  "isPKeyPrefix sc cols =
     (if length cols = 0 \<or> length (sc_PKey sc) < length cols then Some False
      else isPKeyPrefix_loop sc cols (sc_PKey sc))"

fun destructure_kids :: "expr list \<Rightarrow> expr list \<Rightarrow> (string list \<times> Cell list) option" where
  "destructure_kids (EName n # ls) (ECell v # rs) =
     map_option (\<lambda>(cols, vals). (n # cols, v # vals)) (destructure_kids ls rs)"
| "destructure_kids [] [] = Some ([], [])"
| "destructure_kids _ _ = None"

fun destructureCmp :: "expr \<Rightarrow> expr \<Rightarrow> (string list \<times> Cell list) option" where
  "destructureCmp (EName l) (ECell r) = Some ([l], [r])"
| "destructureCmp (ETuple ls) (ETuple rs) = (if length rs \<noteq> length ls then None else destructure_kids ls rs)"
| "destructureCmp _ _ = None"

fun typedPrefix_loop :: "Schema \<Rightarrow> Cell list \<Rightarrow> int list \<Rightarrow> Cell list option" where
  "typedPrefix_loop sc (v # vals) (i # pkey) =
     (case schema_col sc i of
        None \<Rightarrow> None
      | Some c \<Rightarrow> map_option ((#) (v\<lparr>c_Type := col_Type c\<rparr>)) (typedPrefix_loop sc vals pkey))"
| "typedPrefix_loop sc (v # vals) [] = None"
| "typedPrefix_loop sc [] pkey = Some []"

definition typedPrefix :: "Schema \<Rightarrow> Cell list \<Rightarrow> Cell list option" where
  "typedPrefix sc vals = typedPrefix_loop sc vals (sc_PKey sc)"

text \<open>The bound of one comparison: its operator, its cells, and whether it is a start.\<close>

definition cmpToBound :: "Schema \<Rightarrow> expr \<Rightarrow> (ExprOp \<times> Cell list \<times> bool) option option" where
  "cmpToBound sc cond =
     (case cond of
        EBinOp op l r \<Rightarrow>
          if op \<notin> {OP_GT, OP_GE, OP_LT, OP_LE} then Some None
          else (case destructureCmp l r of
              None \<Rightarrow> Some None
            | Some (cols, vals) \<Rightarrow>
                (case isPKeyPrefix sc cols of
                   None \<Rightarrow> None
                 | Some False \<Rightarrow> Some None
                 | Some True \<Rightarrow>
                     map_option (\<lambda>cells. Some (op, cells, op = OP_GT \<or> op = OP_GE)) (typedPrefix sc vals)))
      | _ \<Rightarrow> Some None)"

definition find_key :: "NamedCell list \<Rightarrow> string \<Rightarrow> Cell option" where
  "find_key keys name = map_option nc_value (find (\<lambda>nc. nc_column nc = name) keys)"

primrec extractPKey_loop :: "Schema \<Rightarrow> NamedCell list \<Rightarrow> int list \<Rightarrow> Cell list option option" where
  "extractPKey_loop sc keys [] = Some (Some [])"
| "extractPKey_loop sc keys (pk # pks) =
     (case schema_col sc pk of
        None \<Rightarrow> None
      | Some c \<Rightarrow>
          (case find_key keys (col_Name c) of
             None \<Rightarrow> Some None
           | Some v \<Rightarrow> map_option (map_option ((#) (v\<lparr>c_Type := col_Type c\<rparr>))) (extractPKey_loop sc keys pks)))"

definition extractPKey :: "Schema \<Rightarrow> NamedCell list \<Rightarrow> Cell list option option" where
  "extractPKey sc keys =
     (if length keys \<noteq> length (sc_PKey sc) then Some None else extractPKey_loop sc keys (sc_PKey sc))"

definition full_req :: RangeReq where
  "full_req = \<lparr>rr_StartCmp = OP_GE, rr_StopCmp = OP_LE, rr_Start = [], rr_Stop = []\<rparr>"

text \<open>The closure \<^verbatim>\<open>apply\<close> of \<^verbatim>\<open>matchRange\<close>.\<close>

definition apply_bound :: "Schema \<Rightarrow> RangeReq \<Rightarrow> expr \<Rightarrow> RangeReq option option" where
  "apply_bound sc req c =
     map_option (map_option (\<lambda>(op, cells, isStart).
       if isStart then req\<lparr>rr_StartCmp := op, rr_Start := cells\<rparr> else req\<lparr>rr_StopCmp := op, rr_Stop := cells\<rparr>))
       (cmpToBound sc c)"

definition matchRange :: "Schema \<Rightarrow> expr \<Rightarrow> RangeReq option option" where
  "matchRange sc cond =
     (case cond of
        EBinOp op l r \<Rightarrow>
          if op = OP_AND then
            (case apply_bound sc full_req l of
               None \<Rightarrow> None
             | Some None \<Rightarrow> Some None
             | Some (Some req) \<Rightarrow> apply_bound sc req r)
          else apply_bound sc full_req cond
      | _ \<Rightarrow> Some None)"

definition point_req :: "Schema \<Rightarrow> expr \<Rightarrow> RangeReq option option" where
  "point_req sc cond =
     (case matchAllEq cond [] of
        None \<Rightarrow> Some None
      | Some keys \<Rightarrow>
          map_option (map_option (\<lambda>pkey. \<lparr>rr_StartCmp = OP_GE, rr_StopCmp = OP_LE, rr_Start = pkey, rr_Stop = pkey\<rparr>))
            (extractPKey sc keys))"

definition makeRange :: "Schema \<Rightarrow> expr option \<Rightarrow> RangeReq go" where
  "makeRange sc cond =
     (case cond of
        None \<Rightarrow> Some (Inr full_req)
      | Some c \<Rightarrow>
          (case point_req sc c of
             None \<Rightarrow> None
           | Some (Some req) \<Rightarrow> Some (Inr req)
           | Some None \<Rightarrow>
               (case matchRange sc c of
                  None \<Rightarrow> None
                | Some (Some req) \<Rightarrow> Some (Inr req)
                | Some None \<Rightarrow> Some (Inl (ErrMsg ''unimplemented WHERE'')))))"

definition execCond :: "kv \<Rightarrow> Schema \<Rightarrow> expr option \<Rightarrow> sql_rows go" where
  "execCond db sc cond = go_bind (makeRange sc cond) (sql_Range db sc)"

section \<open>A request selects rows\<close>

text \<open>\<open>prefix_holds\<close>: the leading columns of the primary key compare with the cells as tuples.\<close>

definition prefix_holds :: "Schema \<Rightarrow> ExprOp \<Rightarrow> Cell list \<Rightarrow> Row \<Rightarrow> bool" where
  "prefix_holds sc op cells row \<longleftrightarrow> cmp_holds op (take (length cells) (pkey_vals sc row)) (map cell_val cells)"

definition in_req :: "Schema \<Rightarrow> RangeReq \<Rightarrow> Row \<Rightarrow> bool" where
  "in_req sc req row \<longleftrightarrow>
     prefix_holds sc (rr_StartCmp req) (rr_Start req) row \<and> prefix_holds sc (rr_StopCmp req) (rr_Stop req) row"

definition bound_ok :: "Schema \<Rightarrow> Cell list \<Rightarrow> bool" where
  "bound_ok sc cells \<longleftrightarrow> list_all cell_typed cells \<and> length cells \<le> length (sc_PKey sc)"

definition req_ok :: "Schema \<Rightarrow> RangeReq \<Rightarrow> bool" where
  "req_ok sc req \<longleftrightarrow> bound_ok sc (rr_Start req) \<and> bound_ok sc (rr_Stop req) \<and>
     (if isDescending (rr_StartCmp req) then rr_StopCmp req \<in> {OP_GE, OP_GT}
      else rr_StartCmp req \<in> {OP_GE, OP_GT} \<and> rr_StopCmp req \<in> {OP_LE, OP_LT})"

lemma bound_in_table: "bound_ok sc cells \<Longrightarrow> EncodeKeyPrefix sc cells positive = Some b \<Longrightarrow> in_table sc b"
  using EncodeKeyPrefix_correct [of cells sc positive] by (auto simp: bound_ok_def in_table_def)

lemma bound_encodes: "bound_ok sc cells \<Longrightarrow> \<exists>b. EncodeKeyPrefix sc cells positive = Some b"
  using EncodeKeyPrefix_correct [of cells sc positive] by (simp add: bound_ok_def)

lemma bound_bytes:
  assumes "schema_ok sc" "row_key_ok sc r" "Row_EncodeKey sc r = Some k" "bound_ok sc cells"
    and "EncodeKeyPrefix sc cells (suffixPositive op) = Some b"
  shows "op \<in> {OP_GE, OP_GT} \<Longrightarrow> b \<le> k \<longleftrightarrow> prefix_holds sc op cells r"
    and "op \<in> {OP_LE, OP_LT} \<Longrightarrow> k \<le> b \<longleftrightarrow> prefix_holds sc op cells r"
  using assms key_prefix_bounds [OF assms(1-3) _ _ assms(5)]
  by (auto simp: bound_ok_def prefix_holds_def suffixPositive_def)

lemma table_row_key:
  assumes "schema_ok sc" "row \<in> table_rows sc m"
  shows "row_fits sc row" "row_key_ok sc row" "row_ok sc row"
  using assms row_ok_key [OF assms(1), of row] by (auto simp: table_rows_def stored_def row_fits_def)

lemma sql_Range_correct:
  assumes ok: "kv_ok db" and sc: "schema_ok sc" and t: "table_ok sc (kv_view db)" and req: "req_ok sc req"
    and ds: "isDescending (rr_StartCmp req) \<Longrightarrow> kv_no_empty_key db \<and>
      (\<exists>k\<in>dom (kv_view db). the (EncodeKeyPrefix sc (rr_Start req) (suffixPositive (rr_StartCmp req))) \<le> k)"
  shows "\<exists>it rows. sql_Range db sc req = Some (Inr it) \<and>
    (\<forall>n. read_rows table_range_src n it = Some (Inr (take n rows))) \<and>
    sorted_wrt (\<lambda>r s. if isDescending (rr_StartCmp req) then pkey_vals sc s < pkey_vals sc r
      else pkey_vals sc r < pkey_vals sc s) rows \<and>
    set rows = {row \<in> table_rows sc (kv_view db). in_req sc req row}"
proof -
  let ?ds = "isDescending (rr_StartCmp req)"
  have b: "bound_ok sc (rr_Start req)" "bound_ok sc (rr_Stop req)" using req by (simp_all add: req_ok_def)
  obtain start stop where s: "EncodeKeyPrefix sc (rr_Start req) (suffixPositive (rr_StartCmp req)) = Some start"
    "EncodeKeyPrefix sc (rr_Stop req) (suffixPositive (rr_StopCmp req)) = Some stop"
    using bound_encodes b by blast
  have "?ds \<longrightarrow> kv_no_empty_key db \<and> (\<exists>k\<in>dom (kv_view db). start \<le> k)" using ds s(1) by simp
  from table_range_correct [OF ok sc t bound_in_table [OF b(1) s(1)] bound_in_table [OF b(2) s(2)] this]
  obtain r it rows where r: "KV_Range db start stop ?ds = Some (Inr r)" "NewRowIterator table_range_src sc r = Some (Inr it)"
    "\<forall>n. read_rows table_range_src n it = Some (Inr (take n rows))"
    "sorted_wrt (\<lambda>r s. if ?ds then pkey_vals sc s < pkey_vals sc r else pkey_vals sc r < pkey_vals sc s) rows"
    "set rows = {row \<in> table_rows sc (kv_view db). \<exists>k. Row_EncodeKey sc row = Some k \<and>
      (if ?ds then stop \<le> k \<and> k \<le> start else start \<le> k \<and> k \<le> stop)}"
    by blast
  have "(\<exists>k. Row_EncodeKey sc row = Some k \<and> (if ?ds then stop \<le> k \<and> k \<le> start else start \<le> k \<and> k \<le> stop)) \<longleftrightarrow> in_req sc req row"
    if row: "row \<in> table_rows sc (kv_view db)" for row
  proof -
    note rk = table_row_key(2) [OF sc row]
    obtain k where k: "Row_EncodeKey sc row = Some k" using Row_EncodeKey_total [OF sc rk] by blast
    show ?thesis
      using req k bound_bytes [OF sc rk k b(1) s(1)] bound_bytes [OF sc rk k b(2) s(2)]
      by (auto simp: req_ok_def in_req_def isDescending_def)
  qed
  then have "set rows = {row \<in> table_rows sc (kv_view db). in_req sc req row}" using r(5) by blast
  moreover have "sql_Range db sc req = Some (Inr it)" using r(1,2) s by (simp add: sql_Range_def)
  ultimately show ?thesis using r(3,4) by blast
qed

section \<open>The meaning of a condition\<close>

text \<open>
  Conjunctions of comparisons of columns with constants, a tuple of columns with a tuple of constants
  compared lexicographically.
\<close>

definition col_val :: "Schema \<Rightarrow> Row \<Rightarrow> string \<Rightarrow> KeyVal" where
  "col_val sc row name = cell_val (row ! nat (Schema_ColIndex sc name))"

fun cond_sem :: "Schema \<Rightarrow> Row \<Rightarrow> expr \<Rightarrow> bool" where
  "cond_sem sc row (EBinOp op l r) =
     (if op = OP_AND then cond_sem sc row l \<and> cond_sem sc row r
      else case destructureCmp l r of
          None \<Rightarrow> False
        | Some (cols, vals) \<Rightarrow> cmp_holds op (map (col_val sc row) cols) (map cell_val vals))"
| "cond_sem sc row _ = False"

text \<open>Each constant has the type of its column.\<close>

definition const_typed :: "Schema \<Rightarrow> string \<Rightarrow> Cell \<Rightarrow> bool" where
  "const_typed sc name v \<longleftrightarrow> cell_typed v \<and> col_type sc name = Some (c_Type v)"

fun cond_typed :: "Schema \<Rightarrow> expr \<Rightarrow> bool" where
  "cond_typed sc (EBinOp op l r) =
     (if op = OP_AND then cond_typed sc l \<and> cond_typed sc r
      else op \<in> cmp_ops \<and> (case destructureCmp l r of
          None \<Rightarrow> False
        | Some (cols, vals) \<Rightarrow> list_all2 (const_typed sc) cols vals))"
| "cond_typed sc _ = False"

fun cond_scalar :: "expr \<Rightarrow> bool" where
  "cond_scalar (EBinOp op l r) \<longleftrightarrow>
     (if op = OP_AND then cond_scalar l \<and> cond_scalar r else (case l of ETuple _ \<Rightarrow> False | _ \<Rightarrow> True))"
| "cond_scalar _ \<longleftrightarrow> True"

lemma const_typed_col:
  assumes "schema_ok sc" "row_ok sc row" "const_typed sc name v"
  defines "i \<equiv> nat (Schema_ColIndex sc name)"
  shows "0 \<le> Schema_ColIndex sc name" "i < length row" "c_Type v = c_Type (row ! i)" "cell_typed (row ! i)"
proof -
  show n: "0 \<le> Schema_ColIndex sc name"
    using assms(3) by (auto simp: const_typed_def col_type_def Let_def split: if_splits)
  then have l: "i < length (sc_Cols sc)" using Schema_ColIndex_range [OF n] by (simp add: i_def)
  then show "i < length row" using row_ok_length [OF assms(2)] by simp
  show "c_Type v = c_Type (row ! i)"
    using assms(3) n row_ok_nth [OF assms(2) l] by (simp add: const_typed_def col_type_def Let_def i_def)
  show "cell_typed (row ! i)" by (rule row_ok_typed [OF assms(1,2) l])
qed

lemma truthy_boolCell [simp]: "truthy (boolCell b) = b"
  by (simp add: truthy_def boolCell_def)

lemma cmp_holds_single: "cmp_holds op [a] [b] = cmp_holds op a b"
  by (cases op) auto

lemma destructure_scalar:
  "destructureCmp l r = Some (cols, vals) \<Longrightarrow> (case l of ETuple _ \<Rightarrow> False | _ \<Rightarrow> True) \<Longrightarrow>
   \<exists>n v. l = EName n \<and> r = ECell v \<and> cols = [n] \<and> vals = [v]"
  by (cases l; cases r) auto

text \<open>On conditions without tuples the evaluator computes this meaning.\<close>

lemma evalExpr_cond:
  assumes sc: "schema_ok sc" and row: "row_ok sc row"
  shows "cond_typed sc c \<Longrightarrow> cond_scalar c \<Longrightarrow> evalExpr sc row c = Some (Inr (boolCell (cond_sem sc row c)))"
proof (induction c)
  case (EBinOp op l r)
  show ?case
  proof (cases "op = OP_AND")
    case True
    then show ?thesis using EBinOp by (simp add: evalBinOp_def)
  next
    case False
    then obtain cols vals where d: "destructureCmp l r = Some (cols, vals)" "op \<in> cmp_ops"
      "list_all2 (const_typed sc) cols vals" "case l of ETuple _ \<Rightarrow> False | _ \<Rightarrow> True"
      using EBinOp.prems by (auto split: option.splits)
    from destructure_scalar [OF d(1,4)] obtain n v where nv: "l = EName n" "r = ECell v" "cols = [n]" "vals = [v]" by blast
    then have t: "const_typed sc n v" using d(3) by simp
    let ?a = "row ! nat (Schema_ColIndex sc n)"
    note c = const_typed_col [OF sc row t]
    have "evalExpr sc row (EName n) = Some (Inr ?a)" using c(1,2) by (simp add: slice_at_def nat_less_iff)
    moreover have "evalBinOp op ?a v = Inr (boolCell (cond_sem sc row (EBinOp op l r)))"
      using evalBinOp_cmp [OF d(2) c(4,3)] False nv by (simp add: col_val_def cmp_holds_single)
    moreover have "op \<noteq> OP_OR" using d(2) by (auto simp: cmp_ops_def)
    ultimately show ?thesis using False nv by simp
  qed
qed simp_all

section \<open>A point lookup\<close>

definition key_eq :: "Schema \<Rightarrow> Row \<Rightarrow> NamedCell \<Rightarrow> bool" where
  "key_eq sc row nc \<longleftrightarrow> col_val sc row (nc_column nc) = cell_val (nc_value nc)"

lemma matchAllEq_sem:
  "matchAllEq c out = Some keys \<Longrightarrow> \<exists>ks. keys = out @ ks \<and> cond_sem sc row c = list_all (key_eq sc row) ks \<and>
    cond_typed sc c = list_all (\<lambda>nc. const_typed sc (nc_column nc) (nc_value nc)) ks"
proof (induction c out arbitrary: keys rule: matchAllEq.induct)
  case (1 op l r out)
  show ?case
  proof (cases "op = OP_AND")
    case True
    then obtain ls where "matchAllEq l out = Some ls" "matchAllEq r ls = Some keys"
      using "1.prems" by (auto split: option.splits)
    then show ?thesis using 1 True by fastforce
  next
    case False
    then obtain n v where "op = OP_EQ" "l = EName n" "r = ECell v" "keys = out @ [\<lparr>nc_column = n, nc_value = v\<rparr>]"
      using "1.prems" by (auto split: expr.splits if_splits)
    then show ?thesis by (simp add: key_eq_def cmp_ops_def)
  qed
qed simp_all

text \<open>A schema whose primary-key columns are found by their names, each once: what \<^verbatim>\<open>CREATE TABLE\<close> makes.\<close>

definition schema_named :: "Schema \<Rightarrow> bool" where
  "schema_named sc \<longleftrightarrow> distinct (sc_PKey sc) \<and>
     (\<forall>i\<in>set (sc_PKey sc). Schema_ColIndex sc (col_Name (sc_Cols sc ! nat i)) = i)"

abbreviation key_name :: "Schema \<Rightarrow> int \<Rightarrow> string" where
  "key_name sc i \<equiv> col_Name (sc_Cols sc ! nat i)"

lemma key_name_col:
  assumes "schema_ok sc" "schema_named sc" "i \<in> set (sc_PKey sc)"
  shows "schema_col sc i = Some (sc_Cols sc ! nat i)" "col_type sc (key_name sc i) = Some (col_Type (sc_Cols sc ! nat i))"
    and "col_val sc row (key_name sc i) = cell_val (row ! nat i)"
  using assms by (auto simp: schema_ok_def schema_named_def col_type_def col_val_def Let_def)

lemma find_key_Some: "find_key keys n = Some v \<Longrightarrow> \<exists>nc\<in>set keys. nc_column nc = n \<and> nc_value nc = v"
  by (auto simp: find_key_def find_Some_iff)

lemma find_key_distinct:
  "distinct (map nc_column keys) \<Longrightarrow> nc \<in> set keys \<Longrightarrow> find_key keys (nc_column nc) = Some (nc_value nc)"
  unfolding find_key_def by (induction keys) auto

lemma typed_retype: "c_Type v = t \<Longrightarrow> v\<lparr>c_Type := t\<rparr> = (v :: Cell)"
  by (cases v) simp

lemma extractPKey_loop_correct:
  assumes sc: "schema_ok sc" "schema_named sc"
    and keys: "list_all (\<lambda>nc. const_typed sc (nc_column nc) (nc_value nc)) keys"
  shows "extractPKey_loop sc keys pks = Some (Some out) \<Longrightarrow> set pks \<subseteq> set (sc_PKey sc) \<Longrightarrow>
    map (\<lambda>i. find_key keys (key_name sc i)) pks = map Some out \<and> list_all cell_typed out"
proof (induction pks arbitrary: out)
  case (Cons i pks)
  have i: "i \<in> set (sc_PKey sc)" using Cons.prems(2) by simp
  obtain v out' where v: "find_key keys (key_name sc i) = Some v" "extractPKey_loop sc keys pks = Some (Some out')"
    "out = v\<lparr>c_Type := col_Type (sc_Cols sc ! nat i)\<rparr> # out'"
    using Cons.prems(1) key_name_col(1) [OF sc i] by (auto split: option.splits)
  obtain nc where "nc \<in> set keys" "nc_column nc = key_name sc i" "nc_value nc = v"
    using find_key_Some [OF v(1)] by blast
  then have "const_typed sc (key_name sc i) v" using keys by (metis list_all_iff)
  then have "cell_typed v" "c_Type v = col_Type (sc_Cols sc ! nat i)"
    using key_name_col(2) [OF sc i] by (simp_all add: const_typed_def)
  then show ?case using Cons.IH [OF v(2)] Cons.prems(2) v(1,3) by (simp add: typed_retype)
qed simp

lemma extractPKey_correct:
  assumes sc: "schema_ok sc" "schema_named sc"
    and keys: "list_all (\<lambda>nc. const_typed sc (nc_column nc) (nc_value nc)) keys"
    and ext: "extractPKey sc keys = Some (Some out)"
  shows "bound_ok sc out" "length out = length (sc_PKey sc)"
    and "map cell_val out = pkey_vals sc row \<longleftrightarrow> list_all (key_eq sc row) keys"
proof -
  let ?pk = "sc_PKey sc"
  let ?names = "map (key_name sc) ?pk"
  have len: "length keys = length ?pk" and loop: "extractPKey_loop sc keys ?pk = Some (Some out)"
    using ext by (simp_all add: extractPKey_def split: if_splits)
  have out: "map (\<lambda>i. find_key keys (key_name sc i)) ?pk = map Some out" "list_all cell_typed out"
    using extractPKey_loop_correct [OF sc keys loop] by simp_all
  show length_out: "length out = length ?pk" using arg_cong [OF out(1), of length] by simp
  then show "bound_ok sc out" using out(2) by (simp add: bound_ok_def)
  have found: "find_key keys (key_name sc (?pk ! j)) = Some (out ! j)" if "j < length ?pk" for j
    using arg_cong [OF out(1), of "\<lambda>xs. xs ! j"] that length_out by simp
  have names: "set ?names \<subseteq> set (map nc_column keys)"
  proof
    fix n assume "n \<in> set ?names"
    then obtain j where "j < length ?pk" "n = key_name sc (?pk ! j)" by (auto simp: in_set_conv_nth)
    then show "n \<in> set (map nc_column keys)" using find_key_Some [OF found [of j]] by (metis image_eqI set_map)
  qed
  have "inj_on (key_name sc) (set ?pk)" using sc(2) by (intro inj_onI) (metis schema_named_def)
  then have "card (set ?names) = length keys"
    using sc(2) len by (simp add: schema_named_def card_image distinct_card)
  then have "card (set (map nc_column keys)) = length (map nc_column keys)"
    using card_mono [OF _ names] card_length [of "map nc_column keys"] by simp
  then have dist: "distinct (map nc_column keys)" and same: "set ?names = set (map nc_column keys)"
    using card_distinct [of "map nc_column keys"] card_subset_eq [OF _ names] \<open>card (set ?names) = length keys\<close> by simp_all
  have all: "list_all (key_eq sc row) keys \<longleftrightarrow> (\<forall>j<length ?pk. cell_val (row ! nat (?pk ! j)) = cell_val (out ! j))"
  proof -
    have "(\<exists>nc\<in>set keys. nc_column nc = key_name sc (?pk ! j) \<and> nc_value nc = out ! j)" if "j < length ?pk" for j
      using find_key_Some [OF found [OF that]] by blast
    moreover have "\<exists>j<length ?pk. nc_column nc = key_name sc (?pk ! j) \<and> nc_value nc = out ! j" if nc: "nc \<in> set keys" for nc
    proof -
      have "nc_column nc \<in> set ?names" using same nc by simp
      then obtain j where "j < length ?pk" "nc_column nc = key_name sc (?pk ! j)" by (auto simp: in_set_conv_nth)
      then show ?thesis using found [of j] find_key_distinct [OF dist nc] by auto
    qed
    moreover have "col_val sc row (key_name sc (?pk ! j)) = cell_val (row ! nat (?pk ! j))" if "j < length ?pk" for j
      by (rule key_name_col(3) [OF sc]) (simp add: that)
    ultimately show ?thesis unfolding list_all_iff key_eq_def by metis
  qed
  have "map cell_val out = pkey_vals sc row \<longleftrightarrow> (\<forall>j<length ?pk. cell_val (out ! j) = cell_val (row ! nat (?pk ! j)))"
    by (simp add: list_eq_iff_nth_eq pkey_cells_def length_out)
  then show "map cell_val out = pkey_vals sc row \<longleftrightarrow> list_all (key_eq sc row) keys" using all by metis
qed

lemma point_req_correct:
  assumes sc: "schema_ok sc" "schema_named sc" and c: "cond_typed sc c" and p: "point_req sc c = Some (Some req)"
  shows "req_ok sc req" "in_req sc req row \<longleftrightarrow> cond_sem sc row c" "\<not> isDescending (rr_StartCmp req)"
proof -
  obtain keys out where k: "matchAllEq c [] = Some keys" "extractPKey sc keys = Some (Some out)"
    "req = \<lparr>rr_StartCmp = OP_GE, rr_StopCmp = OP_LE, rr_Start = out, rr_Stop = out\<rparr>"
    using p by (auto simp: point_req_def split: option.splits)
  have m: "cond_sem sc row c = list_all (key_eq sc row) keys"
    "list_all (\<lambda>nc. const_typed sc (nc_column nc) (nc_value nc)) keys"
    using matchAllEq_sem [OF k(1), of sc row] c by auto
  note e = extractPKey_correct [OF sc m(2) k(2)]
  show "req_ok sc req" "\<not> isDescending (rr_StartCmp req)" using e(1) k(3) by (simp_all add: req_ok_def isDescending_def)
  have "take (length out) (pkey_vals sc row) = pkey_vals sc row" by (simp add: e(2) pkey_cells_def)
  then show "in_req sc req row \<longleftrightarrow> cond_sem sc row c"
    using e(3) [of row] m(1) k(3) by (auto simp: in_req_def prefix_holds_def)
qed

section \<open>Bounds\<close>

lemma isPKeyPrefix_loop_correct:
  assumes sc: "schema_ok sc" "schema_named sc"
  shows "isPKeyPrefix_loop sc cols pks = Some True \<Longrightarrow> length cols \<le> length pks \<Longrightarrow> set pks \<subseteq> set (sc_PKey sc) \<Longrightarrow>
    cols = map (key_name sc) (take (length cols) pks)"
proof (induction sc cols pks rule: isPKeyPrefix_loop.induct)
  case (1 sc' name cols i pkey)
  then show ?case by (auto simp: slice_at_def split: option.splits if_splits)
qed auto

lemma typedPrefix_loop_correct:
  assumes sc: "schema_ok sc" "schema_named sc"
  shows "list_all2 (const_typed sc) (map (key_name sc) (take (length vals) pks)) vals \<Longrightarrow> length vals \<le> length pks \<Longrightarrow>
    set pks \<subseteq> set (sc_PKey sc) \<Longrightarrow> typedPrefix_loop sc vals pks = Some vals"
proof (induction vals arbitrary: pks)
  case (Cons v vals)
  then obtain i pks' where p: "pks = i # pks'" by (cases pks) auto
  then have i: "i \<in> set (sc_PKey sc)" "const_typed sc (key_name sc i) v" using Cons.prems by simp_all
  then have "c_Type v = col_Type (sc_Cols sc ! nat i)" using key_name_col(2) [OF sc i(1)] by (simp add: const_typed_def)
  then show ?case using Cons p key_name_col(1) [OF sc i(1)] by (simp add: typed_retype)
qed simp

lemma destructure_kids_length: "destructure_kids ls rs = Some (cols, vals) \<Longrightarrow> length vals = length cols"
  by (induction ls rs arbitrary: cols vals rule: destructure_kids.induct) auto

lemma destructureCmp_length: "destructureCmp l r = Some (cols, vals) \<Longrightarrow> length vals = length cols"
  by (induction l r rule: destructureCmp.induct) (auto simp: destructure_kids_length split: if_splits)

lemma cmpToBound_correct:
  assumes sc: "schema_ok sc" "schema_named sc" and c: "cond_typed sc c" and b: "cmpToBound sc c = Some (Some (op, cells, st))"
  shows "bound_ok sc cells" "prefix_holds sc op cells row \<longleftrightarrow> cond_sem sc row c"
    and "if st then op \<in> {OP_GE, OP_GT} else op \<in> {OP_LE, OP_LT}"
proof -
  obtain l r cols vals where d: "c = EBinOp op l r" "op \<in> {OP_GT, OP_GE, OP_LT, OP_LE}" "destructureCmp l r = Some (cols, vals)"
    "isPKeyPrefix sc cols = Some True" "typedPrefix sc vals = Some cells" "st = (op = OP_GT \<or> op = OP_GE)"
    using b by (auto simp: cmpToBound_def split: expr.splits option.splits if_splits bool.splits prod.splits)
  have len: "length vals = length cols" "length cols \<le> length (sc_PKey sc)"
    using destructureCmp_length [OF d(3)] d(4) by (auto simp: isPKeyPrefix_def split: if_splits)
  have "isPKeyPrefix_loop sc cols (sc_PKey sc) = Some True" using d(4) by (simp add: isPKeyPrefix_def split: if_splits)
  then have cols: "cols = map (key_name sc) (take (length cols) (sc_PKey sc))"
    using isPKeyPrefix_loop_correct [OF sc _ len(2)] by simp
  have typed: "list_all2 (const_typed sc) cols vals" using c d(1-3) by auto
  then have "typedPrefix sc vals = Some vals"
    unfolding typedPrefix_def using cols len by (intro typedPrefix_loop_correct [OF sc]) simp_all
  then have cells: "cells = vals" using d(5) by simp
  show "bound_ok sc cells"
    using typed len unfolding cells bound_ok_def by (auto simp: list_all_length list_all2_conv_all_nth const_typed_def)
  show "if st then op \<in> {OP_GE, OP_GT} else op \<in> {OP_LE, OP_LT}" using d(2,6) by auto
  have "map (col_val sc row) cols = take (length cols) (pkey_vals sc row)"
  proof -
    have "map (col_val sc row) cols = map (\<lambda>i. cell_val (row ! nat i)) (take (length cols) (sc_PKey sc))"
      by (subst cols, unfold map_map comp_def, rule map_cong [OF refl], rule key_name_col(3) [OF sc]) (rule in_set_takeD)
    then show ?thesis by (simp add: pkey_cells_def take_map)
  qed
  then show "prefix_holds sc op cells row \<longleftrightarrow> cond_sem sc row c"
    using d(1-3) len(1) by (auto simp: prefix_holds_def cells)
qed

text \<open>
  Two bounds on the same side: \<^verbatim>\<open>matchRange\<close> keeps the second only, so the request is the
  conjunction when the two sides bound different ends.
\<close>

definition is_lower :: "expr \<Rightarrow> bool" where
  "is_lower c = (case c of EBinOp op l r \<Rightarrow> op \<in> {OP_GE, OP_GT} | _ \<Rightarrow> False)"

definition two_sided :: "expr \<Rightarrow> bool" where
  "two_sided c = (case c of EBinOp op l r \<Rightarrow> op = OP_AND \<longrightarrow> is_lower l \<noteq> is_lower r | _ \<Rightarrow> True)"

lemma prefix_holds_full [simp]: "prefix_holds sc OP_GE [] row" "prefix_holds sc OP_LE [] row"
  by (simp_all add: prefix_holds_def)

lemma bound_ok_Nil [simp]: "bound_ok sc []"
  by (simp add: bound_ok_def)

lemma apply_bound_correct:
  assumes sc: "schema_ok sc" "schema_named sc" and c: "cond_typed sc c" and a: "apply_bound sc req0 c = Some (Some req)"
  shows "\<exists>op cells. bound_ok sc cells \<and> (\<forall>row. prefix_holds sc op cells row = cond_sem sc row c) \<and>
    (if is_lower c then op \<in> {OP_GE, OP_GT} \<and> req = req0\<lparr>rr_StartCmp := op, rr_Start := cells\<rparr>
     else op \<in> {OP_LE, OP_LT} \<and> req = req0\<lparr>rr_StopCmp := op, rr_Stop := cells\<rparr>)"
proof -
  obtain op cells st where b: "cmpToBound sc c = Some (Some (op, cells, st))"
    "req = (if st then req0\<lparr>rr_StartCmp := op, rr_Start := cells\<rparr> else req0\<lparr>rr_StopCmp := op, rr_Stop := cells\<rparr>)"
    using a by (auto simp: apply_bound_def)
  note r = cmpToBound_correct [OF sc c b(1)]
  have "is_lower c = st"
    using b(1) by (auto simp: cmpToBound_def is_lower_def split: expr.splits option.splits if_splits bool.splits prod.splits)
  then show ?thesis using r b(2) by (intro exI [of _ op] exI [of _ cells]) auto
qed

lemma matchRange_correct:
  assumes sc: "schema_ok sc" "schema_named sc" and c: "cond_typed sc c" "two_sided c" and m: "matchRange sc c = Some (Some req)"
  shows "req_ok sc req \<and> (\<forall>row. in_req sc req row \<longleftrightarrow> cond_sem sc row c) \<and> \<not> isDescending (rr_StartCmp req)"
proof (cases "\<exists>l r. c = EBinOp OP_AND l r")
  case True
  then obtain l r req1 where lr: "c = EBinOp OP_AND l r" "apply_bound sc full_req l = Some (Some req1)"
    "apply_bound sc req1 r = Some (Some req)"
    using m by (auto simp: matchRange_def split: option.splits)
  then have t: "cond_typed sc l" "cond_typed sc r" "is_lower l \<noteq> is_lower r" using c by (simp_all add: two_sided_def)
  from apply_bound_correct [OF sc t(1) lr(2)] apply_bound_correct [OF sc t(2) lr(3)] show ?thesis
    using t(3) lr(1) by (cases "is_lower l") (auto simp: full_req_def req_ok_def in_req_def isDescending_def)
next
  case False
  then have "apply_bound sc full_req c = Some (Some req)"
    using m by (auto simp: matchRange_def split: expr.splits if_splits)
  from apply_bound_correct [OF sc c(1) this] obtain op cells where b: "bound_ok sc cells"
    "\<And>row. prefix_holds sc op cells row = cond_sem sc row c"
    "if is_lower c then op \<in> {OP_GE, OP_GT} \<and> req = full_req\<lparr>rr_StartCmp := op, rr_Start := cells\<rparr>
     else op \<in> {OP_LE, OP_LT} \<and> req = full_req\<lparr>rr_StopCmp := op, rr_Stop := cells\<rparr>" by blast
  show ?thesis
  proof (cases "is_lower c")
    case True
    then have "op = OP_GE \<or> op = OP_GT" "req = full_req\<lparr>rr_StartCmp := op, rr_Start := cells\<rparr>" using b(3) by simp_all
    then show ?thesis using b(1,2) by (elim disjE) (simp_all add: full_req_def req_ok_def in_req_def isDescending_def)
  next
    case False
    then have "op = OP_LE \<or> op = OP_LT" "req = full_req\<lparr>rr_StopCmp := op, rr_Stop := cells\<rparr>" using b(3) by simp_all
    then show ?thesis using b(1,2) by (elim disjE) (simp_all add: full_req_def req_ok_def in_req_def isDescending_def)
  qed
qed

lemma full_req_ok: "req_ok sc full_req" "in_req sc full_req row" "\<not> isDescending (rr_StartCmp full_req)"
  by (simp_all add: full_req_def req_ok_def in_req_def isDescending_def)

text \<open>What a statement's condition means, and which conditions are covered.\<close>

definition where_sem :: "Schema \<Rightarrow> Row \<Rightarrow> expr option \<Rightarrow> bool" where
  "where_sem sc row cond = (case cond of None \<Rightarrow> True | Some c \<Rightarrow> cond_sem sc row c)"

definition where_ok :: "Schema \<Rightarrow> expr option \<Rightarrow> bool" where
  "where_ok sc cond = (case cond of None \<Rightarrow> True | Some c \<Rightarrow> cond_typed sc c \<and> two_sided c)"

lemma makeRange_correct:
  assumes sc: "schema_ok sc" "schema_named sc" and c: "where_ok sc cond" and m: "makeRange sc cond = Some (Inr req)"
  shows "req_ok sc req \<and> (\<forall>row. in_req sc req row \<longleftrightarrow> where_sem sc row cond) \<and> \<not> isDescending (rr_StartCmp req)"
proof (cases cond)
  case None
  then show ?thesis using m full_req_ok by (auto simp: makeRange_def where_sem_def)
next
  case (Some c)
  then have ct: "cond_typed sc c" "two_sided c" using assms(3) by (simp_all add: where_ok_def)
  consider "point_req sc c = Some (Some req)" | "matchRange sc c = Some (Some req)"
    using m Some by (auto simp: makeRange_def split: option.splits)
  then show ?thesis
  proof cases
    case 1
    then show ?thesis using point_req_correct [OF sc ct(1) 1] Some by (simp add: where_sem_def)
  next
    case 2
    then show ?thesis using matchRange_correct [OF sc ct 2] Some by (simp add: where_sem_def)
  qed
qed

section \<open>The planner does not panic\<close>

lemma schema_col_pkey: "schema_ok sc \<Longrightarrow> i \<in> set (sc_PKey sc) \<Longrightarrow> \<exists>c. schema_col sc i = Some c"
  by (auto simp: schema_ok_def)

lemma isPKeyPrefix_total: "schema_ok sc \<Longrightarrow> \<exists>b. isPKeyPrefix sc cols = Some b"
proof -
  assume sc: "schema_ok sc"
  have "set pks \<subseteq> set (sc_PKey sc) \<Longrightarrow> \<exists>b. isPKeyPrefix_loop sc cols pks = Some b" for pks
    using sc
  proof (induction sc cols pks rule: isPKeyPrefix_loop.induct)
    case (1 sc name cols i pkey)
    then show ?case using schema_col_pkey [of sc i] by auto
  qed auto
  then have "\<exists>b. isPKeyPrefix_loop sc cols (sc_PKey sc) = Some b" by simp
  then show ?thesis unfolding isPKeyPrefix_def by (cases "length cols = 0 \<or> length (sc_PKey sc) < length cols") auto
qed

lemma typedPrefix_total:
  assumes "schema_ok sc" "length vals \<le> length (sc_PKey sc)"
  shows "\<exists>cells. typedPrefix sc vals = Some cells"
proof -
  have "length vals \<le> length pks \<Longrightarrow> set pks \<subseteq> set (sc_PKey sc) \<Longrightarrow> \<exists>cells. typedPrefix_loop sc vals pks = Some cells" for pks
    using assms(1)
  proof (induction sc vals pks rule: typedPrefix_loop.induct)
    case (1 sc v vals i pkey)
    then show ?case using schema_col_pkey [of sc i] by auto
  qed auto
  then show ?thesis using assms(2) by (simp add: typedPrefix_def)
qed

lemma extractPKey_total:
  assumes "schema_ok sc"
  shows "\<exists>r. extractPKey sc keys = Some r"
proof -
  have "set pks \<subseteq> set (sc_PKey sc) \<Longrightarrow> \<exists>r. extractPKey_loop sc keys pks = Some r" for pks
  proof (induction pks)
    case (Cons i pks)
    then show ?case using schema_col_pkey [OF assms, of i] by (auto split: option.split)
  qed simp
  then show ?thesis by (simp add: extractPKey_def)
qed

lemma cmpToBound_total:
  assumes sc: "schema_ok sc"
  shows "\<exists>r. cmpToBound sc c = Some r"
proof (cases c)
  case (EBinOp op l r)
  show ?thesis
  proof (cases "destructureCmp l r")
    case (Some cv)
    obtain cols vals where cv: "cv = (cols, vals)" by (cases cv)
    obtain b where b: "isPKeyPrefix sc cols = Some b" using isPKeyPrefix_total [OF sc] by blast
    show ?thesis
    proof (cases b)
      case True
      have "length vals \<le> length (sc_PKey sc)"
        using destructureCmp_length [of l r cols vals] Some cv b True by (simp add: isPKeyPrefix_def split: if_splits)
      then obtain cells where "typedPrefix sc vals = Some cells" using typedPrefix_total [OF sc] by blast
      then show ?thesis using EBinOp Some cv b True by (simp add: cmpToBound_def)
    qed (use EBinOp Some cv b in \<open>simp add: cmpToBound_def\<close>)
  qed (use EBinOp in \<open>simp add: cmpToBound_def\<close>)
qed (simp_all add: cmpToBound_def)

lemma makeRange_total:
  assumes "schema_ok sc"
  shows "\<exists>r. makeRange sc cond = Some r"
proof (cases cond)
  case (Some c)
  have a: "\<exists>r. apply_bound sc req c = Some r" for req c
    using cmpToBound_total [OF assms, of c] by (auto simp: apply_bound_def)
  have "\<exists>r. point_req sc c = Some r"
    using extractPKey_total [OF assms] by (fastforce simp: point_req_def split: option.split)
  moreover have "\<exists>r. matchRange sc c = Some r"
  proof (cases "\<exists>l r. c = EBinOp OP_AND l r")
    case True
    then obtain l r where lr: "c = EBinOp OP_AND l r" by blast
    obtain x where x: "apply_bound sc full_req l = Some x" using a by blast
    then show ?thesis using lr a by (cases x) (simp_all add: matchRange_def)
  qed (use a in \<open>auto simp: matchRange_def split: expr.split\<close>)
  ultimately show ?thesis using Some by (auto simp: makeRange_def split: option.split)
qed (simp add: makeRange_def)

section \<open>Every plan is an ascending range\<close>

text \<open>Whatever the constants, their cells are given the types of the key columns.\<close>

lemma retyped: "schema_ok sc \<Longrightarrow> schema_col sc i = Some c \<Longrightarrow> cell_typed (v\<lparr>c_Type := col_Type c\<rparr>)"
  by (auto simp: schema_ok_def cell_typed_def slice_at_def nat_less_iff split: if_splits)

lemma typedPrefix_loop_typed:
  "schema_ok sc \<Longrightarrow> typedPrefix_loop sc vals pks = Some cells \<Longrightarrow> list_all cell_typed cells \<and> length cells = length vals"
  by (induction sc vals pks arbitrary: cells rule: typedPrefix_loop.induct) (auto simp: retyped split: option.splits)

lemma extractPKey_loop_typed:
  assumes "schema_ok sc"
  shows "extractPKey_loop sc keys pks = Some (Some out) \<Longrightarrow> list_all cell_typed out \<and> length out = length pks"
  by (induction pks arbitrary: out) (auto simp: retyped [OF assms] split: option.splits)

lemma apply_bound_ok:
  assumes sc: "schema_ok sc" and a: "apply_bound sc req0 c = Some (Some req)" and r: "req_ok sc req0" "\<not> isDescending (rr_StartCmp req0)"
  shows "req_ok sc req \<and> \<not> isDescending (rr_StartCmp req)"
proof -
  obtain op cells st where b: "cmpToBound sc c = Some (Some (op, cells, st))"
    "req = (if st then req0\<lparr>rr_StartCmp := op, rr_Start := cells\<rparr> else req0\<lparr>rr_StopCmp := op, rr_Stop := cells\<rparr>)"
    using a by (auto simp: apply_bound_def)
  obtain l r cols vals where d: "op \<in> {OP_GT, OP_GE, OP_LT, OP_LE}" "destructureCmp l r = Some (cols, vals)"
    "isPKeyPrefix sc cols = Some True" "typedPrefix sc vals = Some cells" "st = (op = OP_GT \<or> op = OP_GE)"
    using b(1) by (auto simp: cmpToBound_def split: expr.splits option.splits if_splits bool.splits prod.splits)
  have "length vals \<le> length (sc_PKey sc)"
    using destructureCmp_length [OF d(2)] d(3) by (auto simp: isPKeyPrefix_def split: if_splits)
  then have "bound_ok sc cells"
    using typedPrefix_loop_typed [OF sc, of vals "sc_PKey sc" cells] d(4) by (simp add: bound_ok_def typedPrefix_def)
  then show ?thesis
    using r b(2) d(1,5) by (cases st) (auto simp: req_ok_def isDescending_def)
qed

lemma makeRange_ok:
  assumes sc: "schema_ok sc" and m: "makeRange sc cond = Some (Inr req)"
  shows "req_ok sc req \<and> \<not> isDescending (rr_StartCmp req)"
proof (cases cond)
  case None
  then show ?thesis using m full_req_ok by (auto simp: makeRange_def)
next
  case (Some c)
  consider "point_req sc c = Some (Some req)" | "matchRange sc c = Some (Some req)"
    using m Some by (auto simp: makeRange_def split: option.splits)
  then show ?thesis
  proof cases
    case 1
    then obtain keys out where k: "extractPKey sc keys = Some (Some out)"
      "req = \<lparr>rr_StartCmp = OP_GE, rr_StopCmp = OP_LE, rr_Start = out, rr_Stop = out\<rparr>"
      by (auto simp: point_req_def split: option.splits)
    then have "bound_ok sc out"
      using extractPKey_loop_typed [OF sc, of keys "sc_PKey sc" out] by (simp add: extractPKey_def bound_ok_def split: if_splits)
    then show ?thesis using k(2) by (simp add: req_ok_def isDescending_def)
  next
    case 2
    note full = full_req_ok(1) [of sc] full_req_ok(3)
    show ?thesis
    proof (cases "\<exists>l r. c = EBinOp OP_AND l r")
      case True
      then obtain l r req1 where "apply_bound sc full_req l = Some (Some req1)" "apply_bound sc req1 r = Some (Some req)"
        using 2 by (auto simp: matchRange_def split: option.splits)
      then show ?thesis using apply_bound_ok [OF sc] full by blast
    next
      case False
      then have "apply_bound sc full_req c = Some (Some req)"
        using 2 by (auto simp: matchRange_def split: expr.splits if_splits)
      then show ?thesis using apply_bound_ok [OF sc] full by blast
    qed
  qed
qed

section \<open>Executing a condition\<close>

text \<open>\<open>selects\<close>: the rows of the plan; for a covered condition, the rows that satisfy it.\<close>

definition selects :: "Schema \<Rightarrow> expr option \<Rightarrow> Row \<Rightarrow> bool" where
  "selects sc cond row = (case makeRange sc cond of Some (Inr req) \<Rightarrow> in_req sc req row | _ \<Rightarrow> False)"

lemma selects_where:
  "schema_ok sc \<Longrightarrow> schema_named sc \<Longrightarrow> where_ok sc cond \<Longrightarrow> makeRange sc cond = Some (Inr req) \<Longrightarrow>
   selects sc cond row \<longleftrightarrow> where_sem sc row cond"
  using makeRange_correct [of sc cond req] by (simp add: selects_def)

lemma execCond_correct:
  assumes ok: "kv_ok db" and sc: "schema_ok sc" and t: "table_ok sc (kv_view db)"
    and m: "makeRange sc cond = Some (Inr req)"
  shows "\<exists>it rows. execCond db sc cond = Some (Inr it) \<and>
    (\<forall>n. read_rows table_range_src n it = Some (Inr (take n rows))) \<and>
    sorted_wrt (\<lambda>r s. pkey_vals sc r < pkey_vals sc s) rows \<and>
    set rows = {row \<in> table_rows sc (kv_view db). selects sc cond row}"
proof -
  have "req_ok sc req" "\<not> isDescending (rr_StartCmp req)" using makeRange_ok [OF sc m] by simp_all
  with sql_Range_correct [OF ok sc t this(1)] show ?thesis using m by (simp add: execCond_def selects_def)
qed

end
