(* ===== verification/Catalog.thy ===== *)
theory Catalog
  imports Planner Meta
begin

text \<open>
  The system catalog of \<^verbatim>\<open>sql/engine.go\<close>: a schema is the JSON value of the reserved key
  \<^verbatim>\<open>"@schema_" + name\<close>.  \<open>marshal_schema\<close> and \<open>unmarshal_schema\<close> are \<^verbatim>\<open>encoding/json\<close> on the
  structs \<^verbatim>\<open>Schema\<close> and \<^verbatim>\<open>Column\<close>: a nil slice is the empty list and marshals as \<^verbatim>\<open>null\<close>, field names
  match without case, unknown fields are skipped, and a value that does not fit is an error (\<open>None\<close>;
  its text is not modelled).  \<open>catalog_ok\<close> is the invariant of a key-value map that holds tables.
\<close>

section \<open>The JSON of a schema\<close>

definition marshal_column :: "Column \<Rightarrow> json" where
  "marshal_column c = JObj [(''Name'', JStr (col_Name c)), (''Type'', JNum (decimal (unat (col_Type c))))]"

definition marshal_list :: "('a \<Rightarrow> json) \<Rightarrow> 'a list \<Rightarrow> json" where
  "marshal_list f xs = (if xs = [] then JNull else JArr (map f xs))"

definition marshal_schema :: "Schema \<Rightarrow> json" where
  "marshal_schema sc =
     JObj [(''Table'', JStr (sc_Table sc)), (''Cols'', marshal_list marshal_column (sc_Cols sc)),
           (''PKey'', marshal_list (\<lambda>i. JNum (int_decimal i)) (sc_PKey sc))]"

definition unmarshal_string :: "json \<Rightarrow> string \<Rightarrow> string option" where
  "unmarshal_string v s = (case v of JNull \<Rightarrow> Some s | JStr t \<Rightarrow> Some t | _ \<Rightarrow> None)"

definition unmarshal_object :: "(string \<times> json \<Rightarrow> 'a \<Rightarrow> 'a option) \<Rightarrow> json \<Rightarrow> 'a \<Rightarrow> 'a option" where
  "unmarshal_object f v x =
     (case v of
        JNull \<Rightarrow> Some x
      | JObj kvs \<Rightarrow> fold (\<lambda>kv acc. case acc of None \<Rightarrow> None | Some y \<Rightarrow> f kv y) kvs (Some x)
      | _ \<Rightarrow> None)"

primrec unmarshal_elems :: "(json \<Rightarrow> 'a option) \<Rightarrow> json list \<Rightarrow> 'a list option" where
  "unmarshal_elems f [] = Some []"
| "unmarshal_elems f (v # vs) =
     (case (f v, unmarshal_elems f vs) of (Some x, Some xs) \<Rightarrow> Some (x # xs) | _ \<Rightarrow> None)"

definition unmarshal_list :: "(json \<Rightarrow> 'a option) \<Rightarrow> json \<Rightarrow> 'a list option" where
  "unmarshal_list f v = (case v of JNull \<Rightarrow> Some [] | JArr vs \<Rightarrow> unmarshal_elems f vs | _ \<Rightarrow> None)"

definition unmarshal_column_field :: "string \<times> json \<Rightarrow> Column \<Rightarrow> Column option" where
  "unmarshal_column_field = (\<lambda>(k, v) c.
     if field_is ''Name'' k then map_option (\<lambda>s. c\<lparr>col_Name := s\<rparr>) (unmarshal_string v (col_Name c))
     else if field_is ''Type'' k then
       (case v of
          JNull \<Rightarrow> Some c
        | JNum n \<Rightarrow> map_option (\<lambda>i. c\<lparr>col_Type := word_of_nat i\<rparr>) (parse_uint_in 255 n)
        | _ \<Rightarrow> None)
     else Some c)"

definition unmarshal_column :: "json \<Rightarrow> Column option" where
  "unmarshal_column v = unmarshal_object unmarshal_column_field v \<lparr>col_Name = [], col_Type = 0\<rparr>"

definition unmarshal_int :: "json \<Rightarrow> int option" where
  "unmarshal_int v =
     (case v of JNull \<Rightarrow> Some 0 | JNum n \<Rightarrow> parse_int_in (- (2 ^ 63)) (2 ^ 63 - 1) n | _ \<Rightarrow> None)"

definition unmarshal_schema_field :: "string \<times> json \<Rightarrow> Schema \<Rightarrow> Schema option" where
  "unmarshal_schema_field = (\<lambda>(k, v) sc.
     if field_is ''Table'' k then map_option (\<lambda>s. sc\<lparr>sc_Table := s\<rparr>) (unmarshal_string v (sc_Table sc))
     else if field_is ''Cols'' k then map_option (\<lambda>cs. sc\<lparr>sc_Cols := cs\<rparr>) (unmarshal_list unmarshal_column v)
     else if field_is ''PKey'' k then map_option (\<lambda>is. sc\<lparr>sc_PKey := is\<rparr>) (unmarshal_list unmarshal_int v)
     else Some sc)"

definition unmarshal_schema :: "bytes \<Rightarrow> Schema option" where
  "unmarshal_schema b =
     (case json_parse (string_of b) of
        None \<Rightarrow> None
      | Some v \<Rightarrow> unmarshal_object unmarshal_schema_field v \<lparr>sc_Table = [], sc_Cols = [], sc_PKey = []\<rparr>)"

definition schema_blob :: "Schema \<Rightarrow> bytes" where
  "schema_blob sc = bytes_of (json_render (marshal_schema sc))"

definition schemaKeyPrefix :: string where
  "schemaKeyPrefix = ''@schema_''"

definition schema_key :: "string \<Rightarrow> bytes" where
  "schema_key name = bytes_of (schemaKeyPrefix @ name)"

section \<open>A schema reads back\<close>

definition plain_schema :: "Schema \<Rightarrow> bool" where
  "plain_schema sc \<longleftrightarrow> plain (sc_Table sc) \<and> list_all (\<lambda>c. plain (col_Name c)) (sc_Cols sc) \<and>
     list_all (\<lambda>i. - (2 ^ 63) \<le> i \<and> i < 2 ^ 63) (sc_PKey sc)"

lemma field_names [simp]:
  "field_is ''Name'' ''Name''" "\<not> field_is ''Name'' ''Type''" "field_is ''Type'' ''Type''"
  "field_is ''Table'' ''Table''" "\<not> field_is ''Table'' ''Cols''" "field_is ''Cols'' ''Cols''"
  "\<not> field_is ''Table'' ''PKey''" "\<not> field_is ''Cols'' ''PKey''" "field_is ''PKey'' ''PKey''"
  by (simp_all add: field_is_def lower_def byte_val_def)

lemma plain_names [simp]: "plain ''Name''" "plain ''Type''" "plain ''Table''" "plain ''Cols''" "plain ''PKey''"
  by (simp_all add: plain_def html_safe_def byte_val_def)

lemma number_tokens: "number_token (decimal n)" "number_token (int_decimal i)"
  unfolding number_token_def by (metis int_decimal_nat, blast)

lemma plain_json_column: "plain (col_Name c) \<Longrightarrow> plain_json (marshal_column c)"
  by (simp add: marshal_column_def number_tokens)

lemma plain_json_schema: "plain_schema sc \<Longrightarrow> plain_json (marshal_schema sc)"
  by (auto simp: marshal_schema_def marshal_list_def plain_schema_def list_all_iff number_tokens intro!: plain_json_column)

lemma unmarshal_column_correct: "unmarshal_column (marshal_column c) = Some c"
proof -
  have "unat (col_Type c) \<le> 255" using unsigned_less [of "col_Type c", where 'a = nat] by simp
  then show ?thesis
    by (simp add: unmarshal_column_def unmarshal_object_def marshal_column_def unmarshal_column_field_def
        unmarshal_string_def parse_uint_decimal)
qed

lemma unmarshal_elems_map: "list_all (\<lambda>x. f (g x) = Some x) xs \<Longrightarrow> unmarshal_elems f (map g xs) = Some xs"
  by (induction xs) simp_all

lemma unmarshal_list_marshal: "list_all (\<lambda>x. f (g x) = Some x) xs \<Longrightarrow> unmarshal_list f (marshal_list g xs) = Some xs"
  using unmarshal_elems_map [of f g xs] by (auto simp: unmarshal_list_def marshal_list_def)

lemma unmarshal_schema_correct:
  assumes "plain_schema sc"
  shows "unmarshal_schema (schema_blob sc) = Some sc"
proof -
  have "unmarshal_list unmarshal_column (marshal_list marshal_column (sc_Cols sc)) = Some (sc_Cols sc)"
    by (rule unmarshal_list_marshal) (simp add: list_all_iff unmarshal_column_correct)
  moreover have "unmarshal_list unmarshal_int (marshal_list (\<lambda>i. JNum (int_decimal i)) (sc_PKey sc)) = Some (sc_PKey sc)"
    by (rule unmarshal_list_marshal)
      (use assms in \<open>auto simp: list_all_iff plain_schema_def unmarshal_int_def intro!: parse_int_in_decimal\<close>)
  moreover have "json_parse (json_render (marshal_schema sc)) = Some (marshal_schema sc)"
    by (rule json_parse_render [OF plain_json_schema [OF assms]])
  ultimately show ?thesis
    by (simp add: unmarshal_schema_def schema_blob_def marshal_schema_def unmarshal_object_def
        unmarshal_schema_field_def unmarshal_string_def)
qed

section \<open>Maps with a catalog\<close>

definition catalog :: "(bytes \<Rightarrow> bytes option) \<Rightarrow> string \<Rightarrow> Schema option" where
  "catalog m name = (case m (schema_key name) of None \<Rightarrow> None | Some v \<Rightarrow> unmarshal_schema v)"

text \<open>A schema with the columns its primary key names.\<close>

definition schema_wf :: "Schema \<Rightarrow> bool" where
  "schema_wf sc \<longleftrightarrow> schema_ok sc \<and>
     (\<forall>i\<in>set (sc_PKey sc). Schema_ColIndex sc (col_Name (sc_Cols sc ! nat i)) = i)"

abbreviation nul_free :: "string \<Rightarrow> bool" where
  "nul_free s \<equiv> 0 \<notin> set (bytes_of s)"

definition catalog_ok :: "(bytes \<Rightarrow> bytes option) \<Rightarrow> bool" where
  "catalog_ok m \<longleftrightarrow> (\<forall>name v. nul_free name \<longrightarrow> m (schema_key name) = Some v \<longrightarrow>
     (\<exists>sc. unmarshal_schema v = Some sc \<and> sc_Table sc = name \<and> schema_wf sc \<and> table_ok sc m))"

lemma schema_key_inj [simp]: "schema_key a = schema_key b \<longleftrightarrow> a = b"
  by (simp add: schema_key_def)

text \<open>Names without a NUL keep the catalog and the tables apart.\<close>

lemma schema_key_not_in_table: "nul_free name \<Longrightarrow> \<not> in_table sc (schema_key name)"
proof
  assume n: "nul_free name" and "in_table sc (schema_key name)"
  then obtain x where x: "schema_key name = bytes_of (sc_Table sc) @ [0] @ x" by (auto simp: in_table_def table_prefix_def)
  have "0 \<in> set (schema_key name)" unfolding x by simp
  moreover have "nul_free schemaKeyPrefix" by (simp add: schemaKeyPrefix_def bytes_of_def)
  ultimately show False using n by (simp add: schema_key_def bytes_of_def)
qed

lemma catalogD:
  assumes "catalog_ok m" "nul_free name" "catalog m name = Some sc"
  shows "sc_Table sc = name" "schema_wf sc" "schema_ok sc" "table_ok sc m"
proof -
  obtain v where v: "m (schema_key name) = Some v" "unmarshal_schema v = Some sc"
    using assms(3) by (auto simp: catalog_def split: option.splits)
  then show "sc_Table sc = name" "schema_wf sc" "table_ok sc m" using assms(1,2) unfolding catalog_ok_def by fastforce+
  then show "schema_ok sc" by (simp add: schema_wf_def)
qed

lemma catalog_entry:
  assumes "catalog_ok m" "nul_free name"
  shows "catalog m name = None \<longleftrightarrow> m (schema_key name) = None"
  using assms unfolding catalog_ok_def by (fastforce simp: catalog_def split: option.splits)

text \<open>A write to one table keeps the catalog and the other tables.\<close>

lemma catalog_kept:
  assumes m: "catalog_ok m" and sc: "schema_ok sc" and keep: "others_kept sc m m'" and t: "table_ok sc m'"
    and one: "\<And>name sc'. nul_free name \<Longrightarrow> catalog m name = Some sc' \<Longrightarrow> sc_Table sc' = sc_Table sc \<Longrightarrow> sc' = sc"
  shows "catalog_ok m'" "nul_free name \<Longrightarrow> catalog m' name = catalog m name"
proof -
  have key: "m' (schema_key n) = m (schema_key n)" if "nul_free n" for n
    using keep schema_key_not_in_table [OF that, of sc] by (simp add: others_kept_def)
  then show "catalog m' name = catalog m name" if "nul_free name" using that by (simp add: catalog_def)
  show "catalog_ok m'"
    unfolding catalog_ok_def
  proof (intro allI impI)
    fix n v assume n: "nul_free n" "m' (schema_key n) = Some v"
    then obtain sc' where sc': "unmarshal_schema v = Some sc'" "sc_Table sc' = n" "schema_wf sc'" "table_ok sc' m"
      using m key [OF n(1)] unfolding catalog_ok_def by auto
    then have cat: "catalog m n = Some sc'" using n key [OF n(1)] by (simp add: catalog_def)
    have "table_ok sc' m'"
    proof (cases "sc_Table sc' = sc_Table sc")
      case True
      then show ?thesis using one [OF n(1) cat] t by simp
    next
      case False
      then show ?thesis
        using others_kept_table(2) [OF sc _ _ keep, of sc'] sc'(3,4) by (simp add: schema_wf_def)
    qed
    then show "\<exists>sc. unmarshal_schema v = Some sc \<and> sc_Table sc = n \<and> schema_wf sc \<and> table_ok sc m'" using sc' by blast
  qed
qed

lemma catalog_one:
  assumes "catalog_ok m" "nul_free name" "catalog m name = Some sc" "nul_free n" "catalog m n = Some sc'"
    and "sc_Table sc' = sc_Table sc"
  shows "sc' = sc"
  using catalogD(1) [OF assms(1-3)] catalogD(1) [OF assms(1,4,5)] assms by simp

text \<open>A new schema in the catalog: its table is empty.\<close>

lemma catalog_new:
  assumes m: "catalog_ok m" and name: "nul_free (sc_Table sc)" "m (schema_key (sc_Table sc)) = None"
    and sc: "schema_wf sc" "plain_schema sc" and empty: "\<And>k. in_table sc k \<Longrightarrow> m k = None"
  defines "m' \<equiv> m(schema_key (sc_Table sc) \<mapsto> schema_blob sc)"
  shows "catalog_ok m'" "catalog m' = (catalog m)(sc_Table sc \<mapsto> sc)" "table_rows sc m' = {}"
proof -
  have blob: "unmarshal_schema (schema_blob sc) = Some sc" by (rule unmarshal_schema_correct [OF sc(2)])
  have same: "m' k = m k" if "in_table sc' k" for sc' k
    using that schema_key_not_in_table [OF name(1), of sc'] by (auto simp: m'_def)
  have t: "table_ok sc' m' = table_ok sc' m" for sc' by (auto simp: table_ok_def same)
  have "table_ok sc m" using empty by (auto simp: table_ok_def)
  show "catalog_ok m'"
    unfolding catalog_ok_def t
  proof (intro allI impI)
    fix n v assume n: "nul_free n" "m' (schema_key n) = Some v"
    show "\<exists>sc. unmarshal_schema v = Some sc \<and> sc_Table sc = n \<and> schema_wf sc \<and> table_ok sc m"
    proof (cases "n = sc_Table sc")
      case True
      then show ?thesis using n(2) blob sc(1) \<open>table_ok sc m\<close> by (auto simp: m'_def)
    next
      case False
      then have "m (schema_key n) = Some v" using n(2) by (simp add: m'_def)
      then show ?thesis using m n(1) unfolding catalog_ok_def by blast
    qed
  qed
  show "catalog m' = (catalog m)(sc_Table sc \<mapsto> sc)"
    by (rule ext) (simp add: catalog_def m'_def blob)
  have "schema_ok sc" using sc(1) by (simp add: schema_wf_def)
  then show "table_rows sc m' = {}"
    using stored_in_table [of sc] empty same by (fastforce simp: table_rows_def)
qed

text \<open>Every pair is a catalog entry or belongs to a table of the catalog.\<close>

definition database_ok :: "(bytes \<Rightarrow> bytes option) \<Rightarrow> bool" where
  "database_ok m \<longleftrightarrow> catalog_ok m \<and> (\<forall>k. m k \<noteq> None \<longrightarrow>
     (\<exists>name sc. nul_free name \<and> catalog m name = Some sc \<and> (k = schema_key name \<or> in_table sc k)))"

lemma database_ok_empty [simp]: "database_ok Map.empty"
  by (simp add: database_ok_def catalog_ok_def)

lemma database_kept:
  assumes m: "database_ok m" and name: "nul_free name" "catalog m name = Some sc"
    and keep: "others_kept sc m m'" and t: "table_ok sc m'"
  shows "database_ok m'" "nul_free n \<Longrightarrow> catalog m' n = catalog m n"
proof -
  have c: "catalog_ok m" using m by (simp add: database_ok_def)
  note scd = catalogD [OF c name]
  have one: "nul_free n \<Longrightarrow> catalog m n = Some sc' \<Longrightarrow> sc_Table sc' = sc_Table sc \<Longrightarrow> sc' = sc" for n sc'
    by (rule catalog_one [OF c name])
  note kept = catalog_kept [OF c scd(3) keep t one]
  show same: "catalog m' n = catalog m n" if "nul_free n" for n by (rule kept(2) [OF _ _ _ that])
  have "\<exists>n sc'. nul_free n \<and> catalog m' n = Some sc' \<and> (k = schema_key n \<or> in_table sc' k)" if "m' k \<noteq> None" for k
  proof (cases "in_table sc k")
    case True
    then show ?thesis using name same by auto
  next
    case False
    then have "m k \<noteq> None" using keep that by (simp add: others_kept_def)
    then show ?thesis using m same unfolding database_ok_def by metis
  qed
  then show "database_ok m'" using kept(1) by (simp add: database_ok_def)
qed

lemma database_no_table:
  assumes m: "database_ok m" and sc: "schema_ok sc" and none: "catalog m (sc_Table sc) = None" and k: "in_table sc k"
  shows "m k = None"
proof (rule ccontr)
  assume "m k \<noteq> None"
  then obtain n sc' where n: "nul_free n" "catalog m n = Some sc'" "k = schema_key n \<or> in_table sc' k"
    using m unfolding database_ok_def by blast
  have c: "catalog_ok m" using m by (simp add: database_ok_def)
  have "in_table sc' k" using n(3) schema_key_not_in_table [OF n(1), of sc] k by auto
  then have "sc_Table sc' = sc_Table sc"
    using in_table_other [OF sc catalogD(3) [OF c n(1,2)], of k] k by metis
  then show False using catalogD(1) [OF c n(1,2)] n(2) none by simp
qed

lemma database_new:
  assumes m: "database_ok m" and sc: "schema_wf sc" "plain_schema sc" and none: "catalog m (sc_Table sc) = None"
  defines "m' \<equiv> m(schema_key (sc_Table sc) \<mapsto> schema_blob sc)"
  shows "database_ok m'" "catalog m' = (catalog m)(sc_Table sc \<mapsto> sc)" "table_rows sc m' = {}"
proof -
  have c: "catalog_ok m" and ok: "schema_ok sc" using m sc(1) by (simp_all add: database_ok_def schema_wf_def)
  then have name: "nul_free (sc_Table sc)" by (simp add: schema_ok_def)
  then have "m (schema_key (sc_Table sc)) = None" using catalog_entry [OF c name] none by simp
  note new = catalog_new [OF c name this sc database_no_table [OF m ok none], folded m'_def]
  show "catalog m' = (catalog m)(sc_Table sc \<mapsto> sc)" "table_rows sc m' = {}" using new(2,3) by simp_all
  have "\<exists>n sc'. nul_free n \<and> catalog m' n = Some sc' \<and> (k = schema_key n \<or> in_table sc' k)" if k: "m' k \<noteq> None" for k
  proof (cases "k = schema_key (sc_Table sc)")
    case True
    then show ?thesis using name new(2) by auto
  next
    case False
    then have "m k \<noteq> None" using k by (simp add: m'_def)
    then obtain n sc' where "nul_free n" "catalog m n = Some sc'" "k = schema_key n \<or> in_table sc' k"
      using m unfolding database_ok_def by blast
    then show ?thesis using new(2) none by (auto intro!: exI [of _ n] exI [of _ sc'])
  qed
  then show "database_ok m'" using new(1) by (simp add: database_ok_def)
qed

text \<open>The other tables do not see a catalog entry.\<close>

lemma table_rows_catalog:
  assumes "nul_free name" "schema_ok sc"
  shows "table_rows sc (m(schema_key name \<mapsto> v)) = table_rows sc m"
proof -
  have "k \<noteq> schema_key name" if "stored sc r k w" for r k w
    using schema_key_not_in_table [OF assms(1)] stored_in_table [OF assms(2) that] by blast
  then show ?thesis unfolding table_rows_def fun_upd_apply by (metis (no_types, lifting))
qed

end
