(* ===== verification/Engine.thy ===== *)
theory Engine
  imports Catalog
begin

text \<open>
  \<^verbatim>\<open>sql/engine.go\<close>: statements against the catalog and the tables.  An engine operation is a state
  transformer on the engine and the disk; \<open>None\<close> is a panic or a loop without end.  A statement
  returns its result and, beside it, an optional error, as the Go method does: a \<^verbatim>\<open>DELETE\<close> that
  fails half way reports the rows it has deleted.  \<^verbatim>\<open>SELECT\<close> and \<^verbatim>\<open>matchingRows\<close> walk the iterator
  in the same loop, which drops the error of \<^verbatim>\<open>it.Next()\<close>.
\<close>

record Engine =
  eng_DB :: kv
  eng_tables :: "string \<Rightarrow> Schema option"

type_synonym estate = "Engine \<times> disk"

definition NewEngine :: "kv \<Rightarrow> Engine" where
  "NewEngine db = \<lparr>eng_DB = db, eng_tables = Map.empty\<rparr>"

definition Engine_Open :: "(estate, unit) st" where
  "Engine_Open = (\<lambda>(e, d).
     let e1 = e\<lparr>eng_tables := Map.empty\<rparr> in
     case DB_Open (eng_DB e1) d of None \<Rightarrow> None | Some (r, db, d') \<Rightarrow> Some (r, e1\<lparr>eng_DB := db\<rparr>, d'))"

definition Engine_Close :: "Engine \<Rightarrow> unit res" where
  "Engine_Close e = DB_Close (eng_DB e)"

record SQLResult =
  Updated :: nat
  Header :: "string list"
  Values :: "Row list"

definition zero_result :: SQLResult where
  "zero_result = \<lparr>Updated = 0, Header = [], Values = []\<rparr>"

text \<open>The write operations of the table layer, run on the engine's store.\<close>

definition on_db :: "(kv \<Rightarrow> disk \<Rightarrow> ('a res \<times> kv \<times> disk) option) \<Rightarrow> (estate, 'a) st" where
  "on_db f = (\<lambda>(e, d). case f (eng_DB e) d of None \<Rightarrow> None | Some (r, db, d') \<Rightarrow> Some (r, e\<lparr>eng_DB := db\<rparr>, d'))"

text \<open>A call that only reads.\<close>

definition reading :: "'a go \<Rightarrow> (estate, 'a) st" where
  "reading r s = (case r of None \<Rightarrow> None | Some x \<Rightarrow> Some (x, s))"

definition st_fail :: "gerror \<Rightarrow> ('s, 'a) st" where
  "st_fail e s = Some (Inl e, s)"

section \<open>The catalog\<close>

definition GetSchema :: "string \<Rightarrow> (estate, Schema) st" where
  "GetSchema name = (\<lambda>(e, d).
     case eng_tables e name of
       Some sc \<Rightarrow> Some (Inr sc, e, d)
     | None \<Rightarrow>
         (case KV_Get (eng_DB e) (schema_key name) of
            None \<Rightarrow> None
          | Some (Inl err) \<Rightarrow> Some (Inl err, e, d)
          | Some (Inr None) \<Rightarrow> Some (Inl (Errorf ''table %q is not found'' name), e, d)
          | Some (Inr (Some val)) \<Rightarrow>
              (case unmarshal_schema val of
                 None \<Rightarrow> Some (Inl (ErrMsg ''json: cannot unmarshal''), e, d)
               | Some sc \<Rightarrow> Some (Inr sc, e\<lparr>eng_tables := (eng_tables e)(name \<mapsto> sc)\<rparr>, d))))"

primrec create_pkey :: "Schema \<Rightarrow> string list \<Rightarrow> Schema res" where
  "create_pkey sc [] = Inr sc"
| "create_pkey sc (name # names) =
     (let idx = Schema_ColIndex sc name in
      if idx < 0 then Inl (Errorf ''primary key column %q is not a column'' name)
      else create_pkey (sc\<lparr>sc_PKey := sc_PKey sc @ [idx]\<rparr>) names)"

definition execCreateTable :: "StmtCreatTable \<Rightarrow> (estate, unit) st" where
  "execCreateTable s = (\<lambda>(e, d).
     case KV_Get (eng_DB e) (schema_key (ct_table s)) of
       None \<Rightarrow> None
     | Some (Inr (Some _)) \<Rightarrow> Some (Inl (Errorf ''table %q already exists'' (ct_table s)), e, d)
     | Some _ \<Rightarrow>
         (case create_pkey \<lparr>sc_Table = ct_table s, sc_Cols = ct_cols s, sc_PKey = []\<rparr> (ct_pkey s) of
            Inl err \<Rightarrow> Some (Inl err, e, d)
          | Inr sc \<Rightarrow>
              (case KV_Set (eng_DB e) (schema_key (ct_table s)) (schema_blob sc) d of
                 None \<Rightarrow> None
               | Some (Inl err, db, d') \<Rightarrow> Some (Inl err, e\<lparr>eng_DB := db\<rparr>, d')
               | Some (Inr _, db, d') \<Rightarrow>
                   Some (Inr (), e\<lparr>eng_DB := db, eng_tables := (eng_tables e)(ct_table s \<mapsto> sc)\<rparr>, d'))))"

section \<open>Output expressions\<close>

primrec checkExprCols :: "Schema \<Rightarrow> expr \<Rightarrow> unit res" where
  "checkExprCols sc (EName ex) =
     (if Schema_ColIndex sc ex < 0 then Inl (Errorf ''no such column %q'' ex) else Inr ())"
| "checkExprCols sc (ECell c) = Inr ()"
| "checkExprCols sc (EBinOp op l r) = res_bind (checkExprCols sc l) (\<lambda>_. checkExprCols sc r)"
| "checkExprCols sc (EUnOp op e) = checkExprCols sc e"
| "checkExprCols sc (ETuple kids) = Inr ()"

definition exprLabel :: "expr \<Rightarrow> nat \<Rightarrow> string" where
  "exprLabel ex i = (case ex of EName name \<Rightarrow> name | _ \<Rightarrow> ''col'' @ decimal (i + 1))"

primrec projectRow :: "Schema \<Rightarrow> expr list \<Rightarrow> Row \<Rightarrow> Row go" where
  "projectRow sc [] full = Some (Inr [])"
| "projectRow sc (ex # exprs) full =
     go_bind (evalExpr sc full ex) (\<lambda>c. go_bind (projectRow sc exprs full) (\<lambda>cs. Some (Inr (c # cs))))"

section \<open>Reading statements\<close>

partial_function (option) collect_rows :: "(Row \<Rightarrow> 'a go) \<Rightarrow> sql_rows \<Rightarrow> 'a list \<Rightarrow> 'a list go" where
  [code]: "collect_rows f it rows =
     (if \<not> RowIterator_Valid it then Some (Inr rows)
      else (case f (RowIterator_Row it) of
          None \<Rightarrow> None
        | Some (Inl e) \<Rightarrow> Some (Inl e)
        | Some (Inr x) \<Rightarrow>
            (case RowIterator_Next table_range_src it of
               None \<Rightarrow> None
             | Some (_, it') \<Rightarrow> collect_rows f it' (rows @ [x]))))"

primrec select_header :: "Schema \<Rightarrow> expr list \<Rightarrow> nat \<Rightarrow> string list res" where
  "select_header sc [] i = Inr []"
| "select_header sc (ex # exprs) i =
     res_bind (checkExprCols sc ex) (\<lambda>_. res_bind (select_header sc exprs (i + 1)) (\<lambda>hs. Inr (exprLabel ex i # hs)))"

definition execSelect :: "StmtSelect \<Rightarrow> (estate, string list \<times> Row list) st" where
  "execSelect s =
     st_bind (GetSchema (sel_table s)) (\<lambda>sc (e, d).
       reading (go_bind (Some (select_header sc (sel_cols s) 0)) (\<lambda>header.
         go_bind (execCond (eng_DB e) sc (sel_cond s)) (\<lambda>it.
           go_bind (collect_rows (projectRow sc (sel_cols s)) it []) (\<lambda>rows.
             Some (Inr (header, rows)))))) (e, d))"

definition matchingRows :: "kv \<Rightarrow> Schema \<Rightarrow> expr option \<Rightarrow> Row list go" where
  "matchingRows db sc cond =
     go_bind (execCond db sc cond) (\<lambda>it. collect_rows (\<lambda>row. Some (Inr row)) it [])"

section \<open>Writing statements\<close>

definition insert_row :: "Schema \<Rightarrow> Cell list \<Rightarrow> Row" where
  "insert_row sc vals = map2 (\<lambda>v c. v\<lparr>c_Type := col_Type c\<rparr>) vals (sc_Cols sc)"

definition execInsert :: "StmtInsert \<Rightarrow> (estate, nat) st" where
  "execInsert s =
     st_bind (GetSchema (ins_table s)) (\<lambda>sc.
       if length (ins_value s) \<noteq> length (sc_Cols sc)
       then st_fail (Errorf ''INSERT has %d values, table has %d columns''
         (decimal (length (ins_value s)) @ '' '' @ decimal (length (sc_Cols sc))))
       else st_bind (on_db (\<lambda>db d. DB_Insert db sc (insert_row sc (ins_value s)) d)) (\<lambda>ok.
         if ok then st_ret 1 else st_fail (ErrMsg ''duplicate primary key'')))"

primrec update_idxs :: "Schema \<Rightarrow> ExprAssign list \<Rightarrow> int list res" where
  "update_idxs sc [] = Inr []"
| "update_idxs sc (asn # asns) =
     (let idx = Schema_ColIndex sc (asn_column asn) in
      if idx < 0 then Inl (Errorf ''no such column %q'' (asn_column asn))
      else if Schema_IsPKey sc idx then Inl (ErrMsg ''UPDATE cannot change a primary key column'')
      else res_bind (update_idxs sc asns) (\<lambda>idxs. Inr (idx # idxs)))"

text \<open>The new values of a row, all computed on the old one.\<close>

fun update_vals :: "Schema \<Rightarrow> ExprAssign list \<Rightarrow> int list \<Rightarrow> Row \<Rightarrow> Cell list go" where
  "update_vals sc (asn # asns) (idx # idxs) row =
     go_bind (evalExpr sc row (asn_expr asn)) (\<lambda>c.
       (case schema_col sc idx of
          None \<Rightarrow> None
        | Some col \<Rightarrow>
            if c_Type c \<noteq> col_Type col then Some (Inl (Errorf ''type mismatch assigning to %q'' (asn_column asn)))
            else go_bind (update_vals sc asns idxs row) (\<lambda>cs. Some (Inr (c # cs)))))"
| "update_vals sc _ _ row = Some (Inr [])"

fun assign_cells :: "Row \<Rightarrow> int list \<Rightarrow> Cell list \<Rightarrow> Row option" where
  "assign_cells row (idx # idxs) (c # cs) =
     (if 0 \<le> idx \<and> idx < int (length row) then assign_cells (row[nat idx := c]) idxs cs else None)"
| "assign_cells row _ _ = Some row"

definition update_row :: "Schema \<Rightarrow> ExprAssign list \<Rightarrow> int list \<Rightarrow> Row \<Rightarrow> Row go" where
  "update_row sc asns idxs row =
     go_bind (update_vals sc asns idxs row) (\<lambda>cs. map_option Inr (assign_cells row idxs cs))"

primrec update_loop :: "Schema \<Rightarrow> ExprAssign list \<Rightarrow> int list \<Rightarrow> Row list \<Rightarrow> (estate, unit) st" where
  "update_loop sc asns idxs [] = st_ret ()"
| "update_loop sc asns idxs (row # rows) =
     st_bind (reading (update_row sc asns idxs row)) (\<lambda>row'.
       st_bind (on_db (\<lambda>db d. DB_Update db sc row' d)) (\<lambda>_. update_loop sc asns idxs rows))"

definition execUpdate :: "StmtUpdate \<Rightarrow> (estate, nat) st" where
  "execUpdate s =
     st_bind (GetSchema (upd_table s)) (\<lambda>sc.
       case update_idxs sc (upd_value s) of
         Inl err \<Rightarrow> st_fail err
       | Inr idxs \<Rightarrow>
           (\<lambda>(e, d). st_bind (reading (matchingRows (eng_DB e) sc (upd_cond s))) (\<lambda>rows.
             st_bind (update_loop sc (upd_value s) idxs rows) (\<lambda>_. st_ret (length rows))) (e, d)))"

text \<open>\<^verbatim>\<open>DELETE\<close> counts what it has deleted also when it fails.\<close>

primrec delete_loop :: "Schema \<Rightarrow> Row list \<Rightarrow> nat \<Rightarrow> estate \<Rightarrow> ((nat \<times> gerror option) \<times> estate) option" where
  "delete_loop sc [] n s = Some ((n, None), s)"
| "delete_loop sc (row # rows) n s =
     (case on_db (\<lambda>db d. DB_Delete db sc row d) s of
        None \<Rightarrow> None
      | Some (Inl err, s') \<Rightarrow> Some ((n, Some err), s')
      | Some (Inr ok, s') \<Rightarrow> delete_loop sc rows (if ok then n + 1 else n) s')"

definition execDelete :: "StmtDelete \<Rightarrow> estate \<Rightarrow> ((nat \<times> gerror option) \<times> estate) option" where
  "execDelete s es =
     (case GetSchema (del_table s) es of
        None \<Rightarrow> None
      | Some (Inl err, es') \<Rightarrow> Some ((0, Some err), es')
      | Some (Inr sc, es') \<Rightarrow>
          (case matchingRows (eng_DB (fst es')) sc (del_cond s) of
             None \<Rightarrow> None
           | Some (Inl err) \<Rightarrow> Some ((0, Some err), es')
           | Some (Inr rows) \<Rightarrow> delete_loop sc rows 0 es'))"

section \<open>Statements\<close>

definition stmt_result :: "('a \<Rightarrow> SQLResult) \<Rightarrow> ('a res \<times> estate) option \<Rightarrow> ((SQLResult \<times> gerror option) \<times> estate) option" where
  "stmt_result f r =
     (case r of
        None \<Rightarrow> None
      | Some (Inl err, s) \<Rightarrow> Some ((zero_result, Some err), s)
      | Some (Inr x, s) \<Rightarrow> Some ((f x, None), s))"

definition ExecStmt :: "stmt \<Rightarrow> estate \<Rightarrow> ((SQLResult \<times> gerror option) \<times> estate) option" where
  "ExecStmt st s =
     (case st of
        CreatTable c \<Rightarrow> stmt_result (\<lambda>_. zero_result) (execCreateTable c s)
      | Select c \<Rightarrow> stmt_result (\<lambda>(header, rows). zero_result\<lparr>Header := header, Values := rows\<rparr>) (execSelect c s)
      | Insert c \<Rightarrow> stmt_result (\<lambda>n. zero_result\<lparr>Updated := n\<rparr>) (execInsert c s)
      | Update c \<Rightarrow> stmt_result (\<lambda>n. zero_result\<lparr>Updated := n\<rparr>) (execUpdate c s)
      | Delete c \<Rightarrow>
          (case execDelete c s of
             None \<Rightarrow> None
           | Some ((n, err), s') \<Rightarrow> Some ((zero_result\<lparr>Updated := n\<rparr>, err), s')))"

definition Exec :: "string \<Rightarrow> estate \<Rightarrow> ((SQLResult \<times> gerror option) \<times> estate) option" where
  "Exec sql s =
     (case ParseStmt sql of
        None \<Rightarrow> None
      | Some (Inl err) \<Rightarrow> Some ((zero_result, Some err), s)
      | Some (Inr st) \<Rightarrow> ExecStmt st s)"

end
