(* ===== verification/Statements.thy ===== *)
theory Statements
  imports Engine
begin

text \<open>
  What the statements do to tables seen as sets of rows.  \<open>engine_ok\<close> is the invariant of an engine:
  its store is well formed, every pair in it is a catalog entry or a row of a table of the catalog,
  and the cached schemas are those of the catalog.
\<close>

abbreviation eng_view :: "Engine \<Rightarrow> bytes \<Rightarrow> bytes option" where
  "eng_view e \<equiv> kv_view (eng_DB e)"

definition engine_ok :: "Engine \<Rightarrow> bool" where
  "engine_ok e \<longleftrightarrow> kv_ok (eng_DB e) \<and> database_ok (eng_view e) \<and>
     (\<forall>name sc. eng_tables e name = Some sc \<longrightarrow> nul_free name \<and> catalog (eng_view e) name = Some sc)"

lemma engine_okD:
  assumes "engine_ok e"
  shows "kv_ok (eng_DB e)" "database_ok (eng_view e)" "catalog_ok (eng_view e)"
  using assms by (simp_all add: engine_ok_def database_ok_def)

section \<open>Looking up a schema\<close>

lemma GetSchema_correct:
  assumes e: "engine_ok e" and name: "nul_free name"
  shows "\<exists>r e'. GetSchema name (e, d) = Some (r, e', d) \<and> engine_ok e' \<and> eng_DB e' = eng_DB e \<and>
    (case catalog (eng_view e) name of
       None \<Rightarrow> e' = e \<and> r = Inl (Errorf ''table %q is not found'' name)
     | Some sc \<Rightarrow> r = Inr sc)"
proof (cases "eng_tables e name")
  case None
  note ok = engine_okD [OF e]
  have get: "KV_Get (eng_DB e) (schema_key name) = Some (Inr (eng_view e (schema_key name)))"
    by (rule KV_Get_view [OF ok(1)])
  show ?thesis
  proof (cases "catalog (eng_view e) name")
    case no: None
    then have "eng_view e (schema_key name) = None" using catalog_entry [OF ok(3) name] by simp
    then show ?thesis using None get no e by (simp add: GetSchema_def)
  next
    case (Some sc)
    then obtain v where v: "eng_view e (schema_key name) = Some v" "unmarshal_schema v = Some sc"
      by (auto simp: catalog_def split: option.splits)
    let ?e = "e\<lparr>eng_tables := (eng_tables e)(name \<mapsto> sc)\<rparr>"
    have "engine_ok ?e" using e Some name by (simp add: engine_ok_def)
    then show ?thesis using None get v Some by (simp add: GetSchema_def)
  qed
next
  case (Some sc)
  then have "catalog (eng_view e) name = Some sc" using e by (simp add: engine_ok_def)
  then show ?thesis using Some e by (simp add: GetSchema_def)
qed

text \<open>The table of a statement.\<close>

lemma GetSchema_found:
  assumes e: "engine_ok e" and name: "nul_free name" and sc: "catalog (eng_view e) name = Some sc"
  shows "\<exists>e'. GetSchema name (e, d) = Some (Inr sc, e', d) \<and> engine_ok e' \<and> eng_DB e' = eng_DB e"
  using GetSchema_correct [OF e name, of d] sc by auto

lemma engine_table:
  assumes "engine_ok e" "nul_free name" "catalog (eng_view e) name = Some sc"
  shows "kv_ok (eng_DB e)" "schema_wf sc" "schema_ok sc" "table_ok sc (eng_view e)" "sc_Table sc = name"
  using engine_okD [OF assms(1)] catalogD [OF engine_okD(3) [OF assms(1)] assms(2,3)] by simp_all

lemma engine_kept:
  assumes e: "engine_ok e" and name: "nul_free name" "catalog (eng_view e) name = Some sc"
    and db: "kv_ok db" "table_ok sc (kv_view db)" "others_kept sc (eng_view e) (kv_view db)"
  shows "engine_ok (e\<lparr>eng_DB := db\<rparr>)"
proof -
  note kept = database_kept [OF engine_okD(2) [OF e] name db(3,2)]
  have "nul_free n \<and> catalog (kv_view db) n = Some s" if "eng_tables e n = Some s" for n s
    using e that kept(2) by (simp add: engine_ok_def)
  then show ?thesis using kept(1) db(1) by (simp add: engine_ok_def)
qed

section \<open>Reading rows\<close>

primrec map_go :: "('a \<Rightarrow> 'b go) \<Rightarrow> 'a list \<Rightarrow> 'b list go" where
  "map_go f [] = Some (Inr [])"
| "map_go f (x # xs) = go_bind (f x) (\<lambda>y. go_bind (map_go f xs) (\<lambda>ys. Some (Inr (y # ys))))"

lemma map_go_pure [simp]: "map_go (\<lambda>x. Some (Inr (g x))) xs = Some (Inr (map g xs))"
  by (induction xs) simp_all

lemma map_go_total: "(\<And>x. x \<in> set xs \<Longrightarrow> \<exists>r. f x = Some r) \<Longrightarrow> \<exists>r. map_go f xs = Some r"
proof (induction xs)
  case (Cons x xs)
  then show ?case unfolding map_go.simps by (intro go_bind_total) simp_all
qed simp

lemma read_rows_Nil:
  assumes "\<forall>n. read_rows src n it = Some (Inr [])"
  shows "\<not> RowIterator_Valid it"
  using assms [rule_format, of "Suc 0"] by (auto split: if_splits option.splits sum.splits prod.splits)

lemma read_rows_Cons:
  assumes "\<forall>n. read_rows src n it = Some (Inr (take n (r # rs)))"
  shows "RowIterator_Valid it \<and> RowIterator_Row it = r \<and>
    (\<exists>it'. RowIterator_Next src it = Some (Inr (), it') \<and> (\<forall>n. read_rows src n it' = Some (Inr (take n rs))))"
proof -
  have v: "RowIterator_Valid it" using assms [rule_format, of "Suc 0"] by (auto split: if_splits)
  have step: "\<exists>it' xs. RowIterator_Next src it = Some (Inr (), it') \<and> read_rows src n it' = Some (Inr xs) \<and>
      RowIterator_Row it # xs = r # take n rs" for n
    using assms [rule_format, of "Suc n"] v
    by (auto simp: go_bind_def split: option.splits sum.splits prod.splits)
  obtain it' where it': "RowIterator_Next src it = Some (Inr (), it')" using step by blast
  have "read_rows src n it' = Some (Inr (take n rs))" for n using step [of n] it' by auto
  then show ?thesis using v it' step by blast
qed

lemma collect_rows_all:
  "\<forall>n. read_rows table_range_src n it = Some (Inr (take n rows)) \<Longrightarrow>
   collect_rows f it acc = go_bind (map_go f rows) (\<lambda>xs. Some (Inr (acc @ xs)))"
proof (induction rows arbitrary: it acc)
  case Nil
  then have "\<not> RowIterator_Valid it" using read_rows_Nil [of table_range_src it] by simp
  then show ?case by (simp add: collect_rows.simps)
next
  case (Cons r rs)
  obtain it' where it': "RowIterator_Valid it" "RowIterator_Row it = r" "RowIterator_Next table_range_src it = Some (Inr (), it')"
    "\<forall>n. read_rows table_range_src n it' = Some (Inr (take n rs))"
    using read_rows_Cons [OF Cons.prems] by blast
  show ?case
  proof (cases "\<exists>x. f r = Some (Inr x)")
    case True
    then obtain x where x: "f r = Some (Inr x)" by blast
    have "collect_rows f it acc = collect_rows f it' (acc @ [x])"
      using it'(1-3) x by (simp add: collect_rows.simps)
    then show ?thesis using Cons.IH [OF it'(4), of "acc @ [x]"] x by (cases "map_go f rs") (auto simp: go_bind_def split: sum.split)
  next
    case False
    then show ?thesis using it'(1,2) by (subst collect_rows.simps) (auto simp: go_bind_def split: option.split sum.split)
  qed
qed

text \<open>\<open>selection\<close>: the rows a condition selects, in primary-key order.\<close>

definition selection :: "Schema \<Rightarrow> (bytes \<Rightarrow> bytes option) \<Rightarrow> expr option \<Rightarrow> Row list \<Rightarrow> bool" where
  "selection sc m cond rows \<longleftrightarrow>
     sorted_wrt (\<lambda>r s. pkey_vals sc r < pkey_vals sc s) rows \<and>
     set rows = {row \<in> table_rows sc m. selects sc cond row}"

lemma sorted_rows_distinct: "sorted_wrt (\<lambda>r s. pkey_vals sc r < pkey_vals sc s) rows \<Longrightarrow> distinct rows"
  by (induction rows) auto

lemma selection_distinct: "selection sc m cond rows \<Longrightarrow> distinct rows"
  unfolding selection_def using sorted_rows_distinct by blast

lemma execCond_rows:
  assumes ok: "kv_ok db" and sc: "schema_ok sc" and t: "table_ok sc (kv_view db)"
  shows "(\<exists>err. makeRange sc cond = Some (Inl err) \<and> execCond db sc cond = Some (Inl err)) \<or>
    (\<exists>req it rows. makeRange sc cond = Some (Inr req) \<and> execCond db sc cond = Some (Inr it) \<and> selection sc (kv_view db) cond rows \<and>
       (\<forall>n. read_rows table_range_src n it = Some (Inr (take n rows))))"
proof -
  obtain r where r: "makeRange sc cond = Some r" using makeRange_total [OF sc] by blast
  show ?thesis
  proof (cases r)
    case (Inl err)
    then show ?thesis using r by (simp add: execCond_def)
  next
    case (Inr req)
    then show ?thesis
      using execCond_correct [OF ok sc t, of cond req] r unfolding selection_def by blast
  qed
qed

lemma matchingRows_correct:
  assumes "kv_ok db" "schema_ok sc" "table_ok sc (kv_view db)"
  shows "(\<exists>err. makeRange sc cond = Some (Inl err) \<and> matchingRows db sc cond = Some (Inl err)) \<or>
    (\<exists>rows. matchingRows db sc cond = Some (Inr rows) \<and> selection sc (kv_view db) cond rows)"
  using execCond_rows [OF assms, of cond]
proof (elim disjE exE conjE)
  fix req it rows
  assume it: "execCond db sc cond = Some (Inr it)" "selection sc (kv_view db) cond rows"
    and all: "\<forall>n. read_rows table_range_src n it = Some (Inr (take n rows))"
  then have "matchingRows db sc cond = Some (Inr rows)" by (simp add: matchingRows_def collect_rows_all [OF all])
  with it(2) show ?thesis by blast
qed (simp add: matchingRows_def)

section \<open>Output lists\<close>

text \<open>The columns an output expression reads, from left to right, and the ones the table does not have.
  A tuple is no output: the evaluator rejects it.\<close>

primrec expr_names :: "expr \<Rightarrow> string list" where
  "expr_names (EName name) = [name]"
| "expr_names (ECell c) = []"
| "expr_names (EBinOp op l r) = expr_names l @ expr_names r"
| "expr_names (EUnOp op e) = expr_names e"
| "expr_names (ETuple kids) = []"

definition unknown_names :: "Schema \<Rightarrow> expr list \<Rightarrow> string list" where
  "unknown_names sc cols = filter (\<lambda>n. n \<notin> col_Name ` set (sc_Cols sc)) (concat (map expr_names cols))"

text \<open>The header: the name of a column, or the position of any other expression, from 1.\<close>

definition output_header :: "expr list \<Rightarrow> string list" where
  "output_header cols =
     map (\<lambda>i. case cols ! i of EName name \<Rightarrow> name | _ \<Rightarrow> ''col'' @ decimal (i + 1)) [0..<length cols]"

lemma checkExprCols_correct:
  "checkExprCols sc ex = (case unknown_names sc [ex] of [] \<Rightarrow> Inr () | n # _ \<Rightarrow> Inl (Errorf ''no such column %q'' n))"
  by (induction ex) (auto simp: unknown_names_def Schema_ColIndex_miss split: list.splits)

lemma unknown_names_Cons: "unknown_names sc (ex # cols) = unknown_names sc [ex] @ unknown_names sc cols"
  by (simp add: unknown_names_def)

lemma select_header_from:
  "select_header sc cols i =
     (case unknown_names sc cols of
        [] \<Rightarrow> Inr (map (\<lambda>j. exprLabel (cols ! j) (i + j)) [0..<length cols])
      | n # _ \<Rightarrow> Inl (Errorf ''no such column %q'' n))"
proof (induction cols arbitrary: i)
  case (Cons ex cols)
  have "map (\<lambda>j. exprLabel ((ex # cols) ! j) (i + j)) [0..<length (ex # cols)] =
      exprLabel ex i # map (\<lambda>j. exprLabel (cols ! j) (Suc i + j)) [0..<length cols]"
    by (simp only: length_Cons upt_conv_Cons [OF zero_less_Suc] map_Suc_upt [symmetric]) (simp add: comp_def)
  then show ?case unfolding unknown_names_Cons [of sc ex cols]
    by (cases "unknown_names sc [ex]"; cases "unknown_names sc cols") (simp_all add: Cons.IH checkExprCols_correct)
qed (simp add: unknown_names_def)

lemma select_header_correct:
  "select_header sc cols 0 =
     (case unknown_names sc cols of [] \<Rightarrow> Inr (output_header cols) | n # _ \<Rightarrow> Inl (Errorf ''no such column %q'' n))"
  by (cases "unknown_names sc cols") (simp_all add: select_header_from output_header_def exprLabel_def)

text \<open>A projected row is made of the values of the output expressions; an error is that of one of them.\<close>

lemma map_go_result:
  "map_go f xs = Some r \<Longrightarrow>
     (case r of Inr ys \<Rightarrow> list_all2 (\<lambda>x y. f x = Some (Inr y)) xs ys | Inl err \<Rightarrow> \<exists>x\<in>set xs. f x = Some (Inl err))"
  by (induction xs arbitrary: r) (fastforce simp: go_bind_def split: option.splits sum.splits)+

lemma projectRow_map_go: "projectRow sc cols row = map_go (evalExpr sc row) cols"
  by (induction cols) simp_all

lemmas projectRow_result = map_go_result [of "evalExpr sc row" cols for sc row cols, folded projectRow_map_go]

lemma projectRow_total: "length row = length (sc_Cols sc) \<Longrightarrow> \<exists>r. projectRow sc exprs row = Some r"
proof (induction exprs)
  case (Cons ex exprs)
  then show ?case unfolding projectRow.simps by (intro go_bind_total evalExpr_returns) simp_all
qed simp

lemma execSelect_correct:
  assumes e: "engine_ok e" and name: "nul_free (sel_table s)" and sc: "catalog (eng_view e) (sel_table s) = Some sc"
  shows "\<exists>r e'. execSelect s (e, d) = Some (r, e', d) \<and> engine_ok e' \<and> eng_DB e' = eng_DB e \<and>
    (case select_header sc (sel_cols s) 0 of
       Inl err \<Rightarrow> r = Inl err
     | Inr header \<Rightarrow>
         (\<exists>err. makeRange sc (sel_cond s) = Some (Inl err) \<and> r = Inl err) \<or>
         (\<exists>req rows out. makeRange sc (sel_cond s) = Some (Inr req) \<and> selection sc (eng_view e) (sel_cond s) rows \<and> map_go (projectRow sc (sel_cols s)) rows = Some out \<and>
            r = res_bind out (\<lambda>vs. Inr (header, vs))))"
proof -
  note t = engine_table [OF e name sc]
  obtain e' where e': "GetSchema (sel_table s) (e, d) = Some (Inr sc, e', d)" "engine_ok e'" "eng_DB e' = eng_DB e"
    using GetSchema_found [OF e name sc] by blast
  let ?out = "\<lambda>header. go_bind (execCond (eng_DB e) sc (sel_cond s)) (\<lambda>it.
           go_bind (collect_rows (projectRow sc (sel_cols s)) it []) (\<lambda>rows. Some (Inr (header, rows))))"
  have run: "execSelect s (e, d) = reading (go_bind (Some (select_header sc (sel_cols s) 0)) ?out) (e', d)"
    using e' by (simp add: execSelect_def st_bind_def)
  show ?thesis
  proof (cases "select_header sc (sel_cols s) 0")
    case (Inl err)
    then show ?thesis using run e' by (simp add: reading_def)
  next
    case (Inr header)
    from execCond_rows [OF t(1,3,4), of "sel_cond s"] show ?thesis
    proof (elim disjE exE conjE)
      fix err assume "makeRange sc (sel_cond s) = Some (Inl err)" "execCond (eng_DB e) sc (sel_cond s) = Some (Inl err)"
      then show ?thesis using run e' Inr by (simp add: reading_def)
    next
      fix req it rows
      assume plan: "makeRange sc (sel_cond s) = Some (Inr req)"
        and it: "execCond (eng_DB e) sc (sel_cond s) = Some (Inr it)" and sel: "selection sc (eng_view e) (sel_cond s) rows"
        and "\<forall>n. read_rows table_range_src n it = Some (Inr (take n rows))"
      then have col: "collect_rows f it acc = go_bind (map_go f rows) (\<lambda>xs. Some (Inr (acc @ xs)))"
        for f :: "Row \<Rightarrow> Row go" and acc by (intro collect_rows_all)
      have "\<exists>out. map_go (projectRow sc (sel_cols s)) rows = Some out"
      proof (intro map_go_total projectRow_total)
        fix row assume "row \<in> set rows"
        then have "row \<in> table_rows sc (eng_view e)" using sel by (simp add: selection_def)
        then show "length row = length (sc_Cols sc)" using table_row_key(3) [OF t(3)] row_ok_length by blast
      qed
      then obtain out where out: "map_go (projectRow sc (sel_cols s)) rows = Some out" by blast
      have "?out header = Some (res_bind out (\<lambda>vs. Inr (header, vs)))"
        using it col out by (cases out) simp_all
      then have "execSelect s (e, d) = Some (res_bind out (\<lambda>vs. Inr (header, vs)), e', d)"
        using run Inr by (simp add: reading_def)
      then show ?thesis using e' Inr plan sel out by auto
    qed
  qed
qed

end
