(* ===== verification/Writes.thy ===== *)
theory Writes
  imports Statements
begin

text \<open>
  \<^verbatim>\<open>INSERT\<close>, \<^verbatim>\<open>UPDATE\<close>, \<^verbatim>\<open>DELETE\<close> and \<^verbatim>\<open>CREATE TABLE\<close> as changes of a set of rows.  A row is stored
  as the fields its types select (\<open>plain_row\<close>).  An \<^verbatim>\<open>UPDATE\<close> or \<^verbatim>\<open>DELETE\<close> that fails half way has
  changed some of its rows, each of them completely; one that succeeds has changed them all.
\<close>

section \<open>The stored form of a row\<close>

definition plain_cell :: "Cell \<Rightarrow> Cell" where
  "plain_cell c = (if c_Type c = TypeI64 then c\<lparr>c_Str := []\<rparr> else c\<lparr>c_I64 := 0\<rparr>)"

abbreviation plain_row :: "Row \<Rightarrow> Row" where
  "plain_row row \<equiv> map plain_cell row"

lemma plain_cell_simps [simp]:
  "c_Type (plain_cell c) = c_Type c" "cell_plain (plain_cell c)" "cell_val (plain_cell c) = cell_val c"
  "Cell_EncodeKey (plain_cell c) out = Cell_EncodeKey c out" "Cell_EncodeVal (plain_cell c) out = Cell_EncodeVal c out"
  by (auto simp: plain_cell_def cell_plain_def cell_val_def Cell_EncodeKey_def Cell_EncodeVal_def)

lemma plain_cell_id: "cell_plain c \<Longrightarrow> plain_cell c = c"
  by (cases c) (auto simp: plain_cell_def cell_plain_def split: if_splits)

lemma plain_row_id: "list_all cell_plain row \<Longrightarrow> plain_row row = row"
  by (simp add: list_all_iff plain_cell_id map_idI)

lemma slice_at_map: "slice_at (map f xs) i = map_option f (slice_at xs i)"
  by (auto simp: slice_at_def nat_less_iff)

lemma Row_Encode_plain [simp]:
  "Row_EncodeKey sc (plain_row row) = Row_EncodeKey sc row"
  "Row_EncodeVal sc (plain_row row) = Row_EncodeVal sc row"
proof -
  have "EncodeKey_cols (plain_row row) ids key = EncodeKey_cols row ids key" for ids key
    by (induction ids arbitrary: key) (auto simp: slice_at_map split: option.split)
  then show "Row_EncodeKey sc (plain_row row) = Row_EncodeKey sc row" by (simp add: Row_EncodeKey_def)
  have "EncodeVal_cols sc (plain_row row) ids v = EncodeVal_cols sc row ids v" for ids v
    by (induction ids arbitrary: v) (auto simp: slice_at_map split: option.split)
  then show "Row_EncodeVal sc (plain_row row) = Row_EncodeVal sc row" by (simp add: Row_EncodeVal_def)
qed

lemma row_ok_plain [simp]: "row_ok sc (plain_row row) = row_ok sc row"
  by (simp add: row_ok_def comp_def)

text \<open>Rows whose value is short enough for its length prefix.\<close>

definition row_short :: "Schema \<Rightarrow> Row \<Rightarrow> bool" where
  "row_short sc row \<longleftrightarrow> length (the (Row_EncodeVal sc row)) < 2 ^ 32"

lemma row_fits_plain: "row_ok sc row \<Longrightarrow> row_short sc row \<Longrightarrow> row_fits sc (plain_row row)"
  by (auto simp: row_fits_def row_short_def list_all_iff)

lemma DB_write_plain: "DB_write mode db sc (plain_row row) d = DB_write mode db sc row d"
  by (simp add: DB_write_def)

section \<open>INSERT\<close>

lemma insert_row_ok: "length vals = length (sc_Cols sc) \<Longrightarrow> row_ok sc (insert_row sc vals)"
  unfolding row_ok_def insert_row_def by (rule nth_equalityI) simp_all

text \<open>The row an \<^verbatim>\<open>INSERT\<close> stores: each value read in the type of its column, an integer column taking 0
  for a string and a string column the empty string for an integer.\<close>

definition stored_row :: "Schema \<Rightarrow> Cell list \<Rightarrow> Row" where
  "stored_row sc vals =
     map2 (\<lambda>v c. if col_Type c = TypeI64 then \<lparr>c_Type = TypeI64, c_I64 = c_I64 v, c_Str = []\<rparr>
       else \<lparr>c_Type = col_Type c, c_I64 = 0, c_Str = c_Str v\<rparr>) vals (sc_Cols sc)"

lemma plain_insert_row: "plain_row (insert_row sc vals) = stored_row sc vals"
  by (auto simp: insert_row_def stored_row_def plain_cell_def)

lemma stored_row_typed:
  assumes "list_all2 (\<lambda>v c. c_Type v = col_Type c \<and> cell_plain v) vals (sc_Cols sc)"
  shows "stored_row sc vals = vals"
  using assms unfolding stored_row_def by (induction rule: list_all2_induct) (auto simp: cell_plain_def)

lemma execInsert_correct:
  fixes s :: StmtInsert
  assumes e: "engine_ok e" and name: "nul_free (ins_table s)" and sc: "catalog (eng_view e) (ins_table s) = Some sc"
    and len: "length (ins_value s) = length (sc_Cols sc)" and short: "row_short sc (insert_row sc (ins_value s))"
  defines "R \<equiv> table_rows sc (eng_view e)" and "row \<equiv> plain_row (insert_row sc (ins_value s))"
  shows "\<exists>r e' d'. execInsert s (e, d) = Some (r, e', d') \<and> engine_ok e' \<and> others_kept sc (eng_view e) (eng_view e') \<and>
    (case r of
       Inr n \<Rightarrow> n = 1 \<and> \<not> (\<exists>x\<in>R. pkey_vals sc x = pkey_vals sc row) \<and> table_rows sc (eng_view e') = insert row R
     | Inl err \<Rightarrow> table_rows sc (eng_view e') = R \<and>
         (err = ErrMsg ''duplicate primary key'' \<and> (\<exists>x\<in>R. pkey_vals sc x = pkey_vals sc row) \<or> log_error (eng_DB e) d err))"
proof -
  obtain e1 where e1: "GetSchema (ins_table s) (e, d) = Some (Inr sc, e1, d)" "engine_ok e1" "eng_DB e1 = eng_DB e"
    using GetSchema_found [OF e name sc] by blast
  have sc1: "catalog (eng_view e1) (ins_table s) = Some sc" using sc e1(3) by simp
  note t = engine_table [OF e1(2) name sc1]
  have fits: "row_fits sc row" unfolding row_def by (rule row_fits_plain [OF insert_row_ok [OF len] short])
  obtain r db d' where w: "DB_write ModeInsert (eng_DB e) sc row d = Some (r, db, d')" "kv_ok db" "table_ok sc (kv_view db)"
    "others_kept sc (eng_view e) (kv_view db)"
    "case r of Inr b \<Rightarrow> (b, table_rows sc (kv_view db)) = rel_write ModeInsert sc R row | Inl err \<Rightarrow> kv_view db = eng_view e"
    using DB_write_correct [OF t(1,3,4) fits, of ModeInsert d] e1(3) unfolding R_def by metis
  let ?e = "e1\<lparr>eng_DB := db\<rparr>"
  have ok: "engine_ok ?e" using w(2-4) e1(3) by (intro engine_kept [OF e1(2) name sc1]) simp_all
  have "DB_Insert (eng_DB e) sc (insert_row sc (ins_value s)) d = Some (r, db, d')"
    using w(1) by (simp add: DB_Insert_def row_def DB_write_plain)
  then have run: "execInsert s (e, d) =
      (case r of Inl err \<Rightarrow> Some (Inl err, ?e, d')
       | Inr b \<Rightarrow> if b then Some (Inr 1, ?e, d') else Some (Inl (ErrMsg ''duplicate primary key''), ?e, d'))"
    using e1 len by (simp add: execInsert_def st_bind_def on_db_def st_fail_def split: sum.split)
  show ?thesis
  proof (cases r)
    case (Inl err)
    have "log_error (eng_DB e) d err" using DB_write_error(1) [OF engine_okD(1) [OF e]] w(1) Inl by blast
    then show ?thesis using run ok w(4,5) Inl by (simp add: R_def)
  next
    case (Inr b)
    have "if b then \<not> (\<exists>x\<in>R. pkey_vals sc x = pkey_vals sc row) \<and> table_rows sc (kv_view db) = insert row R
      else (\<exists>x\<in>R. pkey_vals sc x = pkey_vals sc row) \<and> table_rows sc (kv_view db) = R"
    proof (cases "\<exists>x\<in>R. pkey_vals sc x = pkey_vals sc row")
      case True
      then show ?thesis using w(5) Inr by (simp add: rel_write_def Let_def)
    next
      case False
      then have "{x \<in> R. pkey_vals sc x \<noteq> pkey_vals sc row} = R" by blast
      then show ?thesis using w(5) Inr False by (simp add: rel_write_def Let_def)
    qed
    then show ?thesis using run ok w(4) Inr by (cases b) auto
  qed
qed

section \<open>UPDATE\<close>

text \<open>A cell that may stand in a column.\<close>

definition col_cell :: "Schema \<Rightarrow> int \<Rightarrow> Cell \<Rightarrow> bool" where
  "col_cell sc i c \<longleftrightarrow> c_Type c = col_Type (sc_Cols sc ! nat i)"

definition set_target :: "Schema \<Rightarrow> int \<Rightarrow> bool" where
  "set_target sc i \<longleftrightarrow> 0 \<le> i \<and> i < int (length (sc_Cols sc)) \<and> \<not> Schema_IsPKey sc i"

lemma update_idxs_correct:
  "update_idxs sc asns = Inr idxs \<Longrightarrow> length idxs = length asns \<and> list_all (set_target sc) idxs"
proof (induction asns arbitrary: idxs)
  case (Cons asn asns)
  let ?i = "Schema_ColIndex sc (asn_column asn)"
  obtain ids where "update_idxs sc asns = Inr ids" "idxs = ?i # ids" "0 \<le> ?i" "\<not> Schema_IsPKey sc ?i"
    using Cons.prems by (auto simp: Let_def res_bind_def split: if_splits sum.splits)
  then show ?case using Cons.IH Schema_ColIndex_range [of sc "asn_column asn"] by (simp add: set_target_def)
qed simp

lemma update_vals_total:
  assumes row: "length row = length (sc_Cols sc)"
  shows "list_all (set_target sc) idxs \<Longrightarrow> \<exists>r. update_vals sc asns idxs row = Some r"
proof (induction asns arbitrary: idxs)
  case (Cons asn asns)
  show ?case
  proof (cases idxs)
    case (Cons i ids)
    then have ids: "set_target sc i" "list_all (set_target sc) ids" using Cons.prems by simp_all
    then have i: "schema_col sc i = Some (sc_Cols sc ! nat i)" by (simp add: set_target_def)
    obtain r where r: "evalExpr sc row (asn_expr asn) = Some r" using evalExpr_returns [OF row] by blast
    obtain r' where r': "update_vals sc asns ids row = Some r'" using Cons.IH [OF ids(2)] by blast
    show ?thesis using r r' i Cons by (cases r; cases r') simp_all
  qed simp
qed simp

text \<open>\<open>set_cells\<close>: targets with cells of their column's type.\<close>

abbreviation set_cells :: "Schema \<Rightarrow> int list \<Rightarrow> Cell list \<Rightarrow> bool" where
  "set_cells sc idxs cs \<equiv> list_all2 (\<lambda>i c. set_target sc i \<and> col_cell sc i c \<and> cell_ok c) idxs cs"

lemma update_vals_cells:
  assumes row: "list_all cell_ok row"
  shows "length idxs = length asns \<Longrightarrow> list_all (set_target sc) idxs \<Longrightarrow> \<forall>asn\<in>set asns. \<forall>c\<in>expr_cells (asn_expr asn). cell_ok c \<Longrightarrow>
    update_vals sc asns idxs row = Some (Inr cs) \<Longrightarrow> set_cells sc idxs cs"
proof (induction asns arbitrary: idxs cs)
  case (Cons asn asns)
  obtain i ids where idxs: "idxs = i # ids" using Cons.prems(1) by (cases idxs) auto
  then have i: "schema_col sc i = Some (sc_Cols sc ! nat i)" using Cons.prems(2) by (simp add: set_target_def)
  obtain c cs' where c: "evalExpr sc row (asn_expr asn) = Some (Inr c)" "c_Type c = col_Type (sc_Cols sc ! nat i)"
    "update_vals sc asns ids row = Some (Inr cs')" "cs = c # cs'"
    using Cons.prems(4) i unfolding idxs by (auto simp: go_bind_def split: option.splits sum.splits if_splits)
  have "cell_ok c" using evalExpr_ok [OF row _ c(1)] Cons.prems(3) by simp
  then show ?case using Cons.IH [of ids cs'] Cons.prems c idxs by (simp add: col_cell_def)
qed simp

lemma assign_cells_correct:
  assumes "schema_ok sc"
  shows "set_cells sc idxs cs \<Longrightarrow> row_ok sc row \<Longrightarrow> list_all cell_plain row \<Longrightarrow>
    \<exists>row'. assign_cells row idxs cs = Some row' \<and> row_ok sc row' \<and> list_all cell_plain row' \<and>
      pkey_cells sc row' = pkey_cells sc row"
proof (induction idxs cs arbitrary: row rule: list_all2_induct)
  case (Cons i idxs c cs)
  let ?row = "row[nat i := c]"
  have len: "length row = length (sc_Cols sc)" using row_ok_length [OF Cons.prems(1)] .
  have i: "0 \<le> i" "nat i < length row" "i \<notin> set (sc_PKey sc)" "c_Type c = col_Type (sc_Cols sc ! nat i)" "cell_plain c"
    using Cons.hyps(1) len by (auto simp: set_target_def col_cell_def cell_ok_def Schema_IsPKey_def)
  have "row_ok sc ?row"
    using Cons.prems(1) i(4) len unfolding row_ok_def by (metis i(2) list_update_id map_update nth_map)
  moreover have "list_all cell_plain ?row" using Cons.prems(2) i(5) by (auto simp: list_all_iff dest: set_update_subset_insert [THEN subsetD])
  moreover have "pkey_cells sc ?row = pkey_cells sc row"
  proof -
    have "?row ! nat j = row ! nat j" if "j \<in> set (sc_PKey sc)" for j
    proof -
      have "0 \<le> j" "j \<noteq> i" using assms that i(3) by (auto simp: schema_ok_def)
      then have "nat j \<noteq> nat i" using i(1) by simp
      then show ?thesis by simp
    qed
    then show ?thesis by (simp add: pkey_cells_def)
  qed
  ultimately show ?case using Cons.IH [of ?row] i(1,2) by (simp add: nat_less_iff)
qed simp

text \<open>What an \<^verbatim>\<open>UPDATE\<close> makes of a row.\<close>

lemma row_fits_cells: "schema_ok sc \<Longrightarrow> row_fits sc row \<Longrightarrow> list_all cell_ok row"
  using row_ok_typed [of sc row] row_ok_length [of sc row] by (auto simp: row_fits_def list_all_length cell_ok_def)

lemma update_row_correct:
  assumes sc: "schema_ok sc" and idxs: "update_idxs sc asns = Inr idxs" and row: "row_fits sc row"
    and cells: "\<forall>asn\<in>set asns. \<forall>c\<in>expr_cells (asn_expr asn). cell_ok c"
  shows "(\<exists>err. update_row sc asns idxs row = Some (Inl err)) \<or>
    (\<exists>row'. update_row sc asns idxs row = Some (Inr row') \<and> row_ok sc row' \<and> list_all cell_plain row' \<and>
       pkey_vals sc row' = pkey_vals sc row)"
proof -
  note i = update_idxs_correct [OF idxs]
  have rok: "row_ok sc row" "list_all cell_plain row" using row by (simp_all add: row_fits_def)
  obtain r where r: "update_vals sc asns idxs row = Some r" using update_vals_total [OF row_ok_length [OF rok(1)]] i by blast
  show ?thesis
  proof (cases r)
    case (Inl err)
    then show ?thesis using r by (simp add: update_row_def)
  next
    case (Inr cs)
    have "set_cells sc idxs cs" using update_vals_cells [OF row_fits_cells [OF sc row]] i cells r Inr by simp
    from assign_cells_correct [OF sc this rok] show ?thesis using r Inr by (auto simp: update_row_def)
  qed
qed

text \<open>\<open>updated\<close>: the rows of \<open>S\<close> replaced by what the statement makes of them.\<close>

definition new_row :: "Schema \<Rightarrow> ExprAssign list \<Rightarrow> int list \<Rightarrow> Row \<Rightarrow> Row" where
  "new_row sc asns idxs row = (case update_row sc asns idxs row of Some (Inr row') \<Rightarrow> row' | _ \<Rightarrow> row)"

definition updated :: "Schema \<Rightarrow> ExprAssign list \<Rightarrow> int list \<Rightarrow> Row set \<Rightarrow> Row set \<Rightarrow> Row set" where
  "updated sc asns idxs S R = (\<lambda>row. if row \<in> S then new_row sc asns idxs row else row) ` R"

lemma updated_empty [simp]: "updated sc asns idxs {} R = R"
  by (simp add: updated_def)

lemma replace_row:
  assumes sc: "schema_ok sc" and r: "r \<in> table_rows sc m" and pk: "pkey_vals sc r' = pkey_vals sc r"
  shows "insert r' {x \<in> table_rows sc m. pkey_vals sc x \<noteq> pkey_vals sc r'} = (\<lambda>x. if x = r then r' else x) ` table_rows sc m"
proof -
  have "pkey_vals sc x \<noteq> pkey_vals sc r' \<longleftrightarrow> x \<noteq> r" if "x \<in> table_rows sc m" for x
    using table_rows_key_unique [OF sc that r] pk by auto
  then have "{x \<in> table_rows sc m. pkey_vals sc x \<noteq> pkey_vals sc r'} = {x \<in> table_rows sc m. x \<noteq> r}" by blast
  then show ?thesis using r by auto
qed

text \<open>A statement that stops on an error has dealt with the first rows of its list.\<close>

definition leading :: "Row list \<Rightarrow> Row set \<Rightarrow> bool" where
  "leading rows S \<longleftrightarrow> (\<exists>k. S = set (take k rows))"

lemma leading_simps [simp]: "leading rows {}" "leading rows S \<Longrightarrow> leading (row # rows) (insert row S)"
proof -
  show "leading rows {}" unfolding leading_def by (rule exI [of _ 0]) simp
  assume "leading rows S"
  then obtain k where "S = set (take k rows)" by (auto simp: leading_def)
  then show "leading (row # rows) (insert row S)" unfolding leading_def by (intro exI [of _ "Suc k"]) simp
qed

text \<open>The loop over the selected rows.\<close>

lemma update_loop_correct:
  assumes sc: "schema_ok sc" and idxs: "update_idxs sc asns = Inr idxs"
    and cells: "\<forall>asn\<in>set asns. \<forall>c\<in>expr_cells (asn_expr asn). cell_ok c"
  shows "kv_ok (eng_DB e) \<Longrightarrow> table_ok sc (eng_view e) \<Longrightarrow> set rows \<subseteq> table_rows sc (eng_view e) \<Longrightarrow>
    distinct (map (pkey_vals sc) rows) \<Longrightarrow> \<forall>row\<in>set rows. row_short sc (new_row sc asns idxs row) \<Longrightarrow>
    \<exists>r db d' S. update_loop sc asns idxs rows (e, d) = Some (r, e\<lparr>eng_DB := db\<rparr>, d') \<and> kv_ok db \<and>
      table_ok sc (kv_view db) \<and> others_kept sc (eng_view e) (kv_view db) \<and>
      S \<subseteq> set rows \<and> (r = Inr () \<longrightarrow> S = set rows) \<and> (\<forall>row\<in>S. \<exists>row'. update_row sc asns idxs row = Some (Inr row')) \<and>
      table_rows sc (kv_view db) = updated sc asns idxs S (table_rows sc (eng_view e)) \<and> leading rows S"
proof (induction rows arbitrary: e d)
  case Nil
  then show ?case
    by (intro exI [of _ "Inr ()"] exI [of _ "eng_DB e"] exI [of _ d] exI [of _ "{}"]) (simp add: others_kept_def)
next
  case (Cons row rows)
  let ?R = "table_rows sc (eng_view e)"
  have row: "row \<in> ?R" using Cons.prems(3) by simp
  have fits: "row_fits sc row" by (rule table_row_key(1) [OF sc row])
  from update_row_correct [OF sc idxs fits cells] show ?case
  proof (elim disjE exE conjE)
    fix err assume "update_row sc asns idxs row = Some (Inl err)"
    then have "update_loop sc asns idxs (row # rows) (e, d) = Some (Inl err, e, d)"
      by (simp add: st_bind_def reading_def)
    then show ?thesis using Cons.prems(1,2)
      by (intro exI [of _ "Inl err"] exI [of _ "eng_DB e"] exI [of _ d] exI [of _ "{}"]) (simp add: others_kept_def)
  next
    fix row' assume row': "update_row sc asns idxs row = Some (Inr row')" "row_ok sc row'" "list_all cell_plain row'"
      "pkey_vals sc row' = pkey_vals sc row"
    have new: "new_row sc asns idxs row = row'" using row'(1) by (simp add: new_row_def)
    have fits': "row_fits sc row'" using row'(2,3) Cons.prems(5) new by (simp add: row_fits_def row_short_def)
    obtain r db d1 where w: "DB_write ModeUpdate (eng_DB e) sc row' d = Some (r, db, d1)" "kv_ok db" "table_ok sc (kv_view db)"
      "others_kept sc (eng_view e) (kv_view db)"
      "case r of Inr b \<Rightarrow> (b, table_rows sc (kv_view db)) = rel_write ModeUpdate sc ?R row' | Inl err \<Rightarrow> kv_view db = eng_view e"
      using DB_write_correct [OF Cons.prems(1) sc Cons.prems(2) fits', of ModeUpdate d] by blast
    have step: "update_loop sc asns idxs (row # rows) (e, d) =
        (case r of Inl err \<Rightarrow> Some (Inl err, e\<lparr>eng_DB := db\<rparr>, d1) | Inr b \<Rightarrow> update_loop sc asns idxs rows (e\<lparr>eng_DB := db\<rparr>, d1))"
      using row'(1) w(1) by (simp add: st_bind_def reading_def on_db_def DB_Update_def split: sum.split)
    show ?thesis
    proof (cases r)
      case (Inl err)
      then show ?thesis using step w
        by (intro exI [of _ "Inl err"] exI [of _ db] exI [of _ d1] exI [of _ "{}"]) simp
    next
      case (Inr b)
      let ?e = "e\<lparr>eng_DB := db\<rparr>"
      have "\<exists>x\<in>?R. pkey_vals sc x = pkey_vals sc row'" using row row'(4) by auto
      then have rows1: "table_rows sc (eng_view ?e) = (\<lambda>x. if x = row then row' else x) ` ?R"
        using w(5) Inr replace_row [OF sc row row'(4)] by (simp add: rel_write_def)
      have ne: "row \<notin> set rows" "row' \<notin> set rows" using Cons.prems(4) row'(4) by (auto simp: image_iff)
      have "set rows \<subseteq> table_rows sc (eng_view ?e)"
      proof
        fix x assume "x \<in> set rows"
        then have "x \<in> ?R" "x \<noteq> row" using Cons.prems(3) ne(1) by auto
        then show "x \<in> table_rows sc (eng_view ?e)" unfolding rows1 by (intro image_eqI [of _ _ x]) simp_all
      qed
      then obtain q db2 d2 S where IH: "update_loop sc asns idxs rows (?e, d1) = Some (q, ?e\<lparr>eng_DB := db2\<rparr>, d2)" "kv_ok db2"
        "table_ok sc (kv_view db2)" "others_kept sc (eng_view ?e) (kv_view db2)"
        "S \<subseteq> set rows" "q = Inr () \<longrightarrow> S = set rows" "\<forall>row\<in>S. \<exists>row'. update_row sc asns idxs row = Some (Inr row')"
        "table_rows sc (kv_view db2) = updated sc asns idxs S (table_rows sc (eng_view ?e))" "leading rows S"
        using Cons.IH [of ?e d1] w(2,3) Cons.prems(4,5) by auto
      have "updated sc asns idxs S (table_rows sc (eng_view ?e)) = updated sc asns idxs (insert row S) ?R"
        unfolding updated_def rows1 image_image
        by (rule image_cong [OF refl]) (use ne IH(5) new in auto)
      moreover have "others_kept sc (eng_view e) (kv_view db2)" using w(4) IH(4) by (simp add: others_kept_def)
      ultimately show ?thesis using step Inr IH row'(1)
        by (intro exI [of _ q] exI [of _ db2] exI [of _ d2] exI [of _ "insert row S"]) auto
    qed
  qed
qed

lemma selection_keys:
  "selection sc m cond rows \<Longrightarrow> distinct (map (pkey_vals sc) rows)"
proof -
  have "sorted_wrt (\<lambda>r s. pkey_vals sc r < pkey_vals sc s) rows \<Longrightarrow> distinct (map (pkey_vals sc) rows)"
    by (induction rows) auto
  then show "selection sc m cond rows \<Longrightarrow> distinct (map (pkey_vals sc) rows)" by (simp add: selection_def)
qed

text \<open>
  What \<^verbatim>\<open>SET\<close> does to a row: each expression is evaluated on the old row, and of two assignments to
  one column the later one counts.
\<close>

definition reassigned :: "Schema \<Rightarrow> ExprAssign list \<Rightarrow> int list \<Rightarrow> Row \<Rightarrow> Row \<Rightarrow> bool" where
  "reassigned sc asns idxs row row' \<longleftrightarrow>
     (\<exists>cs. list_all2 (\<lambda>asn c. evalExpr sc row (asn_expr asn) = Some (Inr c)) asns cs \<and>
       row' = map (\<lambda>i. case map_of (rev (zip idxs cs)) (int i) of None \<Rightarrow> row ! i | Some c \<Rightarrow> c) [0..<length row])"

lemma assign_cells_map:
  "length idxs = length cs \<Longrightarrow> assign_cells row idxs cs = Some row' \<Longrightarrow>
   row' = map (\<lambda>i. case map_of (rev (zip idxs cs)) (int i) of None \<Rightarrow> row ! i | Some c \<Rightarrow> c) [0..<length row]"
proof (induction idxs cs arbitrary: row rule: list_induct2')
  case (4 i idxs c cs)
  then have i: "0 \<le> i" "nat i < length row" and ih: "row' = map (\<lambda>j. case map_of (rev (zip idxs cs)) (int j) of
      None \<Rightarrow> row[nat i := c] ! j | Some c \<Rightarrow> c) [0..<length row]"
    using "4.IH" [of "row[nat i := c]"] by (auto split: if_splits)
  show ?case unfolding ih using i by (auto simp: map_add_def nth_list_update split: option.split)
qed (auto simp: map_nth)

lemma update_vals_eval:
  "length idxs = length asns \<Longrightarrow> update_vals sc asns idxs row = Some (Inr cs) \<Longrightarrow>
   list_all2 (\<lambda>asn c. evalExpr sc row (asn_expr asn) = Some (Inr c)) asns cs"
  by (induction asns idxs arbitrary: cs rule: list_induct2')
    (auto simp: go_bind_def split: option.splits sum.splits if_splits)

lemma update_row_reassigned:
  assumes "length idxs = length asns" "update_row sc asns idxs row = Some (Inr row')"
  shows "reassigned sc asns idxs row row'"
proof -
  obtain cs where cs: "update_vals sc asns idxs row = Some (Inr cs)" "assign_cells row idxs cs = Some row'"
    using assms(2) by (auto simp: update_row_def go_bind_def split: option.splits sum.splits)
  note ev = update_vals_eval [OF assms(1) cs(1)]
  then have "length idxs = length cs" using assms(1) by (simp add: list_all2_lengthD)
  from ev assign_cells_map [OF this cs(2)] show ?thesis unfolding reassigned_def by blast
qed

lemma execUpdate_correct:
  fixes s :: StmtUpdate
  assumes e: "engine_ok e" and name: "nul_free (upd_table s)" and sc: "catalog (eng_view e) (upd_table s) = Some sc"
    and idxs: "update_idxs sc (upd_value s) = Inr idxs"
    and cells: "\<forall>asn\<in>set (upd_value s). \<forall>c\<in>expr_cells (asn_expr asn). cell_ok c"
    and plan: "makeRange sc (upd_cond s) = Some (Inr req)"
  defines "R \<equiv> table_rows sc (eng_view e)"
  defines "Sel \<equiv> {row \<in> R. selects sc (upd_cond s) row}"
  assumes short: "\<forall>row\<in>Sel. row_short sc (new_row sc (upd_value s) idxs row)"
  shows "\<exists>r e' d' S. execUpdate s (e, d) = Some (r, e', d') \<and> engine_ok e' \<and> others_kept sc (eng_view e) (eng_view e') \<and>
    S \<subseteq> Sel \<and> table_rows sc (eng_view e') = updated sc (upd_value s) idxs S R \<and>
    (\<forall>row\<in>S. \<exists>row'. update_row sc (upd_value s) idxs row = Some (Inr row')) \<and>
    (\<exists>rows. selection sc (eng_view e) (upd_cond s) rows \<and> leading rows S) \<and>
    (case r of Inr n \<Rightarrow> S = Sel \<and> n = card Sel | Inl err \<Rightarrow> True)"
proof -
  obtain e1 where e1: "GetSchema (upd_table s) (e, d) = Some (Inr sc, e1, d)" "engine_ok e1" "eng_DB e1 = eng_DB e"
    using GetSchema_found [OF e name sc] by blast
  have sc1: "catalog (eng_view e1) (upd_table s) = Some sc" using sc e1(3) by simp
  note t = engine_table [OF e1(2) name sc1]
  obtain rows where rows: "matchingRows (eng_DB e1) sc (upd_cond s) = Some (Inr rows)" "selection sc (eng_view e1) (upd_cond s) rows"
    using matchingRows_correct [OF t(1,3,4), of "upd_cond s"] plan by auto
  have set_rows: "set rows = Sel" using rows(2) e1(3) by (simp add: selection_def Sel_def R_def)
  have "set rows \<subseteq> table_rows sc (eng_view e1)" using set_rows e1(3) by (auto simp: Sel_def R_def)
  from update_loop_correct [OF t(3) idxs cells t(1,4) this selection_keys [OF rows(2)], of d]
  obtain r db d' S where u: "update_loop sc (upd_value s) idxs rows (e1, d) = Some (r, e1\<lparr>eng_DB := db\<rparr>, d')" "kv_ok db"
    "table_ok sc (kv_view db)" "others_kept sc (eng_view e1) (kv_view db)" "S \<subseteq> set rows" "r = Inr () \<longrightarrow> S = set rows"
    "table_rows sc (kv_view db) = updated sc (upd_value s) idxs S (table_rows sc (eng_view e1))"
    "\<forall>row\<in>S. \<exists>row'. update_row sc (upd_value s) idxs row = Some (Inr row')" "leading rows S"
    using short set_rows by auto
  let ?e = "e1\<lparr>eng_DB := db\<rparr>"
  have ok: "engine_ok ?e" by (rule engine_kept [OF e1(2) name sc1 u(2-4)])
  have run: "execUpdate s (e, d) = Some (case r of Inl err \<Rightarrow> Inl err | Inr _ \<Rightarrow> Inr (length rows), ?e, d')"
    using e1(1) idxs rows(1) u(1) by (simp add: execUpdate_def st_bind_def reading_def split: sum.split)
  have "length rows = card Sel"
    using distinct_card [OF selection_distinct [OF rows(2)]] set_rows by simp
  then show ?thesis
    using run ok u(4-9) set_rows e1(3) rows(2)
    by (intro exI [of _ "case r of Inl err \<Rightarrow> Inl err | Inr _ \<Rightarrow> Inr (length rows)"] exI [of _ ?e] exI [of _ d'] exI [of _ S])
      (auto simp: R_def split: sum.split)
qed

section \<open>DELETE\<close>

lemma delete_loop_correct:
  assumes sc: "schema_ok sc"
  shows "kv_ok (eng_DB e) \<Longrightarrow> table_ok sc (eng_view e) \<Longrightarrow> set rows \<subseteq> table_rows sc (eng_view e) \<Longrightarrow>
    distinct (map (pkey_vals sc) rows) \<Longrightarrow>
    \<exists>k err db d' S. delete_loop sc rows n (e, d) = Some ((n + k, err), e\<lparr>eng_DB := db\<rparr>, d') \<and> kv_ok db \<and>
      table_ok sc (kv_view db) \<and> others_kept sc (eng_view e) (kv_view db) \<and>
      S \<subseteq> set rows \<and> k = card S \<and> (err = None \<longrightarrow> S = set rows) \<and>
      table_rows sc (kv_view db) = table_rows sc (eng_view e) - S \<and> leading rows S"
proof (induction rows arbitrary: e d n)
  case Nil
  then show ?case
    by (intro exI [of _ 0] exI [of _ None] exI [of _ "eng_DB e"] exI [of _ d] exI [of _ "{}"]) (simp add: others_kept_def)
next
  case (Cons row rows)
  let ?R = "table_rows sc (eng_view e)"
  have row: "row \<in> ?R" using Cons.prems(3) by simp
  obtain r db d1 where w: "DB_Delete (eng_DB e) sc row d = Some (r, db, d1)" "kv_ok db" "table_ok sc (kv_view db)"
    "others_kept sc (eng_view e) (kv_view db)"
    "case r of Inr b \<Rightarrow> b = (\<exists>x\<in>?R. pkey_vals sc x = pkey_vals sc row) \<and>
         table_rows sc (kv_view db) = {x \<in> ?R. pkey_vals sc x \<noteq> pkey_vals sc row}
     | Inl err \<Rightarrow> kv_view db = eng_view e"
    using DB_Delete_correct [OF Cons.prems(1) sc Cons.prems(2) table_row_key(2) [OF sc row], of d] by blast
  show ?case
  proof (cases r)
    case (Inl err)
    then have "delete_loop sc (row # rows) n (e, d) = Some ((n + 0, Some err), e\<lparr>eng_DB := db\<rparr>, d1)"
      using w(1) by (simp add: on_db_def)
    then show ?thesis using Inl w(2-5)
      by (intro exI [of _ 0] exI [of _ "Some err"] exI [of _ db] exI [of _ d1] exI [of _ "{}"]) simp
  next
    case (Inr b)
    let ?e = "e\<lparr>eng_DB := db\<rparr>"
    have b: "b" using w(5) Inr row by auto
    have "pkey_vals sc x = pkey_vals sc row \<longleftrightarrow> x = row" if "x \<in> ?R" for x
      using table_rows_key_unique [OF sc that row] by auto
    then have rows1: "table_rows sc (eng_view ?e) = ?R - {row}" using w(5) Inr by auto
    have ne: "row \<notin> set rows" using Cons.prems(4) by auto
    then have "set rows \<subseteq> table_rows sc (eng_view ?e)" using Cons.prems(3) rows1 by auto
    then obtain k err db2 d2 S where IH: "delete_loop sc rows (n + 1) (?e, d1) = Some ((n + 1 + k, err), ?e\<lparr>eng_DB := db2\<rparr>, d2)"
      "kv_ok db2" "table_ok sc (kv_view db2)" "others_kept sc (eng_view ?e) (kv_view db2)" "S \<subseteq> set rows" "k = card S"
      "err = None \<longrightarrow> S = set rows" "table_rows sc (kv_view db2) = table_rows sc (eng_view ?e) - S" "leading rows S"
      using Cons.IH [of ?e "n + 1" d1] w(2,3) Cons.prems(4) by auto
    have run: "delete_loop sc (row # rows) n (e, d) = Some ((n + Suc k, err), e\<lparr>eng_DB := db2\<rparr>, d2)"
      using w(1) Inr b IH(1) by (simp add: on_db_def)
    have "card (insert row S) = Suc k" using IH(5,6) ne finite_subset [OF IH(5)] by (simp add: card_insert_if) blast
    moreover have "others_kept sc (eng_view e) (kv_view db2)" using w(4) IH(4) by (simp add: others_kept_def)
    ultimately show ?thesis using run IH(2,3,5,7-9) rows1
      by (intro exI [of _ "Suc k"] exI [of _ err] exI [of _ db2] exI [of _ d2] exI [of _ "insert row S"]) auto
  qed
qed

lemma execDelete_correct:
  fixes s :: StmtDelete
  assumes e: "engine_ok e" and name: "nul_free (del_table s)" and sc: "catalog (eng_view e) (del_table s) = Some sc"
    and plan: "makeRange sc (del_cond s) = Some (Inr req)"
  defines "R \<equiv> table_rows sc (eng_view e)"
  defines "Sel \<equiv> {row \<in> R. selects sc (del_cond s) row}"
  shows "\<exists>n err e' d' S. execDelete s (e, d) = Some ((n, err), e', d') \<and> engine_ok e' \<and>
    others_kept sc (eng_view e) (eng_view e') \<and> S \<subseteq> Sel \<and> n = card S \<and> table_rows sc (eng_view e') = R - S \<and>
    (err = None \<longrightarrow> S = Sel) \<and> (\<exists>rows. selection sc (eng_view e) (del_cond s) rows \<and> leading rows S)"
proof -
  obtain e1 where e1: "GetSchema (del_table s) (e, d) = Some (Inr sc, e1, d)" "engine_ok e1" "eng_DB e1 = eng_DB e"
    using GetSchema_found [OF e name sc] by blast
  have sc1: "catalog (eng_view e1) (del_table s) = Some sc" using sc e1(3) by simp
  note t = engine_table [OF e1(2) name sc1]
  obtain rows where rows: "matchingRows (eng_DB e1) sc (del_cond s) = Some (Inr rows)" "selection sc (eng_view e1) (del_cond s) rows"
    using matchingRows_correct [OF t(1,3,4), of "del_cond s"] plan by auto
  have set_rows: "set rows = Sel" using rows(2) e1(3) by (simp add: selection_def Sel_def R_def)
  have "set rows \<subseteq> table_rows sc (eng_view e1)" using set_rows e1(3) by (auto simp: Sel_def R_def)
  from delete_loop_correct [OF t(3) t(1,4) this selection_keys [OF rows(2)], of 0 d]
  obtain k err db d' S where u: "delete_loop sc rows 0 (e1, d) = Some ((k, err), e1\<lparr>eng_DB := db\<rparr>, d')" "kv_ok db"
    "table_ok sc (kv_view db)" "others_kept sc (eng_view e1) (kv_view db)" "S \<subseteq> set rows" "k = card S"
    "err = None \<longrightarrow> S = set rows" "table_rows sc (kv_view db) = table_rows sc (eng_view e1) - S" "leading rows S" by auto
  let ?e = "e1\<lparr>eng_DB := db\<rparr>"
  have ok: "engine_ok ?e" by (rule engine_kept [OF e1(2) name sc1 u(2-4)])
  have run: "execDelete s (e, d) = Some ((k, err), ?e, d')"
    using e1(1) rows(1) u(1) by (simp add: execDelete_def)
  show ?thesis
    using run ok u(4-9) set_rows e1(3) rows(2)
    by (intro exI [of _ k] exI [of _ err] exI [of _ ?e] exI [of _ d'] exI [of _ S]) (auto simp: R_def)
qed

section \<open>CREATE TABLE\<close>

lemma create_pkey_correct:
  "create_pkey sc names = Inr sc' \<Longrightarrow>
   sc' = sc\<lparr>sc_PKey := sc_PKey sc @ map (Schema_ColIndex sc) names\<rparr> \<and> (\<forall>n\<in>set names. 0 \<le> Schema_ColIndex sc n)"
proof (induction names arbitrary: sc)
  case (Cons n names)
  have same: "Schema_ColIndex (sc\<lparr>sc_PKey := x\<rparr>) = Schema_ColIndex sc" for x by (simp add: Schema_ColIndex_def fun_eq_iff)
  show ?case using Cons.IH [of "sc\<lparr>sc_PKey := sc_PKey sc @ [Schema_ColIndex sc n]\<rparr>"] Cons.prems
    by (auto simp: Let_def same split: if_splits)
qed simp

lemma create_pkey_iff:
  "create_pkey sc names = Inl err \<Longrightarrow> \<not> set names \<subseteq> col_Name ` set (sc_Cols sc)"
  "create_pkey sc names = Inr sc' \<Longrightarrow> set names \<subseteq> col_Name ` set (sc_Cols sc)"
proof -
  have "(\<exists>sc'. create_pkey sc names = Inr sc') \<longleftrightarrow> set names \<subseteq> col_Name ` set (sc_Cols sc)"
    by (induction names arbitrary: sc) (auto simp: Let_def Schema_ColIndex_miss)
  then show "create_pkey sc names = Inl err \<Longrightarrow> \<not> set names \<subseteq> col_Name ` set (sc_Cols sc)"
    "create_pkey sc names = Inr sc' \<Longrightarrow> set names \<subseteq> col_Name ` set (sc_Cols sc)" by auto
qed

text \<open>The schema a statement declares.\<close>

definition created_schema :: "StmtCreatTable \<Rightarrow> Schema" where
  "created_schema s = \<lparr>sc_Table = ct_table s, sc_Cols = ct_cols s,
     sc_PKey = map (Schema_ColIndex \<lparr>sc_Table = ct_table s, sc_Cols = ct_cols s, sc_PKey = []\<rparr>) (ct_pkey s)\<rparr>"

definition create_ok :: "StmtCreatTable \<Rightarrow> bool" where
  "create_ok s \<longleftrightarrow> nul_free (ct_table s) \<and> plain (ct_table s) \<and> length (ct_cols s) < 2 ^ 63 \<and>
     (\<forall>c\<in>set (ct_cols s). plain (col_Name c) \<and> (col_Type c = TypeI64 \<or> col_Type c = TypeStr))"

lemma created_ok:
  assumes s: "create_ok s" and p: "create_pkey \<lparr>sc_Table = ct_table s, sc_Cols = ct_cols s, sc_PKey = []\<rparr> (ct_pkey s) = Inr sc"
  shows "sc = created_schema s" "schema_wf sc" "plain_schema sc" "sc_Table sc = ct_table s"
proof -
  let ?sc0 = "\<lparr>sc_Table = ct_table s, sc_Cols = ct_cols s, sc_PKey = []\<rparr>"
  note c = create_pkey_correct [OF p]
  show sc: "sc = created_schema s" using c by (simp add: created_schema_def)
  show "sc_Table sc = ct_table s" by (simp add: sc created_schema_def)
  have cols: "sc_Cols sc = ct_cols s" and idx: "Schema_ColIndex sc = Schema_ColIndex ?sc0"
    by (simp_all add: sc created_schema_def Schema_ColIndex_def fun_eq_iff)
  have pk: "\<exists>n. i = Schema_ColIndex ?sc0 n \<and> 0 \<le> i \<and> i < int (length (ct_cols s)) \<and> col_Name (ct_cols s ! nat i) = n"
    if i: "i \<in> set (sc_PKey sc)" for i
  proof -
    obtain n where n: "n \<in> set (ct_pkey s)" "i = Schema_ColIndex ?sc0 n" using i by (auto simp: sc created_schema_def)
    then have "0 \<le> Schema_ColIndex ?sc0 n" using c by blast
    then show ?thesis using n(2) Schema_ColIndex_range [of ?sc0 n] Schema_ColIndex_name [of ?sc0 n] by auto
  qed
  have "schema_ok sc" unfolding schema_ok_def cols
    using s pk by (auto simp: create_ok_def sc created_schema_def)
  moreover have "Schema_ColIndex sc (col_Name (sc_Cols sc ! nat i)) = i" if "i \<in> set (sc_PKey sc)" for i
    using pk [OF that] by (auto simp: idx cols)
  ultimately show "schema_wf sc" by (simp add: schema_wf_def)
  have "- (2 ^ 63) \<le> i \<and> i < 2 ^ 63" if "i \<in> set (sc_PKey sc)" for i
    using pk [OF that] s by (auto simp: create_ok_def)
  then show "plain_schema sc" using s by (auto simp: plain_schema_def list_all_iff cols create_ok_def sc created_schema_def)
qed

lemma execCreateTable_correct:
  fixes s :: StmtCreatTable
  assumes e: "engine_ok e" and s: "create_ok s"
  shows "\<exists>r e' d'. execCreateTable s (e, d) = Some (r, e', d') \<and> engine_ok e' \<and>
    (case r of
       Inr _ \<Rightarrow> catalog (eng_view e) (ct_table s) = None \<and> catalog (eng_view e') = (catalog (eng_view e))(ct_table s \<mapsto> created_schema s) \<and>
         table_rows (created_schema s) (eng_view e') = {} \<and>
         (\<forall>sc. schema_ok sc \<longrightarrow> table_rows sc (eng_view e') = table_rows sc (eng_view e))
     | Inl err \<Rightarrow> eng_view e' = eng_view e \<and>
         (catalog (eng_view e) (ct_table s) \<noteq> None \<or> \<not> set (ct_pkey s) \<subseteq> col_Name ` set (ct_cols s) \<or> log_error (eng_DB e) d err))"
proof -
  have name: "nul_free (ct_table s)" using s by (simp add: create_ok_def)
  note ok = engine_okD [OF e]
  have get: "KV_Get (eng_DB e) (schema_key (ct_table s)) = Some (Inr (eng_view e (schema_key (ct_table s))))"
    by (rule KV_Get_view [OF ok(1)])
  show ?thesis
  proof (cases "eng_view e (schema_key (ct_table s))")
    case (Some v)
    then have "catalog (eng_view e) (ct_table s) \<noteq> None" using catalog_entry [OF ok(3) name] by simp
    then show ?thesis using get e Some by (simp add: execCreateTable_def)
  next
    case None
    then have none: "catalog (eng_view e) (ct_table s) = None" using catalog_entry [OF ok(3) name] by simp
    show ?thesis
    proof (cases "create_pkey \<lparr>sc_Table = ct_table s, sc_Cols = ct_cols s, sc_PKey = []\<rparr> (ct_pkey s)")
      case (Inl err)
      then have "\<not> set (ct_pkey s) \<subseteq> col_Name ` set (ct_cols s)" using create_pkey_iff(1) [OF Inl] by simp
      then show ?thesis using get None e Inl by (simp add: execCreateTable_def)
    next
      case (Inr sc)
      note c = created_ok [OF s Inr]
      let ?k = "schema_key (ct_table s)"
      obtain r db d' where w: "KV_Set (eng_DB e) ?k (schema_blob sc) d = Some (r, db, d')" "kv_ok db"
        "case r of Inr b \<Rightarrow> (b, kv_view db) = map_SetEx (eng_view e) ?k (schema_blob sc) ModeUpsert | Inl err \<Rightarrow> kv_view db = eng_view e"
        using kvc.setex_law [OF ok(1), of ?k "schema_blob sc" ModeUpsert d] unfolding KV_Set_def by blast
      have run: "execCreateTable s (e, d) =
          (case r of Inl err \<Rightarrow> Some (Inl err, e\<lparr>eng_DB := db\<rparr>, d')
           | Inr _ \<Rightarrow> Some (Inr (), e\<lparr>eng_DB := db, eng_tables := (eng_tables e)(ct_table s \<mapsto> sc)\<rparr>, d'))"
        using get None Inr w(1) by (simp add: execCreateTable_def split: sum.split)
      show ?thesis
      proof (cases r)
        case (Inl err)
        then have "engine_ok (e\<lparr>eng_DB := db\<rparr>)" using e w(2,3) by (simp add: engine_ok_def)
        moreover have "log_error (eng_DB e) d err"
          using KV_write_error(1) [OF ok(1)] w(1) Inl unfolding KV_Set_def by blast
        ultimately show ?thesis using run Inl w(3) by simp
      next
        case (Inr b)
        then have v: "kv_view db = (eng_view e)(?k \<mapsto> schema_blob sc)" using w(3) by (simp add: map_SetEx_def)
        have none': "catalog (eng_view e) (sc_Table sc) = None" using none c(4) by simp
        note new = database_new [OF ok(2) c(2,3) none', unfolded c(4), folded v]
        let ?e = "e\<lparr>eng_DB := db, eng_tables := (eng_tables e)(ct_table s \<mapsto> sc)\<rparr>"
        have "engine_ok ?e" using e new(1,2) w(2) name none by (auto simp: engine_ok_def)
        moreover have "table_rows sc' (kv_view db) = table_rows sc' (eng_view e)" if "schema_ok sc'" for sc'
          unfolding v by (rule table_rows_catalog [OF name that])
        ultimately show ?thesis using run Inr none new c(1) by simp
      qed
    qed
  qed
qed

end
