(* ===== verification/Parsed.thy ===== *)
theory Parsed
  imports Stmt Eval Writes
begin

text \<open>
  What the parser hands to the engine: names are identifiers, so they hold no NUL and need no JSON
  escape, and constants are cells of one of the two types with nothing in the other field.
\<close>

section \<open>Identifiers\<close>

definition ident :: "string \<Rightarrow> bool" where
  "ident s \<longleftrightarrow> s \<noteq> [] \<and> list_all isNameContinue s"

lemma or_32: "(b :: byte) OR 32 = b \<or> unat (b OR 32) = unat b + 32"
proof (cases "bit b 5")
  case True
  have "b OR 32 = b"
  proof (rule bit_word_eqI)
    fix n
    have "bit (32 :: byte) n \<longleftrightarrow> n = 5" if "n < 8" using that bit_exp_iff [of 5 n, where 'a = byte] by simp
    then show "n < LENGTH(8) \<Longrightarrow> bit (b OR 32) n = bit b n" using True by (auto simp: bit_or_iff)
  qed
  then show ?thesis by simp
next
  case False
  have "b AND 32 = 0"
  proof (rule bit_word_eqI)
    fix n
    have "bit (32 :: byte) n \<longleftrightarrow> n = 5" if "n < 8" using that bit_exp_iff [of 5 n, where 'a = byte] by simp
    then show "n < LENGTH(8) \<Longrightarrow> bit (b AND 32) n = bit 0 n" using False by (auto simp: bit_and_iff)
  qed
  have "uint b AND 32 = uint (b AND 32)" by (simp add: unsigned_and_eq)
  then have "uint b AND 32 = 0" using \<open>b AND 32 = 0\<close> by simp
  moreover have "(uint b AND 32) + (uint b OR 32) = uint b + 32" by (rule plus_and_or)
  ultimately have "uint (b OR 32) = uint b + 32" by (simp add: unsigned_or_eq)
  then have "int (unat (b OR 32)) = int (unat b + 32)" by simp
  then have "unat (b OR 32) = unat b + 32" by (simp only: of_nat_eq_iff)
  then show ?thesis by (rule disjI2)
qed

lemma name_chars: "isNameContinue c \<Longrightarrow> html_safe (byte_val c) \<and> byte_val c \<noteq> 0"
proof -
  assume "isNameContinue c"
  then consider "isAlpha c" | "isDigit c" | "c = CHR ''_''" unfolding isNameContinue_def by blast
  then show ?thesis
  proof cases
    case 1
    have "97 \<le> unat ((of_char c :: byte) OR 32)" "unat ((of_char c :: byte) OR 32) \<le> 122"
      using 1 by (simp_all add: isAlpha_def Let_def word_le_nat_alt)
    then have "65 \<le> byte_val c \<and> byte_val c \<le> 90 \<or> 97 \<le> byte_val c \<and> byte_val c \<le> 122"
      using or_32 [of "of_char c"] by (auto simp: byte_val_def)
    then show ?thesis by (auto simp: html_safe_def)
  next
    case 2
    then show ?thesis by (auto simp: isDigit_def word_le_nat_alt byte_val_def html_safe_def)
  next
    case 3
    then show ?thesis by (simp add: byte_val_def html_safe_def)
  qed
qed

lemma name_start_continue: "isNameStart c \<Longrightarrow> isNameContinue c"
  by (auto simp: isNameStart_def isNameContinue_def)

lemma ident_plain: "ident s \<Longrightarrow> plain s" "ident s \<Longrightarrow> nul_free s"
proof -
  have "(of_char c :: byte) = 0 \<Longrightarrow> byte_val c = 0" for c
    using unat_of_char [of c] by (simp add: byte_val_def)
  then show "ident s \<Longrightarrow> plain s" "ident s \<Longrightarrow> nul_free s"
    using name_chars by (fastforce simp: ident_def plain_def list_all_iff bytes_of_def)+
qed

lemma tryName_ident: "tryName p = (Some n, q) \<Longrightarrow> ident n"
  using name_start_continue
  by (auto simp: tryName_def ident_def list_all_iff split: list.splits if_splits dest: set_takeWhileD)

section \<open>What a parser yields\<close>

named_theorems yield_rules

definition yields :: "('a \<Rightarrow> bool) \<Rightarrow> 'a parse \<Rightarrow> bool" where
  "yields P f \<longleftrightarrow> (\<forall>p x q. f p = Some (Inr (x, q)) \<longrightarrow> P x)"

lemma yieldsD: "yields P f \<Longrightarrow> f p = Some (Inr (x, q)) \<Longrightarrow> P x"
  by (auto simp: yields_def)

lemma yields_bind: "yields P f \<Longrightarrow> (\<And>x. P x \<Longrightarrow> yields Q (g x)) \<Longrightarrow> yields Q (parse_bind f g)"
  unfolding yields_def parse_bind_def go_bind_def by (fastforce split: option.splits sum.splits)

lemma yields_ret [yield_rules]: "P x \<Longrightarrow> yields P (parse_ret x)" "yields P (parse_fail msg)"
  by (simp_all add: yields_def parse_ret_def parse_fail_def)

lemma yields_if [yield_rules]: "yields P f \<Longrightarrow> yields P g \<Longrightarrow> yields P (parse_if t f g)"
  unfolding yields_def parse_if_def by (auto split: prod.splits bool.splits)

lemma yields_require [yield_rules]: "yields P f \<Longrightarrow> yields P (require t msg f)"
  unfolding require_def by (intro yield_rules)

lemma yields_require_name [yield_rules]: "(\<And>n. ident n \<Longrightarrow> yields P (f n)) \<Longrightarrow> yields P (require_name msg f)"
  unfolding yields_def require_name_def parse_fail_def
  by (auto split: prod.splits option.splits dest: tryName_ident)

lemma yields_bool_if [yield_rules]: "(b \<Longrightarrow> yields P f) \<Longrightarrow> (\<not> b \<Longrightarrow> yields P g) \<Longrightarrow> yields P (if b then f else g)"
  by simp

lemma yields_commaList:
  assumes "\<And>s. I s \<Longrightarrow> yields I (item s)"
  shows "I s \<Longrightarrow> yields I (commaList item s)"
proof -
  have "it = item \<longrightarrow> I s \<longrightarrow> (\<forall>x q. y = Inr (x, q) \<longrightarrow> I x)" if "commaList it s p = Some y" for it s p y
    using that
  proof (induction it s p y rule: commaList.raw_induct [rotated, consumes 1])
    case (1 rec it s p y)
    show ?case
    proof (intro impI allI)
      fix x q assume it: "it = item" and s: "I s" and y: "y = Inr (x, q)"
      obtain s' q1 where a: "item s p = Some (Inr (s', q1))"
        using "1"(2) it y by (auto split: option.splits sum.splits)
      have s': "I s'" by (rule yieldsD [OF assms [OF s] a])
      obtain b q' where t: "tryPunctuation '','' q1 = (b, q')" by (cases "tryPunctuation '','' q1")
      show "I x"
      proof (cases b)
        case True
        then have "rec it s' q' = Some y" using "1"(2) it a t by simp
        from "1"(1) [OF this] show ?thesis using it s' y by blast
      next
        case False
        then have "y = Inr (s', q')" using "1"(2) it a t by simp
        then show ?thesis using y s' by simp
      qed
    qed
  qed
  then show "I s \<Longrightarrow> yields I (commaList item s)" by (auto simp: yields_def)
qed

section \<open>Expressions\<close>

definition expr_ok :: "expr \<Rightarrow> bool" where
  "expr_ok e \<longleftrightarrow> (\<forall>c\<in>expr_cells e. cell_ok c)"

lemma expr_ok_simps [simp]:
  "expr_ok (EName n)" "expr_ok (ECell c) = cell_ok c" "expr_ok (EBinOp op l r) \<longleftrightarrow> expr_ok l \<and> expr_ok r"
  "expr_ok (EUnOp op e) = expr_ok e" "expr_ok (ETuple kids) = list_all expr_ok kids"
  by (auto simp: expr_ok_def list_all_iff)

lemma yields_Binop:
  assumes "yields expr_ok inner"
  shows "yields expr_ok (parseBinop toks inner)"
proof -
  have loop: "inn = inner \<longrightarrow> expr_ok left \<longrightarrow> (\<forall>x q. y = Inr (x, q) \<longrightarrow> expr_ok x)"
    if "parseBinop_loop tk inn left p = Some y" for tk inn left p y
    using that
  proof (induction tk inn left p y rule: parseBinop_loop.raw_induct [rotated, consumes 1])
    case (1 rec tk inn left p y)
    show ?case
    proof (intro impI allI)
      fix x q assume i: "inn = inner" and l: "expr_ok left" and y: "y = Inr (x, q)"
      obtain m q1 where m: "tryBinTokens tk p = (m, q1)" by (cases "tryBinTokens tk p")
      show "expr_ok x"
      proof (cases m)
        case None
        then have "y = Inr (left, q1)" using "1"(2) m by simp
        then show ?thesis using y l by simp
      next
        case (Some op)
        then obtain r q2 where r: "inner q1 = Some (Inr (r, q2))"
          using "1"(2) i y m by (auto split: option.splits sum.splits)
        then have "rec tk inn (EBinOp op left r) q2 = Some y" using "1"(2) i m Some by simp
        from "1"(1) [OF this] show ?thesis using i y l yieldsD [OF assms r] by simp
      qed
    qed
  qed
  then show ?thesis
    using yieldsD [OF assms] by (fastforce simp: yields_def parseBinop_def go_bind_def split: option.splits sum.splits)
qed

lemma yields_tuple_item: "yields expr_ok pe \<Longrightarrow> list_all expr_ok kids \<Longrightarrow> yields (list_all expr_ok) (tuple_item pe kids)"
  unfolding yields_def tuple_item_def go_bind_def by (fastforce split: option.splits sum.splits)

lemma yields_Atom:
  assumes "yields expr_ok pe"
  shows "yields expr_ok (parseAtom pe)"
proof -
  have "yields (list_all expr_ok) (commaList (tuple_item pe) [])"
    by (rule yields_commaList [OF yields_tuple_item [OF assms]]) simp_all
  then have tuple: "parseTuple pe p = Some (Inr (x, q)) \<Longrightarrow> expr_ok x" for p x q
    unfolding parseTuple_def go_bind_def yields_def
    by (fastforce split: option.splits sum.splits prod.splits bool.splits if_splits simp: length_Suc_conv)
  show ?thesis
    unfolding yields_def
  proof (intro allI impI)
    fix p x q assume a: "parseAtom pe p = Some (Inr (x, q))"
    show "expr_ok x"
    proof (cases "skipSpaces p \<noteq> [] \<and> hd (skipSpaces p) = CHR ''(''")
      case True
      then show ?thesis using a tuple by (simp add: parseAtom_def Let_def)
    next
      case False
      then have "(case tryName (skipSpaces p) of (Some name, q) \<Rightarrow> Some (Inr (EName name, q))
        | (None, q) \<Rightarrow> (case parseValue q of Inl _ \<Rightarrow> Some (Inl (ErrMsg ''expect column, value or (''))
             | Inr (c, q') \<Rightarrow> Some (Inr (ECell c, q')))) = Some (Inr (x, q))"
        using a unfolding parseAtom_def Let_def by (simp only: if_False)
      then show ?thesis
        by (auto split: prod.splits option.splits sum.splits simp: cell_ok_def dest: parseValue_le(2,3))
    qed
  qed
qed

lemma yields_Neg:
  assumes "yields expr_ok pe"
  shows "yields expr_ok (parseNeg pe)"
proof -
  have "parseNeg pe p = Some (Inr (x, q)) \<Longrightarrow> expr_ok x" for p x q
  proof (induction p arbitrary: x q rule: measure_induct_rule [of length])
    case (less p)
    obtain b p1 where t: "tryPunctuation ''-'' p = (b, p1)" by (cases "tryPunctuation ''-'' p")
    then show ?case
      using less.prems less.IH [of p1] tryPunctuation_le(2) [OF t] yieldsD [OF yields_Atom [OF assms]]
      by (subst (asm) parseNeg.simps) (cases b, auto simp: go_bind_def split: option.splits sum.splits)
  qed
  then show ?thesis by (auto simp: yields_def)
qed

lemma yields_Cmp: "yields expr_ok pe \<Longrightarrow> yields expr_ok (parseCmp pe)"
  by (simp add: parseCmp_def parseAdd_def parseMul_def yields_Binop yields_Neg)

lemma yields_Not:
  assumes "yields expr_ok pe"
  shows "yields expr_ok (parseNot pe)"
proof -
  have "parseNot pe p = Some (Inr (x, q)) \<Longrightarrow> expr_ok x" for p x q
  proof (induction p arbitrary: x q rule: measure_induct_rule [of length])
    case (less p)
    obtain b p1 where t: "tryKeyword [''NOT''] p = (b, p1)" by (cases "tryKeyword [''NOT''] p")
    then show ?case
      using less.prems less.IH [of p1] tryKeyword_le(2) [OF t] yieldsD [OF yields_Cmp [OF assms]]
      by (subst (asm) parseNot.simps) (cases b, auto simp: go_bind_def split: option.splits sum.splits)
  qed
  then show ?thesis by (auto simp: yields_def)
qed

lemma yields_parseExpr [yield_rules]: "yields expr_ok parseExpr"
proof -
  have "yields expr_ok (parseExpr_fuel n)" for n
  proof (induction n)
    case (Suc n)
    have "yields expr_ok (parseOr (parseExpr_fuel n))"
      unfolding parseOr_def parseAnd_def by (intro yields_Binop yields_Not Suc.IH)
    then show ?case by (simp add: yields_def)
  qed (simp add: yields_def)
  then show ?thesis unfolding yields_def parseExpr_def by blast
qed

lemmas yields_bind_expr [yield_rules] = yields_bind [OF yields_parseExpr]

section \<open>Statements\<close>

definition where_expr_ok :: "expr option \<Rightarrow> bool" where
  "where_expr_ok cond = pred_option expr_ok cond"

definition columns_ok :: "Column list \<Rightarrow> bool" where
  "columns_ok cols \<longleftrightarrow> list_all (\<lambda>c. ident (col_Name c) \<and> (col_Type c = TypeI64 \<or> col_Type c = TypeStr)) cols"

definition stmt_ok :: "stmt \<Rightarrow> bool" where
  "stmt_ok s =
     (case s of
        Select c \<Rightarrow> ident (sel_table c) \<and> sel_cols c \<noteq> [] \<and> list_all expr_ok (sel_cols c) \<and> where_expr_ok (sel_cond c)
      | CreatTable c \<Rightarrow> ident (ct_table c) \<and> ct_cols c \<noteq> [] \<and> columns_ok (ct_cols c) \<and> ct_pkey c \<noteq> [] \<and> list_all ident (ct_pkey c)
      | Insert c \<Rightarrow> ident (ins_table c) \<and> list_all cell_ok (ins_value c)
      | Update c \<Rightarrow> ident (upd_table c) \<and> list_all (\<lambda>a. ident (asn_column a) \<and> expr_ok (asn_expr a)) (upd_value c) \<and>
          where_expr_ok (upd_cond c)
      | Delete c \<Rightarrow> ident (del_table c) \<and> where_expr_ok (del_cond c))"

lemma yields_tableName [yield_rules]: "yields ident tableName"
  unfolding tableName_def by (intro yield_rules)

lemmas yields_bind_tableName [yield_rules] = yields_bind [OF yields_tableName]

lemma yields_parseWhere [yield_rules]: "yields where_expr_ok parseWhere"
  unfolding parseWhere_def where_expr_ok_def by (intro yield_rules) simp_all

lemmas yields_bind_where [yield_rules] = yields_bind [OF yields_parseWhere]

lemma yields_parseSelect_cols: "list_all expr_ok cols \<Longrightarrow> yields (list_all expr_ok) (parseSelect_cols cols)"
proof -
  have "parseSelect_cols cols p = Some (Inr (x, q)) \<Longrightarrow> list_all expr_ok cols \<Longrightarrow> list_all expr_ok x" for p x q
  proof (induction cols p rule: parseSelect_cols.induct)
    case (1 cols p)
    show ?case
      using "1.prems" "1.IH" yieldsD [OF yields_parseExpr]
      by (subst (asm) parseSelect_cols.simps) (fastforce split: prod.splits bool.splits option.splits sum.splits)
  qed
  then show "list_all expr_ok cols \<Longrightarrow> yields (list_all expr_ok) (parseSelect_cols cols)" by (auto simp: yields_def)
qed

lemma yields_pkey_list: "list_all ident pkey \<Longrightarrow> yields (list_all ident) (commaList pkey_item pkey)"
  by (erule yields_commaList [rotated]) (unfold pkey_item_def, intro yield_rules, simp)

lemma yields_create_list:
  "yields (\<lambda>(cols, pkey). columns_ok cols \<and> list_all ident pkey) (commaList create_item ([], []))"
proof (rule yields_commaList)
  fix s :: "Column list \<times> string list"
  obtain cols pkey where s: "s = (cols, pkey)" by (cases s)
  assume "case s of (cols, pkey) \<Rightarrow> columns_ok cols \<and> list_all ident pkey"
  then have ok: "columns_ok cols" "list_all ident pkey" by (simp_all add: s)
  show "yields (\<lambda>(cols, pkey). columns_ok cols \<and> list_all ident pkey) (create_item s)"
    unfolding s create_item_def prod.case
    by (intro yield_rules yields_bind [OF yields_pkey_list [OF ok(2)]]) (use ok in \<open>simp_all add: columns_ok_def\<close>)
qed (simp add: columns_ok_def)

lemma yields_value_list: "yields (list_all cell_ok) (commaList value_item [])"
proof (rule yields_commaList)
  show "list_all cell_ok s \<Longrightarrow> yields (list_all cell_ok) (value_item s)" for s
    using parseValue_le(2,3) by (fastforce simp: yields_def value_item_def res_bind_def cell_ok_def split: sum.splits)
qed simp

lemma yields_assign_list: "yields (list_all (\<lambda>a. ident (asn_column a) \<and> expr_ok (asn_expr a))) (commaList assign_item [])"
  by (rule yields_commaList, unfold assign_item_def, intro yield_rules) simp_all

lemma yields_prod [yield_rules]: "(\<And>x y. z = (x, y) \<Longrightarrow> yields P (f x y)) \<Longrightarrow> yields P (case z of (x, y) \<Rightarrow> f x y)"
  by (cases z) simp

lemma yields_con: "yields (P \<circ> c) f \<Longrightarrow> yields P (parse_bind f (parse_ret \<circ> c))"
  by (erule yields_bind) (simp add: yields_def parse_ret_def)

lemma yields_stmt_body: "yields stmt_ok stmt_body"
proof -
  have "yields (stmt_ok \<circ> Select) parseSelect"
    unfolding parseSelect_def
    by (intro yield_rules yields_bind [OF yields_parseSelect_cols]) (simp_all add: stmt_ok_def)
  moreover have "yields (stmt_ok \<circ> CreatTable) parseCreateTable"
    unfolding parseCreateTable_def
    by (intro yield_rules yields_bind [OF yields_create_list]) (auto simp: stmt_ok_def)
  moreover have "yields (stmt_ok \<circ> Insert) parseInsert"
    unfolding parseInsert_def
    by (intro yield_rules yields_bind [OF yields_value_list]) (simp_all add: stmt_ok_def)
  moreover have "yields (stmt_ok \<circ> Update) parseUpdate"
    unfolding parseUpdate_def
    by (intro yield_rules yields_bind [OF yields_assign_list]) (simp_all add: stmt_ok_def)
  moreover have "yields (stmt_ok \<circ> Delete) parseDelete"
    unfolding parseDelete_def by (intro yield_rules) (simp_all add: stmt_ok_def)
  ultimately show ?thesis
    unfolding stmt_body_def by (intro yields_if yields_ret yields_con)
qed

lemma ParseStmt_ok: "ParseStmt p = Some (Inr s) \<Longrightarrow> stmt_ok s"
  using yieldsD [OF yields_stmt_body] by (auto simp: ParseStmt_def go_bind_def split: option.splits sum.splits if_splits)

end
