(* ===== verification/Session.thy ===== *)
theory Session
  imports Writes Parsed
begin

text \<open>
  One statement after another: every SQL text is answered, the engine's invariant holds before and
  after, and what a statement may not do is said by \<open>stmt_fits\<close>: the rows it writes keep their value
  encoding below \<open>2 ^ 32\<close> bytes, beyond which \<^verbatim>\<open>DecodeVal\<close> reads its lengths modulo \<open>2 ^ 32\<close>, and a
  table has fewer than \<open>2 ^ 63\<close> columns.
\<close>

definition stmt_fits :: "Engine \<Rightarrow> stmt \<Rightarrow> bool" where
  "stmt_fits e st =
     (case st of
        CreatTable c \<Rightarrow> length (ct_cols c) < 2 ^ 63
      | Insert c \<Rightarrow> (\<forall>sc. catalog (eng_view e) (ins_table c) = Some sc \<longrightarrow> length (ins_value c) = length (sc_Cols sc) \<longrightarrow>
          row_short sc (insert_row sc (ins_value c)))
      | Update c \<Rightarrow> (\<forall>sc idxs. catalog (eng_view e) (upd_table c) = Some sc \<longrightarrow> update_idxs sc (upd_value c) = Inr idxs \<longrightarrow>
          (\<forall>row\<in>table_rows sc (eng_view e). selects sc (upd_cond c) row \<longrightarrow> row_short sc (new_row sc (upd_value c) idxs row)))
      | _ \<Rightarrow> True)"

lemma GetSchema_cases:
  assumes "engine_ok e" "nul_free name"
  obtains (none) "catalog (eng_view e) name = None" "GetSchema name (e, d) = Some (Inl (Errorf ''table %q is not found'' name), e, d)"
  | (found) sc e' where "catalog (eng_view e) name = Some sc" "GetSchema name (e, d) = Some (Inr sc, e', d)"
      "engine_ok e'" "eng_DB e' = eng_DB e"
proof (cases "catalog (eng_view e) name")
  case None
  then show ?thesis using GetSchema_correct [OF assms, of d] none by auto
next
  case (Some sc)
  then show ?thesis using GetSchema_found [OF assms Some, of d] found by blast
qed

lemma makeRange_error: "makeRange sc cond = Some (Inl err) \<Longrightarrow> err = ErrMsg ''unimplemented WHERE''"
  by (auto simp: makeRange_def split: option.splits)

lemma makeRange_cases:
  assumes "schema_ok sc"
  obtains (plan) req where "makeRange sc cond = Some (Inr req)"
  | (none) "makeRange sc cond = Some (Inl (ErrMsg ''unimplemented WHERE''))"
proof -
  obtain r where r: "makeRange sc cond = Some r" using makeRange_total [OF assms] by blast
  then show ?thesis using plan none makeRange_error by (cases r) auto
qed

lemma matchingRows_error:
  "makeRange sc cond = Some (Inl err) \<Longrightarrow> matchingRows db sc cond = Some (Inl err)"
  by (simp add: matchingRows_def execCond_def)

text \<open>\<open>answers e d r\<close>: the operation returns, and the engine stays well formed.\<close>

definition answers :: "('a \<times> estate) option \<Rightarrow> bool" where
  "answers r \<longleftrightarrow> (\<exists>x e d. r = Some (x, e, d) \<and> engine_ok e)"

lemma answersI: "r = Some (x, e, d) \<Longrightarrow> engine_ok e \<Longrightarrow> answers r"
  by (auto simp: answers_def)

lemma answers_result: "answers r \<Longrightarrow> answers (stmt_result f r)"
  by (auto simp: answers_def stmt_result_def split: sum.splits)

lemma answers_create:
  fixes s :: StmtCreatTable
  shows "engine_ok e \<Longrightarrow> create_ok s \<Longrightarrow> answers (execCreateTable s (e, d))"
  using execCreateTable_correct [of e s d] by (auto intro: answersI)

lemma answers_select:
  fixes s :: StmtSelect
  assumes e: "engine_ok e" and name: "nul_free (sel_table s)"
  shows "answers (execSelect s (e, d))"
  using e name
proof (cases rule: GetSchema_cases [where d = d])
  case none
  then show ?thesis using e by (auto simp: execSelect_def st_bind_def intro: answersI)
next
  case (found sc e')
  then show ?thesis using execSelect_correct [OF e name found(1), of d] by (auto intro: answersI)
qed

lemma answers_insert:
  fixes s :: StmtInsert
  assumes e: "engine_ok e" and name: "nul_free (ins_table s)" and fits: "stmt_fits e (Insert s)"
  shows "answers (execInsert s (e, d))"
  using e name
proof (cases rule: GetSchema_cases [where d = d])
  case none
  then show ?thesis using e by (auto simp: execInsert_def st_bind_def intro: answersI)
next
  case (found sc e')
  show ?thesis
  proof (cases "length (ins_value s) = length (sc_Cols sc)")
    case True
    then have "row_short sc (insert_row sc (ins_value s))" using fits found(1) by (simp add: stmt_fits_def)
    from execInsert_correct [OF e name found(1) True this, of d] show ?thesis by (auto intro: answersI)
  next
    case False
    then show ?thesis using found by (auto simp: execInsert_def st_bind_def st_fail_def intro: answersI)
  qed
qed

lemma answers_update:
  fixes s :: StmtUpdate
  assumes e: "engine_ok e" and name: "nul_free (upd_table s)" and fits: "stmt_fits e (Update s)"
    and cells: "\<forall>asn\<in>set (upd_value s). \<forall>c\<in>expr_cells (asn_expr asn). cell_ok c"
  shows "answers (execUpdate s (e, d))"
  using e name
proof (cases rule: GetSchema_cases [where d = d])
  case none
  then show ?thesis using e by (auto simp: execUpdate_def st_bind_def intro: answersI)
next
  case (found sc e')
  show ?thesis
  proof (cases "update_idxs sc (upd_value s)")
    case (Inl err)
    then show ?thesis using found by (auto simp: execUpdate_def st_bind_def st_fail_def intro: answersI)
  next
    case (Inr idxs)
    have "schema_ok sc" by (rule engine_table(3) [OF e name found(1)])
    then show ?thesis
    proof (cases rule: makeRange_cases [where cond = "upd_cond s"])
      case (plan req)
      have "\<forall>row\<in>{row \<in> table_rows sc (eng_view e). selects sc (upd_cond s) row}. row_short sc (new_row sc (upd_value s) idxs row)"
        using fits found(1) Inr by (simp add: stmt_fits_def)
      from execUpdate_correct [OF e name found(1) Inr cells plan this, of d] show ?thesis by (auto intro: answersI)
    next
      case none
      then show ?thesis using found Inr matchingRows_error [OF none]
        by (auto simp: execUpdate_def st_bind_def reading_def intro: answersI)
    qed
  qed
qed

lemma answers_delete:
  fixes s :: StmtDelete
  assumes e: "engine_ok e" and name: "nul_free (del_table s)"
  shows "answers (execDelete s (e, d))"
  using e name
proof (cases rule: GetSchema_cases [where d = d])
  case none
  then show ?thesis using e by (auto simp: execDelete_def intro: answersI)
next
  case (found sc e')
  have "schema_ok sc" by (rule engine_table(3) [OF e name found(1)])
  then show ?thesis
  proof (cases rule: makeRange_cases [where cond = "del_cond s"])
    case (plan req)
    from execDelete_correct [OF e name found(1) plan, of d] show ?thesis by (auto intro: answersI)
  next
    case none
    then show ?thesis using found matchingRows_error [OF none] by (auto simp: execDelete_def intro: answersI)
  qed
qed

lemma answers_ExecStmt:
  assumes e: "engine_ok e" and s: "stmt_ok st" "stmt_fits e st"
  shows "answers (ExecStmt st (e, d))"
proof (cases st)
  case (Select c)
  then have "nul_free (sel_table c)" using s(1) by (simp add: stmt_ok_def ident_plain(2))
  from answers_select [OF e this] Select show ?thesis by (simp add: ExecStmt_def answers_result)
next
  case (CreatTable c)
  then have "create_ok c" using s by (auto simp: stmt_ok_def stmt_fits_def create_ok_def columns_ok_def list_all_iff ident_plain)
  from answers_create [OF e this] CreatTable show ?thesis by (simp add: ExecStmt_def answers_result)
next
  case (Insert c)
  then have "nul_free (ins_table c)" using s(1) by (simp add: stmt_ok_def ident_plain(2))
  from answers_insert [OF e this] Insert s(2) show ?thesis by (simp add: ExecStmt_def answers_result)
next
  case (Update c)
  then have "nul_free (upd_table c)" "\<forall>asn\<in>set (upd_value c). \<forall>x\<in>expr_cells (asn_expr asn). cell_ok x"
    using s(1) by (auto simp: stmt_ok_def ident_plain(2) list_all_iff expr_ok_def)
  from answers_update [OF e this(1) _ this(2)] Update s(2) show ?thesis by (simp add: ExecStmt_def answers_result)
next
  case (Delete c)
  then have "nul_free (del_table c)" using s(1) by (simp add: stmt_ok_def ident_plain(2))
  from answers_delete [OF e this, of d] obtain n err e' d' where
    "execDelete c (e, d) = Some ((n, err), e', d')" "engine_ok e'" by (auto simp: answers_def)
  then show ?thesis using Delete by (auto simp: ExecStmt_def intro: answersI)
qed

lemma answers_Exec:
  assumes e: "engine_ok e" and fits: "\<And>st. ParseStmt sql = Some (Inr st) \<Longrightarrow> stmt_fits e st"
  shows "answers (Exec sql (e, d))"
proof -
  obtain r where r: "ParseStmt sql = Some r" using ParseStmt_returns by blast
  show ?thesis
  proof (cases r)
    case (Inl err)
    then show ?thesis using r e by (auto simp: Exec_def intro: answersI)
  next
    case (Inr st)
    then have "ParseStmt sql = Some (Inr st)" using r by simp
    from answers_ExecStmt [OF e ParseStmt_ok [OF this] fits [OF this]] this show ?thesis by (simp add: Exec_def)
  qed
qed

end
