(* ===== verification/Printer.thy ===== *)
theory Printer
  imports Parsed
begin

text \<open>
  The grammar from the other side: statements printed with the parentheses their operators need and
  no others.  \<open>show_expr k\<close> prints an expression where the precedence ladder reads at level \<open>k\<close>
  (\<open>OR\<close> 0, \<open>AND\<close> 1, \<open>NOT\<close> 2, comparisons 3, sums 4, products 5, unary minus 6, atoms 7).  The
  lemmas show that the parser reads back what is printed, so that each operator binds as tightly as
  the ladder says and the binary ones associate to the left.  A name must not read as \<^verbatim>\<open>NOT\<close> or
  \<^verbatim>\<open>FROM\<close>, and an integer constant of an expression must not be negative: the parser reads a minus
  sign as an operator there.
\<close>

section \<open>Printing\<close>

fun op_prec :: "ExprOp \<Rightarrow> nat" where
  "op_prec OP_OR = 0" | "op_prec OP_AND = 1" | "op_prec OP_NOT = 2"
| "op_prec OP_ADD = 4" | "op_prec OP_SUB = 4" | "op_prec OP_MUL = 5" | "op_prec OP_DIV = 5"
| "op_prec OP_NEG = 6" | "op_prec _ = 3"

fun op_text :: "ExprOp \<Rightarrow> string" where
  "op_text OP_OR = ''OR''" | "op_text OP_AND = ''AND''" | "op_text OP_NOT = ''NOT''"
| "op_text OP_ADD = ''+''" | "op_text OP_SUB = ''-''" | "op_text OP_MUL = ''*''" | "op_text OP_DIV = ''/''"
| "op_text OP_NEG = ''-''" | "op_text OP_EQ = ''=''" | "op_text OP_NE = ''!=''"
| "op_text OP_LE = ''<=''" | "op_text OP_GE = ''>=''" | "op_text OP_LT = ''<''" | "op_text OP_GT = ''>''"

definition binary_op :: "ExprOp \<Rightarrow> bool" where
  "binary_op op \<longleftrightarrow> op \<noteq> OP_NOT \<and> op \<noteq> OP_NEG"

fun comma_join :: "string list \<Rightarrow> string" where
  "comma_join [] = []"
| "comma_join [s] = s"
| "comma_join (s # ss) = s @ '', '' @ comma_join ss"

definition show_byte :: "byte \<Rightarrow> string" where
  "show_byte w = (let c = char_of (unat w) in if c = CHR 39 \<or> c = CHR 92 then [CHR 92, c] else [c])"

definition show_value :: "Cell \<Rightarrow> string" where
  "show_value c =
     (if c_Type c = TypeI64 then int_decimal (sint (c_I64 c))
      else CHR 39 # concat (map show_byte (c_Str c)) @ [CHR 39])"

definition paren :: "bool \<Rightarrow> string \<Rightarrow> string" where
  "paren b s = (if b then ''('' @ s @ '')'' else s)"

fun show_expr :: "nat \<Rightarrow> expr \<Rightarrow> string" where
  "show_expr k (EName n) = n"
| "show_expr k (ECell c) = show_value c"
| "show_expr k (EBinOp op l r) =
     paren (op_prec op < k) (show_expr (op_prec op) l @ '' '' @ op_text op @ '' '' @ show_expr (Suc (op_prec op)) r)"
| "show_expr k (EUnOp op e) = paren (op_prec op < k) (op_text op @ '' '' @ show_expr (op_prec op) e)"
| "show_expr k (ETuple kids) = ''('' @ comma_join (map (show_expr 0) kids) @ '')''"

definition reserved :: "string \<Rightarrow> bool" where
  "reserved n \<longleftrightarrow> EqualFold n ''NOT'' \<or> EqualFold n ''FROM''"

definition name_ok :: "string \<Rightarrow> bool" where
  "name_ok n \<longleftrightarrow> n \<noteq> [] \<and> isNameStart (hd n) \<and> list_all isNameContinue n"

fun printable :: "expr \<Rightarrow> bool" where
  "printable (EName n) \<longleftrightarrow> name_ok n \<and> \<not> reserved n"
| "printable (ECell c) \<longleftrightarrow> cell_ok c \<and> (c_Type c = TypeI64 \<longrightarrow> 0 \<le> sint (c_I64 c))"
| "printable (EBinOp op l r) \<longleftrightarrow> binary_op op \<and> printable l \<and> printable r"
| "printable (EUnOp op e) \<longleftrightarrow> \<not> binary_op op \<and> printable e"
| "printable (ETuple kids) \<longleftrightarrow> 2 \<le> length kids \<and> list_all printable kids"

section \<open>Tokens\<close>

text \<open>\<open>stop\<close>: what may follow a name or a number.\<close>

definition stop :: "string \<Rightarrow> bool" where
  "stop s \<longleftrightarrow> s = [] \<or> hd s \<in> {CHR '' '', CHR '','', CHR '')''}"

lemma char_simps [simp]:
  "isSpace CHR '' ''" "\<not> isSpace CHR '',''" "\<not> isSpace CHR '')''" "\<not> isSpace CHR ''(''"
  "\<not> isNameContinue CHR '' ''" "\<not> isNameContinue CHR '',''" "\<not> isNameContinue CHR '')''" "\<not> isNameContinue CHR ''(''"
  "\<not> isDigit CHR '' ''" "\<not> isDigit CHR '',''" "\<not> isDigit CHR '')''"
  by (simp_all add: isSpace_def isNameContinue_def isAlpha_def isDigit_def Let_def)

lemma stop_chars: "stop s \<Longrightarrow> s = [] \<or> (\<not> isNameContinue (hd s) \<and> \<not> isDigit (hd s))"
  by (auto simp: stop_def)

lemma name_not_space: "isNameContinue c \<Longrightarrow> \<not> isSpace c"
  using name_chars [of c] by (auto simp: isSpace_def html_safe_def byte_val_def isNameContinue_def isAlpha_def isDigit_def Let_def)

lemma skipSpaces_Cons: "\<not> isSpace c \<Longrightarrow> skipSpaces (c # s) = c # s" "skipSpaces (CHR '' '' # s) = skipSpaces s"
  by (simp_all add: skipSpaces_def)

lemma dropWhile_stop: "list_all P xs \<Longrightarrow> r = [] \<or> \<not> P (hd r) \<Longrightarrow> takeWhile P (xs @ r) = xs \<and> dropWhile P (xs @ r) = r"
  by (cases r) (auto simp: list_all_iff)

lemma tryName_read:
  assumes "name_ok n" "stop r"
  shows "tryName (n @ r) = (Some n, r)"
proof -
  obtain c cs where n: "n = c # cs" "isNameStart c" "isNameContinue c" "list_all isNameContinue cs"
    using assms(1) by (cases n) (auto simp: name_ok_def)
  then show ?thesis
    using dropWhile_stop [OF n(4), of r] stop_chars [OF assms(2)] name_not_space [OF n(3)]
    by (auto simp: tryName_def skipSpaces_Cons)
qed

lemma isDigit_is_digit: "isDigit c = is_digit c"
  by (simp add: isDigit_def is_digit_def word_le_nat_alt)

lemma digit_facts:
  assumes "isDigit c"
  shows "\<not> isSpace c" "c \<noteq> CHR ''-''" "c \<noteq> CHR ''+''" "c \<noteq> CHR 34" "c \<noteq> CHR 39" "c \<noteq> CHR ''(''" "\<not> isNameStart c"
proof -
  have n: "isNameContinue c" using assms by (simp add: isNameContinue_def)
  then show "\<not> isSpace c" by (rule name_not_space)
  have d: "48 \<le> (of_char c :: nat)" "(of_char c :: nat) \<le> 57" using assms by (simp_all add: isDigit_is_digit is_digit_def)
  then show "c \<noteq> CHR ''-''" "c \<noteq> CHR ''+''" "c \<noteq> CHR 34" "c \<noteq> CHR 39" "c \<noteq> CHR ''(''" by auto
  show "\<not> isNameStart c"
  proof
    assume "isNameStart c"
    moreover have "c \<noteq> CHR ''_''" using d by auto
    ultimately have "97 \<le> unat ((of_char c :: byte) OR 32)" by (simp add: isNameStart_def isAlpha_def Let_def word_le_nat_alt)
    then show False using or_32 [of "of_char c"] d by auto
  qed
qed

text \<open>Constants read back.\<close>

lemma parseInt_read:
  assumes "stop r"
  shows "parseInt (int_decimal (sint n) @ r) = Inr (\<lparr>c_Type = TypeI64, c_I64 = n, c_Str = []\<rparr>, r)"
proof -
  let ?s = "int_decimal (sint n)"
  have dec: "list_all isDigit (decimal m)" for m
    using decimal_digits [of m] by (simp add: list_all_iff isDigit_is_digit)
  have cut: "takeWhile isDigit (decimal m @ r) = decimal m \<and> dropWhile isDigit (decimal m @ r) = r" for m
    using dropWhile_stop [OF dec, of r] stop_chars [OF assms] by blast
  have hd: "\<exists>d ds. decimal m = d # ds \<and> isDigit d" for m
    using dec [of m] decimal_nonempty [of m] by (cases "decimal m") auto
  have range: "- (2 ^ 63) \<le> sint n" "sint n < 2 ^ 63" using sint_ge [of n] sint_lt [of n] by simp_all
  show ?thesis
  proof (cases "sint n < 0")
    case True
    have "\<not> isSpace CHR ''-''" by (simp add: isSpace_def)
    then show ?thesis
      using True cut [of "nat (- sint n)"] range
      by (simp add: int_decimal_def parseInt_def Let_def skipSpaces_Cons ParseInt_def)
  next
    case False
    obtain d ds where d: "decimal (nat (sint n)) = d # ds" "isDigit d" using hd by blast
    have s: "skipSpaces (decimal (nat (sint n)) @ r) = decimal (nat (sint n)) @ r"
      using d digit_facts(1) by (simp add: skipSpaces_Cons)
    have sign: "(case decimal (nat (sint n)) @ r of c # _ \<Rightarrow> if c = CHR ''+'' \<or> c = CHR ''-'' then [c] else [] | [] \<Rightarrow> []) = []"
      using d digit_facts(2,3) by simp
    have "ParseInt (decimal (nat (sint n))) = Inr n"
    proof -
      have "hd (decimal (nat (sint n))) \<noteq> CHR ''-''" "hd (decimal (nat (sint n))) \<noteq> CHR ''+''"
        using d digit_facts(2,3) by simp_all
      then show ?thesis using False range by (simp add: ParseInt_def Let_def)
    qed
    moreover have "int_decimal (sint n) = decimal (nat (sint n))" using False by (simp add: int_decimal_def)
    ultimately show ?thesis
      using cut [of "nat (sint n)"] by (simp only: parseInt_def Let_def s sign) simp
  qed
qed

lemma of_char_show [simp]: "(of_char (char_of (unat w)) :: byte) = w"
proof -
  have "unat w < 256" using unsigned_less [of w, where 'a = nat] by simp
  then have "(of_char (char_of (unat w)) :: nat) = unat w" by (simp only: of_char_of mod_less)
  then have "unat (of_char (char_of (unat w)) :: byte) = unat w" by (simp only: unat_of_char)
  then show ?thesis by (simp only: word_unat_eq_iff)
qed

lemma parseString_loop_byte: "parseString_loop CHR 39 acc (show_byte w @ t) = parseString_loop CHR 39 (acc @ [w]) t"
proof -
  obtain c where c: "char_of (unat w) = c" "of_char c = w" using of_char_show [of w] by blast
  consider "c = CHR 39" | "c = CHR 92" | "c \<noteq> CHR 39 \<and> c \<noteq> CHR 92" by blast
  then show ?thesis
  proof cases
    case 1
    then have "w = 39" using c(2) by auto
    then show ?thesis using c(1) 1 by (simp add: show_byte_def Let_def)
  next
    case 2
    then have "w = 92" using c(2) by auto
    then show ?thesis using c(1) 2 by (simp add: show_byte_def Let_def)
  next
    case 3
    then show ?thesis using c by (simp add: show_byte_def Let_def)
  qed
qed

lemma parseString_loop_read: "parseString_loop CHR 39 acc (concat (map show_byte s) @ CHR 39 # r) = Inr (acc @ s, r)"
  by (induction s arbitrary: acc) (simp_all add: parseString_loop_byte)

lemma parseValue_read:
  assumes c: "cell_ok c" and r: "stop r"
  shows "parseValue (show_value c @ r) = Inr (c, r)"
proof (cases "c_Type c = TypeI64")
  case True
  then have "c = \<lparr>c_Type = TypeI64, c_I64 = c_I64 c, c_Str = []\<rparr>"
    using c by (cases c) (simp add: cell_ok_def cell_plain_def)
  then have pi: "parseInt (int_decimal (sint (c_I64 c)) @ r) = Inr (c, r)" using parseInt_read [OF r] by metis
  obtain d ds where d: "int_decimal (sint (c_I64 c)) = d # ds" "isDigit d \<or> d = CHR ''-''"
  proof (cases "sint (c_I64 c) < 0")
    case False
    have "is_digit (hd (decimal (nat (sint (c_I64 c)))))" by (rule decimal_hd)
    then show ?thesis using False that decimal_nonempty [of "nat (sint (c_I64 c))"]
      by (cases "decimal (nat (sint (c_I64 c)))") (auto simp: int_decimal_def isDigit_is_digit)
  qed (use that in \<open>simp add: int_decimal_def\<close>)
  have "\<not> isSpace d" "d \<noteq> CHR 34" "d \<noteq> CHR 39" using d(2) digit_facts(1,4,5) by (auto simp: isSpace_def)
  then show ?thesis using pi d True by (auto simp: parseValue_def show_value_def skipSpaces_Cons)
next
  case False
  then have t: "c_Type c = TypeStr" "c = \<lparr>c_Type = TypeStr, c_I64 = 0, c_Str = c_Str c\<rparr>"
    using c by (cases c, auto simp: cell_ok_def cell_plain_def cell_typed_def)+
  have q: "skipSpaces (CHR 39 # s) = CHR 39 # s" for s by (simp add: skipSpaces_Cons isSpace_def)
  have "parseString (show_value c @ r) = Inr (c, r)"
    using t parseString_loop_read [of "[]" "c_Str c" r] by (simp add: parseString_def show_value_def q)
  then show ?thesis using t(1) by (simp add: parseValue_def show_value_def q)
qed

section \<open>The levels of the ladder\<close>

definition level_toks :: "nat \<Rightarrow> binToken list" where
  "level_toks k = (if k = 0 then or_toks else if k = 1 then and_toks else if k = 3 then cmp_toks
     else if k = 4 then add_toks else if k = 5 then mul_toks else [])"

definition bin_level :: "nat \<Rightarrow> bool" where
  "bin_level k \<longleftrightarrow> k \<in> {0, 1, 3, 4, 5}"

definition parse_level :: "nat \<Rightarrow> expr parse" where
  "parse_level k = (if k = 0 then parseOr parseExpr else if k = 1 then parseAnd parseExpr else if k = 2 then parseNot parseExpr
     else if k = 3 then parseCmp parseExpr else if k = 4 then parseAdd parseExpr else if k = 5 then parseMul parseExpr
     else if k = 6 then parseNeg parseExpr else parseAtom parseExpr)"

lemma parse_level_bin: "bin_level k \<Longrightarrow> parse_level k = parseBinop (level_toks k) (parse_level (Suc k))"
  by (auto simp: bin_level_def parse_level_def level_toks_def parseOr_def parseAnd_def parseCmp_def parseAdd_def parseMul_def)

lemma parseExpr_level: "parseExpr = parse_level 0"
  by (rule ext) (simp add: parse_level_def parseExpr_unfold [symmetric])

text \<open>White space before a token does not matter.\<close>

lemma tryPunctuation_skip [simp]: "tryPunctuation pun (skipSpaces p) = tryPunctuation pun p"
  by (simp add: tryPunctuation_def Let_def)

lemma tryKeyword_skip:
  "tryKeyword [kw] p = (b, q) \<Longrightarrow> tryKeyword [kw] (skipSpaces p) = (b, if b then q else skipSpaces p) \<and> (b \<or> q = p)"
  by (auto simp: tryKeyword_def Let_def split: if_splits)

lemma parse_level_skip: "parse_level k (skipSpaces p) = parse_level k p"
proof -
  have atom: "parseAtom pe (skipSpaces p) = parseAtom pe p" for pe by (simp add: parseAtom_def)
  have neg: "parseNeg pe (skipSpaces p) = parseNeg pe p" for pe by (subst (1 2) parseNeg.simps) simp
  have bin: "f (skipSpaces p) = f p \<Longrightarrow> parseBinop toks f (skipSpaces p) = parseBinop toks f p" for toks f
    by (simp add: parseBinop_def)
  have cmp: "parseMul pe (skipSpaces p) = parseMul pe p" "parseAdd pe (skipSpaces p) = parseAdd pe p"
    "parseCmp pe (skipSpaces p) = parseCmp pe p" for pe
    unfolding parseCmp_def parseAdd_def parseMul_def by (intro bin neg)+
  have not: "parseNot pe (skipSpaces p) = parseNot pe p" for pe
  proof -
    obtain b q where t: "tryKeyword [''NOT''] p = (b, q)" by (cases "tryKeyword [''NOT''] p")
    from tryKeyword_skip [OF t] t cmp(3) show ?thesis by (subst (1 2) parseNot.simps) (cases b, auto)
  qed
  have "parseAnd pe (skipSpaces p) = parseAnd pe p" "parseOr pe (skipSpaces p) = parseOr pe p" for pe
    unfolding parseOr_def parseAnd_def by (intro bin not)+
  then show ?thesis using atom neg cmp not by (simp add: parse_level_def)
qed

lemma parse_level_space: "parse_level k (CHR '' '' # s) = parse_level k s"
  by (metis parse_level_skip skipSpaces_Cons(2))

text \<open>\<open>quiet k\<close>: no operator of level \<open>k\<close> or above follows; \<open>after k\<close>: where level \<open>k\<close> leaves the text.\<close>

definition quiet :: "nat \<Rightarrow> string \<Rightarrow> bool" where
  "quiet k r \<longleftrightarrow> (\<forall>j. bin_level j \<longrightarrow> k \<le> j \<longrightarrow> fst (tryBinTokens (level_toks j) r) = None)"

definition after :: "nat \<Rightarrow> string \<Rightarrow> string" where
  "after k r = (if k \<le> 5 then skipSpaces r else r)"

lemma skip_after [simp]: "skipSpaces (after k r) = skipSpaces r"
  by (simp add: after_def)

lemma quiet_mono: "quiet k r \<Longrightarrow> k \<le> j \<Longrightarrow> quiet j r"
  by (auto simp: quiet_def)

text \<open>Tables of punctuation: a failed look-up leaves the text after the white space.\<close>

definition puncts :: "binToken list \<Rightarrow> bool" where
  "puncts ts \<longleftrightarrow> ts \<noteq> [] \<and> list_all (\<lambda>t. bt_kw t = []) ts"

lemma tryPunctuation_cases:
  "tryPunctuation pun p = (True, drop (length pun) (skipSpaces p)) \<or> tryPunctuation pun p = (False, skipSpaces p)"
  by (simp add: tryPunctuation_def Let_def)

lemma puncts_skip: "puncts ts \<Longrightarrow> tryBinTokens ts (skipSpaces p) = tryBinTokens ts p"
  by (cases ts) (simp_all add: puncts_def tryBinToken_def)

lemma puncts_rest: "puncts ts \<Longrightarrow> tryBinTokens ts p = (None, q) \<Longrightarrow> q = skipSpaces p"
proof (induction ts)
  case (Cons t ts)
  then have kw: "bt_kw t = []" by (simp add: puncts_def)
  from tryPunctuation_cases [of "bt_pun t" p] show ?case
  proof
    assume "tryPunctuation (bt_pun t) p = (False, skipSpaces p)"
    then have ts: "tryBinTokens ts (skipSpaces p) = (None, q)" using Cons.prems kw by (simp add: tryBinToken_def)
    show ?case
    proof (cases "ts = []")
      case False
      then have "puncts ts" using Cons.prems(1) by (simp add: puncts_def)
      then show ?thesis using Cons.IH ts puncts_skip by metis
    qed (use ts in simp)
  qed (use Cons.prems kw in \<open>simp add: tryBinToken_def\<close>)
qed (simp add: puncts_def)

lemma level_puncts: "bin_level k \<Longrightarrow> 3 \<le> k \<Longrightarrow> puncts (level_toks k)"
  by (auto simp: bin_level_def level_toks_def puncts_def cmp_toks_def add_toks_def mul_toks_def)

lemma level_keyword:
  "bin_level k \<Longrightarrow> k < 3 \<Longrightarrow> \<exists>kw op. level_toks k = [\<lparr>bt_kw = kw, bt_pun = [], bt_op = op\<rparr>] \<and> kw \<noteq> []"
  by (auto simp: bin_level_def level_toks_def or_toks_def and_toks_def)

lemma tryBinTokens_rest:
  assumes "bin_level k" "fst (tryBinTokens (level_toks k) r) = None"
  shows "tryBinTokens (level_toks k) r = (None, if 3 \<le> k then skipSpaces r else r)"
proof (cases "3 \<le> k")
  case True
  then show ?thesis using puncts_rest [OF level_puncts [OF assms(1) True]] assms(2) by (metis prod.collapse)
next
  case False
  then obtain kw op where k: "level_toks k = [\<lparr>bt_kw = kw, bt_pun = [], bt_op = op\<rparr>]" "kw \<noteq> []"
    using level_keyword assms(1) by (metis not_le)
  obtain b q where t: "tryKeyword [kw] r = (b, q)" by (cases "tryKeyword [kw] r")
  then show ?thesis using tryKeyword_skip [OF t] k assms(2) False by (cases b) (auto simp: tryBinToken_def)
qed

lemma tryBinTokens_after:
  assumes "bin_level k"
  shows "fst (tryBinTokens (level_toks k) (after j r)) = fst (tryBinTokens (level_toks k) r)"
proof (cases "3 \<le> k")
  case True
  then show ?thesis using puncts_skip [OF level_puncts [OF assms True]] by (simp add: after_def)
next
  case False
  then obtain kw op where k: "level_toks k = [\<lparr>bt_kw = kw, bt_pun = [], bt_op = op\<rparr>]" "kw \<noteq> []"
    using level_keyword assms by (metis not_le)
  obtain b q where t: "tryKeyword [kw] r = (b, q)" by (cases "tryKeyword [kw] r")
  from tryKeyword_skip [OF t] t k show ?thesis by (cases b) (auto simp: after_def tryBinToken_def)
qed

lemma loop_end:
  assumes "bin_level k" "quiet k r"
  shows "parseBinop_loop (level_toks k) inner e (after (Suc k) r) = Some (Inr (e, after k r))"
proof -
  have "fst (tryBinTokens (level_toks k) (after (Suc k) r)) = None"
    using assms tryBinTokens_after [OF assms(1)] by (simp add: quiet_def)
  from tryBinTokens_rest [OF assms(1) this] show ?thesis
    using assms(1) by (subst parseBinop_loop.simps) (auto simp: bin_level_def after_def)
qed

lemma lift_level:
  assumes p: "parse_level (Suc k) p = Some (Inr (e, after (Suc k) r))" and q: "quiet k r" "k \<le> 6"
    and n: "k = 2 \<Longrightarrow> fst (tryKeyword [''NOT''] p) = False" and m: "k = 6 \<Longrightarrow> fst (tryPunctuation ''-'' p) = False"
  shows "parse_level k p = Some (Inr (e, after k r))"
proof -
  have "k = 0 \<or> k = 1 \<or> k = 2 \<or> k = 3 \<or> k = 4 \<or> k = 5 \<or> k = 6" using q(2) by presburger
  then consider "bin_level k" | "k = 2" | "k = 6" by (auto simp: bin_level_def)
  then show ?thesis
  proof cases
    case 1
    then show ?thesis using p loop_end [OF 1 q(1)] by (simp add: parse_level_bin parseBinop_def)
  next
    case 2
    then obtain q where t: "tryKeyword [''NOT''] p = (False, q)" using n by (cases "tryKeyword [''NOT''] p") auto
    then have "q = p" using tryKeyword_skip [OF t] by simp
    then show ?thesis using t p 2 by (simp add: parse_level_def after_def parseNot.simps)
  next
    case 3
    then have t: "tryPunctuation ''-'' p = (False, skipSpaces p)"
      using m by (auto simp: tryPunctuation_def Let_def split: if_splits)
    have "parseAtom parseExpr (skipSpaces p) = parseAtom parseExpr p" using parse_level_skip [of 7] by (simp add: parse_level_def)
    then show ?thesis using t p 3 by (simp add: parse_level_def after_def parseNeg.simps)
  qed
qed

lemma lift_levels:
  assumes "k \<le> j" "j \<le> 7" "quiet k r" "parse_level j p = Some (Inr (e, after j r))"
    and n: "k \<le> 2 \<Longrightarrow> 2 < j \<Longrightarrow> fst (tryKeyword [''NOT''] p) = False"
    and m: "k \<le> 6 \<Longrightarrow> 6 < j \<Longrightarrow> fst (tryPunctuation ''-'' p) = False"
  shows "parse_level k p = Some (Inr (e, after k r))"
  using assms(1)
proof (induction rule: inc_induct)
  case (step i)
  show ?case
  proof (rule lift_level [OF step.IH])
    show "quiet i r" using assms(3) step.hyps(1) by (rule quiet_mono)
    show "i \<le> 6" using step.hyps(2) assms(2) by linarith
    show "fst (tryKeyword [''NOT''] p) = False" if "i = 2" using n that step.hyps by blast
    show "fst (tryPunctuation ''-'' p) = False" if "i = 6" using m that step.hyps by blast
  qed
qed (rule assms(4))

text \<open>Operators as tokens: each level looks at the first character.\<close>

definition lead :: "nat \<Rightarrow> char set" where
  "lead k = (if k = 0 then {CHR ''o'', CHR ''O''} else if k = 1 then {CHR ''a'', CHR ''A''}
     else if k = 3 then {CHR ''<'', CHR ''>'', CHR ''!'', CHR ''=''}
     else if k = 4 then {CHR ''+'', CHR ''-''} else {CHR ''*'', CHR ''/''})"

lemma tryPunctuation_lead:
  "pun \<noteq> [] \<Longrightarrow> skipSpaces r = [] \<or> hd (skipSpaces r) \<noteq> hd pun \<Longrightarrow> tryPunctuation pun r = (False, skipSpaces r)"
  by (cases pun; cases "skipSpaces r") (auto simp: tryPunctuation_def Let_def)

lemma tryBinTokens_lead:
  "list_all (\<lambda>t. bt_kw t = [] \<and> bt_pun t \<noteq> [] \<and> (skipSpaces r = [] \<or> hd (skipSpaces r) \<noteq> hd (bt_pun t))) ts \<Longrightarrow>
   fst (tryBinTokens ts r) = None"
proof (induction ts arbitrary: r)
  case (Cons t ts)
  then show ?case using Cons.IH [of "skipSpaces r"] tryPunctuation_lead [of "bt_pun t" r] by (simp add: tryBinToken_def)
qed simp

lemma tryKeyword_miss:
  assumes "\<not> (length kw \<le> length (skipSpaces r) \<and> EqualFold (take (length kw) (skipSpaces r)) kw)"
  shows "tryKeyword [kw] r = (False, r)"
proof -
  have "length (skipSpaces r) < length kw \<or> \<not> EqualFold (take (length kw) (skipSpaces r)) kw" using assms by linarith
  then show ?thesis by (simp add: tryKeyword_def Let_def)
qed

lemma tryKeyword_lead:
  assumes "skipSpaces r = [] \<or> ascii_lower (hd (skipSpaces r)) \<noteq> ascii_lower (hd kw)" "kw \<noteq> []"
  shows "tryKeyword [kw] r = (False, r)"
proof -
  have "\<not> (length kw \<le> length (skipSpaces r) \<and> EqualFold (take (length kw) (skipSpaces r)) kw)"
  proof (cases "skipSpaces r")
    case Nil
    then show ?thesis using assms(2) by simp
  next
    case (Cons c cs)
    obtain k ks where "kw = k # ks" using assms(2) by (cases kw) auto
    then show ?thesis using assms(1) Cons by (simp add: EqualFold_def)
  qed
  then show ?thesis by (rule tryKeyword_miss)
qed

lemma ascii_lower_ao:
  "ascii_lower c = CHR ''o'' \<Longrightarrow> c \<in> {CHR ''o'', CHR ''O''}" "ascii_lower c = CHR ''a'' \<Longrightarrow> c \<in> {CHR ''a'', CHR ''A''}"
  "ascii_lower c = CHR ''n'' \<Longrightarrow> c \<in> {CHR ''n'', CHR ''N''}"
proof -
  have up: "c = d \<or> c = char_of ((of_char d :: nat) - 32)" if "ascii_lower c = d" for d
  proof (cases "65 \<le> (of_char c :: nat) \<and> (of_char c :: nat) \<le> 90")
    case True
    then have "d = char_of ((of_char c :: nat) + 32)" using that by (simp add: ascii_lower_def)
    moreover have "((of_char c :: nat) + 32) mod 256 = of_char c + 32" using True by simp
    ultimately have "(of_char d :: nat) = of_char c + 32" by (simp only: of_char_of)
    then have "(of_char d :: nat) - 32 = of_char c" by (simp only: add_diff_cancel_right')
    then show ?thesis by (simp only: char_of_char simp_thms)
  next
    case False
    then have "ascii_lower c = c" unfolding ascii_lower_def Let_def by (rule if_not_P)
    then show ?thesis using that by (simp only: simp_thms)
  qed
  have "char_of ((of_char CHR ''o'' :: nat) - 32) = CHR ''O''" "char_of ((of_char CHR ''a'' :: nat) - 32) = CHR ''A''"
    "char_of ((of_char CHR ''n'' :: nat) - 32) = CHR ''N''" by code_simp+
  then show "ascii_lower c = CHR ''o'' \<Longrightarrow> c \<in> {CHR ''o'', CHR ''O''}" "ascii_lower c = CHR ''a'' \<Longrightarrow> c \<in> {CHR ''a'', CHR ''A''}"
    "ascii_lower c = CHR ''n'' \<Longrightarrow> c \<in> {CHR ''n'', CHR ''N''}"
    using up [of "CHR ''o''"] up [of "CHR ''a''"] up [of "CHR ''n''"] by (simp_all only: insert_iff empty_iff simp_thms)
qed

lemma ascii_lower_keys: "ascii_lower CHR ''O'' = CHR ''o''" "ascii_lower CHR ''A'' = CHR ''a''" "ascii_lower CHR ''N'' = CHR ''n''"
  by code_simp+

lemma lead_quiet:
  assumes k: "bin_level k" and r: "skipSpaces r = [] \<or> hd (skipSpaces r) \<notin> lead k"
  shows "fst (tryBinTokens (level_toks k) r) = None"
proof -
  have "k = 0 \<or> k = 1 \<or> k = 3 \<or> k = 4 \<or> k = 5" using k by (simp add: bin_level_def)
  then consider "k = 0" | "k = 1" | "k \<in> {3, 4, 5}" by blast
  then show ?thesis
  proof cases
    case 1
    then have "skipSpaces r = [] \<or> ascii_lower (hd (skipSpaces r)) \<noteq> CHR ''o''"
      using r ascii_lower_ao(1) by (auto simp: lead_def)
    then have "tryKeyword [''OR''] r = (False, r)" by (intro tryKeyword_lead) (simp_all add: ascii_lower_keys)
    then show ?thesis using 1 by (simp add: level_toks_def or_toks_def tryBinToken_def)
  next
    case 2
    then have "skipSpaces r = [] \<or> ascii_lower (hd (skipSpaces r)) \<noteq> CHR ''a''"
      using r ascii_lower_ao(2) by (auto simp: lead_def)
    then have "tryKeyword [''AND''] r = (False, r)" by (intro tryKeyword_lead) (simp_all add: ascii_lower_keys)
    then show ?thesis using 2 by (simp add: level_toks_def and_toks_def tryBinToken_def)
  next
    case 3
    then show ?thesis using r
      by (intro tryBinTokens_lead) (auto simp: lead_def level_toks_def cmp_toks_def add_toks_def mul_toks_def)
  qed
qed

lemma quiet_lead: "(\<And>j. bin_level j \<Longrightarrow> k \<le> j \<Longrightarrow> skipSpaces r = [] \<or> hd (skipSpaces r) \<notin> lead j) \<Longrightarrow> quiet k r"
  by (simp add: quiet_def lead_quiet)

lemma quiet_end: "quiet k []" "quiet k (CHR '')'' # r)" "quiet k (CHR '','' # r)"
proof -
  show "quiet k []" by (rule quiet_lead) (simp add: skipSpaces_def)
  show "quiet k (CHR '')'' # r)" "quiet k (CHR '','' # r)" by (rule quiet_lead; simp add: skipSpaces_Cons lead_def)+
qed

lemma op_level: "binary_op op \<Longrightarrow> bin_level (op_prec op)"
  by (cases op) (simp_all add: binary_op_def bin_level_def)

lemma op_skip: "binary_op op \<Longrightarrow> skipSpaces (op_text op @ s) = op_text op @ s \<and> op_text op \<noteq> []"
  by (cases op) (simp_all add: binary_op_def skipSpaces_Cons isSpace_def)

lemma op_quiet:
  assumes op: "binary_op op"
  shows "quiet (Suc (op_prec op)) (CHR '' '' # op_text op @ s)"
proof (rule quiet_lead)
  fix j
  assume "bin_level j" "Suc (op_prec op) \<le> j"
  then have "hd (op_text op) \<notin> lead j"
    using op by (cases op) (auto simp: binary_op_def bin_level_def lead_def)
  then show "skipSpaces (CHR '' '' # op_text op @ s) = [] \<or> hd (skipSpaces (CHR '' '' # op_text op @ s)) \<notin> lead j"
    using op_skip [OF op] by (simp add: skipSpaces_Cons)
qed

lemma op_token0:
  assumes "binary_op op"
  shows "tryBinTokens (level_toks (op_prec op)) (op_text op @ CHR '' '' # s) = (Some op, CHR '' '' # s)"
proof -
  note s = op_skip [OF assms, of "CHR '' '' # s"]
  show ?thesis using assms s
    by (cases op)
      (simp_all add: binary_op_def level_toks_def or_toks_def and_toks_def cmp_toks_def add_toks_def mul_toks_def
        tryBinToken_def tryPunctuation_def tryKeyword_def EqualFold_def)
qed

lemma op_token:
  assumes "binary_op op"
  shows "tryBinTokens (level_toks (op_prec op)) (skipSpaces (CHR '' '' # op_text op @ CHR '' '' # s)) = (Some op, CHR '' '' # s)"
  using op_token0 [OF assms] op_skip [OF assms] by (simp add: skipSpaces_Cons)

lemma op_token_after:
  assumes "binary_op op"
  shows "tryBinTokens (level_toks (op_prec op)) (after (Suc (op_prec op)) (CHR '' '' # op_text op @ CHR '' '' # s)) =
    (Some op, CHR '' '' # s)"
proof (cases "Suc (op_prec op) \<le> 5")
  case False
  then have "3 \<le> op_prec op" by simp
  with level_puncts [OF op_level [OF assms]] have "puncts (level_toks (op_prec op))" .
  then show ?thesis using op_token [OF assms, of s] False by (simp add: after_def puncts_skip)
qed (use op_token [OF assms] in \<open>simp add: after_def\<close>)

section \<open>Expressions read back\<close>

lemma stop_Cons [simp]: "stop (CHR '' '' # s)" "stop (CHR '','' # s)" "stop (CHR '')'' # s)" "stop []"
  by (simp_all add: stop_def)

lemma not_NOT:
  assumes "c \<notin> {CHR ''n'', CHR ''N''}" "\<not> isSpace c"
  shows "fst (tryKeyword [''NOT''] (c # s)) = False"
proof -
  have "ascii_lower c \<noteq> CHR ''n''" using assms(1) ascii_lower_ao(3) by blast
  then have "tryKeyword [''NOT''] (c # s) = (False, c # s)"
    using assms(2) by (intro tryKeyword_lead) (simp_all add: skipSpaces_Cons ascii_lower_keys)
  then show ?thesis by simp
qed

lemma NOT_lower: "map ascii_lower ''NOT'' = ''not''"
  by code_simp

lemma name_NOT:
  assumes n: "name_ok n" "\<not> EqualFold n ''NOT''" and r: "stop r"
  shows "fst (tryKeyword [''NOT''] (n @ r)) = False"
proof -
  have all: "list_all isNameContinue n" "n \<noteq> []" using n(1) by (simp_all add: name_ok_def)
  then have sp: "skipSpaces (n @ r) = n @ r"
    by (cases n) (auto simp: skipSpaces_Cons dest: name_not_space)
  consider "length n < 3" | "length n = 3" | "3 < length n" by linarith
  then show ?thesis
  proof cases
    case 1
    show ?thesis
    proof (cases "EqualFold (take 3 (n @ r)) ''NOT'' \<and> 3 \<le> length (n @ r)")
      case True
      then have r0: "r \<noteq> []" using 1 by auto
      have "take 3 (n @ r) ! length n = hd r" "length n < length (take 3 (n @ r))"
        using 1 True r0 by (simp_all add: nth_append hd_conv_nth)
      then have "hd r \<in> set (take 3 (n @ r))" by (metis nth_mem)
      then have "ascii_lower (hd r) \<in> set (map ascii_lower (take 3 (n @ r)))" unfolding set_map by (rule imageI)
      then have "ascii_lower (hd r) \<in> {CHR ''n'', CHR ''o'', CHR ''t''}"
        using True unfolding EqualFold_def by (simp only: NOT_lower) simp
      moreover have "hd r \<in> {CHR '' '', CHR '','', CHR '')''}" using r r0 by (simp add: stop_def)
      ultimately have False by (elim insertE emptyE) (simp_all add: ascii_lower_def)
      then show ?thesis ..
    next
      case False
      then have "tryKeyword [''NOT''] (n @ r) = (False, n @ r)"
        using sp by (intro tryKeyword_miss) (auto simp: numeral_3_eq_3)
      then show ?thesis by simp
    qed
  next
    case 2
    then show ?thesis using sp n(2) by (simp add: tryKeyword_def)
  next
    case 3
    then have "drop 3 n \<noteq> []" "isNameContinue (hd (drop 3 n))"
      using all(1) by (simp_all add: list_all_iff hd_drop_conv_nth)
    then show ?thesis using sp by (simp add: tryKeyword_def Let_def numeral_3_eq_3)
  qed
qed

text \<open>An operand of a comparison never starts with the keyword \<^verbatim>\<open>NOT\<close>, an atom never with a minus sign.\<close>

lemma show_value_head:
  assumes "cell_ok c"
  obtains d ds where "show_value c = d # ds" "isDigit d \<or> d = CHR 39 \<or> d = CHR ''-''"
    "isDigit d \<or> d = CHR 39 \<or> sint (c_I64 c) < 0"
proof (cases "c_Type c = TypeI64 \<and> 0 \<le> sint (c_I64 c)")
  case True
  have "is_digit (hd (decimal (nat (sint (c_I64 c)))))" by (rule decimal_hd)
  moreover obtain d ds where d: "decimal (nat (sint (c_I64 c))) = d # ds"
    using decimal_nonempty [of "nat (sint (c_I64 c))"] by (cases "decimal (nat (sint (c_I64 c)))") auto
  ultimately show ?thesis using True that [of d ds] by (simp add: show_value_def int_decimal_def isDigit_is_digit)
next
  case False
  show ?thesis
  proof (cases "c_Type c = TypeI64")
    case True
    then show ?thesis using False that [of "CHR ''-''"] by (simp add: show_value_def int_decimal_def)
  qed (use that [of "CHR 39"] in \<open>simp add: show_value_def\<close>)
qed

lemma digit_not_n: "isDigit d \<Longrightarrow> d \<notin> {CHR ''n'', CHR ''N''}"
  by (auto simp: isDigit_def)

lemma head_NOT:
  "printable e \<Longrightarrow> 3 \<le> k \<Longrightarrow> stop r \<Longrightarrow> fst (tryKeyword [''NOT''] (show_expr k e @ r)) = False"
proof (induction e arbitrary: k r)
  case (EName n)
  then show ?case using name_NOT [of n r] by (simp add: reserved_def)
next
  case (ECell c)
  then have "cell_ok c" by simp
  then obtain d ds where d: "show_value c = d # ds" "isDigit d \<or> d = CHR 39 \<or> d = CHR ''-''"
    by (rule show_value_head)
  then have "d \<notin> {CHR ''n'', CHR ''N''}" "\<not> isSpace d" using digit_not_n digit_facts(1) by (auto simp: isSpace_def)
  then show ?case using d not_NOT [of d "ds @ r"] by simp
next
  case (EBinOp op l e)
  have "fst (tryKeyword [''NOT''] (show_expr (op_prec op) l @ CHR '' '' # s)) = False" if "k \<le> op_prec op" for s
    using EBinOp.IH(1) [of "op_prec op" "CHR '' '' # s"] EBinOp.prems that by simp
  then show ?case using not_NOT [of "CHR ''(''"] by (simp add: paren_def)
next
  case (EUnOp op e)
  then have "op = OP_NOT \<or> op = OP_NEG" by (auto simp: binary_op_def)
  then show ?case using EUnOp.prems(2) not_NOT [of "CHR ''(''"] not_NOT [of "CHR ''-''"]
    by (auto simp: paren_def isSpace_def)
next
  case (ETuple kids)
  then show ?case using not_NOT [of "CHR ''(''"] by simp
qed

text \<open>\<open>reads_back j s e\<close>: level \<open>j\<close> reads \<open>s\<close> as \<open>e\<close> before any text that does not go on with it.\<close>

definition reads_back :: "nat \<Rightarrow> string \<Rightarrow> expr \<Rightarrow> bool" where
  "reads_back j s e \<longleftrightarrow> (\<forall>r. stop r \<longrightarrow> quiet j r \<longrightarrow> parse_level j (s @ r) = Some (Inr (e, after j r)))"

lemma paren_back:
  assumes "reads_back 0 s e"
  shows "reads_back 7 (''('' @ s @ '')'') e"
  unfolding reads_back_def
proof (intro allI impI)
  fix r
  have "parseExpr (s @ CHR '')'' # r) = Some (Inr (e, CHR '')'' # r))"
    using assms quiet_end(2) by (simp add: reads_back_def parseExpr_level after_def skipSpaces_Cons)
  then have "commaList (tuple_item parseExpr) [] (s @ CHR '')'' # r) = Some (Inr ([e], CHR '')'' # r))"
    by (subst commaList.simps) (simp add: tuple_item_def tryPunctuation_def skipSpaces_Cons)
  then show "parse_level 7 ((''('' @ s @ '')'') @ r) = Some (Inr (e, after 7 r))"
    by (simp add: parse_level_def parseAtom_def parseTuple_def tryPunctuation_def skipSpaces_Cons after_def)
qed

lemma climb_back:
  assumes b: "reads_back j s e" and "k \<le> j" "j \<le> 7"
    and n: "\<And>r. stop r \<Longrightarrow> 2 < j \<Longrightarrow> fst (tryKeyword [''NOT''] (s @ r)) = False"
    and m: "\<And>r. j = 7 \<Longrightarrow> fst (tryPunctuation ''-'' (s @ r)) = False"
  shows "reads_back k s e"
  unfolding reads_back_def
proof (intro allI impI)
  fix r
  assume r: "stop r" "quiet k r"
  then have "parse_level j (s @ r) = Some (Inr (e, after j r))"
    using b quiet_mono [OF r(2) assms(2)] by (simp add: reads_back_def)
  then show "parse_level k (s @ r) = Some (Inr (e, after k r))"
  proof (rule lift_levels [OF assms(2,3) r(2)])
    show "fst (tryKeyword [''NOT''] (s @ r)) = False" if "2 < j" using n [OF r(1)] that by blast
    show "fst (tryPunctuation ''-'' (s @ r)) = False" if "6 < j" using m [of r] that assms(3) by simp
  qed
qed

lemma level_back:
  assumes b: "reads_back j s e" and j: "j \<le> 7" and k: "k \<le> 7"
    and n: "\<And>r. stop r \<Longrightarrow> 2 < j \<Longrightarrow> fst (tryKeyword [''NOT''] (s @ r)) = False"
    and m: "\<And>r. j = 7 \<Longrightarrow> fst (tryPunctuation ''-'' (s @ r)) = False"
  shows "reads_back k (paren (j < k) s) e"
proof (cases "j < k")
  case True
  have "reads_back 0 s e" by (rule climb_back [OF b le0 j n m])
  then have "reads_back 7 (''('' @ s @ '')'') e" by (rule paren_back)
  then have "reads_back k (''('' @ s @ '')'') e"
  proof (rule climb_back [OF _ k])
    show "fst (tryKeyword [''NOT''] ((''('' @ s @ '')'') @ r)) = False" for r
      using not_NOT [of "CHR ''(''"] by simp
    show "fst (tryPunctuation ''-'' ((''('' @ s @ '')'') @ r)) = False" for r
      by (simp add: tryPunctuation_def skipSpaces_Cons)
  qed simp
  then show ?thesis using True by (simp add: paren_def)
next
  case False
  then have kj: "k \<le> j" by simp
  have "reads_back k s e" by (rule climb_back [OF b kj j n m])
  then show ?thesis using False by (simp add: paren_def)
qed

text \<open>The left operand of a binary operator: its level reads it and goes on with the operators that follow.\<close>

definition loops_back :: "nat \<Rightarrow> string \<Rightarrow> expr \<Rightarrow> bool" where
  "loops_back j s e \<longleftrightarrow> (\<forall>r. stop r \<longrightarrow> quiet (Suc j) r \<longrightarrow>
     parse_level j (s @ r) = parseBinop_loop (level_toks j) (parse_level (Suc j)) e (after (Suc j) r))"

lemma loops_reads: "bin_level j \<Longrightarrow> loops_back j s e \<Longrightarrow> reads_back j s e"
  using loop_end quiet_mono [of j _ "Suc j"] by (simp add: loops_back_def reads_back_def)

lemma reads_loops: "bin_level j \<Longrightarrow> reads_back (Suc j) s e \<Longrightarrow> loops_back j s e"
  by (simp add: loops_back_def reads_back_def parse_level_bin parseBinop_def)

lemma binop_loops:
  assumes op: "binary_op op" and l: "loops_back (op_prec op) s l" and e: "reads_back (Suc (op_prec op)) t e"
  shows "loops_back (op_prec op) (s @ '' '' @ op_text op @ '' '' @ t) (EBinOp op l e)"
  unfolding loops_back_def
proof (intro allI impI)
  fix r
  assume r: "stop r" "quiet (Suc (op_prec op)) r"
  let ?loop = "parseBinop_loop (level_toks (op_prec op)) (parse_level (Suc (op_prec op)))"
  have "parse_level (op_prec op) (s @ CHR '' '' # op_text op @ CHR '' '' # t @ r) =
      ?loop l (after (Suc (op_prec op)) (CHR '' '' # op_text op @ CHR '' '' # t @ r))"
    using l op_quiet [OF op] by (simp add: loops_back_def)
  also have "\<dots> = ?loop (EBinOp op l e) (after (Suc (op_prec op)) r)"
    using e r op_token_after [OF op, of "t @ r"]
    by (subst parseBinop_loop.simps) (simp add: reads_back_def parse_level_space)
  finally show "parse_level (op_prec op) ((s @ '' '' @ op_text op @ '' '' @ t) @ r) =
      ?loop (EBinOp op l e) (after (Suc (op_prec op)) r)" by simp
qed

lemma not_back:
  assumes "reads_back 2 s e"
  shows "reads_back 2 (''NOT '' @ s) (EUnOp OP_NOT e)"
  unfolding reads_back_def
proof (intro allI impI)
  fix r
  assume "stop r" "quiet 2 r"
  then have "parseNot parseExpr (CHR '' '' # s @ r) = Some (Inr (e, after 2 r))"
    using assms parse_level_space [of 2] by (simp add: reads_back_def parse_level_def)
  moreover have "tryKeyword [''NOT''] (''NOT'' @ CHR '' '' # s @ r) = (True, CHR '' '' # s @ r)"
    by (simp add: tryKeyword_def skipSpaces_Cons isSpace_def EqualFold_def)
  ultimately show "parse_level 2 ((''NOT '' @ s) @ r) = Some (Inr (EUnOp OP_NOT e, after 2 r))"
    by (simp add: parse_level_def parseNot.simps)
qed

lemma neg_back:
  assumes "reads_back 6 s e"
  shows "reads_back 6 (''- '' @ s) (EUnOp OP_NEG e)"
  unfolding reads_back_def
proof (intro allI impI)
  fix r
  assume "stop r" "quiet 6 r"
  then have "parseNeg parseExpr (CHR '' '' # s @ r) = Some (Inr (e, after 6 r))"
    using assms parse_level_space [of 6] by (simp add: reads_back_def parse_level_def)
  moreover have "tryPunctuation ''-'' (CHR ''-'' # CHR '' '' # s @ r) = (True, CHR '' '' # s @ r)"
    by (simp add: tryPunctuation_def skipSpaces_Cons isSpace_def)
  ultimately show "parse_level 6 ((''- '' @ s) @ r) = Some (Inr (EUnOp OP_NEG e, after 6 r))"
    by (simp add: parse_level_def parseNeg.simps)
qed

text \<open>A list of items, each read up to the comma or the end, with what has been collected folded in.\<close>

lemma tryPunctuation_space [simp]: "tryPunctuation pun (CHR '' '' # s) = tryPunctuation pun s"
  by (simp add: tryPunctuation_def skipSpaces_Cons)

definition item_back :: "('s \<Rightarrow> 's parse) \<Rightarrow> ('x \<Rightarrow> string) \<Rightarrow> ('s \<Rightarrow> 'x \<Rightarrow> 's) \<Rightarrow> 'x \<Rightarrow> bool" where
  "item_back item sh f x \<longleftrightarrow> (\<forall>acc r. stop r \<longrightarrow> quiet 0 r \<longrightarrow>
     (\<exists>q. item acc (sh x @ r) = Some (Inr (f acc x, q)) \<and> skipSpaces q = skipSpaces r))"

lemma item_backD:
  "item_back item sh f x \<Longrightarrow> stop r \<Longrightarrow> quiet 0 r \<Longrightarrow>
   \<exists>q. item acc (sh x @ r) = Some (Inr (f acc x, q)) \<and> skipSpaces q = skipSpaces r"
  by (simp add: item_back_def)

lemma tryPunctuation_same: "skipSpaces q = skipSpaces r \<Longrightarrow> tryPunctuation pun q = tryPunctuation pun r"
  by (simp add: tryPunctuation_def)

lemma commas_read:
  assumes sp: "\<And>acc p. item acc (CHR '' '' # p) = item acc p"
    and z: "stop z" "quiet 0 z" "tryPunctuation '','' z = (False, skipSpaces z)"
  shows "xs \<noteq> [] \<Longrightarrow> list_all (item_back item sh f) xs \<Longrightarrow>
    commaList item acc (comma_join (map sh xs) @ z) = Some (Inr (foldl f acc xs, skipSpaces z))"
proof (induction xs arbitrary: acc)
  case (Cons x xs)
  show ?case
  proof (cases xs)
    case Nil
    have "item_back item sh f x" using Cons.prems(2) by simp
    from item_backD [OF this z(1,2)] obtain q where
      q: "item acc (sh x @ z) = Some (Inr (f acc x, q))" "skipSpaces q = skipSpaces z" by blast
    then show ?thesis using z(3) tryPunctuation_same [OF q(2)] Nil by (subst commaList.simps) simp
  next
    case (Cons y ys)
    let ?rest = "comma_join (map sh xs) @ z"
    have step: "commaList item acc' (CHR '' '' # ?rest) = commaList item acc' ?rest" for acc'
      by (subst (1 2) commaList.simps) (simp only: sp)
    have ih: "commaList item (f acc x) ?rest = Some (Inr (foldl f acc (x # xs), skipSpaces z))"
      using Cons.IH [of "f acc x"] Cons.prems(2) Cons by simp
    have x: "item_back item sh f x" using Cons.prems(2) by simp
    have shown: "comma_join (map sh (x # xs)) @ z = sh x @ CHR '','' # CHR '' '' # ?rest" using Cons by simp
    obtain q where q: "item acc (sh x @ CHR '','' # CHR '' '' # ?rest) = Some (Inr (f acc x, q))"
      "skipSpaces q = skipSpaces (CHR '','' # CHR '' '' # ?rest)"
      using item_backD [OF x] quiet_end(3) by (metis stop_Cons(2))
    have "tryPunctuation '','' q = (True, CHR '' '' # ?rest)"
      unfolding tryPunctuation_same [OF q(2)] by (simp add: tryPunctuation_def skipSpaces_Cons)
    with q(1) show ?thesis unfolding shown
      by (subst commaList.simps) (simp only: option.case sum.case prod.case if_True step ih)
  qed
qed simp

lemma close_paren: "stop (CHR '')'' # r)" "quiet 0 (CHR '')'' # r)" "tryPunctuation '','' (CHR '')'' # r) = (False, skipSpaces (CHR '')'' # r))"
  "skipSpaces (CHR '')'' # r) = CHR '')'' # r"
  by (simp_all add: quiet_end tryPunctuation_def skipSpaces_Cons)

lemma foldl_snoc [simp]: "foldl (\<lambda>acc x. acc @ [x]) acc xs = acc @ xs"
  by (induction xs arbitrary: acc) simp_all

lemma parseExpr_back:
  "reads_back 0 s e \<Longrightarrow> stop r \<Longrightarrow> quiet 0 r \<Longrightarrow> parseExpr (s @ r) = Some (Inr (e, skipSpaces r))"
  "parseExpr (CHR '' '' # p) = parseExpr p"
  using parse_level_space [of 0] by (simp_all add: reads_back_def parseExpr_level after_def)

lemma tuple_back:
  assumes kids: "2 \<le> length kids" "\<forall>e\<in>set kids. reads_back 0 (show_expr 0 e) e"
  shows "reads_back 7 (show_expr k (ETuple kids)) (ETuple kids)"
  unfolding reads_back_def
proof (intro allI impI)
  fix r
  have sp: "tuple_item parseExpr acc (CHR '' '' # p) = tuple_item parseExpr acc p" for acc p
    by (simp add: tuple_item_def parseExpr_back(2))
  have items: "list_all (item_back (tuple_item parseExpr) (show_expr 0) (\<lambda>acc x. acc @ [x])) kids"
    using kids(2) by (auto simp: list_all_iff item_back_def tuple_item_def parseExpr_back(1))
  have "kids \<noteq> []" using kids(1) by auto
  from commas_read [OF sp close_paren(1-3) this items, of "[]" r] kids(1)
  show "parse_level 7 (show_expr k (ETuple kids) @ r) = Some (Inr (ETuple kids, after 7 r))"
    by (simp add: parse_level_def parseAtom_def parseTuple_def tryPunctuation_def skipSpaces_Cons after_def)
qed

lemma quote_facts: "\<not> isSpace CHR 39" "CHR 39 \<noteq> CHR ''-''" "CHR 39 \<noteq> CHR ''(''" "\<not> isNameStart CHR 39"
  by code_simp+

lemma value_back:
  assumes c: "printable (ECell c)"
  shows "reads_back 7 (show_value c) (ECell c)" and "fst (tryPunctuation ''-'' (show_value c @ r)) = False"
proof -
  have ok: "cell_ok c" using c by simp
  then obtain d ds where d: "show_value c = d # ds" "isDigit d \<or> d = CHR 39 \<or> d = CHR ''-''"
    "isDigit d \<or> d = CHR 39 \<or> sint (c_I64 c) < 0" by (rule show_value_head)
  have "c_Type c \<noteq> TypeI64 \<Longrightarrow> d = CHR 39" using d(1) by (simp add: show_value_def)
  then have dd: "isDigit d \<or> d = CHR 39" using c d(3) by auto
  have f: "\<not> isSpace d" "d \<noteq> CHR ''-''" "d \<noteq> CHR ''(''" "\<not> isNameStart d"
    using dd digit_facts(1,2,6,7) [of d] quote_facts by blast+
  show "fst (tryPunctuation ''-'' (show_value c @ r)) = False"
    using d(1) f by (simp add: tryPunctuation_def skipSpaces_Cons)
  show "reads_back 7 (show_value c) (ECell c)"
    unfolding reads_back_def
  proof (intro allI impI)
    fix q
    assume "stop q"
    then have "parseValue (show_value c @ q) = Inr (c, q)" by (rule parseValue_read [OF ok])
    then show "parse_level 7 (show_value c @ q) = Some (Inr (ECell c, after 7 q))"
      using d(1) f by (simp add: parse_level_def parseAtom_def after_def skipSpaces_Cons tryName_def)
  qed
qed

lemma name_back:
  assumes n: "name_ok n"
  shows "reads_back 7 n (EName n)" and "fst (tryPunctuation ''-'' (n @ r)) = False"
proof -
  obtain c cs where c: "n = c # cs" "isNameStart c" "\<not> isSpace c"
    using n name_not_space by (cases n) (auto simp: name_ok_def)
  then have f: "c \<noteq> CHR ''-''" "c \<noteq> CHR ''(''" by (auto simp: isNameStart_def isAlpha_def Let_def)
  show "fst (tryPunctuation ''-'' (n @ r)) = False" using c f by (simp add: tryPunctuation_def skipSpaces_Cons)
  show "reads_back 7 n (EName n)"
    unfolding reads_back_def
  proof (intro allI impI)
    fix q
    assume "stop q"
    then show "parse_level 7 (n @ q) = Some (Inr (EName n, after 7 q))"
      using tryName_read [OF n, of q] c f by (simp add: parse_level_def parseAtom_def after_def skipSpaces_Cons)
  qed
qed

text \<open>Every printable expression is read back at every level, and as a left operand at the binary ones.\<close>

lemma show_back:
  "printable e \<Longrightarrow> (\<forall>k\<le>7. reads_back k (show_expr k e) e) \<and> (\<forall>j. bin_level j \<longrightarrow> loops_back j (show_expr j e) e)"
proof (induction e)
  case (EName n)
  have "reads_back k n (EName n)" if "k \<le> 7" for k
    using level_back [OF name_back(1), of n k] name_back(2) [of n] name_NOT [of n] that EName
    by (simp add: paren_def reserved_def)
  then show ?case by (auto intro: reads_loops simp: bin_level_def)
next
  case (ECell c)
  have "reads_back k (show_value c) (ECell c)" if "k \<le> 7" for k
    using level_back [OF value_back(1), of c k] value_back(2) [of c] head_NOT [of "ECell c" 3] that ECell
    by (simp add: paren_def)
  then show ?case by (auto intro: reads_loops simp: bin_level_def)
next
  case (EBinOp op l e)
  let ?j = "op_prec op" and ?s = "show_expr (op_prec op) l @ '' '' @ op_text op @ '' '' @ show_expr (Suc (op_prec op)) e"
  have op: "binary_op op" and j: "bin_level ?j" "Suc ?j \<le> 7" using EBinOp.prems op_level [of op] by (auto simp: bin_level_def)
  have loops: "loops_back ?j ?s (EBinOp op l e)"
    using EBinOp.IH EBinOp.prems j by (intro binop_loops [OF op]) simp_all
  have n: "fst (tryKeyword [''NOT''] (?s @ r)) = False" if "stop r" "2 < ?j" for r
    using head_NOT [of l ?j "CHR '' '' # op_text op @ CHR '' '' # show_expr (Suc ?j) e @ r"] EBinOp.prems that by simp
  have all: "reads_back k (show_expr k (EBinOp op l e)) (EBinOp op l e)" if "k \<le> 7" for k
    using level_back [OF loops_reads [OF j(1) loops] _ that n] j by simp
  moreover have "loops_back i (show_expr i (EBinOp op l e)) (EBinOp op l e)" if i: "bin_level i" for i
  proof (cases "i = ?j")
    case False
    then have "show_expr i (EBinOp op l e) = show_expr (Suc i) (EBinOp op l e)"
      by (simp add: paren_def less_Suc_eq)
    moreover have "Suc i \<le> 7" using i by (auto simp: bin_level_def)
    ultimately show ?thesis using all [of "Suc i"] reads_loops [OF i] by metis
  qed (use loops in \<open>simp add: paren_def\<close>)
  ultimately show ?case by blast
next
  case (EUnOp op e)
  then have "op = OP_NOT \<or> op = OP_NEG" by (auto simp: binary_op_def)
  moreover have "\<forall>k\<le>7. reads_back k (show_expr k e) e" using EUnOp by simp
  ultimately have b: "reads_back (op_prec op) (op_text op @ '' '' @ show_expr (op_prec op) e) (EUnOp op e)"
    and j: "op_prec op = 2 \<or> op = OP_NEG" using not_back neg_back by auto
  have all: "reads_back k (show_expr k (EUnOp op e)) (EUnOp op e)" if "k \<le> 7" for k
    using level_back [OF b _ that] j not_NOT [of "CHR ''-''"] by (auto simp: isSpace_def)
  moreover have "loops_back i (show_expr i (EUnOp op e)) (EUnOp op e)" if i: "bin_level i" for i
  proof -
    have "op_prec op \<noteq> i" using j i by (auto simp: bin_level_def)
    then have "show_expr i (EUnOp op e) = show_expr (Suc i) (EUnOp op e)"
      by (simp add: paren_def less_Suc_eq)
    moreover have "Suc i \<le> 7" using i by (auto simp: bin_level_def)
    ultimately show ?thesis using all [of "Suc i"] reads_loops [OF i] by metis
  qed
  ultimately show ?case by blast
next
  case (ETuple kids)
  then have kids: "2 \<le> length kids" "\<forall>e\<in>set kids. reads_back 0 (show_expr 0 e) e" by (auto simp: list_all_iff)
  have "reads_back k (show_expr k (ETuple kids)) (ETuple kids)" if "k \<le> 7" for k
    using level_back [OF tuple_back [OF kids], of k k] that not_NOT [of "CHR ''(''"]
    by (simp add: paren_def tryPunctuation_def skipSpaces_Cons)
  then show ?case by (auto intro: reads_loops simp: bin_level_def)
qed

end
