(* ===== verification/Printed.thy ===== *)
theory Printed
  imports Printer
begin

text \<open>
  Statements printed and read back: \<open>show_stmt\<close> writes the statement \<open>ParseStmt\<close> reads, in every form
  \<^verbatim>\<open>sql/parse_stmt.go\<close> has.  Names may be any the lexer accepts, keywords among them; only an output
  expression or a condition has to avoid \<^verbatim>\<open>NOT\<close> and \<^verbatim>\<open>FROM\<close> as columns.
\<close>

section \<open>Printing\<close>

definition show_where :: "expr option \<Rightarrow> string" where
  "show_where cond = (case cond of None \<Rightarrow> [] | Some e \<Rightarrow> '' WHERE '' @ show_expr 0 e)"

definition show_column :: "Column \<Rightarrow> string" where
  "show_column c = col_Name c @ (if col_Type c = TypeI64 then '' int64'' else '' string'')"

definition show_assign :: "ExprAssign \<Rightarrow> string" where
  "show_assign a = asn_column a @ '' = '' @ show_expr 0 (asn_expr a)"

fun show_stmt :: "stmt \<Rightarrow> string" where
  "show_stmt (Select c) =
     ''SELECT '' @ comma_join (map (show_expr 0) (sel_cols c)) @ '' FROM '' @ sel_table c @ show_where (sel_cond c)"
| "show_stmt (CreatTable c) =
     ''CREATE TABLE '' @ ct_table c @ '' ('' @
       comma_join (map show_column (ct_cols c) @ [''PRIMARY KEY ('' @ comma_join (ct_pkey c) @ '')'']) @ '')''"
| "show_stmt (Insert c) = ''INSERT INTO '' @ ins_table c @ '' VALUES ('' @ comma_join (map show_value (ins_value c)) @ '')''"
| "show_stmt (Update c) =
     ''UPDATE '' @ upd_table c @ '' SET '' @ comma_join (map show_assign (upd_value c)) @ show_where (upd_cond c)"
| "show_stmt (Delete c) = ''DELETE FROM '' @ del_table c @ show_where (del_cond c)"

fun where_printable :: "expr option \<Rightarrow> bool" where
  "where_printable None \<longleftrightarrow> True"
| "where_printable (Some e) \<longleftrightarrow> printable e"

fun printable_stmt :: "stmt \<Rightarrow> bool" where
  "printable_stmt (Select c) \<longleftrightarrow> name_ok (sel_table c) \<and> sel_cols c \<noteq> [] \<and> list_all printable (sel_cols c) \<and> where_printable (sel_cond c)"
| "printable_stmt (CreatTable c) \<longleftrightarrow> name_ok (ct_table c) \<and> ct_cols c \<noteq> [] \<and> ct_pkey c \<noteq> [] \<and> list_all name_ok (ct_pkey c) \<and>
     list_all (\<lambda>c. name_ok (col_Name c) \<and> (col_Type c = TypeI64 \<or> col_Type c = TypeStr)) (ct_cols c)"
| "printable_stmt (Insert c) \<longleftrightarrow> name_ok (ins_table c) \<and> ins_value c \<noteq> [] \<and> list_all cell_ok (ins_value c)"
| "printable_stmt (Update c) \<longleftrightarrow> name_ok (upd_table c) \<and> upd_value c \<noteq> [] \<and>
     list_all (\<lambda>a. name_ok (asn_column a) \<and> printable (asn_expr a)) (upd_value c) \<and> where_printable (upd_cond c)"
| "printable_stmt (Delete c) \<longleftrightarrow> name_ok (del_table c) \<and> where_printable (del_cond c)"

section \<open>Keywords\<close>

definition keyword :: "string \<Rightarrow> bool" where
  "keyword kw \<longleftrightarrow> kw \<noteq> [] \<and> \<not> isSpace (hd kw) \<and>
     list_all (\<lambda>c. ascii_lower c \<notin> {CHR '' '', CHR '','', CHR '')''}) kw"

lemma keyword_words [simp]:
  "keyword ''SELECT''" "keyword ''CREATE''" "keyword ''TABLE''" "keyword ''INSERT''" "keyword ''INTO''" "keyword ''UPDATE''"
  "keyword ''DELETE''" "keyword ''FROM''" "keyword ''WHERE''" "keyword ''VALUES''" "keyword ''SET''" "keyword ''PRIMARY''"
  "keyword ''KEY''" "keyword ''int64''" "keyword ''string''" "keyword ''NOT''"
  by code_simp+

lemma keyword_hit:
  "keyword kw \<Longrightarrow> s = [] \<or> \<not> isNameContinue (hd s) \<Longrightarrow> tryKeyword_loop saved (kw # kws) (kw @ s) = tryKeyword_loop saved kws s"
  by (cases kw) (auto simp: keyword_def skipSpaces_Cons EqualFold_def)

lemma tryKeyword_loop_space [simp]: "tryKeyword_loop saved (kw # kws) (CHR '' '' # s) = tryKeyword_loop saved (kw # kws) s"
  by (simp add: skipSpaces_Cons)

lemma tryKeyword_loop_miss:
  "\<not> (length kw \<le> length (skipSpaces p) \<and> EqualFold (take (length kw) (skipSpaces p)) kw) \<Longrightarrow>
   tryKeyword_loop saved (kw # kws) p = (False, saved)"
  by (auto simp: Let_def)

text \<open>A name is a keyword or is not: what follows it cannot complete one.\<close>

lemma keyword_name:
  assumes n: "name_ok n" and r: "stop r" and kw: "keyword kw"
  shows "tryKeyword_loop saved (kw # kws) (n @ r) = (if EqualFold n kw then tryKeyword_loop saved kws r else (False, saved))"
proof -
  have all: "list_all isNameContinue n" "n \<noteq> []" using n by (simp_all add: name_ok_def)
  then have sp: "skipSpaces (n @ r) = n @ r" by (cases n) (auto simp: skipSpaces_Cons dest: name_not_space)
  consider "length n < length kw" | "length n = length kw" | "length kw < length n" by linarith
  then show ?thesis
  proof cases
    case 1
    have "\<not> (length kw \<le> length (n @ r) \<and> EqualFold (take (length kw) (n @ r)) kw)"
    proof
      assume a: "length kw \<le> length (n @ r) \<and> EqualFold (take (length kw) (n @ r)) kw"
      then have r0: "r \<noteq> []" using 1 by auto
      have "take (length kw) (n @ r) ! length n = hd r" "length n < length (take (length kw) (n @ r))"
        using 1 a r0 by (simp_all add: nth_append hd_conv_nth)
      then have "hd r \<in> set (take (length kw) (n @ r))" by (metis nth_mem)
      then have "ascii_lower (hd r) \<in> set (map ascii_lower (take (length kw) (n @ r)))" unfolding set_map by (rule imageI)
      then have "ascii_lower (hd r) \<in> set (map ascii_lower kw)" using a by (simp only: EqualFold_def)
      moreover have "ascii_lower (hd r) = hd r" "hd r \<in> {CHR '' '', CHR '','', CHR '')''}"
        using r r0 by (auto simp: stop_def ascii_lower_def)
      ultimately show False using kw by (auto simp: keyword_def list_all_iff)
    qed
    moreover have "\<not> EqualFold n kw" using 1 unfolding EqualFold_def by (metis length_map less_irrefl)
    ultimately show ?thesis using sp tryKeyword_loop_miss [of kw "n @ r"] by simp
  next
    case 2
    then show ?thesis using sp stop_chars [OF r] by (auto simp: Let_def)
  next
    case 3
    then have "drop (length kw) n \<noteq> []" "isNameContinue (hd (drop (length kw) n))"
      using all(1) by (simp_all add: list_all_iff hd_drop_conv_nth)
    moreover have "\<not> EqualFold n kw" using 3 unfolding EqualFold_def by (metis length_map less_irrefl)
    ultimately show ?thesis using sp by (simp add: Let_def)
  qed
qed

text \<open>No output expression starts with the keyword \<^verbatim>\<open>FROM\<close>.\<close>

lemma F_lower: "ascii_lower CHR ''F'' = CHR ''f''"
  by code_simp

lemma not_FROM:
  assumes "ascii_lower c \<noteq> CHR ''f''" "\<not> isSpace c"
  shows "fst (tryKeyword [''FROM''] (c # s)) = False"
proof -
  have "tryKeyword [''FROM''] (c # s) = (False, c # s)"
    using assms by (intro tryKeyword_lead) (simp_all add: skipSpaces_Cons F_lower)
  then show ?thesis by simp
qed

lemma not_f: "ascii_lower CHR ''('' \<noteq> CHR ''f''" "ascii_lower CHR ''-'' \<noteq> CHR ''f''" "ascii_lower CHR ''N'' \<noteq> CHR ''f''"
  "ascii_lower CHR 39 \<noteq> CHR ''f''" "ascii_lower CHR '','' \<noteq> CHR ''f''" "\<not> isSpace CHR ''N''" "\<not> isSpace CHR ''-''" "\<not> isSpace CHR 39"
  by code_simp+

lemma digit_not_f: "isDigit d \<Longrightarrow> ascii_lower d \<noteq> CHR ''f''"
  by (auto simp: isDigit_is_digit is_digit_def ascii_lower_def)

lemma head_FROM:
  "printable e \<Longrightarrow> stop r \<Longrightarrow> fst (tryKeyword [''FROM''] (show_expr k e @ r)) = False"
proof (induction e arbitrary: k r)
  case (EName n)
  then show ?case using keyword_name [of n r "''FROM''" "n @ r" "[]"] by (simp add: reserved_def tryKeyword_def del: tryKeyword_loop.simps)
next
  case (ECell c)
  then have "cell_ok c" by simp
  then obtain d ds where d: "show_value c = d # ds" "isDigit d \<or> d = CHR 39 \<or> d = CHR ''-''"
    by (rule show_value_head)
  then have "ascii_lower d \<noteq> CHR ''f''" "\<not> isSpace d" using digit_not_f digit_facts(1) not_f by auto
  then show ?case using d not_FROM [of d "ds @ r"] by simp
next
  case (EBinOp op l e)
  have "fst (tryKeyword [''FROM''] (show_expr (op_prec op) l @ CHR '' '' # s)) = False" for s
    using EBinOp.IH(1) [of "CHR '' '' # s" "op_prec op"] EBinOp.prems by simp
  then show ?case using not_FROM [OF not_f(1)] by (simp add: paren_def)
next
  case (EUnOp op e)
  then have "op = OP_NOT \<or> op = OP_NEG" by (auto simp: binary_op_def)
  then show ?case using not_FROM [OF not_f(1)] not_FROM [OF not_f(2)] not_FROM [OF not_f(3)] not_f
    by (auto simp: paren_def)
next
  case (ETuple kids)
  then show ?case using not_FROM [OF not_f(1)] by simp
qed

section \<open>Statements read back\<close>

lemma run_bind: "f p = Some (Inr (x, q)) \<Longrightarrow> parse_bind f g p = g x q"
  by (simp add: parse_bind_def)

lemma run_if: "parse_if t f g p = (if fst (t p) then f else g) (snd (t p))"
  by (simp add: parse_if_def split: prod.split bool.split)

lemma run_require: "t p = (True, q) \<Longrightarrow> require t msg f p = f q"
  by (simp add: require_def run_if)

lemma tryName_space [simp]: "tryName (CHR '' '' # p) = tryName p"
  by (simp add: tryName_def skipSpaces_Cons)

lemma run_name: "name_ok n \<Longrightarrow> stop r \<Longrightarrow> require_name msg f (n @ r) = f n r"
  by (simp add: require_name_def tryName_read)

lemma run_name_space [simp]: "require_name msg f (CHR '' '' # p) = require_name msg f p"
  by (simp add: require_name_def)

lemma read_table: "name_ok n \<Longrightarrow> stop r \<Longrightarrow> tableName (CHR '' '' # n @ r) = Some (Inr (n, r))"
  by (simp add: tableName_def run_name parse_ret_def)

lemma read_punct:
  "tryPunctuation ''('' (CHR ''('' # s) = (True, s)" "tryPunctuation '')'' (CHR '')'' # s) = (True, s)"
  "tryPunctuation ''='' (CHR ''='' # s) = (True, s)" "tryPunctuation '','' (CHR '','' # s) = (True, s)"
  by (simp_all add: tryPunctuation_def skipSpaces_Cons isSpace_def)

lemma hit_keyword: "keyword kw \<Longrightarrow> tryKeyword [kw] (kw @ CHR '' '' # s) = (True, CHR '' '' # s)"
  using keyword_hit [of kw "CHR '' '' # s" _ "[]"] by (simp add: tryKeyword_def del: tryKeyword_loop.simps(2))

lemma tryKeyword_saved:
  "tryKeyword_loop s kws p = (if fst (tryKeyword_loop s' kws p) then tryKeyword_loop s' kws p else (False, s))"
  by (induction kws arbitrary: p) (simp_all add: Let_def)

lemma tryKeyword_space:
  "tryKeyword (kw # kws) (CHR '' '' # p) =
    (if fst (tryKeyword (kw # kws) p) then tryKeyword (kw # kws) p else (False, CHR '' '' # p))"
  unfolding tryKeyword_def tryKeyword_loop_space by (rule tryKeyword_saved)

lemma tryKeyword_fails: "\<not> fst (tryKeyword kws p) \<Longrightarrow> snd (tryKeyword kws p) = p"
  using tryKeyword_loop_le [of p kws p] by (cases "tryKeyword kws p") (simp add: tryKeyword_def)

lemma hit_space: "tryKeyword [kw] p = (True, q) \<Longrightarrow> tryKeyword [kw] (CHR '' '' # p) = (True, q)"
  by (simp add: tryKeyword_space)

lemma printable_back: "printable e \<Longrightarrow> reads_back 0 (show_expr 0 e) e"
  using show_back by simp

text \<open>What follows an output list, a \<^verbatim>\<open>SET\<close> list, a table.\<close>

lemma keyword_marks:
  "\<not> isNameContinue CHR ''<''" "\<not> isNameContinue CHR ''>''" "\<not> isNameContinue CHR ''!''" "\<not> isNameContinue CHR ''=''"
  "\<not> isNameContinue CHR ''+''" "\<not> isNameContinue CHR ''-''" "\<not> isNameContinue CHR ''*''" "\<not> isNameContinue CHR ''/''"
  by code_simp+

lemma keyword_quiet:
  assumes "c \<notin> {CHR ''o'', CHR ''O'', CHR ''a'', CHR ''A''}" "isNameContinue c"
  shows "quiet 0 (CHR '' '' # c # s)"
proof (rule quiet_lead)
  fix j
  have sp: "\<not> isSpace c" by (rule name_not_space [OF assms(2)])
  have "c \<notin> {CHR ''<'', CHR ''>'', CHR ''!'', CHR ''='', CHR ''+'', CHR ''-'', CHR ''*'', CHR ''/''}"
    using assms(2) keyword_marks by auto
  then have "c \<notin> lead j" using assms(1) by (simp add: lead_def)
  then show "skipSpaces (CHR '' '' # c # s) = [] \<or> hd (skipSpaces (CHR '' '' # c # s)) \<notin> lead j"
    using sp by (simp add: skipSpaces_Cons)
qed

lemma where_tail: "stop (show_where cond)" "quiet 0 (show_where cond)"
  using keyword_quiet [of "CHR ''W''"] quiet_end(1) by (auto simp: show_where_def isNameContinue_def isAlpha_def split: option.split)

lemma miss_lead:
  assumes "skipSpaces p = [] \<or> ascii_lower (hd (skipSpaces p)) \<noteq> ascii_lower (hd kw)" "kw \<noteq> []"
  shows "tryKeyword (kw # kws) p = (False, p)"
proof -
  have "\<not> (length kw \<le> length (skipSpaces p) \<and> EqualFold (take (length kw) (skipSpaces p)) kw)"
    using assms by (cases kw; cases "skipSpaces p") (auto simp: EqualFold_def)
  then show ?thesis unfolding tryKeyword_def by (rule tryKeyword_loop_miss)
qed

lemma read_where:
  assumes "where_printable cond"
  shows "\<exists>q. parseWhere (skipSpaces (show_where cond)) = Some (Inr (cond, q)) \<and> skipSpaces q = []"
    and "\<exists>q. parseWhere (show_where cond) = Some (Inr (cond, q)) \<and> skipSpaces q = []"
proof -
  have "(\<exists>q. parseWhere (skipSpaces (show_where cond)) = Some (Inr (cond, q)) \<and> skipSpaces q = []) \<and>
    (\<exists>q. parseWhere (show_where cond) = Some (Inr (cond, q)) \<and> skipSpaces q = [])"
  proof (cases cond)
    case None
    have "tryKeyword [''WHERE''] [] = (False, [])" by (simp add: tryKeyword_def skipSpaces_def)
    then show ?thesis using None by (simp add: parseWhere_def show_where_def run_if parse_ret_def skipSpaces_def)
  next
    case (Some e)
    have hit: "tryKeyword [''WHERE''] (''WHERE'' @ CHR '' '' # s) = (True, CHR '' '' # s)" for s by (rule hit_keyword) simp
    have e: "parseExpr (CHR '' '' # show_expr 0 e) = Some (Inr (e, []))"
      using parseExpr_back(1) [OF printable_back, of e "[]"] assms Some quiet_end(1)
      by (simp add: parseExpr_back(2)) (simp add: skipSpaces_def)
    have "parseWhere (''WHERE'' @ CHR '' '' # show_expr 0 e) = Some (Inr (cond, []))"
      using hit e Some by (simp only: parseWhere_def run_if fst_conv snd_conv if_True run_bind) (simp add: parse_ret_def)
    moreover have "parseWhere (CHR '' '' # ''WHERE'' @ CHR '' '' # show_expr 0 e) = Some (Inr (cond, []))"
      using hit_space [OF hit] e Some by (simp only: parseWhere_def run_if fst_conv snd_conv if_True run_bind) (simp add: parse_ret_def)
    ultimately show ?thesis using Some by (simp add: show_where_def skipSpaces_Cons isSpace_def) (simp add: skipSpaces_def)
  qed
  then show "\<exists>q. parseWhere (skipSpaces (show_where cond)) = Some (Inr (cond, q)) \<and> skipSpaces q = []"
    and "\<exists>q. parseWhere (show_where cond) = Some (Inr (cond, q)) \<and> skipSpaces q = []" by blast+
qed

text \<open>\<open>reads_all f s x\<close>: the parser \<open>f\<close> reads the whole of \<open>s\<close> as \<open>x\<close>.\<close>

definition reads_all :: "'a parse \<Rightarrow> string \<Rightarrow> 'a \<Rightarrow> bool" where
  "reads_all f s x \<longleftrightarrow> (\<exists>q. f s = Some (Inr (x, q)) \<and> skipSpaces q = [])"

lemma reads_allI: "f s = Some (Inr (x, q)) \<Longrightarrow> skipSpaces q = [] \<Longrightarrow> reads_all f s x"
  by (auto simp: reads_all_def)

lemma reads_all_step: "f s = g t \<Longrightarrow> reads_all g t x \<Longrightarrow> reads_all f s x"
  by (simp add: reads_all_def)

lemma reads_all_where:
  assumes "where_printable cond" "p = show_where cond \<or> p = skipSpaces (show_where cond)" "h cond = x"
  shows "reads_all (parse_bind parseWhere (\<lambda>c. parse_ret (h c))) p x"
  using read_where [OF assms(1)] assms(2,3) unfolding reads_all_def
  by (auto simp: parse_bind_def parse_ret_def)

lemma read_delete:
  assumes "printable_stmt (Delete c)"
  shows "reads_all parseDelete (CHR '' '' # del_table c @ show_where (del_cond c)) c"
proof (rule reads_all_step)
  show "parseDelete (CHR '' '' # del_table c @ show_where (del_cond c)) =
      parse_bind parseWhere (\<lambda>cond. parse_ret \<lparr>del_table = del_table c, del_cond = cond\<rparr>) (show_where (del_cond c))"
    unfolding parseDelete_def using assms where_tail(1) by (intro run_bind read_table) simp_all
qed (rule reads_all_where [where cond = "del_cond c"], use assms in simp_all)

text \<open>\<^verbatim>\<open>SELECT\<close>: the output list up to \<^verbatim>\<open>FROM\<close>.\<close>

definition cols_tail :: "expr list \<Rightarrow> string \<Rightarrow> string" where
  "cols_tail es z = concat (map (\<lambda>e. '', '' @ show_expr 0 e) es) @ '' FROM '' @ z"

lemma comma_join_tail: "comma_join (map (show_expr 0) (e # es)) @ '' FROM '' @ z = show_expr 0 e @ cols_tail es z"
  by (induction es arbitrary: e) (simp_all add: cols_tail_def)

lemma cols_tail_next: "stop (cols_tail es z)" "quiet 0 (cols_tail es z)"
  using keyword_quiet [of "CHR ''F''"] quiet_end(3)
  by (cases es; simp add: cols_tail_def isNameContinue_def isAlpha_def)+

lemma select_cols_next:
  assumes "tryKeyword [''FROM''] p = (False, p)" "(if cols \<noteq> [] then tryPunctuation '','' p else (True, p)) = (True, q)"
    and "parseExpr q = Some (Inr (e, r))"
  shows "parseSelect_cols cols p = parseSelect_cols (cols @ [e]) r"
  using assms by (subst parseSelect_cols.simps) (simp split: if_splits)

lemma read_cols:
  "list_all printable es \<Longrightarrow> cols \<noteq> [] \<Longrightarrow>
   parseSelect_cols cols (skipSpaces (cols_tail es z)) = Some (Inr (cols @ es, CHR '' '' # z))"
proof (induction es arbitrary: cols)
  case Nil
  have "tryKeyword [''FROM''] (''FROM'' @ CHR '' '' # z) = (True, CHR '' '' # z)" by (rule hit_keyword) simp
  then show ?case by (subst parseSelect_cols.simps) (simp add: cols_tail_def skipSpaces_Cons isSpace_def)
next
  case (Cons e es)
  let ?t = "CHR '' '' # show_expr 0 e @ cols_tail es z"
  have shown: "skipSpaces (cols_tail (e # es) z) = CHR '','' # ?t" by (simp add: cols_tail_def skipSpaces_Cons)
  have "tryKeyword [''FROM''] (CHR '','' # ?t) = (False, CHR '','' # ?t)"
    by (rule miss_lead) (simp_all add: skipSpaces_Cons F_lower not_f)
  moreover have "parseExpr ?t = Some (Inr (e, skipSpaces (cols_tail es z)))"
    using parseExpr_back(1) [OF printable_back cols_tail_next] Cons.prems(1) by (simp add: parseExpr_back(2))
  ultimately have "parseSelect_cols cols (CHR '','' # ?t) = parseSelect_cols (cols @ [e]) (skipSpaces (cols_tail es z))"
    using Cons.prems(2) by (intro select_cols_next) (simp_all add: read_punct)
  then show ?case using Cons.IH [of "cols @ [e]"] Cons.prems shown by simp
qed

lemma read_select:
  assumes "printable_stmt (Select c)"
  shows "reads_all parseSelect (CHR '' '' # comma_join (map (show_expr 0) (sel_cols c)) @ '' FROM '' @ sel_table c @ show_where (sel_cond c)) c"
proof -
  let ?z = "sel_table c @ show_where (sel_cond c)"
  obtain e es where es: "sel_cols c = e # es" using assms by (cases "sel_cols c") auto
  have p: "printable e" "list_all printable es" using assms es by auto
  let ?s = "show_expr 0 e @ cols_tail es ?z"
  have "fst (tryKeyword [''FROM''] ?s) = False" using head_FROM [OF p(1) cols_tail_next(1)] by simp
  then have "tryKeyword [''FROM''] (CHR '' '' # ?s) = (False, CHR '' '' # ?s)" by (simp add: tryKeyword_space)
  moreover have "parseExpr (CHR '' '' # ?s) = Some (Inr (e, skipSpaces (cols_tail es ?z)))"
    using parseExpr_back(1) [OF printable_back cols_tail_next] p(1) by (simp add: parseExpr_back(2))
  ultimately have "parseSelect_cols [] (CHR '' '' # ?s) = parseSelect_cols [e] (skipSpaces (cols_tail es ?z))"
    using select_cols_next [of "CHR '' '' # ?s" "[]"] by simp
  then have cols: "parseSelect_cols [] (CHR '' '' # ?s) = Some (Inr (sel_cols c, CHR '' '' # ?z))"
    using read_cols [OF p(2), of "[e]"] es by simp
  show ?thesis
  proof (rule reads_all_step)
    show "parseSelect (CHR '' '' # comma_join (map (show_expr 0) (sel_cols c)) @ '' FROM '' @ ?z) =
        parse_bind parseWhere (\<lambda>cond. parse_ret \<lparr>sel_table = sel_table c, sel_cols = sel_cols c, sel_cond = cond\<rparr>)
          (show_where (sel_cond c))"
      unfolding parseSelect_def es comma_join_tail using cols es assms where_tail(1) read_table [of "sel_table c"]
      by (simp add: run_bind)
  qed (rule reads_all_where [where cond = "sel_cond c"], use assms in simp_all)
qed

text \<open>\<^verbatim>\<open>INSERT\<close>, \<^verbatim>\<open>UPDATE\<close> and \<^verbatim>\<open>CREATE TABLE\<close>: lists of items.\<close>

lemma parseValue_space: "parseValue (CHR '' '' # p) = parseValue p"
  by (simp add: parseValue_def parseString_def parseInt_def skipSpaces_Cons)

lemma value_item_back: "cell_ok c \<Longrightarrow> item_back value_item show_value (\<lambda>acc x. acc @ [x]) c"
  by (simp add: item_back_def value_item_def parseValue_read)

lemma read_insert:
  assumes "printable_stmt (Insert c)"
  shows "reads_all parseInsert (CHR '' '' # ins_table c @ '' VALUES ('' @ comma_join (map show_value (ins_value c)) @ '')'') c"
proof -
  let ?v = "comma_join (map show_value (ins_value c)) @ '')''"
  have table: "tableName (CHR '' '' # ins_table c @ CHR '' '' # ''VALUES'' @ CHR '' '' # CHR ''('' # ?v) =
      Some (Inr (ins_table c, CHR '' '' # ''VALUES'' @ CHR '' '' # CHR ''('' # ?v))"
    using assms by (intro read_table) simp_all
  have vals: "tryKeyword [''VALUES''] (CHR '' '' # ''VALUES'' @ CHR '' '' # CHR ''('' # ?v) = (True, CHR '' '' # CHR ''('' # ?v)"
    by (rule hit_space, rule hit_keyword) simp
  have items: "list_all (item_back value_item show_value (\<lambda>acc x. acc @ [x])) (ins_value c)"
    using assms by (auto simp: list_all_iff value_item_back)
  have sp: "value_item acc (CHR '' '' # p) = value_item acc p" for acc p by (simp add: value_item_def parseValue_space)
  have list: "commaList value_item [] ?v = Some (Inr (ins_value c, '')''))"
    using commas_read [OF sp close_paren(1-3) _ items, of "[]" "[]"] assms by (simp add: close_paren(4))
  have "parseInsert (CHR '' '' # ins_table c @ CHR '' '' # ''VALUES'' @ CHR '' '' # CHR ''('' # ?v) = Some (Inr (c, []))"
    unfolding parseInsert_def
    by (simp add: run_bind table run_require vals run_require read_punct run_bind list parse_ret_def
        del: append_Cons append_Nil)
  then show ?thesis using reads_allI [of parseInsert _ c "[]"] by (simp add: skipSpaces_def)
qed

lemma assign_item_back:
  assumes "name_ok (asn_column a)" "printable (asn_expr a)"
  shows "item_back assign_item show_assign (\<lambda>acc x. acc @ [x]) a"
  unfolding item_back_def
proof (intro allI impI)
  fix acc r
  assume r: "stop r" "quiet 0 r"
  have e: "parseExpr (CHR '' '' # show_expr 0 (asn_expr a) @ r) = Some (Inr (asn_expr a, skipSpaces r))"
    using parseExpr_back(1) [OF printable_back r] assms(2) by (simp add: parseExpr_back(2))
  have "assign_item acc (asn_column a @ CHR '' '' # CHR ''='' # CHR '' '' # show_expr 0 (asn_expr a) @ r) =
      Some (Inr (acc @ [a], skipSpaces r))"
    unfolding assign_item_def
    using assms(1) by (simp add: run_name run_require read_punct run_bind e parse_ret_def)
  then show "\<exists>q. assign_item acc (show_assign a @ r) = Some (Inr (acc @ [a], q)) \<and> skipSpaces q = skipSpaces r"
    by (simp add: show_assign_def)
qed

lemma read_update:
  assumes "printable_stmt (Update c)"
  shows "reads_all parseUpdate (CHR '' '' # upd_table c @ '' SET '' @ comma_join (map show_assign (upd_value c)) @ show_where (upd_cond c)) c"
proof -
  let ?w = "show_where (upd_cond c)"
  let ?v = "comma_join (map show_assign (upd_value c)) @ ?w"
  have table: "tableName (CHR '' '' # upd_table c @ CHR '' '' # ''SET'' @ CHR '' '' # ?v) =
      Some (Inr (upd_table c, CHR '' '' # ''SET'' @ CHR '' '' # ?v))"
    using assms by (intro read_table) simp_all
  have kw: "tryKeyword [''SET''] (CHR '' '' # ''SET'' @ CHR '' '' # ?v) = (True, CHR '' '' # ?v)"
    by (rule hit_space, rule hit_keyword) simp
  have sp: "assign_item acc (CHR '' '' # p) = assign_item acc p" for acc p by (simp add: assign_item_def)
  have items: "list_all (item_back assign_item show_assign (\<lambda>acc x. acc @ [x])) (upd_value c)"
    using assms by (auto simp: list_all_iff assign_item_back)
  have comma: "tryPunctuation '','' ?w = (False, skipSpaces ?w)"
    by (cases "upd_cond c") (simp_all add: show_where_def tryPunctuation_def skipSpaces_Cons isSpace_def skipSpaces_def)
  have "commaList assign_item [] (CHR '' '' # ?v) = commaList assign_item [] ?v"
    by (subst (1 2) commaList.simps) (simp only: sp)
  then have list: "commaList assign_item [] (CHR '' '' # ?v) = Some (Inr (upd_value c, skipSpaces ?w))"
    using commas_read [OF sp where_tail comma _ items, of "[]"] assms by simp
  show ?thesis
  proof (rule reads_all_step)
    show "parseUpdate (CHR '' '' # upd_table c @ '' SET '' @ ?v) =
        parse_bind parseWhere (\<lambda>cond. parse_ret \<lparr>upd_table = upd_table c, upd_cond = cond, upd_value = upd_value c\<rparr>) (skipSpaces ?w)"
      using table kw list unfolding parseUpdate_def by (simp add: run_bind run_require)
  qed (rule reads_all_where [where cond = "upd_cond c"], use assms in simp_all)
qed

text \<open>The items of \<^verbatim>\<open>CREATE TABLE\<close>: columns, then the primary key.\<close>

definition show_item :: "Column + string list \<Rightarrow> string" where
  "show_item x = (case x of Inl c \<Rightarrow> show_column c | Inr pk \<Rightarrow> ''PRIMARY KEY ('' @ comma_join pk @ '')'')"

definition add_item :: "Column list \<times> string list \<Rightarrow> Column + string list \<Rightarrow> Column list \<times> string list" where
  "add_item = (\<lambda>(cols, pkey) x. case x of Inl c \<Rightarrow> (cols @ [c], pkey) | Inr pk \<Rightarrow> (cols, pkey @ pk))"

lemma type_words: "ascii_lower CHR ''K'' \<noteq> ascii_lower CHR ''i''" "ascii_lower CHR ''K'' \<noteq> ascii_lower CHR ''s''"
  "ascii_lower CHR ''s'' \<noteq> ascii_lower CHR ''i''" "\<not> isSpace CHR ''i''" "\<not> isSpace CHR ''s''"
  by code_simp+

lemma create_col_back:
  assumes n: "name_ok (col_Name c)" and t: "col_Type c = TypeI64 \<or> col_Type c = TypeStr"
  shows "item_back create_item show_item add_item (Inl c)"
  unfolding item_back_def
proof (intro allI impI)
  fix acc :: "Column list \<times> string list" and r
  assume r: "stop r"
  obtain cols pkey where acc: "acc = (cols, pkey)" by (cases acc)
  define ty where "ty = (if col_Type c = TypeI64 then ''int64'' else ''string'')"
  let ?t = "CHR '' '' # ty @ r"
  have "tryKeyword [''KEY''] ?t = (False, ?t)"
    by (rule miss_lead) (simp_all add: ty_def skipSpaces_Cons type_words not_sym [OF type_words(1)] not_sym [OF type_words(2)])
  then have "tryKeyword_loop s [''KEY''] ?t = (False, s)" for s
    using tryKeyword_saved [of s "[''KEY'']" ?t ?t] by (simp add: tryKeyword_def del: tryKeyword_loop.simps)
  then have pk: "tryKeyword [''PRIMARY'', ''KEY''] (col_Name c @ ?t) = (False, col_Name c @ ?t)"
    unfolding tryKeyword_def using keyword_name [OF n _ keyword_words(12), of ?t] by (simp del: tryKeyword_loop.simps)
  have end': "r = [] \<or> \<not> isNameContinue (hd r)" using stop_chars [OF r] by blast
  have types: "parse_if (tryKeyword [''int64'']) (parse_ret (cols @ [\<lparr>col_Name = col_Name c, col_Type = TypeI64\<rparr>], pkey))
      (parse_if (tryKeyword [''string'']) (parse_ret (cols @ [\<lparr>col_Name = col_Name c, col_Type = TypeStr\<rparr>], pkey)) f) ?t =
      Some (Inr ((cols @ [c], pkey), r))" for f
  proof (cases "col_Type c = TypeI64")
    case True
    then have "tryKeyword [''int64''] ?t = (True, r)"
      using keyword_hit [of "''int64''" r _ "[]"] end' by (intro hit_space) (simp add: ty_def tryKeyword_def del: tryKeyword_loop.simps(2))
    then show ?thesis using True by (simp add: run_if parse_ret_def)
  next
    case False
    then have hit: "tryKeyword [''string''] ?t = (True, r)"
      using keyword_hit [of "''string''" r _ "[]"] end' by (intro hit_space) (simp add: ty_def tryKeyword_def del: tryKeyword_loop.simps(2))
    have "tryKeyword [''int64''] ?t = (False, ?t)"
      by (rule miss_lead) (use False type_words in \<open>simp_all add: ty_def skipSpaces_Cons\<close>)
    then show ?thesis using False t hit by (simp add: run_if parse_ret_def)
  qed
  have "create_item acc (col_Name c @ ?t) = Some (Inr (add_item acc (Inl c), r))"
    unfolding create_item_def acc prod.case
    by (simp add: run_if [of "tryKeyword [''PRIMARY'', ''KEY'']"] pk run_name [OF n] types add_item_def)
  then show "\<exists>q. create_item acc (show_item (Inl c) @ r) = Some (Inr (add_item acc (Inl c), q)) \<and> skipSpaces q = skipSpaces r"
    by (auto simp: show_item_def show_column_def ty_def split: if_splits)
qed

lemma create_key_back:
  assumes pk: "pk \<noteq> []" "list_all name_ok pk"
  shows "item_back create_item show_item add_item (Inr pk)"
  unfolding item_back_def
proof (intro allI impI)
  fix acc :: "Column list \<times> string list" and r
  assume r: "stop r"
  obtain cols pkey where acc: "acc = (cols, pkey)" by (cases acc)
  have sp: "pkey_item s (CHR '' '' # p) = pkey_item s p" for s p by (simp add: pkey_item_def)
  have items: "list_all (item_back pkey_item (\<lambda>n. n) (\<lambda>acc x. acc @ [x])) pk"
    using pk(2) by (auto simp: list_all_iff item_back_def pkey_item_def run_name parse_ret_def)
  have list: "commaList pkey_item pkey (comma_join pk @ CHR '')'' # r) = Some (Inr (pkey @ pk, CHR '')'' # r))"
    using commas_read [OF sp close_paren(1-3) pk(1) items, of pkey r] by (simp add: close_paren(4))
  let ?p = "CHR '' '' # CHR ''('' # comma_join pk @ CHR '')'' # r"
  have "tryKeyword_loop s [''KEY''] (CHR '' '' # ''KEY'' @ ?p) = (True, ?p)" for s
    unfolding tryKeyword_loop_space using keyword_hit [of "''KEY''" ?p s "[]"] by (simp del: tryKeyword_loop.simps(2))
  then have kw: "tryKeyword [''PRIMARY'', ''KEY''] (''PRIMARY'' @ CHR '' '' # ''KEY'' @ ?p) = (True, ?p)"
    unfolding tryKeyword_def using keyword_hit [of "''PRIMARY''" "CHR '' '' # ''KEY'' @ ?p"] by (simp del: tryKeyword_loop.simps)
  have "create_item acc (''PRIMARY'' @ CHR '' '' # ''KEY'' @ ?p) = Some (Inr (add_item acc (Inr pk), r))"
    unfolding create_item_def acc prod.case run_if kw fst_conv snd_conv if_True
    by (simp add: run_require read_punct run_bind list parse_ret_def add_item_def)
  then show "\<exists>q. create_item acc (show_item (Inr pk) @ r) = Some (Inr (add_item acc (Inr pk), q)) \<and> skipSpaces q = skipSpaces r"
    by (auto simp: show_item_def)
qed

lemma foldl_cols: "foldl add_item (cols, pkey) (map Inl cs) = (cols @ cs, pkey)"
  by (induction cs arbitrary: cols) (simp_all add: add_item_def)

lemma read_create:
  assumes "printable_stmt (CreatTable c)"
  shows "reads_all parseCreateTable (CHR '' '' # ct_table c @ '' ('' @
    comma_join (map show_column (ct_cols c) @ [''PRIMARY KEY ('' @ comma_join (ct_pkey c) @ '')'']) @ '')'') c"
proof -
  let ?xs = "map Inl (ct_cols c) @ [Inr (ct_pkey c)]"
  have shown: "map show_column (ct_cols c) @ [''PRIMARY KEY ('' @ comma_join (ct_pkey c) @ '')''] = map show_item ?xs"
    by (simp add: show_item_def)
  let ?v = "comma_join (map show_item ?xs) @ '')''"
  have table: "tableName (CHR '' '' # ct_table c @ CHR '' '' # CHR ''('' # ?v) = Some (Inr (ct_table c, CHR '' '' # CHR ''('' # ?v))"
    using assms by (intro read_table) simp_all
  have items: "list_all (item_back create_item show_item add_item) ?xs"
    using assms by (auto simp: list_all_iff intro: create_col_back create_key_back)
  have sp: "create_item acc (CHR '' '' # p) = create_item acc p" for acc p
  proof -
    obtain cols pkey where "acc = (cols, pkey)" by (cases acc)
    then show ?thesis by (simp add: create_item_def run_if tryKeyword_space tryKeyword_fails)
  qed
  have list: "commaList create_item ([], []) ?v = Some (Inr ((ct_cols c, ct_pkey c), '')''))"
    using commas_read [OF sp close_paren(1-3) _ items, of "([], [])" "[]"] by (simp add: close_paren(4) foldl_cols) (simp add: add_item_def)
  have "parseCreateTable (CHR '' '' # ct_table c @ '' ('' @ ?v) = Some (Inr (c, []))"
    using table list assms unfolding parseCreateTable_def by (simp add: run_bind run_require read_punct parse_ret_def)
  then show ?thesis unfolding shown using reads_allI [of parseCreateTable _ c "[]"] by (simp add: skipSpaces_def)
qed

text \<open>The first word of a statement.\<close>

lemma first_words:
  "s \<in> {CHR ''S'', CHR ''C'', CHR ''I'', CHR ''U'', CHR ''D''} \<Longrightarrow> t \<in> {CHR ''S'', CHR ''C'', CHR ''I'', CHR ''U'', CHR ''D''} \<Longrightarrow>
   ascii_lower s = ascii_lower t \<longleftrightarrow> s = t" "s \<in> {CHR ''S'', CHR ''C'', CHR ''I'', CHR ''U'', CHR ''D''} \<Longrightarrow> \<not> isSpace s"
  by (auto simp: ascii_lower_def isSpace_def)

lemma miss_word:
  assumes "c \<in> {CHR ''S'', CHR ''C'', CHR ''I'', CHR ''U'', CHR ''D''}" "k \<in> {CHR ''S'', CHR ''C'', CHR ''I'', CHR ''U'', CHR ''D''}" "k \<noteq> c"
  shows "tryKeyword ((k # kw) # kws) (c # s) = (False, c # s)"
  using first_words(1) [OF assms(1,2)] first_words(2) [OF assms(1)] assms(3)
  by (intro miss_lead) (auto simp: skipSpaces_Cons)

lemma hit_words: "keyword kw \<Longrightarrow> keyword kw' \<Longrightarrow> tryKeyword [kw, kw'] (kw @ CHR '' '' # kw' @ CHR '' '' # s) = (True, CHR '' '' # s)"
  using keyword_hit [of kw "CHR '' '' # kw' @ CHR '' '' # s" _ "[kw']"] keyword_hit [of kw' "CHR '' '' # s" _ "[]"]
  by (simp add: tryKeyword_def del: tryKeyword_loop.simps(2))

lemma read_body: "reads_all f s x \<Longrightarrow> reads_all (parse_bind f (parse_ret \<circ> g)) s (g x)"
  by (auto simp: reads_all_def parse_bind_def parse_ret_def)

lemma stmt_body_back: "printable_stmt s \<Longrightarrow> reads_all stmt_body (show_stmt s) s"
proof (cases s)
  case (Select c)
  assume p: "printable_stmt s"
  have hit: "tryKeyword [''SELECT''] (''SELECT'' @ CHR '' '' # r) = (True, CHR '' '' # r)" for r by (rule hit_keyword) simp
  show ?thesis
  proof (rule reads_all_step)
    show "stmt_body (show_stmt s) = parse_bind parseSelect (parse_ret \<circ> Select)
        (CHR '' '' # comma_join (map (show_expr 0) (sel_cols c)) @ '' FROM '' @ sel_table c @ show_where (sel_cond c))"
      using hit Select by (simp add: stmt_body_def run_if)
    show "reads_all (parse_bind parseSelect (parse_ret \<circ> Select))
        (CHR '' '' # comma_join (map (show_expr 0) (sel_cols c)) @ '' FROM '' @ sel_table c @ show_where (sel_cond c)) s"
      using read_body [OF read_select [of c]] Select p by blast
  qed
next
  case (CreatTable c)
  assume p: "printable_stmt s"
  have hit: "tryKeyword [''CREATE'', ''TABLE''] (''CREATE'' @ CHR '' '' # ''TABLE'' @ CHR '' '' # r) = (True, CHR '' '' # r)" for r
    by (rule hit_words) simp_all
  let ?r = "CHR '' '' # ct_table c @ '' ('' @
    comma_join (map show_column (ct_cols c) @ [''PRIMARY KEY ('' @ comma_join (ct_pkey c) @ '')'']) @ '')''"
  show ?thesis
  proof (rule reads_all_step)
    show "stmt_body (show_stmt s) = parse_bind parseCreateTable (parse_ret \<circ> CreatTable) ?r"
      using hit CreatTable by (simp add: stmt_body_def run_if miss_word)
    show "reads_all (parse_bind parseCreateTable (parse_ret \<circ> CreatTable)) ?r s"
      using read_body [OF read_create [of c]] CreatTable p by blast
  qed
next
  case (Insert c)
  assume p: "printable_stmt s"
  have hit: "tryKeyword [''INSERT'', ''INTO''] (''INSERT'' @ CHR '' '' # ''INTO'' @ CHR '' '' # r) = (True, CHR '' '' # r)" for r
    by (rule hit_words) simp_all
  let ?r = "CHR '' '' # ins_table c @ '' VALUES ('' @ comma_join (map show_value (ins_value c)) @ '')''"
  show ?thesis
  proof (rule reads_all_step)
    show "stmt_body (show_stmt s) = parse_bind parseInsert (parse_ret \<circ> Insert) ?r"
      using hit Insert by (simp add: stmt_body_def run_if miss_word)
    show "reads_all (parse_bind parseInsert (parse_ret \<circ> Insert)) ?r s"
      using read_body [OF read_insert [of c]] Insert p by blast
  qed
next
  case (Update c)
  assume p: "printable_stmt s"
  have hit: "tryKeyword [''UPDATE''] (''UPDATE'' @ CHR '' '' # r) = (True, CHR '' '' # r)" for r by (rule hit_keyword) simp
  let ?r = "CHR '' '' # upd_table c @ '' SET '' @ comma_join (map show_assign (upd_value c)) @ show_where (upd_cond c)"
  show ?thesis
  proof (rule reads_all_step)
    show "stmt_body (show_stmt s) = parse_bind parseUpdate (parse_ret \<circ> Update) ?r"
      using hit Update by (simp add: stmt_body_def run_if miss_word)
    show "reads_all (parse_bind parseUpdate (parse_ret \<circ> Update)) ?r s"
      using read_body [OF read_update [of c]] Update p by blast
  qed
next
  case (Delete c)
  assume p: "printable_stmt s"
  have hit: "tryKeyword [''DELETE'', ''FROM''] (''DELETE'' @ CHR '' '' # ''FROM'' @ CHR '' '' # r) = (True, CHR '' '' # r)" for r
    by (rule hit_words) simp_all
  let ?r = "CHR '' '' # del_table c @ show_where (del_cond c)"
  show ?thesis
  proof (rule reads_all_step)
    show "stmt_body (show_stmt s) = parse_bind parseDelete (parse_ret \<circ> Delete) ?r"
      using hit Delete by (simp add: stmt_body_def run_if miss_word)
    show "reads_all (parse_bind parseDelete (parse_ret \<circ> Delete)) ?r s"
      using read_body [OF read_delete [of c]] Delete p by blast
  qed
qed

lemma ParseStmt_back:
  assumes "printable_stmt s"
  shows "ParseStmt (show_stmt s) = Some (Inr s)"
proof -
  obtain q where q: "stmt_body (show_stmt s) = Some (Inr (s, q))" "skipSpaces q = []"
    using stmt_body_back [OF assms] by (auto simp: reads_all_def)
  then show ?thesis by (simp add: ParseStmt_def atEnd_def)
qed

end
