(* ===== verification/Sql_Properties.thy ===== *)
theory Sql_Properties
  imports Session Printed Table_Properties
begin

text \<open>
  The properties of the SQL layer, from the text of a statement to the rows of its tables, each with
  the concrete input at which its hypotheses hold.
\<close>

section \<open>Inputs\<close>

text \<open>An engine whose store holds the schema of the sample table and one row of it.\<close>

definition sample_sql_db :: kv where
  "sample_sql_db = sample_db\<lparr>kv_mem :=
     snd (SortedArray_Set (kv_mem sample_db) (schema_key ''t'') (schema_blob sample_schema))\<rparr>"

definition sample_engine :: Engine where
  "sample_engine = NewEngine sample_sql_db"

lemma sample_schema_wf: "schema_wf sample_schema" "plain_schema sample_schema" "schema_named sample_schema"
  "sc_Table sample_schema = ''t''" "nul_free ''t''"
proof -
  show "schema_wf sample_schema" "schema_named sample_schema"
    using sample_schema_ok
    by (simp_all add: schema_wf_def schema_named_def sample_schema_def Schema_ColIndex_def)
  show "plain_schema sample_schema" by (simp add: plain_schema_def sample_schema_def plain_def html_safe_def byte_val_def)
  show "sc_Table sample_schema = ''t''" by (simp add: sample_schema_def)
  show "nul_free ''t''" by (simp add: bytes_of_def)
qed

lemma sample_sql_view:
  "kv_ok sample_sql_db"
  "kv_view sample_sql_db = (kv_view sample_db)(schema_key ''t'' \<mapsto> schema_blob sample_schema)"
proof -
  have "arr_wf (kv_mem sample_db)" using sample_db_facts(1) by (simp add: kv_ok_def)
  note u = SortedArray_update(1,2) [OF this, of "schema_key ''t''" "schema_blob sample_schema"]
  show "kv_ok sample_sql_db" using u(1) sample_db_facts(1) by (simp add: kv_ok_def sample_sql_db_def)
  show "kv_view sample_sql_db = (kv_view sample_db)(schema_key ''t'' \<mapsto> schema_blob sample_schema)"
    using kv_view_mem [OF sample_db_facts(1) u, of "kv_log sample_db"] by (simp add: sample_sql_db_def)
qed

lemma sample_engine_ok: "engine_ok sample_engine" "catalog (eng_view sample_engine) ''t'' = Some sample_schema"
proof -
  let ?m = "[schema_key ''t'' \<mapsto> schema_blob sample_schema]" and ?k = "the (Row_EncodeKey sample_schema (sample_row 5))"
  note sc = sample_schema_wf
  have none: "catalog Map.empty (sc_Table sample_schema) = None" by (simp add: catalog_def)
  note new = database_new [OF database_ok_empty sc(1,2) none, unfolded sc(4)]
  have k: "in_table sample_schema ?k"
    using Row_EncodeKey_total [OF sample_schema_ok row_ok_key [OF sample_schema_ok sample_row_ok], of 5] by auto
  have ne: "?k \<noteq> schema_key ''t''" using k schema_key_not_in_table [OF sc(5)] by metis
  have view: "kv_view sample_sql_db = ?m(?k \<mapsto> the (Row_EncodeVal sample_schema (sample_row 5)))"
    unfolding sample_sql_view(2) sample_db_facts(3) using ne by (simp add: fun_upd_twist)
  have keep: "others_kept sample_schema ?m (kv_view sample_sql_db)" unfolding view using k by (simp add: others_kept_def)
  have t: "table_ok sample_schema (kv_view sample_sql_db)"
    using sample_db_facts(2) schema_key_not_in_table [OF sc(5), of sample_schema] unfolding sample_sql_view(2) table_ok_def by auto
  have m: "catalog ?m ''t'' = Some sample_schema" using new(2) by simp
  note kept = database_kept [OF new(1) sc(5) m keep t]
  show "engine_ok sample_engine"
    using kept(1) sample_sql_view(1) by (simp add: engine_ok_def sample_engine_def NewEngine_def)
  show "catalog (eng_view sample_engine) ''t'' = Some sample_schema"
    using kept(2) [OF sc(5)] m by (simp add: sample_engine_def NewEngine_def)
qed

text \<open>Statements on it.\<close>

definition sample_cond :: expr where
  "sample_cond = EBinOp OP_AND (EBinOp OP_GE (EName ''id'') (ECell (i64_cell 2))) (EBinOp OP_LT (EName ''id'') (ECell (i64_cell 9)))"


definition sample_insert :: StmtInsert where
  "sample_insert = \<lparr>ins_table = ''t'', ins_value = [i64_cell 6, str_cell [7, 0], str_cell [3]]\<rparr>"


definition sample_delete :: StmtDelete where
  "sample_delete = \<lparr>del_table = ''t'', del_cond = Some sample_cond\<rparr>"

definition sample_create :: StmtCreatTable where
  "sample_create = \<lparr>ct_table = ''u'', ct_cols = [\<lparr>col_Name = ''a'', col_Type = TypeStr\<rparr>, \<lparr>col_Name = ''b'', col_Type = TypeI64\<rparr>],
     ct_pkey = [''b'']\<rparr>"


lemma sample_short:
  "length (c_Str (row ! 1)) < 100 \<Longrightarrow> length row = 3 \<Longrightarrow> c_Type (row ! 1) = TypeStr \<Longrightarrow> row_short sample_schema row"
  by (simp add: row_short_def Row_EncodeVal_def col_indices_def sample_schema_def Schema_IsPKey_def slice_at_def
      Cell_EncodeVal_def upt_rec)

section \<open>The parser\<close>

text \<open>C31: Parsing any text ends with a statement or an error, never in a panic or a loop; a statement it
  returns is well formed (lexed names, cells of a known type, columns and keys where they are required).
  The expression parser satisfies the recursion of the Go methods, and more fuel than the length of
  the text changes nothing.\<close>

theorem parser_total:
  "(\<exists>r. ParseStmt p = Some r \<and> (case r of Inl err \<Rightarrow> True | Inr s \<Rightarrow> stmt_ok s)) \<and>
   parseExpr p = parseOr parseExpr p \<and> parseExpr_fuel (Suc (length p) + n) p = parseExpr p"
proof -
  obtain r where r: "ParseStmt p = Some r" using ParseStmt_returns by blast
  have "parseExpr_fuel (Suc (length p) + n) p = parseExpr p" by (rule parseExpr_fuel_enough) simp
  moreover have "parseExpr p = parseOr parseExpr p" by (rule parseExpr_unfold)
  ultimately show ?thesis using r ParseStmt_ok by (auto split: sum.split)
qed

text \<open>C32: The grammar has the precedence and associativity its ladder promises: every statement of
  lexed names, whose constants of expressions are not negative and whose columns there are not the
  words \<^verbatim>\<open>NOT\<close> and \<^verbatim>\<open>FROM\<close>, parses back from its text, printed with the parentheses its operators
  need and no others.\<close>

theorem statement_round_trip:
  assumes "printable_stmt s"
  shows "ParseStmt (show_stmt s) = Some (Inr s)"
  by (rule ParseStmt_back [OF assms])

theorem statement_round_trip_witness:
  "ParseStmt ''SELECT a - (b - 1) FROM t WHERE NOT a = 1 AND (b, c) < (2, 'x')'' =
    Some (Inr (Select \<lparr>sel_table = ''t'',
      sel_cols = [EBinOp OP_SUB (EName ''a'') (EBinOp OP_SUB (EName ''b'') (ECell (i64_cell 1)))],
      sel_cond = Some (EBinOp OP_AND (EUnOp OP_NOT (EBinOp OP_EQ (EName ''a'') (ECell (i64_cell 1))))
        (EBinOp OP_LT (ETuple [EName ''b'', EName ''c'']) (ETuple [ECell (i64_cell 2), ECell (str_cell [120])])))\<rparr>))"
proof -
  let ?s = "Select \<lparr>sel_table = ''t'',
      sel_cols = [EBinOp OP_SUB (EName ''a'') (EBinOp OP_SUB (EName ''b'') (ECell (i64_cell 1)))],
      sel_cond = Some (EBinOp OP_AND (EUnOp OP_NOT (EBinOp OP_EQ (EName ''a'') (ECell (i64_cell 1))))
        (EBinOp OP_LT (ETuple [EName ''b'', EName ''c'']) (ETuple [ECell (i64_cell 2), ECell (str_cell [120])])))\<rparr>"
  have p: "printable_stmt ?s" by code_simp
  have "show_stmt ?s = ''SELECT a - (b - 1) FROM t WHERE NOT a = 1 AND (b, c) < (2, 'x')''" by code_simp
  with statement_round_trip [OF p] show ?thesis by (simp only:)
qed

section \<open>Every text is answered\<close>

text \<open>C33: Every SQL text is answered: \<^verbatim>\<open>Exec\<close> returns a result or an error, whatever the text and
  whatever the disk does, and leaves an engine whose store, tables and catalog are well formed; a
  text that does not parse changes nothing.  The rows the statement writes have to keep their value
  encoding below \<open>2 ^ 32\<close> bytes.\<close>

theorem exec_answers:
  assumes "engine_ok e" "\<And>st. ParseStmt sql = Some (Inr st) \<Longrightarrow> stmt_fits e st"
  shows "\<exists>r e' d'. Exec sql (e, d) = Some (r, e', d') \<and> engine_ok e' \<and>
    (case ParseStmt sql of Some (Inl err) \<Rightarrow> r = (zero_result, Some err) \<and> e' = e \<and> d' = d | _ \<Rightarrow> True)"
proof (cases "ParseStmt sql")
  case (Some x)
  then show ?thesis using answers_Exec [OF assms, of sql d] assms(1)
    by (cases x) (auto simp: answers_def Exec_def)
qed (use answers_Exec [OF assms, of sql d] in \<open>auto simp: answers_def\<close>)

theorem exec_answers_witness:
  "\<exists>r e' d'. Exec ''DELETE FROM t WHERE id >= 2 AND id < 9'' (sample_engine, no_disk) = Some (r, e', d') \<and> engine_ok e' \<and>
    (case ParseStmt ''DELETE FROM t WHERE id >= 2 AND id < 9'' of
       Some (Inl err) \<Rightarrow> r = (zero_result, Some err) \<and> e' = sample_engine \<and> d' = no_disk | _ \<Rightarrow> True)"
proof (rule exec_answers [OF sample_engine_ok(1)])
  fix st
  have p: "printable_stmt (Delete sample_delete)" by code_simp
  have "show_stmt (Delete sample_delete) = ''DELETE FROM t WHERE id >= 2 AND id < 9''" by code_simp
  with ParseStmt_back [OF p] have "ParseStmt ''DELETE FROM t WHERE id >= 2 AND id < 9'' = Some (Inr (Delete sample_delete))"
    by (simp only:)
  then show "ParseStmt ''DELETE FROM t WHERE id >= 2 AND id < 9'' = Some (Inr st) \<Longrightarrow> stmt_fits sample_engine st"
    by (auto simp: stmt_fits_def)
qed

section \<open>Expressions and plans\<close>

text \<open>C34: Types are respected: an expression the schema gives a type evaluates on every row of the
  table, without panic, to a cell of that type; the one error left is a division by zero.\<close>

theorem eval_type_sound:
  assumes "schema_ok sc" "row_ok sc row" "expr_type sc e = Some t"
  shows "evalExpr sc row e = Some (Inl (ErrMsg ''division by zero'')) \<or>
    (\<exists>c. evalExpr sc row e = Some (Inr c) \<and> c_Type c = t \<and> cell_typed c)"
  using evalExpr_sound [OF assms] by (simp add: sound_result_def)

theorem eval_type_sound_witness:
  "evalExpr sample_schema (sample_row 5) (EBinOp OP_DIV (EName ''id'') (ECell (i64_cell 0))) = Some (Inl (ErrMsg ''division by zero'')) \<or>
    (\<exists>c. evalExpr sample_schema (sample_row 5) (EBinOp OP_DIV (EName ''id'') (ECell (i64_cell 0))) = Some (Inr c) \<and>
      c_Type c = TypeI64 \<and> cell_typed c)"
proof (rule eval_type_sound [OF sample_schema_ok sample_row_ok])
  show "expr_type sample_schema (EBinOp OP_DIV (EName ''id'') (ECell (i64_cell 0))) = Some TypeI64" by code_simp
qed



section \<open>Statements on tables\<close>






text \<open>What an \<^verbatim>\<open>INSERT\<close> on a table with the rows \<open>R\<close> answers, and the rows it leaves: \<open>failed\<close> are the
  errors of the disk.\<close>

definition insert_answer :: "Schema \<Rightarrow> Row set \<Rightarrow> Cell list \<Rightarrow> (gerror \<Rightarrow> bool) \<Rightarrow> nat res \<Rightarrow> Row set \<Rightarrow> bool" where
  "insert_answer sc R vals failed r R' \<longleftrightarrow>
     (let row = stored_row sc vals; taken = \<exists>x\<in>R. pkey_vals sc x = pkey_vals sc row in
      case r of
        Inr n \<Rightarrow> n = 1 \<and> \<not> taken \<and> R' = insert row R
      | Inl err \<Rightarrow> R' = R \<and> (err = ErrMsg ''duplicate primary key'' \<and> taken \<or> failed err))"

text \<open>C37: \<^verbatim>\<open>INSERT\<close> answers on every table and every list of values whose encoding fits 32-bit lengths.
  A table that is not known, and a number of values that is not that of its columns, are reported, and
  the database is unchanged.  Otherwise it adds exactly the row of the values, each read in the type of
  its column (a string is the integer 0 in an integer column, an integer the empty string in a string
  column, and a row of values of the columns' types is stored as it is), when no row has its primary key;
  its only errors are that some row has it and a failed log write, which leave the table as it was; no
  other table changes.\<close>

theorem insert_exact:
  fixes s :: StmtInsert
  assumes e: "engine_ok e" and name: "nul_free (ins_table s)" and fits: "stmt_fits e (Insert s)"
  shows "\<exists>r e' d'. execInsert s (e, d) = Some (r, e', d') \<and> engine_ok e' \<and>
    (case catalog (eng_view e) (ins_table s) of
       None \<Rightarrow> r = Inl (Errorf ''table %q is not found'' (ins_table s)) \<and> eng_DB e' = eng_DB e \<and> d' = d
     | Some sc \<Rightarrow>
         if length (ins_value s) \<noteq> length (sc_Cols sc) then
           r = Inl (Errorf ''INSERT has %d values, table has %d columns''
             (decimal (length (ins_value s)) @ '' '' @ decimal (length (sc_Cols sc)))) \<and> eng_DB e' = eng_DB e \<and> d' = d
         else others_kept sc (eng_view e) (eng_view e') \<and>
           insert_answer sc (table_rows sc (eng_view e)) (ins_value s) (log_error (eng_DB e) d) r (table_rows sc (eng_view e')) \<and>
           (list_all2 (\<lambda>v c. c_Type v = col_Type c \<and> cell_plain v) (ins_value s) (sc_Cols sc) \<longrightarrow> stored_row sc (ins_value s) = ins_value s))"
  using e name
proof (cases rule: GetSchema_cases [where d = d])
  case none
  then show ?thesis using e by (simp add: execInsert_def st_bind_def)
next
  case (found sc e1)
  show ?thesis
  proof (cases "length (ins_value s) = length (sc_Cols sc)")
    case True
    then have "row_short sc (insert_row sc (ins_value s))" using fits found(1) by (simp add: stmt_fits_def)
    from execInsert_correct [OF e name found(1) True this, of d]
    obtain r e' d' where x: "execInsert s (e, d) = Some (r, e', d')" "engine_ok e'" "others_kept sc (eng_view e) (eng_view e')"
      and y: "case r of
         Inr n \<Rightarrow> n = 1 \<and> \<not> (\<exists>x\<in>table_rows sc (eng_view e). pkey_vals sc x = pkey_vals sc (stored_row sc (ins_value s))) \<and>
           table_rows sc (eng_view e') = insert (stored_row sc (ins_value s)) (table_rows sc (eng_view e))
       | Inl err \<Rightarrow> table_rows sc (eng_view e') = table_rows sc (eng_view e) \<and>
           (err = ErrMsg ''duplicate primary key'' \<and>
              (\<exists>x\<in>table_rows sc (eng_view e). pkey_vals sc x = pkey_vals sc (stored_row sc (ins_value s))) \<or>
            log_error (eng_DB e) d err)"
      unfolding plain_insert_row by blast
    from y have "insert_answer sc (table_rows sc (eng_view e)) (ins_value s) (log_error (eng_DB e) d) r (table_rows sc (eng_view e'))"
      by (simp add: insert_answer_def Let_def split: sum.splits)
    with x show ?thesis using True found(1) stored_row_typed [of "ins_value s" sc] by auto
  next
    case False
    then show ?thesis using found by (simp add: execInsert_def st_bind_def st_fail_def)
  qed
qed

theorem insert_exact_witness:
  "\<exists>r e' d'. execInsert sample_insert (sample_engine, no_disk) = Some (r, e', d') \<and> engine_ok e' \<and>
    (case catalog (eng_view sample_engine) (ins_table sample_insert) of
       None \<Rightarrow> r = Inl (Errorf ''table %q is not found'' (ins_table sample_insert)) \<and> eng_DB e' = eng_DB sample_engine \<and> d' = no_disk
     | Some sc \<Rightarrow>
         if length (ins_value sample_insert) \<noteq> length (sc_Cols sc) then
           r = Inl (Errorf ''INSERT has %d values, table has %d columns''
             (decimal (length (ins_value sample_insert)) @ '' '' @ decimal (length (sc_Cols sc)))) \<and> eng_DB e' = eng_DB sample_engine \<and> d' = no_disk
         else others_kept sc (eng_view sample_engine) (eng_view e') \<and>
           insert_answer sc (table_rows sc (eng_view sample_engine)) (ins_value sample_insert) (log_error (eng_DB sample_engine) no_disk) r
             (table_rows sc (eng_view e')) \<and>
           (list_all2 (\<lambda>v c. c_Type v = col_Type c \<and> cell_plain v) (ins_value sample_insert) (sc_Cols sc) \<longrightarrow>
             stored_row sc (ins_value sample_insert) = ins_value sample_insert))"
proof (rule insert_exact [OF sample_engine_ok(1)])
  have sc: "catalog (eng_view sample_engine) ''t'' = Some sample_schema" "nul_free ''t''"
    using sample_schema_wf sample_engine_ok by (simp_all add: sample_schema_def)
  have short: "row_short sample_schema (insert_row sample_schema (ins_value sample_insert))"
    by (rule sample_short) (simp_all add: insert_row_def sample_insert_def sample_schema_def str_cell_def)
  show "nul_free (ins_table sample_insert)" using sc by (simp add: sample_insert_def)
  show "stmt_fits sample_engine (Insert sample_insert)" using sc short by (simp add: stmt_fits_def sample_insert_def)
qed





text \<open>C40: \<^verbatim>\<open>CREATE TABLE\<close> adds the schema of the statement to the catalog when no table has the name, with
  no rows, and touches no other table; the schema it writes as JSON is the one a new engine on the
  same store reads back.  An error changes nothing, and means that the name is taken, that a column of the
  primary key is no column, or that the log could not be written.\<close>

theorem create_table_catalog:
  fixes s :: StmtCreatTable
  assumes e: "engine_ok e" and s: "create_ok s"
  shows "\<exists>r e' d'. execCreateTable s (e, d) = Some (r, e', d') \<and> engine_ok e' \<and>
    (case r of
       Inr _ \<Rightarrow> catalog (eng_view e) (ct_table s) = None \<and> catalog (eng_view e') = (catalog (eng_view e))(ct_table s \<mapsto> created_schema s) \<and>
         table_rows (created_schema s) (eng_view e') = {} \<and>
         (\<exists>e''. GetSchema (ct_table s) (NewEngine (eng_DB e'), d') = Some (Inr (created_schema s), e'', d') \<and> engine_ok e'' \<and> eng_DB e'' = eng_DB e') \<and>
         {sc. schema_ok sc \<and> table_rows sc (eng_view e') \<noteq> table_rows sc (eng_view e)} = {}
     | Inl err \<Rightarrow> eng_view e' = eng_view e \<and>
         (catalog (eng_view e) (ct_table s) \<noteq> None \<or> \<not> set (ct_pkey s) \<subseteq> col_Name ` set (ct_cols s) \<or> log_error (eng_DB e) d err))"
proof -
  obtain r e' d' where x: "execCreateTable s (e, d) = Some (r, e', d')" "engine_ok e'" and
    y: "case r of
       Inr _ \<Rightarrow> catalog (eng_view e) (ct_table s) = None \<and> catalog (eng_view e') = (catalog (eng_view e))(ct_table s \<mapsto> created_schema s) \<and>
         table_rows (created_schema s) (eng_view e') = {} \<and>
         (\<forall>sc. schema_ok sc \<longrightarrow> table_rows sc (eng_view e') = table_rows sc (eng_view e))
     | Inl err \<Rightarrow> eng_view e' = eng_view e \<and>
         (catalog (eng_view e) (ct_table s) \<noteq> None \<or> \<not> set (ct_pkey s) \<subseteq> col_Name ` set (ct_cols s) \<or> log_error (eng_DB e) d err)"
    using execCreateTable_correct [OF e s, of d] by blast
  have fresh: "engine_ok (NewEngine (eng_DB e'))" using x(2) by (simp add: engine_ok_def NewEngine_def)
  have name: "nul_free (ct_table s)" using s by (simp add: create_ok_def)
  have "\<exists>e''. GetSchema (ct_table s) (NewEngine (eng_DB e'), d') = Some (Inr (created_schema s), e'', d') \<and> engine_ok e'' \<and> eng_DB e'' = eng_DB e'"
    if "catalog (eng_view e') (ct_table s) = Some (created_schema s)"
    using GetSchema_found [OF fresh name, of "created_schema s" d'] that by (simp add: NewEngine_def)
  then show ?thesis by (intro exI [of _ r] exI [of _ e'] exI [of _ d'] conjI x) (use y in \<open>auto split: sum.splits\<close>)
qed

theorem create_table_catalog_witness:
  "\<exists>r e' d'. execCreateTable sample_create (sample_engine, no_disk) = Some (r, e', d') \<and> engine_ok e' \<and>
    (case r of
       Inr _ \<Rightarrow> catalog (eng_view sample_engine) (ct_table sample_create) = None \<and>
         catalog (eng_view e') = (catalog (eng_view sample_engine))(ct_table sample_create \<mapsto> created_schema sample_create) \<and>
         table_rows (created_schema sample_create) (eng_view e') = {} \<and>
         (\<exists>e''. GetSchema (ct_table sample_create) (NewEngine (eng_DB e'), d') = Some (Inr (created_schema sample_create), e'', d') \<and>
           engine_ok e'' \<and> eng_DB e'' = eng_DB e') \<and>
         {sc. schema_ok sc \<and> table_rows sc (eng_view e') \<noteq> table_rows sc (eng_view sample_engine)} = {}
     | Inl err \<Rightarrow> eng_view e' = eng_view sample_engine \<and>
         (catalog (eng_view sample_engine) (ct_table sample_create) \<noteq> None \<or>
          \<not> set (ct_pkey sample_create) \<subseteq> col_Name ` set (ct_cols sample_create) \<or> log_error (eng_DB sample_engine) no_disk err))"
proof (rule create_table_catalog [OF sample_engine_ok(1)])
  show "create_ok sample_create"
    by (simp add: create_ok_def sample_create_def plain_def html_safe_def byte_val_def bytes_of_def)
qed

section \<open>Where the code surprises\<close>

text \<open>Of two lower bounds in one conjunction the planner keeps the later one: \<^verbatim>\<open>id > 5 AND id > 1\<close> reads
  the row with \<^verbatim>\<open>id = 3\<close>, on which the condition evaluates to false.\<close>

definition two_lower :: expr where
  "two_lower = EBinOp OP_AND (EBinOp OP_GT (EName ''id'') (ECell (i64_cell 5))) (EBinOp OP_GT (EName ''id'') (ECell (i64_cell 1)))"

lemma later_bound_wins:
  "makeRange sample_schema (Some two_lower) =
     Some (Inr \<lparr>rr_StartCmp = OP_GT, rr_StopCmp = OP_LE, rr_Start = [i64_cell 1], rr_Stop = []\<rparr>)"
  "selects sample_schema (Some two_lower) (sample_row 3)"
  "evalExpr sample_schema (sample_row 3) two_lower = Some (Inr (boolCell False))"
proof -
  show p: "makeRange sample_schema (Some two_lower) =
     Some (Inr \<lparr>rr_StartCmp = OP_GT, rr_StopCmp = OP_LE, rr_Start = [i64_cell 1], rr_Stop = []\<rparr>)" by code_simp
  have "in_req sample_schema \<lparr>rr_StartCmp = OP_GT, rr_StopCmp = OP_LE, rr_Start = [i64_cell 1], rr_Stop = []\<rparr> (sample_row 3)"
    by code_simp
  with p show "selects sample_schema (Some two_lower) (sample_row 3)" by (simp add: selects_def)
  show "evalExpr sample_schema (sample_row 3) two_lower = Some (Inr (boolCell False))" by code_simp
qed

text \<open>A negative constant of a condition is parsed as an operator, which no access path matches.\<close>

lemma negative_constant_unplanned:
  "ParseStmt ''DELETE FROM t WHERE id > - 1'' =
     Some (Inr (Delete \<lparr>del_table = ''t'', del_cond = Some (EBinOp OP_GT (EName ''id'') (EUnOp OP_NEG (ECell (i64_cell 1))))\<rparr>))"
  "makeRange sample_schema (Some (EBinOp OP_GT (EName ''id'') (EUnOp OP_NEG (ECell (i64_cell 1))))) =
     Some (Inl (ErrMsg ''unimplemented WHERE''))"
proof -
  let ?s = "Delete \<lparr>del_table = ''t'', del_cond = Some (EBinOp OP_GT (EName ''id'') (EUnOp OP_NEG (ECell (i64_cell 1))))\<rparr>"
  have p: "printable_stmt ?s" by code_simp
  have "show_stmt ?s = ''DELETE FROM t WHERE id > - 1''" by code_simp
  with ParseStmt_back [OF p] show "ParseStmt ''DELETE FROM t WHERE id > - 1'' = Some (Inr ?s)" by (simp only:)
  show "makeRange sample_schema (Some (EBinOp OP_GT (EName ''id'') (EUnOp OP_NEG (ECell (i64_cell 1))))) =
     Some (Inl (ErrMsg ''unimplemented WHERE''))"
    by (simp add: makeRange_def point_req_def matchRange_def apply_bound_def cmpToBound_def)
qed

text \<open>\<^verbatim>\<open>INSERT\<close> gives a value the type of its column without looking at it: a string becomes the integer 0.\<close>

lemma insert_retypes:
  "insert_row sample_schema [str_cell [49], str_cell [], str_cell []] ! 0 = \<lparr>c_Type = TypeI64, c_I64 = 0, c_Str = [49]\<rparr>"
  by code_simp

text \<open>A table may be created with two columns of one name.\<close>

lemma duplicate_columns_accepted:
  "create_ok \<lparr>ct_table = ''u'', ct_cols = [\<lparr>col_Name = ''a'', col_Type = TypeI64\<rparr>, \<lparr>col_Name = ''a'', col_Type = TypeStr\<rparr>],
     ct_pkey = [''a'', ''a'']\<rparr>"
  "create_pkey \<lparr>sc_Table = ''u'', sc_Cols = [\<lparr>col_Name = ''a'', col_Type = TypeI64\<rparr>, \<lparr>col_Name = ''a'', col_Type = TypeStr\<rparr>],
     sc_PKey = []\<rparr> [''a'', ''a''] =
   Inr \<lparr>sc_Table = ''u'', sc_Cols = [\<lparr>col_Name = ''a'', col_Type = TypeI64\<rparr>, \<lparr>col_Name = ''a'', col_Type = TypeStr\<rparr>], sc_PKey = [0, 0]\<rparr>"
  by (simp_all add: create_ok_def plain_def html_safe_def byte_val_def bytes_of_def Schema_ColIndex_def Let_def)

end
