(* ===== verification/Steps.thy ===== *)
theory Steps
  imports Durability
begin

text \<open>
  Runs of writes on a store.  \<open>kv_steps Q s d s' d' err\<close> says that a sequence of \<^verbatim>\<open>SetEx\<close> and \<^verbatim>\<open>Del\<close>
  leads from \<open>s\<close> and \<open>d\<close> to \<open>s'\<close> and \<open>d'\<close>, that it stops at the first error, \<open>err\<close>, and that every map one of the
  writes may leave satisfies \<open>Q\<close>.  On a durable store such a run ends durable, or the error is the
  disk's, and whatever a crash leaves recovers to the map of the run's end with at most one key in
  doubt.
\<close>

definition err_of :: "'a res \<Rightarrow> gerror option" where
  "err_of r = (case r of Inl err \<Rightarrow> Some err | Inr _ \<Rightarrow> None)"

lemma err_of_simps [simp]: "err_of (Inl err) = Some err" "err_of (Inr x) = None"
  by (simp_all add: err_of_def)

inductive kv_steps :: "((bytes \<Rightarrow> bytes option) \<Rightarrow> bool) \<Rightarrow> kv \<Rightarrow> disk \<Rightarrow> kv \<Rightarrow> disk \<Rightarrow> gerror option \<Rightarrow> bool"
  for Q :: "(bytes \<Rightarrow> bytes option) \<Rightarrow> bool" and s :: kv and d :: disk where
  stay: "kv_steps Q s d s d None"
| set: "kv_steps Q s d s1 d1 None \<Longrightarrow> KV_SetEx s1 k v mode d1 = Some (r, s2, d2) \<Longrightarrow>
    entry_fits \<lparr>e_key = k, e_val = v, e_deleted = False\<rparr> \<Longrightarrow> Q ((kv_view s1)(k \<mapsto> v)) \<Longrightarrow> kv_steps Q s d s2 d2 (err_of r)"
| del: "kv_steps Q s d s1 d1 None \<Longrightarrow> KV_Del s1 k d1 = Some (r, s2, d2) \<Longrightarrow>
    length k < 2 ^ 32 \<Longrightarrow> Q ((kv_view s1)(k := None)) \<Longrightarrow> kv_steps Q s d s2 d2 (err_of r)"

declare kv_steps.stay [simp, intro]

lemma kv_steps_trans:
  assumes "kv_steps Q s1 d1 s2 d2 f" "kv_steps Q s d s1 d1 None"
  shows "kv_steps Q s d s2 d2 f"
  using assms by (induction rule: kv_steps.induct) (auto intro: kv_steps.intros)

lemma kv_steps_one:
  "KV_SetEx s k v mode d = Some (r, s', d') \<Longrightarrow> entry_fits \<lparr>e_key = k, e_val = v, e_deleted = False\<rparr> \<Longrightarrow>
     Q ((kv_view s)(k \<mapsto> v)) \<Longrightarrow> kv_steps Q s d s' d' (err_of r)"
  "KV_Del s k d = Some (r, s', d') \<Longrightarrow> length k < 2 ^ 32 \<Longrightarrow> Q ((kv_view s)(k := None)) \<Longrightarrow> kv_steps Q s d s' d' (err_of r)"
  by (auto intro: kv_steps.intros)

text \<open>A store that is durable, or a disk of which every crash leaves a directory that recovers to the
  store's map with one key in doubt.\<close>

definition in_doubt :: "((bytes \<Rightarrow> bytes option) \<Rightarrow> bool) \<Rightarrow> kv \<Rightarrow> disk \<Rightarrow> bool" where
  "in_doubt Q s d \<longleftrightarrow>
     (\<forall>c. crash_leaves d c \<longrightarrow> (\<exists>k v. recovers (kv_dir s) c ((kv_view s)(k := v)) \<and> Q ((kv_view s)(k := v))))"

definition lasting :: "((bytes \<Rightarrow> bytes option) \<Rightarrow> bool) \<Rightarrow> kv \<Rightarrow> disk \<Rightarrow> gerror option \<Rightarrow> bool" where
  "lasting Q s d failed \<longleftrightarrow>
     (case failed of
        None \<Rightarrow> \<exists>es. kv_durable s d es
      | Some err \<Rightarrow> err = IOErr \<and> in_doubt Q s d)"

lemma crash_in_doubt:
  assumes "crash_recovers (kv_dir s) d' {kv_view s, (kv_view s)(k := v)}" "Q (kv_view s)" "Q ((kv_view s)(k := v))"
    and "kv_dir s' = kv_dir s" "kv_view s' = kv_view s"
  shows "in_doubt Q s' d'"
  unfolding in_doubt_def assms(4,5)
proof (intro allI impI)
  fix c assume "crash_leaves d' c"
  then have "recovers (kv_dir s) c (kv_view s) \<or> recovers (kv_dir s) c ((kv_view s)(k := v))"
    using assms(1) by (auto simp: crash_recovers_def)
  moreover have "kv_view s = (kv_view s)(k := kv_view s k)" by simp
  ultimately show "\<exists>k v. recovers (kv_dir s) c ((kv_view s)(k := v)) \<and> Q ((kv_view s)(k := v))"
    using assms(2,3) by metis
qed

lemma kv_steps_lasting:
  assumes "kv_steps Q s d s' d' f" "kv_durable s d es" "Q (kv_view s)"
  shows "kv_dir s' = kv_dir s \<and> Q (kv_view s') \<and> lasting Q s' d' f"
  using assms(1)
proof (induction rule: kv_steps.induct)
  case stay
  then show ?case using assms(2,3) by (auto simp: lasting_def)
next
  case (set s1 d1 k v mode r s2 d2)
  then obtain es1 where dur: "kv_durable s1 d1 es1" and q: "Q (kv_view s1)" and dir: "kv_dir s1 = kv_dir s"
    by (auto simp: lasting_def)
  have dir2: "kv_dir s2 = kv_dir s1" using KV_write_Options(1) [OF set.hyps(2)] by (rule kv_dir_Options)
  have law: "case r of Inr b \<Rightarrow> (b, kv_view s2) = map_SetEx (kv_view s1) k v mode | Inl e \<Rightarrow> kv_view s2 = kv_view s1"
    using kvc.setex_law [OF kv_durable_ok [OF dur], of k v mode d1] set.hyps(2) by auto
  note w = KV_SetEx_durable [OF dur set.hyps(3,2)] and io = KV_write_disk_error(1) [OF dur]
  show ?case
  proof (cases r)
    case (Inl e)
    then have "kv_view s2 = kv_view s1" using law by simp
    moreover from crash_in_doubt [of s1 d2 k "Some v" Q s2, OF w(2) q set.hyps(4) dir2 this] have "in_doubt Q s2 d2" .
    moreover have "e = IOErr" using set.hyps(2) Inl io by blast
    ultimately show ?thesis using Inl dir dir2 q by (simp add: lasting_def)
  next
    case (Inr b)
    then have "Q (kv_view s2)" using law q set.hyps(4) by (auto simp: map_SetEx_def split: if_splits)
    then show ?thesis using Inr w(1) dir dir2 by (simp add: lasting_def)
  qed
next
  case (del s1 d1 k r s2 d2)
  then obtain es1 where dur: "kv_durable s1 d1 es1" and q: "Q (kv_view s1)" and dir: "kv_dir s1 = kv_dir s"
    by (auto simp: lasting_def)
  have dir2: "kv_dir s2 = kv_dir s1" using KV_write_Options(2) [OF del.hyps(2)] by (rule kv_dir_Options)
  have law: "case r of Inr b \<Rightarrow> (b, kv_view s2) = map_Del (kv_view s1) k | Inl e \<Rightarrow> kv_view s2 = kv_view s1"
    using kvc.del_law [OF kv_durable_ok [OF dur], of k d1] del.hyps(2) by auto
  note w = KV_Del_durable [OF dur del.hyps(3,2)] and io = KV_write_disk_error(2) [OF dur]
  show ?case
  proof (cases r)
    case (Inl e)
    then have "kv_view s2 = kv_view s1" using law by simp
    moreover from crash_in_doubt [of s1 d2 k None Q s2, OF w(2) q del.hyps(4) dir2 this] have "in_doubt Q s2 d2" .
    moreover have "e = IOErr" using del.hyps(2) Inl io by blast
    ultimately show ?thesis using Inl dir dir2 q by (simp add: lasting_def)
  next
    case (Inr b)
    then have "Q (kv_view s2)" using law q del.hyps(4) by (auto simp: map_Del_def split: if_splits)
    then show ?thesis using Inr w(1) dir dir2 by (simp add: lasting_def)
  qed
qed

text \<open>On a disk without faults a run does not fail.\<close>

lemma kv_steps_fault_free:
  assumes "kv_steps Q s d s' d' f" "kv_durable s d es" "Q (kv_view s)" "fault_free d"
  shows "f = None \<and> fault_free d'"
  using assms(1)
proof (induction rule: kv_steps.induct)
  case stay
  then show ?case using assms(4) by simp
next
  case (set s1 d1 k v mode r s2 d2)
  then obtain es1 where dur: "kv_durable s1 d1 es1"
    using kv_steps_lasting [OF set.hyps(1) assms(2,3)] by (auto simp: lasting_def)
  then show ?case
    using KV_write_disk_error(1) [OF dur, of k v mode] KV_write_fault_free(1) [OF dur, of k v mode r s2 d2] set by (cases r) auto
next
  case (del s1 d1 k r s2 d2)
  then obtain es1 where dur: "kv_durable s1 d1 es1"
    using kv_steps_lasting [OF del.hyps(1) assms(2,3)] by (auto simp: lasting_def)
  then show ?case
    using KV_write_disk_error(2) [OF dur, of k] KV_write_fault_free(2) [OF dur, of k r s2 d2] del by (cases r) auto
qed

text \<open>A run of writes leaves the SSTables alone, on any disk.\<close>

lemma KV_commit_live:
  assumes live: "kv_live s d" and upd: "arr_wf (upd (kv_mem s))" and c: "KV_commit s ent upd d = Some (r, s', d')"
  shows "kv_live s' d'"
proof -
  obtain rw lg dw where w: "Log_Write (kv_log s) ent d = (rw, lg, dw)" by (metis prod_cases3)
  have lg: "FileName lg = FileName (kv_log s)" using w by (auto simp: Log_Write_def split: prod.splits option.splits sum.splits)
  have "kv_live s dw" by (rule kv_live_after_log [OF live _ lg]) (use Log_Write_kept [OF w] lg in simp)
  from kv_live_updates(2) [OF this lg] have "kv_live (s\<lparr>kv_log := lg\<rparr>) dw" .
  then show ?thesis using c w kv_live_updates(1) [of "s\<lparr>kv_log := lg\<rparr>" dw, OF _ upd] by (auto simp: KV_commit_def split: sum.splits)
qed

lemma KV_write_live:
  assumes "kv_live s d"
  shows "KV_SetEx s k v mode d = Some (r, s', d') \<Longrightarrow> kv_live s' d'"
    and "KV_Del s k d = Some (r, s', d') \<Longrightarrow> kv_live s' d'"
proof -
  note get = KV_Get_view [OF kv_live_ok [OF assms], of k]
  have wf: "arr_wf (kv_mem s)" using assms by (simp add: kv_live_def)
  note upd = SortedArray_update(1,3) [OF wf]
  show "KV_SetEx s k v mode d = Some (r, s', d') \<Longrightarrow> kv_live s' d'"
    using get assms KV_commit_live [of s d "\<lambda>a. snd (SortedArray_Set a k v)", OF assms upd(1)] by (auto simp: KV_SetEx_def Let_def split: if_splits)
  show "KV_Del s k d = Some (r, s', d') \<Longrightarrow> kv_live s' d'"
    using get assms KV_commit_live [of s d "\<lambda>a. SortedArray_Del a k", OF assms upd(2)] by (auto simp: KV_Del_def split: option.splits)
qed

lemma kv_steps_live: "kv_steps Q s d s' d' f \<Longrightarrow> kv_live s d \<Longrightarrow> kv_live s' d'"
  by (induction rule: kv_steps.induct) (auto intro: KV_write_live)

end
