(* ===== verification/Lasting.thy ===== *)
theory Lasting
  imports Session Steps
begin

text \<open>
  Statements as runs of writes: what \<^verbatim>\<open>Exec\<close> does to the store is a sequence of \<^verbatim>\<open>SetEx\<close> and \<^verbatim>\<open>Del\<close> that
  stops at the first error and passes only through well-formed databases, so that the guarantees of
  \<^verbatim>\<open>storage/\<close> about a crash are guarantees about SQL.  \<open>stmt_small\<close> bounds the log records a statement
  writes: key and value together below \<open>2 ^ 32\<close> bytes.
\<close>

definition row_small :: "Schema \<Rightarrow> Row \<Rightarrow> bool" where
  "row_small sc row \<longleftrightarrow> length (the (Row_EncodeKey sc row)) + length (the (Row_EncodeVal sc row)) < 2 ^ 32"

definition stmt_small :: "Engine \<Rightarrow> stmt \<Rightarrow> bool" where
  "stmt_small e st =
     (case st of
        CreatTable c \<Rightarrow> length (ct_cols c) < 2 ^ 63 \<and>
          length (schema_key (ct_table c)) + length (schema_blob (created_schema c)) < 2 ^ 32
      | Insert c \<Rightarrow> (\<forall>sc. catalog (eng_view e) (ins_table c) = Some sc \<longrightarrow> length (ins_value c) = length (sc_Cols sc) \<longrightarrow>
          row_small sc (insert_row sc (ins_value c)))
      | Update c \<Rightarrow> (\<forall>sc idxs. catalog (eng_view e) (upd_table c) = Some sc \<longrightarrow> update_idxs sc (upd_value c) = Inr idxs \<longrightarrow>
          (\<forall>row\<in>table_rows sc (eng_view e). selects sc (upd_cond c) row \<longrightarrow> row_small sc (new_row sc (upd_value c) idxs row)))
      | Delete c \<Rightarrow> (\<forall>sc. catalog (eng_view e) (del_table c) = Some sc \<longrightarrow>
          (\<forall>row\<in>table_rows sc (eng_view e). selects sc (del_cond c) row \<longrightarrow> length (the (Row_EncodeKey sc row)) < 2 ^ 32))
      | Select c \<Rightarrow> True)"

lemma row_small_plain [simp]: "row_small sc (plain_row row) = row_small sc row"
  by (simp add: row_small_def)

lemma row_small_short: "row_small sc row \<Longrightarrow> row_short sc row"
  by (simp add: row_small_def row_short_def)

text \<open>\<open>accepted m st\<close>: what a statement needs of the database \<open>m\<close> to be carried out.\<close>

definition accepted :: "(bytes \<Rightarrow> bytes option) \<Rightarrow> stmt \<Rightarrow> bool" where
  "accepted m st =
     (case st of
        CreatTable c \<Rightarrow> catalog m (ct_table c) = None \<and> set (ct_pkey c) \<subseteq> col_Name ` set (ct_cols c)
      | Select c \<Rightarrow> (\<exists>sc. catalog m (sel_table c) = Some sc \<and> unknown_names sc (sel_cols c) = [] \<and>
          (\<exists>req. makeRange sc (sel_cond c) = Some (Inr req)) \<and>
          (\<forall>row\<in>table_rows sc m. selects sc (sel_cond c) row \<longrightarrow> (\<exists>vs. projectRow sc (sel_cols c) row = Some (Inr vs))))
      | Insert c \<Rightarrow> (\<exists>sc. catalog m (ins_table c) = Some sc \<and> length (ins_value c) = length (sc_Cols sc) \<and>
          \<not> (\<exists>row\<in>table_rows sc m. pkey_vals sc row = pkey_vals sc (plain_row (insert_row sc (ins_value c)))))
      | Update c \<Rightarrow> (\<exists>sc idxs. catalog m (upd_table c) = Some sc \<and> update_idxs sc (upd_value c) = Inr idxs \<and>
          (\<exists>req. makeRange sc (upd_cond c) = Some (Inr req)) \<and>
          (\<forall>row\<in>table_rows sc m. selects sc (upd_cond c) row \<longrightarrow> (\<exists>row'. update_row sc (upd_value c) idxs row = Some (Inr row'))))
      | Delete c \<Rightarrow> (\<exists>sc req. catalog m (del_table c) = Some sc \<and> makeRange sc (del_cond c) = Some (Inr req)))"

section \<open>Single writes\<close>

text \<open>The engine after a write to its store.\<close>

abbreviation put_db :: "Engine \<Rightarrow> kv \<Rightarrow> Engine" where
  "put_db e db \<equiv> e\<lparr>eng_DB := db\<rparr>"

lemma write_step:
  assumes e: "engine_ok e" and name: "nul_free name" and sc: "catalog (eng_view e) name = Some sc"
    and row: "row_fits sc row" "row_small sc row"
  shows "\<exists>r db d'. DB_write mode (eng_DB e) sc row d = Some (r, db, d') \<and> engine_ok (put_db e db) \<and>
    catalog (kv_view db) name = Some sc \<and> kv_steps database_ok (eng_DB e) d db d' (err_of r) \<and>
    (\<forall>b. r = Inr b \<longrightarrow> b = fst (rel_write mode sc (table_rows sc (eng_view e)) row))"
proof -
  note t = engine_table [OF e name sc] and ok = engine_okD [OF e]
  obtain k v where kv: "Row_EncodeKey sc row = Some k" "Row_EncodeVal sc row = Some v" "in_table sc k" "stored sc row k v"
    using row_fits_stored [OF t(3) row(1)] by blast
  obtain r db d' where w: "DB_write mode (eng_DB e) sc row d = Some (r, db, d')" "kv_ok db" "table_ok sc (kv_view db)"
    "others_kept sc (eng_view e) (kv_view db)"
    "case r of Inr b \<Rightarrow> (b, table_rows sc (kv_view db)) = rel_write mode sc (table_rows sc (eng_view e)) row
     | Inl err \<Rightarrow> kv_view db = eng_view e"
    using DB_write_correct [OF t(1,3,4) row(1), of mode d] by blast
  have flag: "\<forall>b. r = Inr b \<longrightarrow> b = fst (rel_write mode sc (table_rows sc (eng_view e)) row)"
    using w(5) by (auto simp: prod_eq_iff)
  have "table_ok sc ((eng_view e)(k \<mapsto> v))" by (rule table_ok_put(1) [OF t(4) kv(4)])
  moreover have "others_kept sc (eng_view e) ((eng_view e)(k \<mapsto> v))" using kv(3) by (simp add: others_kept_def)
  ultimately have q: "database_ok ((eng_view e)(k \<mapsto> v))" by (intro database_kept(1) [OF ok(2) name sc])
  have run: "KV_SetEx (eng_DB e) k v mode d = Some (r, db, d')" using w(1) kv by (simp add: DB_write_def)
  have "entry_fits \<lparr>e_key = k, e_val = v, e_deleted = False\<rparr>" using row(2) kv by (simp add: entry_fits_def row_small_def)
  from kv_steps_one(1) [OF run this, of database_ok] q
  have "kv_steps database_ok (eng_DB e) d db d' (err_of r)" by simp
  moreover have "catalog (kv_view db) name = Some sc" using database_kept(2) [OF ok(2) name sc w(4,3) name] sc by simp
  ultimately show ?thesis using w(1) flag engine_kept [OF e name sc w(2-4)] by blast
qed

lemma delete_step:
  assumes e: "engine_ok e" and name: "nul_free name" and sc: "catalog (eng_view e) name = Some sc"
    and row: "row_key_ok sc row" "length (the (Row_EncodeKey sc row)) < 2 ^ 32"
  shows "\<exists>r db d'. DB_Delete (eng_DB e) sc row d = Some (r, db, d') \<and> engine_ok (put_db e db) \<and>
    catalog (kv_view db) name = Some sc \<and> kv_steps database_ok (eng_DB e) d db d' (err_of r)"
proof -
  note t = engine_table [OF e name sc] and ok = engine_okD [OF e]
  obtain k where k: "Row_EncodeKey sc row = Some k" "in_table sc k" using Row_EncodeKey_total [OF t(3) row(1)] by blast
  obtain r db d' where w: "DB_Delete (eng_DB e) sc row d = Some (r, db, d')" "kv_ok db" "table_ok sc (kv_view db)"
    "others_kept sc (eng_view e) (kv_view db)"
    using DB_Delete_correct [OF t(1,3,4) row(1), of d] by blast
  have "table_ok sc ((eng_view e)(k := None))" by (rule table_ok_put(2) [OF t(4)])
  moreover have "others_kept sc (eng_view e) ((eng_view e)(k := None))" using k(2) by (simp add: others_kept_def)
  ultimately have q: "database_ok ((eng_view e)(k := None))" by (intro database_kept(1) [OF ok(2) name sc])
  have run: "KV_Del (eng_DB e) k d = Some (r, db, d')" using w(1) k by (simp add: DB_Delete_def)
  have "length k < 2 ^ 32" using row(2) k(1) by simp
  from kv_steps_one(2) [OF run this, of database_ok] q
  have "kv_steps database_ok (eng_DB e) d db d' (err_of r)" by simp
  moreover have "catalog (kv_view db) name = Some sc" using database_kept(2) [OF ok(2) name sc w(4,3) name] sc by simp
  ultimately show ?thesis using w(1) engine_kept [OF e name sc w(2-4)] by blast
qed

section \<open>Statements\<close>

text \<open>\<open>stores ok rep e d r\<close>: the call returns and is a run of writes; a run that failed shows in its
  answer, as \<open>rep\<close> reads it, and after one that did not the answer is an error unless \<open>ok\<close>.\<close>

definition stores :: "bool \<Rightarrow> ('a \<Rightarrow> gerror option) \<Rightarrow> Engine \<Rightarrow> disk \<Rightarrow> ('a \<times> estate) option \<Rightarrow> bool" where
  "stores ok rep e d r \<longleftrightarrow> (\<exists>x e' d' f. r = Some (x, e', d') \<and> engine_ok e' \<and>
     kv_steps database_ok (eng_DB e) d (eng_DB e') d' f \<and> (f \<noteq> None \<longrightarrow> rep x = f) \<and> (f = None \<longrightarrow> (rep x = None) = ok))"

lemma storesI:
  "r = Some (x, e', d') \<Longrightarrow> engine_ok e' \<Longrightarrow> kv_steps database_ok (eng_DB e) d (eng_DB e') d' f \<Longrightarrow> (f \<noteq> None \<Longrightarrow> rep x = f) \<Longrightarrow>
   (f = None \<Longrightarrow> (rep x = None) = ok) \<Longrightarrow> stores ok rep e d r"
  unfolding stores_def by (rule exI [of _ x], rule exI [of _ e'], rule exI [of _ d'], rule exI [of _ f]) simp

lemma stores_same:
  "r = Some (x, e', d) \<Longrightarrow> engine_ok e' \<Longrightarrow> eng_DB e' = eng_DB e \<Longrightarrow> (rep x = None) = ok \<Longrightarrow> stores ok rep e d r"
  by (rule storesI [where f = None]) auto

text \<open>Later writes after a first one that succeeded.\<close>

lemma storesE:
  assumes "stores ok rep e d r"
  obtains x e' d' f where "r = Some (x, e', d')" "engine_ok e'" "kv_steps database_ok (eng_DB e) d (eng_DB e') d' f"
    "f \<noteq> None \<longrightarrow> rep x = f" "f = None \<longrightarrow> (rep x = None) = ok"
  using assms unfolding stores_def by (elim exE conjE) (erule that, assumption+)

lemma stores_after:
  assumes "stores ok rep e1 d1 r" "kv_steps database_ok (eng_DB e) d (eng_DB e1) d1 None"
  shows "stores ok rep e d r"
  using assms(1)
proof (rule storesE)
  fix x e' d' f
  assume x: "r = Some (x, e', d')" "engine_ok e'" "kv_steps database_ok (eng_DB e1) d1 (eng_DB e') d' f"
    "f \<noteq> None \<longrightarrow> rep x = f" "f = None \<longrightarrow> (rep x = None) = ok"
  show ?thesis using x by (intro storesI [OF x(1,2) kv_steps_trans [OF x(3) assms(2)]]) simp_all
qed

lemma stores_result:
  assumes "stores ok err_of e d r"
  shows "stores ok snd e d (stmt_result f r)"
proof -
  obtain x e' d' g where x: "r = Some (x, e', d')" "engine_ok e'" "kv_steps database_ok (eng_DB e) d (eng_DB e') d' g"
    "g \<noteq> None \<longrightarrow> err_of x = g" "g = None \<longrightarrow> (err_of x = None) = ok" using assms by (rule storesE)
  have "stmt_result f r = Some (case x of Inl err \<Rightarrow> (zero_result, Some err) | Inr y \<Rightarrow> (f y, None), e', d')"
    by (simp add: stmt_result_def x(1) split: sum.split)
  moreover have "snd (case x of Inl err \<Rightarrow> (zero_result, Some err) | Inr y \<Rightarrow> (f y, None)) = err_of x"
    by (simp split: sum.split)
  ultimately show ?thesis using x(2-5) by (intro storesI [where f = g]) auto
qed

lemma update_loop_stores:
  assumes sc: "schema_ok sc" and idxs: "update_idxs sc asns = Inr idxs" and name: "nul_free name"
    and cells: "\<forall>asn\<in>set asns. \<forall>c\<in>expr_cells (asn_expr asn). cell_ok c"
  shows "engine_ok e \<Longrightarrow> catalog (eng_view e) name = Some sc \<Longrightarrow> list_all (row_fits sc) rows \<Longrightarrow>
    list_all (\<lambda>row. row_small sc (new_row sc asns idxs row)) rows \<Longrightarrow>
    stores (list_all (\<lambda>row. \<exists>row'. update_row sc asns idxs row = Some (Inr row')) rows) err_of e d (update_loop sc asns idxs rows (e, d))"
proof (induction rows arbitrary: e d)
  case Nil
  then show ?case by (intro stores_same, simp add: st_ret_def) (simp_all add: accepted_def)
next
  case (Cons row rows)
  have "row_fits sc row" using Cons.prems(3) by simp
  from update_row_correct [OF sc idxs this cells] show ?case
  proof (elim disjE exE conjE)
    fix err assume "update_row sc asns idxs row = Some (Inl err)"
    then show ?thesis using Cons.prems(1) by (intro stores_same, simp add: st_bind_def reading_def) (simp_all add: accepted_def)
  next
    fix row' assume row': "update_row sc asns idxs row = Some (Inr row')" "row_ok sc row'" "list_all cell_plain row'"
    have small: "row_small sc row'" using row'(1) Cons.prems(4) by (simp add: new_row_def)
    have fits: "row_fits sc row'" using row'(2,3) row_small_short [OF small] by (simp add: row_fits_def row_short_def)
    obtain r db d1 where w: "DB_write ModeUpdate (eng_DB e) sc row' d = Some (r, db, d1)" "engine_ok (put_db e db)"
      "catalog (kv_view db) name = Some sc" "kv_steps database_ok (eng_DB e) d db d1 (err_of r)"
      using write_step [OF Cons.prems(1) name Cons.prems(2) fits small] by blast
    have step: "update_loop sc asns idxs (row # rows) (e, d) =
        (case r of Inl err \<Rightarrow> Some (Inl err, put_db e db, d1) | Inr b \<Rightarrow> update_loop sc asns idxs rows (put_db e db, d1))"
      using row'(1) w(1) by (simp add: st_bind_def reading_def on_db_def DB_Update_def split: sum.split)
    show ?thesis
    proof (cases r)
      case (Inl err)
      then show ?thesis using step w by (intro storesI [where f = "Some err"]) auto
    next
      case (Inr b)
      have "stores (list_all (\<lambda>row. \<exists>row'. update_row sc asns idxs row = Some (Inr row')) rows) err_of (put_db e db) d1
          (update_loop sc asns idxs rows (put_db e db, d1))"
        using w Cons.prems(3,4) by (intro Cons.IH) simp_all
      then show ?thesis using step w row'(1) Inr by (simp add: stores_after)
    qed
  qed
qed

lemma delete_loop_stores:
  assumes name: "nul_free name"
  shows "engine_ok e \<Longrightarrow> catalog (eng_view e) name = Some sc \<Longrightarrow>
    list_all (\<lambda>row. row_key_ok sc row \<and> length (the (Row_EncodeKey sc row)) < 2 ^ 32) rows \<Longrightarrow>
    stores True snd e d (delete_loop sc rows n (e, d))"
proof (induction rows arbitrary: e d n)
  case Nil
  then show ?case by (intro stores_same, simp) simp_all
next
  case (Cons row rows)
  have row: "row_key_ok sc row" "length (the (Row_EncodeKey sc row)) < 2 ^ 32" using Cons.prems(3) by simp_all
  obtain r db d1 where w: "DB_Delete (eng_DB e) sc row d = Some (r, db, d1)" "engine_ok (put_db e db)"
    "catalog (kv_view db) name = Some sc" "kv_steps database_ok (eng_DB e) d db d1 (err_of r)"
    using delete_step [OF Cons.prems(1) name Cons.prems(2) row] by blast
  show ?case
  proof (cases r)
    case (Inl err)
    then show ?thesis using w by (intro storesI [where f = "Some err"]) (auto simp: on_db_def)
  next
    case (Inr b)
    have "stores True snd (put_db e db) d1 (delete_loop sc rows (if b then n + 1 else n) (put_db e db, d1))"
      using w Cons.prems(3) by (intro Cons.IH) simp_all
    then show ?thesis using w Inr by (simp add: on_db_def stores_after)
  qed
qed

lemma stores_cong: "eng_DB e' = eng_DB e \<Longrightarrow> stores ok rep e' d r \<Longrightarrow> stores ok rep e d r"
  by (simp add: stores_def)

text \<open>The rows a condition selects, as the loops need them.\<close>

lemma selected_rows:
  assumes e: "engine_ok e" and name: "nul_free name" and sc: "catalog (eng_view e) name = Some sc"
  obtains (rows) rows where "matchingRows (eng_DB e) sc cond = Some (Inr rows)"
      "set rows = {row \<in> table_rows sc (eng_view e). selects sc cond row}"
      "list_all (row_fits sc) rows" "list_all (row_key_ok sc) rows" "\<exists>req. makeRange sc cond = Some (Inr req)"
  | (none) err where "matchingRows (eng_DB e) sc cond = Some (Inl err)" "\<not> (\<exists>req. makeRange sc cond = Some (Inr req))"
proof -
  note t = engine_table [OF e name sc]
  note fits = table_row_key(1,2) [OF t(3), of _ "eng_view e"]
  from matchingRows_correct [OF t(1,3,4), of cond] show ?thesis
  proof (elim disjE exE conjE)
    fix rows assume r: "matchingRows (eng_DB e) sc cond = Some (Inr rows)" "selection sc (eng_view e) cond rows"
    then have sel: "set rows = {row \<in> table_rows sc (eng_view e). selects sc cond row}" by (simp add: selection_def)
    have plan: "\<exists>req. makeRange sc cond = Some (Inr req)"
      using t(3)
    proof (cases rule: makeRange_cases [where cond = cond])
      case none
      then show ?thesis using matchingRows_error [OF none, of "eng_DB e"] r(1) by simp
    qed blast
    from sel show ?thesis using fits by (intro rows [OF r(1) sel _ _ plan]) (simp_all add: list_all_iff)
  qed (auto intro: none)
qed

lemma stores_create:
  fixes s :: StmtCreatTable
  assumes e: "engine_ok e" and s: "create_ok s"
    and small: "length (schema_key (ct_table s)) + length (schema_blob (created_schema s)) < 2 ^ 32"
  shows "stores (accepted (eng_view e) (CreatTable s)) err_of e d (execCreateTable s (e, d))"
proof -
  have name: "nul_free (ct_table s)" using s by (simp add: create_ok_def)
  note ok = engine_okD [OF e]
  let ?k = "schema_key (ct_table s)"
  have get: "KV_Get (eng_DB e) ?k = Some (Inr (eng_view e ?k))" by (rule KV_Get_view [OF ok(1)])
  obtain r e' d' where run: "execCreateTable s (e, d) = Some (r, e', d')" "engine_ok e'"
    using execCreateTable_correct [OF e s, of d] by blast
  show ?thesis
  proof (cases "eng_view e ?k")
    case (Some v)
    then have "\<not> accepted (eng_view e) (CreatTable s)" using catalog_entry [OF ok(3) name] by (auto simp: accepted_def)
    then show ?thesis using get e Some by (intro stores_same [OF _ e refl], simp add: execCreateTable_def) (simp_all add: accepted_def)
  next
    case None
    then have none: "catalog (eng_view e) (ct_table s) = None" using catalog_entry [OF ok(3) name] by simp
    show ?thesis
    proof (cases "create_pkey \<lparr>sc_Table = ct_table s, sc_Cols = ct_cols s, sc_PKey = []\<rparr> (ct_pkey s)")
      case (Inl err)
      then have "\<not> accepted (eng_view e) (CreatTable s)" using create_pkey_iff(1) [OF Inl] by (auto simp: accepted_def)
      then show ?thesis using get None e Inl by (intro stores_same [OF _ e refl], simp add: execCreateTable_def) (simp_all add: accepted_def)
    next
      case (Inr sc)
      note c = created_ok [OF s Inr]
      obtain w db d1 where w: "KV_Set (eng_DB e) ?k (schema_blob sc) d = Some (w, db, d1)"
        using run(1) get None Inr by (auto simp: execCreateTable_def split: option.splits)
      have "database_ok ((eng_view e)(?k \<mapsto> schema_blob sc))"
        using database_new(1) [OF ok(2) c(2,3)] none c(4) by simp
      moreover have "entry_fits \<lparr>e_key = ?k, e_val = schema_blob sc, e_deleted = False\<rparr>"
        using small c(1) by (simp add: entry_fits_def)
      ultimately have "kv_steps database_ok (eng_DB e) d db d1 (err_of w)"
        using kv_steps_one(1) w unfolding KV_Set_def by blast
      moreover have "d' = d1" "eng_DB e' = db" "err_of r = err_of w"
        using run(1) get None Inr w by (auto simp: execCreateTable_def split: sum.splits)
      moreover have "accepted (eng_view e) (CreatTable s)" using none create_pkey_iff(2) [OF Inr] by (simp add: accepted_def)
      ultimately show ?thesis using storesI [OF run, of e d "err_of w" err_of] by simp
    qed
  qed
qed

lemma map_go_ok: "(\<exists>ys. map_go f xs = Some (Inr ys)) \<longleftrightarrow> (\<forall>x\<in>set xs. \<exists>y. f x = Some (Inr y))"
  by (induction xs) (auto simp: go_bind_def split: option.splits sum.splits)

lemma stores_select:
  fixes s :: StmtSelect
  assumes e: "engine_ok e" and name: "nul_free (sel_table s)"
  shows "stores (accepted (eng_view e) (Select s)) err_of e d (execSelect s (e, d))"
  using e name
proof (cases rule: GetSchema_cases [where d = d])
  case none
  then show ?thesis using e by (intro stores_same [OF _ e refl], simp add: execSelect_def st_bind_def) (simp_all add: accepted_def)
next
  case (found sc e')
  have acc: "accepted (eng_view e) (Select s) \<longleftrightarrow> (\<exists>header. select_header sc (sel_cols s) 0 = Inr header) \<and>
      (\<exists>req. makeRange sc (sel_cond s) = Some (Inr req)) \<and>
      (\<forall>row\<in>table_rows sc (eng_view e). selects sc (sel_cond s) row \<longrightarrow> (\<exists>vs. projectRow sc (sel_cols s) row = Some (Inr vs)))"
    using found(1) by (cases "unknown_names sc (sel_cols s)") (simp_all add: accepted_def select_header_correct)
  obtain r e2 where run: "execSelect s (e, d) = Some (r, e2, d)" "engine_ok e2" "eng_DB e2 = eng_DB e"
    and r: "case select_header sc (sel_cols s) 0 of
       Inl err \<Rightarrow> r = Inl err
     | Inr header \<Rightarrow>
         (\<exists>err. makeRange sc (sel_cond s) = Some (Inl err) \<and> r = Inl err) \<or>
         (\<exists>req rows out. makeRange sc (sel_cond s) = Some (Inr req) \<and> selection sc (eng_view e) (sel_cond s) rows \<and>
            map_go (projectRow sc (sel_cols s)) rows = Some out \<and> r = res_bind out (\<lambda>vs. Inr (header, vs)))"
    using execSelect_correct [OF e name found(1), of d] by blast
  have "(err_of r = None) = accepted (eng_view e) (Select s)"
  proof (cases "select_header sc (sel_cols s) 0")
    case (Inr header)
    with r show ?thesis unfolding acc
    proof (simp, elim disjE exE conjE)
      fix req rows out
      assume a: "makeRange sc (sel_cond s) = Some (Inr req)" "selection sc (eng_view e) (sel_cond s) rows"
        "map_go (projectRow sc (sel_cols s)) rows = Some out" "r = res_bind out (\<lambda>vs. Inr (header, vs))"
      have "(\<exists>vs. out = Inr vs) \<longleftrightarrow> (\<forall>row\<in>set rows. \<exists>vs. projectRow sc (sel_cols s) row = Some (Inr vs))"
        using map_go_ok [of "projectRow sc (sel_cols s)" rows] a(3) by simp
      then show "(err_of r = None) = ((\<exists>req. makeRange sc (sel_cond s) = Some (Inr req)) \<and>
          (\<forall>row\<in>table_rows sc (eng_view e). selects sc (sel_cond s) row \<longrightarrow> (\<exists>vs. projectRow sc (sel_cols s) row = Some (Inr vs))))"
        using a(1,2,4) by (cases out) (auto simp: selection_def)
    qed simp
  qed (use r acc in simp)
  then show ?thesis using run by (intro stores_same)
qed

lemma stores_insert:
  fixes s :: StmtInsert
  assumes e: "engine_ok e" and name: "nul_free (ins_table s)" and small: "stmt_small e (Insert s)"
  shows "stores (accepted (eng_view e) (Insert s)) err_of e d (execInsert s (e, d))"
  using e name
proof (cases rule: GetSchema_cases [where d = d])
  case none
  then show ?thesis using e by (intro stores_same [OF _ e refl], simp add: execInsert_def st_bind_def) (simp_all add: accepted_def)
next
  case (found sc e')
  show ?thesis
  proof (cases "length (ins_value s) = length (sc_Cols sc)")
    case True
    let ?row = "plain_row (insert_row sc (ins_value s))"
    have row: "row_small sc ?row" using small found(1) True by (simp add: stmt_small_def)
    then have "row_fits sc ?row" by (intro row_fits_plain [OF insert_row_ok [OF True]]) (use row_small_short in force)
    from write_step [OF found(3) name _ this row, of ModeInsert d] found(1,4)
    obtain r db d1 where w: "DB_write ModeInsert (eng_DB e) sc ?row d = Some (r, db, d1)" "engine_ok (put_db e' db)"
      "kv_steps database_ok (eng_DB e) d db d1 (err_of r)"
      "\<forall>b. r = Inr b \<longrightarrow> b = fst (rel_write ModeInsert sc (table_rows sc (eng_view e)) ?row)" by auto
    have acc: "accepted (eng_view e) (Insert s) = fst (rel_write ModeInsert sc (table_rows sc (eng_view e)) ?row)"
      using found(1) True by (simp add: accepted_def rel_write_def Let_def)
    let ?x = "case r of Inl err \<Rightarrow> Inl err | Inr b \<Rightarrow> if b then Inr 1 else Inl (ErrMsg ''duplicate primary key'')"
    have run: "execInsert s (e, d) = Some (?x, put_db e' db, d1)"
      using found(2,4) True w(1)
      by (simp add: execInsert_def st_bind_def on_db_def st_fail_def DB_Insert_def DB_write_plain split: sum.split)
    show ?thesis
    proof (cases r)
      case (Inl err)
      then show ?thesis using w(2,3) run by (intro storesI [where f = "Some err"]) auto
    next
      case (Inr b)
      then have "b = accepted (eng_view e) (Insert s)" using w(4) acc by simp
      then show ?thesis using w(2,3) run Inr by (intro storesI [where f = None]) auto
    qed
  next
    case False
    then show ?thesis using found by (intro stores_same [OF _ found(3,4)], simp add: execInsert_def st_bind_def st_fail_def) (simp_all add: accepted_def)
  qed
qed

lemma stores_update:
  fixes s :: StmtUpdate
  assumes e: "engine_ok e" and name: "nul_free (upd_table s)" and small: "stmt_small e (Update s)"
    and cells: "\<forall>asn\<in>set (upd_value s). \<forall>c\<in>expr_cells (asn_expr asn). cell_ok c"
  shows "stores (accepted (eng_view e) (Update s)) err_of e d (execUpdate s (e, d))"
  using e name
proof (cases rule: GetSchema_cases [where d = d])
  case none
  then show ?thesis using e by (intro stores_same [OF _ e refl], simp add: execUpdate_def st_bind_def) (simp_all add: accepted_def)
next
  case (found sc e')
  have sc': "catalog (eng_view e') (upd_table s) = Some sc" using found(1,4) by simp
  have ok: "schema_ok sc" by (rule engine_table(3) [OF e name found(1)])
  show ?thesis
  proof (cases "update_idxs sc (upd_value s)")
    case (Inl err)
    then show ?thesis using found by (intro stores_same [OF _ found(3,4)], simp add: execUpdate_def st_bind_def st_fail_def) (simp_all add: accepted_def)
  next
    case (Inr idxs)
    from found(3) name sc' show ?thesis
    proof (cases rule: selected_rows [where cond = "upd_cond s"])
      case (rows rows)
      have "list_all (\<lambda>row. row_small sc (new_row sc (upd_value s) idxs row)) rows"
        using small found(1,4) Inr rows(2) by (simp add: stmt_small_def list_all_iff)
      from update_loop_stores [OF ok Inr name cells found(3) sc' rows(3) this, of d]
      have "stores (list_all (\<lambda>row. \<exists>row'. update_row sc (upd_value s) idxs row = Some (Inr row')) rows) err_of e d
          (update_loop sc (upd_value s) idxs rows (e', d))" by (rule stores_cong [OF found(4)])
      then obtain r e2 d2 f where u: "update_loop sc (upd_value s) idxs rows (e', d) = Some (r, e2, d2)" "engine_ok e2"
        "kv_steps database_ok (eng_DB e) d (eng_DB e2) d2 f" "f \<noteq> None \<longrightarrow> err_of r = f"
        "f = None \<longrightarrow> (err_of r = None) = list_all (\<lambda>row. \<exists>row'. update_row sc (upd_value s) idxs row = Some (Inr row')) rows"
        by (rule storesE)
      have acc: "accepted (eng_view e) (Update s) = list_all (\<lambda>row. \<exists>row'. update_row sc (upd_value s) idxs row = Some (Inr row')) rows"
        using found(1,4) Inr rows(2,5) by (auto simp: accepted_def list_all_iff)
      have "execUpdate s (e, d) = Some (case r of Inl err \<Rightarrow> Inl err | Inr _ \<Rightarrow> Inr (length rows), e2, d2)"
        using found(2) Inr rows(1) u(1) by (simp add: execUpdate_def st_bind_def reading_def split: sum.split)
      then show ?thesis using u(2-5) unfolding acc by (intro storesI [where f = f]) (auto split: sum.splits)
    next
      case (none err)
      then show ?thesis using found Inr by (intro stores_same [OF _ found(3,4)], simp add: execUpdate_def st_bind_def reading_def) (simp_all add: accepted_def)
    qed
  qed
qed

lemma stores_delete:
  fixes s :: StmtDelete
  assumes e: "engine_ok e" and name: "nul_free (del_table s)" and small: "stmt_small e (Delete s)"
  shows "stores (accepted (eng_view e) (Delete s)) snd e d (execDelete s (e, d))"
  using e name
proof (cases rule: GetSchema_cases [where d = d])
  case none
  then show ?thesis using e by (intro stores_same [OF _ e refl], simp add: execDelete_def) (simp_all add: accepted_def)
next
  case (found sc e')
  have sc': "catalog (eng_view e') (del_table s) = Some sc" using found(1,4) by simp
  from found(3) name sc' show ?thesis
  proof (cases rule: selected_rows [where cond = "del_cond s"])
    case (rows rows)
    have "list_all (\<lambda>row. row_key_ok sc row \<and> length (the (Row_EncodeKey sc row)) < 2 ^ 32) rows"
      using small found(1,4) rows(2,4) by (simp add: stmt_small_def list_all_iff)
    from stores_cong [OF found(4) delete_loop_stores [OF name found(3) sc' this, of d 0]]
    show ?thesis using found(1,2) rows(1,5) by (simp add: execDelete_def accepted_def)
  next
    case (none err)
    then show ?thesis using found by (intro stores_same [OF _ found(3,4)], simp add: execDelete_def) (simp_all add: accepted_def)
  qed
qed

lemma stores_ExecStmt:
  assumes e: "engine_ok e" and s: "stmt_ok st" "stmt_small e st"
  shows "stores (accepted (eng_view e) st) snd e d (ExecStmt st (e, d))"
proof (cases st)
  case (Select c)
  then have "nul_free (sel_table c)" using s(1) by (simp add: stmt_ok_def ident_plain(2))
  from stores_select [OF e this] Select show ?thesis by (simp add: ExecStmt_def stores_result)
next
  case (CreatTable c)
  then have "create_ok c"
    using s by (auto simp: stmt_ok_def stmt_small_def create_ok_def columns_ok_def list_all_iff ident_plain)
  from stores_create [OF e this] CreatTable s(2) show ?thesis by (simp add: ExecStmt_def stores_result stmt_small_def)
next
  case (Insert c)
  then have "nul_free (ins_table c)" using s(1) by (simp add: stmt_ok_def ident_plain(2))
  from stores_insert [OF e this] Insert s(2) show ?thesis by (simp add: ExecStmt_def stores_result)
next
  case (Update c)
  then have "nul_free (upd_table c)" "\<forall>asn\<in>set (upd_value c). \<forall>x\<in>expr_cells (asn_expr asn). cell_ok x"
    using s(1) by (auto simp: stmt_ok_def ident_plain(2) list_all_iff expr_ok_def)
  from stores_update [OF e this(1) _ this(2)] Update s(2) show ?thesis by (simp add: ExecStmt_def stores_result)
next
  case (Delete c)
  then have "nul_free (del_table c)" using s(1) by (simp add: stmt_ok_def ident_plain(2))
  from stores_delete [OF e this, of d] Delete s(2) show ?thesis
    by (fastforce simp: ExecStmt_def stores_def)
qed

lemma stores_Exec:
  assumes e: "engine_ok e" and small: "\<And>st. ParseStmt sql = Some (Inr st) \<Longrightarrow> stmt_small e st"
  shows "stores (\<exists>st. ParseStmt sql = Some (Inr st) \<and> accepted (eng_view e) st) snd e d (Exec sql (e, d))"
proof -
  obtain r where r: "ParseStmt sql = Some r" using ParseStmt_returns by blast
  show ?thesis
  proof (cases r)
    case (Inl err)
    then show ?thesis using r e by (intro stores_same [OF _ e refl], simp add: Exec_def) (simp_all add: accepted_def)
  next
    case (Inr st)
    then have "ParseStmt sql = Some (Inr st)" using r by simp
    from stores_ExecStmt [OF e ParseStmt_ok [OF this] small [OF this]] this show ?thesis by (simp add: Exec_def)
  qed
qed

end
