(* ===== verification/Lifetime.thy ===== *)
theory Lifetime
  imports Lasting
begin

text \<open>
  The life of a database: statements and compactions on an open engine, disk errors, crashes, and
  restarts on any directory they leave.  \<open>life opts\<close> is the step relation between the phases of one
  process after another, \<open>idle\<close> its part without statements.  A process is \<open>Up\<close> on a durable store,
  \<open>Worn\<close> when it goes on after a disk error or was opened on a log with a torn tail, which \<^verbatim>\<open>Open\<close> does
  not cut off, and \<open>Down\<close> when it has stopped, by a power cut or not, on what \<open>crash_leaves\<close> allows.
  \<open>phase_shows\<close> says which database a phase holds, which \<open>idle\<close> keeps; \<open>phase_ok\<close> is the invariant
  of \<open>life\<close>.  A worn process is followed as long as it runs: what a restart finds after it is the
  subject of \<open>acknowledged_write_lost\<close>.
\<close>

section \<open>A statement on a durable engine\<close>

lemma Exec_durable:
  assumes e: "engine_ok e" and dur: "kv_durable (eng_DB e) d es"
    and small: "\<And>st. ParseStmt sql = Some (Inr st) \<Longrightarrow> stmt_small e st"
  shows "\<exists>res err e' d'. Exec sql (e, d) = Some ((res, err), e', d') \<and> engine_ok e' \<and> kv_dir (eng_DB e') = kv_dir (eng_DB e) \<and>
    ((\<exists>es'. kv_durable (eng_DB e') d' es') \<or>
     err = Some IOErr \<and> in_doubt database_ok (eng_DB e') d')"
proof -
  obtain x e' d' f where run: "Exec sql (e, d) = Some (x, e', d')" "engine_ok e'"
    "kv_steps database_ok (eng_DB e) d (eng_DB e') d' f" "f \<noteq> None \<longrightarrow> snd x = f"
    "f = None \<longrightarrow> (snd x = None) = (\<exists>st. ParseStmt sql = Some (Inr st) \<and> accepted (eng_view e) st)"
    using stores_Exec [OF e small, of sql d] by (rule storesE)
  from kv_steps_lasting [OF run(3) dur engine_okD(2) [OF e]] run(4)
  have "kv_dir (eng_DB e') = kv_dir (eng_DB e)" "lasting database_ok (eng_DB e') d' f" by simp_all
  then show ?thesis using run(1,2,4) by (cases x; cases f) (auto simp: lasting_def)
qed

text \<open>On any other engine it is answered, too.\<close>

lemma Exec_live:
  assumes e: "engine_ok e" and live: "kv_live (eng_DB e) d" and small: "\<And>st. ParseStmt sql = Some (Inr st) \<Longrightarrow> stmt_small e st"
  shows "\<exists>res err e' d'. Exec sql (e, d) = Some ((res, err), e', d') \<and> engine_ok e' \<and> kv_live (eng_DB e') d'"
proof -
  obtain x e' d' f where "Exec sql (e, d) = Some (x, e', d')" "engine_ok e'" "kv_steps database_ok (eng_DB e) d (eng_DB e') d' f"
    using stores_Exec [OF e small, of sql d] by (rule storesE)
  then show ?thesis using kv_steps_live [OF _ live] by (cases x) auto
qed

text \<open>Without disk faults a statement is carried out exactly when the database accepts it.\<close>

lemma Exec_fault_free:
  assumes e: "engine_ok e" and dur: "kv_durable (eng_DB e) d es" and d: "fault_free d"
    and small: "\<And>st. ParseStmt sql = Some (Inr st) \<Longrightarrow> stmt_small e st"
  shows "\<exists>res err e' d'. Exec sql (e, d) = Some ((res, err), e', d') \<and>
    (err = None \<longleftrightarrow> (\<exists>st. ParseStmt sql = Some (Inr st) \<and> accepted (eng_view e) st)) \<and>
    engine_ok e' \<and> fault_free d' \<and> (\<exists>es'. kv_durable (eng_DB e') d' es')"
proof -
  obtain x e' d' f where run: "Exec sql (e, d) = Some (x, e', d')" "engine_ok e'"
    "kv_steps database_ok (eng_DB e) d (eng_DB e') d' f" "f \<noteq> None \<longrightarrow> snd x = f"
    "f = None \<longrightarrow> (snd x = None) = (\<exists>st. ParseStmt sql = Some (Inr st) \<and> accepted (eng_view e) st)"
    using stores_Exec [OF e small, of sql d] by (rule storesE)
  note db = engine_okD(2) [OF e]
  from kv_steps_fault_free [OF run(3) dur db d] have f: "f = None" "fault_free d'" by simp_all
  moreover have "\<exists>es'. kv_durable (eng_DB e') d' es'"
    using kv_steps_lasting [OF run(3) dur db] f(1) by (simp add: lasting_def)
  ultimately show ?thesis using run(1,2,5) by (cases x) auto
qed

section \<open>Restarting\<close>

lemma Engine_Open_eq:
  "Engine_Open (NewEngine db, d) = (case KV_Open db d of None \<Rightarrow> None | Some (r, s, d') \<Rightarrow> Some (r, NewEngine s, d'))"
  by (simp add: Engine_Open_def NewEngine_def DB_Open_def split: option.split)

lemma NewEngine_ok: "kv_ok s \<Longrightarrow> database_ok (kv_view s) \<Longrightarrow> engine_ok (NewEngine s)"
  by (simp add: engine_ok_def NewEngine_def)

lemma NewEngine_DB [simp]: "eng_DB (NewEngine s) = s"
  by (simp add: NewEngine_def)

lemma restart_recovers:
  assumes "recovers dir d m" "database_ok m" "Dirpath opts = dir" "fault_free d0" "files d0 = files d"
  shows "\<exists>e d'. Engine_Open (NewEngine (new_kv opts), d0) = Some (Inr (), e, d') \<and> engine_ok e \<and> eng_view e = m \<and>
    kv_live (eng_DB e) d'"
proof -
  have "recovers dir d0 m" using assms(1,5) on_disk_files(2) by metis
  then obtain s d' where s: "KV_Open (new_kv opts) d0 = Some (Inr (), s, d')" "kv_live s d'" "kv_view s = m"
    using recovers_open [OF _ assms(4,3)] by blast
  then show ?thesis using NewEngine_ok [OF kv_live_ok] assms(2)
    by (intro exI [of _ "NewEngine s"] exI [of _ d']) (simp add: Engine_Open_eq)
qed

lemma restart_durable:
  assumes rec: "recovers_whole dir d m" "database_ok m" and opts: "Dirpath opts = dir" and d: "fault_free d" "\<forall>g. settled d g"
    and run: "Engine_Open (NewEngine (new_kv opts), d) = Some (Inr (), e, d')"
  shows "engine_ok e \<and> eng_view e = m \<and> kv_dir (eng_DB e) = dir \<and> (\<exists>es. kv_durable (eng_DB e) d' es)"
proof -
  have r: "recovers dir d m" "whole_log dir d" using rec(1) by (simp_all add: recovers_whole_def)
  obtain es fs where w: "on_disk dir d es fs" "file_bytes d (filepath_Join dir logFileName) = log_bytes es"
    using r(2) by (auto simp: whole_log_def)
  obtain s where s: "KV_Open (new_kv opts) d = Some (Inr (), s, d')" "kv_durable s d' es" "e = NewEngine s"
    using KV_Open_durable [OF w(1) d(1) opts w(2) d(2)] run by (auto simp: Engine_Open_eq)
  have "kv_Options s = opts" using KV_Open_correct [OF w(1) d(1) opts] s(1) by auto
  then have "kv_dir s = dir" using opts by (simp add: kv_dir_def)
  moreover have "kv_view s = m" using recovers_open [OF r(1) d(1) opts] s(1) by auto
  ultimately show ?thesis using s(2,3) rec(2) NewEngine_ok [OF kv_durable_ok [OF s(2)]] by auto
qed

lemma durable_faults: "kv_durable s d es \<Longrightarrow> kv_durable s (d\<lparr>faults := fs\<rparr>) es"
  by (erule kv_durable_frame) simp

lemma live_faults: "kv_live s d \<Longrightarrow> kv_live s (d\<lparr>faults := fs\<rparr>)"
  by (rule kv_live_frame) simp_all

text \<open>A durable engine keeps its database through every crash.\<close>

lemma durable_restarts:
  assumes "engine_ok e" "kv_durable (eng_DB e) d es" "Dirpath opts = kv_dir (eng_DB e)" "crash_leaves d c"
  shows "\<exists>e2 d2. Engine_Open (NewEngine (new_kv opts), c\<lparr>faults := []\<rparr>) = Some (Inr (), e2, d2) \<and> engine_ok e2 \<and>
    eng_view e2 = eng_view e"
proof -
  have r: "recovers (kv_dir (eng_DB e)) c (eng_view e)"
    using kv_durable_recovers(3) [OF assms(2,4)] by (simp add: recovers_whole_def)
  have "fault_free (c\<lparr>faults := []\<rparr>)" "files (c\<lparr>faults := []\<rparr>) = files c" by (simp_all add: fault_free_def)
  from restart_recovers [OF r engine_okD(2) [OF assms(1)] assms(3) this] show ?thesis by blast
qed

lemma doubtful_restarts:
  assumes "in_doubt database_ok (eng_DB e) d" "Dirpath opts = kv_dir (eng_DB e)" "crash_leaves d c"
  shows "\<exists>e2 d2. Engine_Open (NewEngine (new_kv opts), c\<lparr>faults := []\<rparr>) = Some (Inr (), e2, d2) \<and> engine_ok e2 \<and>
    (\<exists>k. \<forall>j. j \<noteq> k \<longrightarrow> eng_view e2 j = eng_view e j)"
proof -
  obtain k v where r: "recovers (kv_dir (eng_DB e)) c ((eng_view e)(k := v))" "database_ok ((eng_view e)(k := v))"
    using assms(1,3) unfolding in_doubt_def by blast
  have "fault_free (c\<lparr>faults := []\<rparr>)" "files (c\<lparr>faults := []\<rparr>) = files c" by (simp_all add: fault_free_def)
  from restart_recovers [OF r assms(2) this] obtain e2 d2 where
    "Engine_Open (NewEngine (new_kv opts), c\<lparr>faults := []\<rparr>) = Some (Inr (), e2, d2)" "engine_ok e2" "eng_view e2 = (eng_view e)(k := v)"
    by blast
  then show ?thesis by (intro exI [of _ e2] exI [of _ d2]) (auto intro!: exI [of _ k])
qed

section \<open>Phases\<close>

datatype phase = Up Engine disk | Worn Engine disk | Down disk

text \<open>What is asked of a text, and of the sizes at a compaction.\<close>

definition text_small :: "Engine \<Rightarrow> string \<Rightarrow> bool" where
  "text_small e sql \<longleftrightarrow> (\<forall>st. ParseStmt sql = Some (Inr st) \<longrightarrow> stmt_small e st)"

definition compact_room :: "kv \<Rightarrow> bool" where
  "compact_room s \<longleftrightarrow> kv_room s \<and> unat (kv_version s) + length (kv_main s) + 2 < 2 ^ 64"

text \<open>The phase of a process whose engine was opened on \<open>d\<close>.\<close>

definition opened :: "KVOptions \<Rightarrow> disk \<Rightarrow> Engine \<Rightarrow> disk \<Rightarrow> phase" where
  "opened opts d e d' = (if whole_log (Dirpath opts) d then Up e d' else Worn e d')"

text \<open>What happens to a database beside statements, and all that happens to it.\<close>

inductive idle :: "KVOptions \<Rightarrow> phase \<Rightarrow> phase \<Rightarrow> bool" for opts :: KVOptions where
  compact: "compact_room (eng_DB e) \<Longrightarrow> KV_Compact (eng_DB e) d = Some (Inr (), s, d') \<Longrightarrow>
    idle opts (Up e d) (Up (put_db e s) d')"
| stuck: "compact_room (eng_DB e) \<Longrightarrow> KV_Compact (eng_DB e) d = Some (Inl err, s, d') \<Longrightarrow> crash_leaves d' c \<Longrightarrow>
    idle opts (Up e d) (Down (rebooted c))"
| crash: "crash_leaves d c \<Longrightarrow> idle opts (Up e d) (Down (rebooted c))"
| restart: "Engine_Open (NewEngine (new_kv opts), d) = Some (Inr (), e, d') \<Longrightarrow>
    idle opts (Down d) (opened opts d e (d'\<lparr>faults := script\<rparr>))"

inductive life :: "KVOptions \<Rightarrow> phase \<Rightarrow> phase \<Rightarrow> bool" for opts :: KVOptions where
  statement: "text_small e sql \<Longrightarrow> Exec sql (e, d) = Some ((res, err), e', d') \<Longrightarrow> err \<noteq> Some IOErr \<Longrightarrow>
    life opts (Up e d) (Up e' d')"
| broken: "text_small e sql \<Longrightarrow> Exec sql (e, d) = Some ((res, Some IOErr), e', d') \<Longrightarrow> crash_leaves d' c \<Longrightarrow>
    life opts (Up e d) (Down (rebooted c))"
| hurt: "text_small e sql \<Longrightarrow> Exec sql (e, d) = Some ((res, Some IOErr), e', d') \<Longrightarrow> life opts (Up e d) (Worn e' d')"
| hurt_compact: "compact_room (eng_DB e) \<Longrightarrow> KV_Compact (eng_DB e) d = Some (Inl err, s, d') \<Longrightarrow>
    life opts (Up e d) (Worn (put_db e s) d')"
| worn: "text_small e sql \<Longrightarrow> Exec sql (e, d) = Some ((res, err), e', d') \<Longrightarrow> life opts (Worn e d) (Worn e' d')"
| worn_compact: "compact_room (eng_DB e) \<Longrightarrow> KV_Compact (eng_DB e) d = Some (r, s, d') \<Longrightarrow>
    life opts (Worn e d) (Worn (put_db e s) d')"
| other: "idle opts p q \<Longrightarrow> life opts p q"

inductive_simps idle_down: "idle opts (Down d) p"
inductive_simps life_down: "life opts (Down d) p"

text \<open>A stopped database does nothing but start, with the engine that \<^verbatim>\<open>Open\<close> returns.\<close>

lemma life_down_restart:
  "life opts (Down d) p \<longleftrightarrow> (\<exists>e d' script. p = opened opts d e (d'\<lparr>faults := script\<rparr>) \<and>
     Engine_Open (NewEngine (new_kv opts), d) = Some (Inr (), e, d'))"
  by (auto simp: life_down idle_down)

text \<open>The disk of a stopped process is the medium itself.\<close>

definition at_rest :: "disk \<Rightarrow> bool" where
  "at_rest d \<longleftrightarrow> fault_free d \<and> (\<forall>g. settled d g)"

lemma at_rest_rebooted [simp]: "at_rest (rebooted c)"
  by (simp add: at_rest_def)

text \<open>\<open>phase_shows opts p m\<close>: the phase is well formed, a restart of it finds a whole log, and \<open>m\<close> is the
  database it holds.\<close>

definition phase_shows :: "KVOptions \<Rightarrow> phase \<Rightarrow> (bytes \<Rightarrow> bytes option) \<Rightarrow> bool" where
  "phase_shows opts p m \<longleftrightarrow>
     (case p of
        Up e d \<Rightarrow> engine_ok e \<and> kv_dir (eng_DB e) = Dirpath opts \<and> (\<exists>es. kv_durable (eng_DB e) d es) \<and> eng_view e = m
      | Worn e d \<Rightarrow> False
      | Down d \<Rightarrow> recovers_whole (Dirpath opts) d m \<and> database_ok m \<and> at_rest d)"

lemma phase_shows_simps [simp]:
  "phase_shows opts (Up e d) m \<longleftrightarrow>
     engine_ok e \<and> kv_dir (eng_DB e) = Dirpath opts \<and> (\<exists>es. kv_durable (eng_DB e) d es) \<and> eng_view e = m"
  "\<not> phase_shows opts (Worn e d) m"
  "phase_shows opts (Down d) m \<longleftrightarrow> recovers_whole (Dirpath opts) d m \<and> database_ok m \<and> at_rest d"
  by (simp_all add: phase_shows_def)

lemma survives_down:
  "survives (Dirpath opts) d m \<Longrightarrow> database_ok m \<Longrightarrow> crash_leaves d c \<Longrightarrow> phase_shows opts (Down (rebooted c)) m"
  by (simp add: survives_def on_disk_files(4) [of "rebooted c" c])

lemma shows_down: "phase_shows opts (Up e d) m \<Longrightarrow> crash_leaves d c \<Longrightarrow> phase_shows opts (Down (rebooted c)) m"
  using kv_durable_survives [of "eng_DB e" d] engine_okD(2) [of e] by (intro survives_down) auto

lemma shows_compact:
  assumes up: "phase_shows opts (Up e d) m" and room: "compact_room (eng_DB e)" and run: "KV_Compact (eng_DB e) d = Some (r, s, d')"
  shows "crash_leaves d' c \<Longrightarrow> phase_shows opts (Down (rebooted c)) m" and "r = Inr () \<Longrightarrow> phase_shows opts (Up (put_db e s) d') m"
proof -
  obtain es where dur: "engine_ok e" "kv_durable (eng_DB e) d es" "kv_dir (eng_DB e) = Dirpath opts" "eng_view e = m"
    using up by auto
  have live: "kv_live (eng_DB e) d" using dur(2) by (simp add: kv_durable_def)
  have room: "kv_room (eng_DB e)" "unat (kv_version (eng_DB e)) + length (kv_main (eng_DB e)) + 2 < 2 ^ 64"
    using assms(2) by (simp_all add: compact_room_def)
  have s: "kv_live s d'" "kv_view s = eng_view e" "kv_Options s = kv_Options (eng_DB e)"
    using KV_Compact_correct [OF live room] run by auto
  note rec = KV_Compact_recovers [OF dur(2) room run]
  then have "survives (Dirpath opts) d' m" using dur(3,4) by simp
  then show "phase_shows opts (Down (rebooted c)) m" if "crash_leaves d' c"
    using that dur(4) engine_okD(2) [OF dur(1)] by (intro survives_down) simp_all
  have "engine_ok (put_db e s)" using dur(1) s kv_live_ok by (simp add: engine_ok_def)
  moreover have "kv_dir s = Dirpath opts" using s(3) dur(3) by (simp add: kv_dir_def)
  ultimately show "phase_shows opts (Up (put_db e s) d') m" if "r = Inr ()" using rec that s(2) dur(4) by simp
qed

lemma shows_restart:
  assumes down: "phase_shows opts (Down d) m" and run: "Engine_Open (NewEngine (new_kv opts), d) = Some (Inr (), e, d')"
  shows "phase_shows opts (opened opts d e (d'\<lparr>faults := script\<rparr>)) m"
proof -
  have m: "recovers_whole (Dirpath opts) d m" "database_ok m" "fault_free d" "\<forall>g. settled d g"
    using down by (simp_all add: at_rest_def)
  from restart_durable [OF m(1,2) refl m(3,4) run] obtain es where
    "engine_ok e" "eng_view e = m" "kv_dir (eng_DB e) = Dirpath opts" "kv_durable (eng_DB e) d' es" by blast
  moreover have "whole_log (Dirpath opts) d" using m(1) by (simp add: recovers_whole_def)
  ultimately show ?thesis using durable_faults [of "eng_DB e" d' es script] by (auto simp: opened_def)
qed

text \<open>What is not a statement keeps the database.\<close>

lemma idle_shows: "idle opts p q \<Longrightarrow> phase_shows opts p m \<Longrightarrow> phase_shows opts q m"
  by (induction rule: idle.induct) (blast intro: shows_restart shows_compact shows_down)+

lemma idles_show: "(idle opts)\<^sup>*\<^sup>* p q \<Longrightarrow> phase_shows opts p m \<Longrightarrow> phase_shows opts q m"
  by (induction rule: rtranclp_induct) (auto intro: idle_shows simp del: phase_shows_simps)

section \<open>The invariant of a life\<close>

definition phase_ok :: "KVOptions \<Rightarrow> phase \<Rightarrow> bool" where
  "phase_ok opts p \<longleftrightarrow>
     (case p of
        Up e d \<Rightarrow> phase_shows opts p (eng_view e)
      | Worn e d \<Rightarrow> engine_ok e \<and> kv_live (eng_DB e) d
      | Down d \<Rightarrow> at_rest d \<and> (\<exists>m. recovers (Dirpath opts) d m \<and> database_ok m))"

lemma phase_ok_simps [simp]:
  "phase_ok opts (Up e d) \<longleftrightarrow> engine_ok e \<and> kv_dir (eng_DB e) = Dirpath opts \<and> (\<exists>es. kv_durable (eng_DB e) d es)"
  "phase_ok opts (Worn e d) \<longleftrightarrow> engine_ok e \<and> kv_live (eng_DB e) d"
  "phase_ok opts (Down d) \<longleftrightarrow> at_rest d \<and> (\<exists>m. recovers (Dirpath opts) d m \<and> database_ok m)"
  by (simp_all add: phase_ok_def)

lemma phase_ok_shows: "phase_shows opts p m \<Longrightarrow> phase_ok opts p"
  by (cases p) (auto simp: recovers_whole_def)

lemma phase_ok_live:
  assumes "phase_ok opts (Up e d)"
  shows "engine_ok e \<and> kv_live (eng_DB e) d"
  using assms by (auto simp: kv_durable_def)

lemma ok_statement:
  assumes up: "phase_ok opts (Up e d)" and sql: "text_small e sql" and run: "Exec sql (e, d) = Some ((res, err), e', d')"
  shows "err \<noteq> Some IOErr \<Longrightarrow> phase_ok opts (Up e' d')" and "crash_leaves d' c \<Longrightarrow> phase_ok opts (Down (rebooted c))"
proof -
  obtain es where dur: "engine_ok e" "kv_durable (eng_DB e) d es" "kv_dir (eng_DB e) = Dirpath opts" using up by auto
  have "\<And>st. ParseStmt sql = Some (Inr st) \<Longrightarrow> stmt_small e st" using sql by (simp add: text_small_def)
  from Exec_durable [OF dur(1,2) this, of sql] run dur(3)
  have e': "engine_ok e'" "kv_dir (eng_DB e') = Dirpath opts"
    "(\<exists>es'. kv_durable (eng_DB e') d' es') \<or> err = Some IOErr \<and> in_doubt database_ok (eng_DB e') d'" by simp_all
  then show "err \<noteq> Some IOErr \<Longrightarrow> phase_ok opts (Up e' d')" by simp
  show "phase_ok opts (Down (rebooted c))" if c: "crash_leaves d' c"
    using e'(3)
  proof
    assume "\<exists>es'. kv_durable (eng_DB e') d' es'"
    then have "phase_shows opts (Up e' d') (eng_view e')" using e' by simp
    from phase_ok_shows [OF shows_down [OF this c]] show ?thesis .
  next
    assume "err = Some IOErr \<and> in_doubt database_ok (eng_DB e') d'"
    then obtain m where "recovers (Dirpath opts) c m" "database_ok m" using c e'(2) unfolding in_doubt_def by metis
    then show ?thesis using on_disk_files(2) [of "rebooted c" c] by auto
  qed
qed

lemma ok_worn:
  assumes e: "engine_ok e" "kv_live (eng_DB e) d"
  shows "text_small e sql \<Longrightarrow> Exec sql (e, d) = Some (x, e', d') \<Longrightarrow> phase_ok opts (Worn e' d')"
    and "compact_room (eng_DB e) \<Longrightarrow> KV_Compact (eng_DB e) d = Some (r, s, d') \<Longrightarrow> phase_ok opts (Worn (put_db e s) d')"
proof -
  show "phase_ok opts (Worn e' d')" if "text_small e sql" "Exec sql (e, d) = Some (x, e', d')"
    using Exec_live [OF e, of sql] that unfolding text_small_def by fastforce
  show "phase_ok opts (Worn (put_db e s) d')" if "compact_room (eng_DB e)" "KV_Compact (eng_DB e) d = Some (r, s, d')"
    using KV_Compact_correct [OF e(2)] that e(1) kv_live_ok by (auto simp: compact_room_def engine_ok_def)
qed

lemma ok_restart:
  assumes down: "phase_ok opts (Down d)"
  shows "\<exists>e d'. Engine_Open (NewEngine (new_kv opts), d) = Some (Inr (), e, d') \<and> engine_ok e"
    and "Engine_Open (NewEngine (new_kv opts), d) = Some (Inr (), e, d') \<Longrightarrow> phase_ok opts (opened opts d e (d'\<lparr>faults := script\<rparr>))"
proof -
  obtain m where m: "recovers (Dirpath opts) d m" "database_ok m" "fault_free d" "at_rest d" using down by (auto simp: at_rest_def)
  note r = restart_recovers [OF m(1,2) refl m(3) refl]
  then show "\<exists>e d'. Engine_Open (NewEngine (new_kv opts), d) = Some (Inr (), e, d') \<and> engine_ok e" by blast
  show "phase_ok opts (opened opts d e (d'\<lparr>faults := script\<rparr>))"
    if run: "Engine_Open (NewEngine (new_kv opts), d) = Some (Inr (), e, d')"
  proof (cases "whole_log (Dirpath opts) d")
    case True
    then have "phase_shows opts (Down d) m" using m by (simp add: recovers_whole_def)
    from phase_ok_shows [OF shows_restart [OF this run]] show ?thesis .
  next
    case False
    then show ?thesis using r run live_faults by (auto simp: opened_def)
  qed
qed

lemma life_phase: "life opts p q \<Longrightarrow> phase_ok opts p \<Longrightarrow> phase_ok opts q"
proof (induction rule: life.induct)
  case (hurt e sql d res e' d')
  then show ?case using ok_worn(1) phase_ok_live by blast
next
  case (hurt_compact e d err s d')
  then show ?case using ok_worn(2) phase_ok_live by blast
next
  case (worn e sql d res err e' d')
  then show ?case using ok_worn(1) by simp blast
next
  case (worn_compact e d r s d')
  then show ?case using ok_worn(2) by simp blast
next
  case (other p q)
  then show ?case
  proof (induction rule: idle.induct)
    case (restart d e d' script)
    then show ?case by (intro ok_restart(2))
  next
    case (compact e d s d')
    then have "phase_shows opts (Up e d) (eng_view e)" by simp
    from phase_ok_shows [OF shows_compact(2) [OF this compact.hyps refl]] show ?case .
  next
    case (stuck e d err s d' c)
    then have "phase_shows opts (Up e d) (eng_view e)" by simp
    from phase_ok_shows [OF shows_compact(1) [OF this stuck.hyps]] show ?case .
  next
    case (crash d c e)
    then have "phase_shows opts (Up e d) (eng_view e)" by simp
    from phase_ok_shows [OF shows_down [OF this crash.hyps]] show ?case .
  qed
qed (blast intro: ok_statement)+

lemma lives_phase: "(life opts)\<^sup>*\<^sup>* p q \<Longrightarrow> phase_ok opts p \<Longrightarrow> phase_ok opts q"
  by (induction rule: rtranclp_induct) (auto intro: life_phase)

text \<open>A directory that holds no database yet.\<close>

definition fresh_dir :: "string \<Rightarrow> disk \<Rightarrow> bool" where
  "fresh_dir dir d \<longleftrightarrow> dir \<noteq> [] \<and> (\<forall>g\<in>{logFileName, ''meta0'', ''meta1''}. files d (filepath_Join dir g) = None)"

lemma fresh_dir_empty:
  assumes "fresh_dir dir d"
  shows "recovers_whole dir d Map.empty"
proof -
  have d: "dir \<noteq> []" "\<forall>g\<in>{logFileName, ''meta0'', ''meta1''}. files d (filepath_Join dir g) = None"
    using conjunct1 [OF assms [unfolded fresh_dir_def]] conjunct2 [OF assms [unfolded fresh_dir_def]] by blast+
  note e = on_disk_empty [OF d(1) bspec [OF d(2)]]
  show ?thesis by (rule recovers_wholeI [OF e recovered_Nil])
qed

lemma fresh_phase: "fresh_dir (Dirpath opts) d \<Longrightarrow> phase_shows opts (Down (rebooted d)) Map.empty"
  using fresh_dir_empty database_ok_empty on_disk_files(4) [of "rebooted d" d] by simp

text \<open>No phase is a dead end: a process that is up answers.\<close>

lemma phase_answers:
  assumes up: "phase_ok opts (Up e d)" and sql: "text_small e sql"
  shows "\<exists>res err e' d' p. Exec sql (e, d) = Some ((res, err), e', d') \<and> life opts (Up e d) p \<and> p \<in> {Up e' d', Worn e' d'}"
proof -
  have "\<And>st. ParseStmt sql = Some (Inr st) \<Longrightarrow> stmt_small e st" using sql by (simp add: text_small_def)
  then obtain res err e' d' where run: "Exec sql (e, d) = Some ((res, err), e', d')"
    using Exec_live [of e d sql] phase_ok_live [OF up] by blast
  show ?thesis
  proof (cases "err = Some IOErr")
    case True
    then have "Exec sql (e, d) = Some ((res, Some IOErr), e', d')" using run by simp
    from life.hurt [OF sql this] show ?thesis using run by blast
  next
    case False
    from life.statement [OF sql run False] show ?thesis using run by blast
  qed
qed

end
