(* ===== verification/Lifetime_Properties.thy ===== *)
theory Lifetime_Properties
  imports Lifetime Storage_Properties Sql_Properties
begin

text \<open>
  The properties in which all three layers meet: what a SQL statement leaves for a restart, and the
  life of a database from an empty directory on.
\<close>

section \<open>Inputs\<close>

text \<open>A store without a key, open in its directory, and the text of a statement.\<close>

definition blank_kv :: kv where
  "blank_kv = sample_kv\<lparr>kv_log := \<lparr>FileName = sample_path logFileName, log_fp = Some 0\<rparr>, kv_mem := empty_array\<rparr>"

definition blank_disk :: disk where
  "blank_disk = sample_disk\<lparr>files := (files sample_disk)(sample_path logFileName \<mapsto> [])\<rparr>"

definition create_text :: string where
  "create_text = ''CREATE TABLE u (a string, b int64, PRIMARY KEY (b))''"

lemma blank_live: "kv_names blank_kv = []" "kv_live blank_kv blank_disk" "kv_view blank_kv = Map.empty"
proof -
  show n: "kv_names blank_kv = []" using sample_names by (simp add: kv_names_def blank_kv_def)
  show "kv_live blank_kv blank_disk"
    unfolding kv_live_def n
    by (simp add: blank_kv_def sample_kv_def kv_dir_def sample_path_def sample_meta_def fresh_item_def)
  show "kv_view blank_kv = Map.empty"
    by (simp add: kv_view_def level_entries_simp blank_kv_def sample_kv_def visible_def fun_eq_iff)
qed

lemma blank_durable: "kv_durable blank_kv blank_disk []" "kv_ok blank_kv"
proof -
  have "meta_inv sample_meta blank_disk"
    by (rule meta_inv_frame [OF sample_meta_inv])
      (simp_all add: blank_disk_def sample_meta_def fresh_item_def filepath_Join_inj)
  then show d: "kv_durable blank_kv blank_disk []"
    unfolding kv_durable_def blank_live(1) using blank_live(2) sample_get
    by (simp add: zero_meta_def blank_kv_def sample_kv_def blank_disk_def replayed_def settled_def sample_disk_def)
  show "kv_ok blank_kv" by (rule kv_durable_ok [OF d])
qed

lemma create_parsed: "ParseStmt create_text = Some (Inr (CreatTable sample_create))"
proof -
  have p: "printable_stmt (CreatTable sample_create)" by code_simp
  have "show_stmt (CreatTable sample_create) = create_text" by code_simp
  with ParseStmt_back [OF p] show ?thesis by (simp only:)
qed

lemma create_small: "text_small e create_text"
proof -
  have "created_schema sample_create = \<lparr>sc_Table = ''u'', sc_Cols = ct_cols sample_create, sc_PKey = [1]\<rparr>" by code_simp
  moreover have "length (schema_blob \<lparr>sc_Table = ''u'', sc_Cols = ct_cols sample_create, sc_PKey = [1]\<rparr>) = 77" by code_simp
  moreover have "length (schema_key ''u'') = 9" by code_simp
  ultimately have "length (schema_key (ct_table sample_create)) + length (schema_blob (created_schema sample_create)) < 2 ^ 32"
    by (simp add: sample_create_def)
  then show ?thesis by (simp add: text_small_def create_parsed stmt_small_def sample_create_def)
qed


section \<open>Statements and crashes\<close>

text \<open>C4: Statements are not refused without a reason: on a durable engine and a disk without faults
  \<^verbatim>\<open>Exec\<close> returns no error exactly when the text is a statement that the database accepts: its table
  exists (does not exist, for \<^verbatim>\<open>CREATE TABLE\<close>), its columns do, its values fit, an \<^verbatim>\<open>INSERT\<close> has a new
  primary key, the planner has a range for its condition, and its expressions evaluate on every row it
  selects.  The store is durable again, on a disk still without faults.\<close>

theorem exec_complete:
  assumes "engine_ok e" "kv_durable (eng_DB e) d es" "fault_free d" "text_small e sql"
  shows "\<exists>res err e' d'. Exec sql (e, d) = Some ((res, err), e', d') \<and>
    (err = None \<longleftrightarrow> (\<exists>st. ParseStmt sql = Some (Inr st) \<and> accepted (eng_view e) st)) \<and>
    engine_ok e' \<and> fault_free d' \<and> (\<exists>es'. kv_durable (eng_DB e') d' es')"
  using Exec_fault_free [OF assms(1-3), of sql] assms(4) unfolding text_small_def by blast

theorem exec_complete_witness:
  "\<exists>res err e' d'. Exec create_text (NewEngine blank_kv, blank_disk\<lparr>faults := []\<rparr>) = Some ((res, err), e', d') \<and>
    (err = None \<longleftrightarrow> (\<exists>st. ParseStmt create_text = Some (Inr st) \<and> accepted (eng_view (NewEngine blank_kv)) st)) \<and>
    engine_ok e' \<and> fault_free d' \<and> (\<exists>es'. kv_durable (eng_DB e') d' es')"
proof (rule exec_complete)
  show "engine_ok (NewEngine blank_kv)" using blank_live(3) blank_durable(2) by (intro NewEngine_ok) simp_all
  show "kv_durable (eng_DB (NewEngine blank_kv)) (blank_disk\<lparr>faults := []\<rparr>) []" using durable_faults [OF blank_durable(1)] by simp
  show "text_small (NewEngine blank_kv) create_text" by (rule create_small)
qed (simp add: fault_free_def)

text \<open>C7: A statement survives a crash.  On an engine whose store is durable \<^verbatim>\<open>Exec\<close> returns whatever
  the disk does, and a new engine opens on whatever a crash then leaves of the directory, with the power
  cut or without, at whichever write the disk failed: it holds a well-formed database again, the very one
  the statement left when the answer was no disk error, and otherwise one that differs from it in at
  most one key.  Without a disk error the store is durable again, so the next statement has the same
  guarantee.  The text must be one whose keys and values fit their 32-bit lengths.\<close>

theorem exec_crash_safe:
  assumes "engine_ok e" "kv_durable (eng_DB e) d es" "text_small e sql" "Dirpath opts = kv_dir (eng_DB e)"
  shows "\<exists>res err e' d'. Exec sql (e, d) = Some ((res, err), e', d') \<and> engine_ok e' \<and>
    (\<forall>c. crash_leaves d' c \<longrightarrow>
      (\<exists>e2 d2. Engine_Open (NewEngine (new_kv opts), c\<lparr>faults := []\<rparr>) = Some (Inr (), e2, d2) \<and> engine_ok e2 \<and>
        (if err = Some IOErr then \<exists>k. \<forall>j. j \<noteq> k \<longrightarrow> eng_view e2 j = eng_view e' j else eng_view e2 = eng_view e'))) \<and>
    (err \<noteq> Some IOErr \<longrightarrow> (\<exists>es'. kv_durable (eng_DB e') d' es'))"
proof -
  have small: "\<And>st. ParseStmt sql = Some (Inr st) \<Longrightarrow> stmt_small e st" using assms(3) by (simp add: text_small_def)
  obtain res err e' d' where run: "Exec sql (e, d) = Some ((res, err), e', d')" "engine_ok e'" "kv_dir (eng_DB e') = kv_dir (eng_DB e)"
    and left: "(\<exists>es'. kv_durable (eng_DB e') d' es') \<or> err = Some IOErr \<and> in_doubt database_ok (eng_DB e') d'"
    using Exec_durable [OF assms(1,2) small, of sql] by blast
  have opts: "Dirpath opts = kv_dir (eng_DB e')" using assms(4) run(3) by simp
  have "\<exists>e2 d2. Engine_Open (NewEngine (new_kv opts), c\<lparr>faults := []\<rparr>) = Some (Inr (), e2, d2) \<and> engine_ok e2 \<and>
      (if err = Some IOErr then \<exists>k. \<forall>j. j \<noteq> k \<longrightarrow> eng_view e2 j = eng_view e' j else eng_view e2 = eng_view e')"
    if c: "crash_leaves d' c" for c
  proof (cases "\<exists>es'. kv_durable (eng_DB e') d' es'")
    case True
    then show ?thesis using durable_restarts [OF run(2) _ opts c] by fastforce
  next
    case False
    then show ?thesis using left doubtful_restarts [OF _ opts c] by simp
  qed
  then show ?thesis using run(1,2) left by blast
qed

theorem exec_crash_safe_witness:
  "\<exists>res err e' d'. Exec create_text (NewEngine blank_kv, blank_disk) = Some ((res, err), e', d') \<and> engine_ok e' \<and>
    (\<forall>c. crash_leaves d' c \<longrightarrow>
      (\<exists>e2 d2. Engine_Open (NewEngine (new_kv (kv_Options blank_kv)), c\<lparr>faults := []\<rparr>) = Some (Inr (), e2, d2) \<and> engine_ok e2 \<and>
        (if err = Some IOErr then \<exists>k. \<forall>j. j \<noteq> k \<longrightarrow> eng_view e2 j = eng_view e' j else eng_view e2 = eng_view e'))) \<and>
    (err \<noteq> Some IOErr \<longrightarrow> (\<exists>es'. kv_durable (eng_DB e') d' es'))"
proof (rule exec_crash_safe)
  show "engine_ok (NewEngine blank_kv)" using blank_live(3) blank_durable(2) by (intro NewEngine_ok) simp_all
  show "kv_durable (eng_DB (NewEngine blank_kv)) blank_disk []" using blank_durable(1) by simp
  show "text_small (NewEngine blank_kv) create_text" by (rule create_small)
qed (simp add: kv_dir_def)





end
