(* ===== verification/Spec2Isabelle.thy ===== *)
theory Spec2Isabelle
  imports Storage_Properties Table_Properties Sql_Properties Lifetime_Properties
begin

text \<open>
  db45 is a small relational database in Go: an LSM storage engine (\<^verbatim>\<open>storage/\<close>), rows with a schema
  over its key/value store (\<^verbatim>\<open>table/\<close>) and a SQL front end (\<^verbatim>\<open>sql/\<close>).  This library models all three
  layers, every operation of them, and proves what they promise from one another: the store is a map
  that survives crashes, a table is a relation with a primary key kept in that map, and a SQL text
  is answered by what it means for the tables.

  \<^bold>\<open>How the code is modelled.\<close>  A struct is a record, an enumeration a datatype or a word of the code's
  width, \<^verbatim>\<open>int64\<close> a \<open>64 word\<close> with \<open>sint\<close> for its sign, \<^verbatim>\<open>[]byte\<close> a list of \<open>8 word\<close>, Go's \<^verbatim>\<open>int\<close> indices
  integers, an index out of range \<open>None\<close>.  A call that can fail returns \<open>gerror + 'a\<close> (\<open>'a res\<close>); one
  that can also panic or run forever returns \<open>'a res option\<close> (\<open>'a go\<close>) with \<open>None\<close> for both, so that a
  theorem that says \<open>Some\<close> says that the call returns.  State is passed explicitly: the store beside
  the disk, the engine beside both.  The disk (\<open>Os\<close>) is the database directory as a running process sees
  it, with a script of faults; each system call that changes the disk takes the next entry and may fail
  there, a write after any number of bytes.  A theorem for every script is a theorem about every moment
  at which the process may die.  Errors carry the code's message and, for \<^verbatim>\<open>fmt.Errorf\<close>, the format and its
  argument, unformatted.

  \<^bold>\<open>What a power cut takes.\<close>  Beside the contents of its files the disk records what is not yet on the
  medium: \<open>unsynced\<close>, the contents a file has had since its last \<^verbatim>\<open>fsync\<close>, and \<open>unlisted\<close>, what its name
  has stood for since the last \<^verbatim>\<open>fsync\<close> of the directory.  \<open>crash_leaves d c\<close> holds of every directory \<open>c\<close>
  in which each file is independently its present contents or one of those; with \<open>c = d\<close> it is the
  death of the process alone.  A file is \<open>settled\<close> when nothing of it can be taken; \<open>kv_durable\<close> asks
  that of the log, the slots and the SSTables in use.  So a theorem with \<open>crash_leaves\<close>, \<open>crash_recovers\<close>
  or \<open>survives\<close> (C3, C5, C7, C17, C18, C25) rests on every \<^verbatim>\<open>fsync\<close> of the code: of the log after each
  record and each truncation, of a slot, of a new SSTable, of the directory after a file is created.  It
  is assumed that the writes to one file reach the medium in order and each from its first byte on,
  those to different files in any order; that what \<^verbatim>\<open>fsync\<close> has returned for stays; that the database
  directory itself is on the medium (\<^verbatim>\<open>Open\<close> creates it with \<^verbatim>\<open>MkdirAll\<close> and does not sync its parent);
  and that a restarted process finds its directory on the medium (\<open>rebooted\<close>): a power cut after a
  restart that came before the system wrote back what the killed process had left is not covered, and
  \<^verbatim>\<open>Open\<close> does not sync the log it replays.

  \<^bold>\<open>The storage layer.\<close>
  \<open>Crc32\<close>, \<open>Json\<close>, \<open>Filepath\<close>, \<open>Os\<close> hold what the code uses of Go's library.
  \<open>Entry\<close> (\<^verbatim>\<open>entry.go\<close>) and \<open>Log\<close> (\<^verbatim>\<open>log.go\<close>, \<^verbatim>\<open>fsync.go\<close>) are the records and the file of the
  write-ahead log.  \<open>Cursor\<close> states the iterator interface \<^verbatim>\<open>SortedKVIter\<close> as a record of operations and
  as the locales \<open>scan_cursor\<close>, \<open>back_cursor\<close> and \<open>end_cursor\<close>, which say what a forward scan, a step
  back and a step beyond the end do; each provider is an interpretation: the MemTable (\<open>SortedArray\<close>),
  the file format (\<open>SSTable\<close>), the k-way merge (\<open>Merge\<close>), the tombstone filter (\<open>FilterDel\<close>).  \<open>Ranged\<close>
  restricts a cursor to an interval and a direction (\<open>entry_stream\<close>).  \<open>Meta\<close> is the pair of metadata
  slots, \<open>KV\<close> the store of \<^verbatim>\<open>kv.go\<close>: open with replay, writes in three modes, deletes, compaction with
  its size-tiered policy.  \<open>Sorted_Entries\<close> is the abstract view, sorted lists of entries and the map
  of a stack of them.  \<open>Store\<close> proves reads and writes against the map \<open>kv_view\<close> (locale \<open>kv_contract\<close>)
  and names the one error a write can have (\<open>log_error\<close>), \<open>Compaction\<close> proves that compaction keeps the
  map and ends, \<open>Recovery\<close> what a restart reads, against a
  statement of what a directory holds that does not use the replay (\<open>recovered\<close>), \<open>Durability\<close> what a
  crash leaves.  \<open>Storage_Properties\<close> has C1 to C17 except C4 and C7.

  \<^bold>\<open>The table layer.\<close>
  \<open>Cell\<close> (\<^verbatim>\<open>cell.go\<close>) has the two encodings; that the key encoding is prefix-free and keeps order is
  the locale \<open>order_code\<close>, interpreted for integers, strings, cells and tuples.  \<open>Schema\<close> (\<^verbatim>\<open>schema.go\<close>)
  turns rows into pairs and bounds into byte strings, \<open>DB\<close> (\<^verbatim>\<open>db.go\<close>) reads and writes them, \<open>RowIter\<close>
  (\<^verbatim>\<open>rowiter.go\<close>) reads a cursor as rows (\<open>row_stream\<close>).  The abstract table is \<open>table_rows\<close>, the set of
  rows the map holds; \<open>table_ok\<close> says the table's key space holds nothing else.  \<open>Table_Properties\<close> has
  C19 to C30 except C25.

  \<^bold>\<open>The SQL layer.\<close>
  \<open>Parser\<close> (\<^verbatim>\<open>parser.go\<close>, \<^verbatim>\<open>parse_value.go\<close>), \<open>Expr\<close> (\<^verbatim>\<open>expr.go\<close>) and \<open>Stmt\<close> (\<^verbatim>\<open>stmt.go\<close>, \<^verbatim>\<open>parse_stmt.go\<close>)
  are the parser; a parser is a function from the rest of the text to a result and the rest after it,
  and the contract of the items of a comma list is the locale \<open>item_parser\<close>.  \<open>Eval\<close> (\<^verbatim>\<open>eval.go\<close>)
  evaluates expressions; \<open>Planner\<close> (\<^verbatim>\<open>match.go\<close>, \<^verbatim>\<open>planner.go\<close>) turns a condition into a key range;
  \<open>Catalog\<close> and \<open>Engine\<close> (\<^verbatim>\<open>engine.go\<close>) keep the schemas and run statements.  \<open>Parsed\<close> says what a parsed
  statement looks like; \<open>Printer\<close> and \<open>Printed\<close> print statements and prove that they are read back;
  \<open>Statements\<close> and \<open>Writes\<close> prove each statement against \<open>table_rows\<close>; \<open>Session\<close> puts texts together.
  \<open>engine_ok\<close> is the invariant of an engine: a well-formed store, a catalog whose entries are schemas
  of their names, every key of the store a schema or a row of a table in the catalog, and a schema
  cache that agrees with the catalog.  \<open>Sql_Properties\<close> has C31 to C40.

  \<^bold>\<open>How the layers meet.\<close>  The engine runs on \<open>DB_Insert\<close>, \<open>DB_Update\<close>, \<open>DB_Delete\<close>, \<open>KV_Range\<close> and
  \<open>KV_Get\<close>, the definitions of the lower layers, and its lemmas use their contracts: \<open>DB_write_correct\<close>
  and \<open>table_range_correct\<close> speak of \<open>table_rows\<close>, \<open>others_kept\<close> says that a write stays in its table's key
  space, so that the catalog and the other tables are kept (\<open>database_kept\<close>).  The JSON of a schema is
  parsed back by the same model of \<^verbatim>\<open>encoding/json\<close> that the metadata slots use.

  \<^bold>\<open>A database over time.\<close>  \<open>Steps\<close> has the inductive relation \<open>kv_steps\<close>: runs of \<^verbatim>\<open>SetEx\<close> and \<^verbatim>\<open>Del\<close> that
  stop at the first error and pass only through maps of a given kind.  \<open>Lasting\<close> proves that every
  statement is such a run through well-formed databases (\<open>stores\<close>), so that what \<open>Durability\<close> says of one
  write holds of a statement, of any length.  \<open>Lifetime\<close> is the step relation \<open>life\<close> of a database whose
  process runs statements and compacts, meets disk errors, dies and starts again on any directory it
  left; \<open>idle\<close> is its part without statements.  By rule induction \<open>idle\<close> keeps the database
  (\<open>phase_shows\<close>) and every life its invariant (\<open>phase_ok\<close>).  Statements do not fail without a reason:
  \<open>accepted\<close> says what each needs of the database, and on a disk without faults that is enough (C4).
  \<open>Lifetime_Properties\<close> has C4, C7, C18 and C25.  The store neither cuts off a torn record nor takes back
  a failed one, and C14 proves that what it writes behind one is lost; so a process that goes on after a
  disk error, or was opened on a torn log, is \<open>Worn\<close>: it is followed as long as it runs, and no rule
  leads from it to a restart.  A restart itself meets no disk error.

  \<^bold>\<open>Fuel and termination.\<close>  Loops over a text, a list or an interval are structural or have a measure.
  The expression grammar recurses through closures; \<open>parseExpr_fuel\<close> bounds the nesting and
  \<open>parseExpr\<close> gives it the length of the text plus one, which is enough because a nested call has
  consumed a parenthesis: more fuel changes nothing, and \<open>parseExpr\<close> satisfies the Go recursion
  (\<open>parseExpr_fuel_enough\<close>, \<open>parseExpr_unfold\<close>, C31).  Loops that could run forever are
  \<open>partial_function (option)\<close>: the operator loop, the comma list, the scans of cursors and rows, the
  compaction loop, and for each of them a lemma says that it returns (\<open>parseBinop_loop_reads\<close>,
  \<open>commaList_reads\<close>, \<open>collect_rows_all\<close>, the lemmas of \<open>Compaction\<close>).

  \<^bold>\<open>Bounds.\<close>  A length field is 32 bits: the round trips ask that fewer than \<open>2 ^ 32\<close> bytes remain, and a
  statement that writes rows must keep their values below it (\<open>row_short\<close>, \<open>stmt_fits\<close>); for crash safety key and value must fit into one
  log record, whose two lengths are added in 32 bits (\<open>stmt_small\<close>, \<open>text_small\<close>).  \<open>where_ok\<close> is
  the conditions whose meaning the planner keeps: constants of the type of their column, and not two
  lower or two upper bounds in one conjunction.

  \<^bold>\<open>Not modelled.\<close>  \<^verbatim>\<open>examples/basic/main.go\<close> is a demonstration that prints to a terminal.  Goroutines do
  not occur in the code.  The float32 \<^verbatim>\<open>GrowthFactor\<close> is a rational, so NaN and the infinities are left
  out; a read of an existing file fails at its end only.  Memory exhaustion and stack overflow are outside the model, as is a disk
  that returns wrong bytes for a read that succeeds, except for what the checksums of the log and
  the slots detect.
\<close>

end
